(* ===== verification/Sorm_Prelude.thy ===== *)
theory Sorm_Prelude
  imports Main "HOL-Library.Word" "HOL-Library.Monad_Syntax"
begin

text \<open>
  What the components share: C strings and character arrays with the bounds of the array written
  out, \<open>snprintf\<close>, reads of a C array by index, and the lemmas and collections that carry the
  component proofs.

  Every operation of the program that can stop without a return value has a result of type
  \<open>'a option\<close>: \<open>None\<close> is a run that does not return (a failed \<open>assert\<close>, \<open>exit(-1)\<close>, an access
  outside an object, or a wait that nobody ends), so a theorem that a call is \<open>Some\<close> is a theorem
  that it returns and touches only memory it may touch. The error codes of the program are values.
\<close>

named_theorems cbuf_simps \<open>equations that evaluate the buffer operations on buffers in normal form\<close>
named_theorems wf_intros \<open>preservation of well-formedness\<close>
named_theorems frame_simps \<open>fields of the state that an operation leaves alone\<close>

unbundle bit_operations_syntax

section \<open>Conversions of C integers\<close>

text \<open>An \<open>int\<close> passed where the callee expects a \<open>size_t\<close>.\<close>

definition size_t :: "int \<Rightarrow> nat" where
  "size_t i = nat (i mod 2 ^ 64)"

lemma size_t_nonneg [simp]: "0 \<le> i \<Longrightarrow> i < 2 ^ 64 \<Longrightarrow> size_t i = nat i"
  by (simp add: size_t_def)

lemma size_t_neg: "- (2 ^ 63) \<le> i \<Longrightarrow> i < 0 \<Longrightarrow> 2 ^ 63 \<le> size_t i"
proof -
  assume a: "- (2 ^ 63) \<le> i" "i < 0"
  then have "i mod 2 ^ 64 = i + 2 ^ 64"
    by (intro int_mod_pos_eq [of _ _ "-1"]) auto
  with a show ?thesis by (simp add: size_t_def)
qed

section \<open>C strings\<close>

abbreviation NUL :: char where
  "NUL \<equiv> CHR 0x00"

definition no_nul :: "string \<Rightarrow> bool" where
  "no_nul s \<longleftrightarrow> NUL \<notin> set s"

lemma no_nul_simps [simp]:
  "no_nul []"
  "no_nul (c # s) \<longleftrightarrow> c \<noteq> NUL \<and> no_nul s"
  "no_nul (s @ t) \<longleftrightarrow> no_nul s \<and> no_nul t"
  by (auto simp: no_nul_def)

lemma no_nul_concat: "(\<And>s. s \<in> set ss \<Longrightarrow> no_nul s) \<Longrightarrow> no_nul (concat ss)"
  by (auto simp: no_nul_def)

lemma no_nul_take [intro]: "no_nul s \<Longrightarrow> no_nul (take n s)"
  by (auto simp: no_nul_def dest: in_set_takeD)

lemma no_nul_butlast [intro]: "no_nul s \<Longrightarrow> no_nul (butlast s)"
  by (auto simp: no_nul_def dest: in_set_butlastD)

lemma takeWhile_no_nul: "no_nul s \<Longrightarrow> takeWhile (\<lambda>c. c \<noteq> NUL) (s @ NUL # t) = s"
  by (subst takeWhile_append2) (auto simp: no_nul_def)

section \<open>Reads of an array by an \<open>int\<close> index\<close>

definition nth_opt :: "'a list \<Rightarrow> int \<Rightarrow> 'a option" where
  "nth_opt xs i = (if 0 \<le> i \<and> i < int (length xs) then Some (xs ! nat i) else None)"

lemma nth_opt_nat [simp]: "i < length xs \<Longrightarrow> nth_opt xs (int i) = Some (xs ! i)"
  by (simp add: nth_opt_def)

lemma nth_opt_None_iff: "nth_opt xs i = None \<longleftrightarrow> i < 0 \<or> int (length xs) \<le> i"
  by (auto simp: nth_opt_def)

lemma nth_opt_SomeD:
  "nth_opt xs i = Some x \<Longrightarrow> 0 \<le> i \<and> nat i < length xs \<and> x = xs ! nat i"
  by (auto simp: nth_opt_def split: if_splits)

lemma bind_Some_iff: "Option.bind m f = Some y \<longleftrightarrow> (\<exists>x. m = Some x \<and> f x = Some y)"
  by (cases m) auto

section \<open>Searching a list\<close>

lemma distinct_concat_nth:
  "distinct (concat xss) \<Longrightarrow> i < length xss \<Longrightarrow> j < length xss \<Longrightarrow> i \<noteq> j \<Longrightarrow> set (xss ! i) \<inter> set (xss ! j) = {}"
proof (induction xss arbitrary: i j)
  case (Cons xs xss)
  have "set xs \<inter> set (xss ! k) = {}" if "k < length xss" for k using Cons.prems(1) nth_mem [OF that] by auto
  then show ?case using Cons.prems Cons.IH by (cases i; cases j) (auto simp: Int_commute)
qed simp

lemma find_map: "find P (map f xs) = map_option f (find (P \<circ> f) xs)"
  by (induction xs) auto

lemma find_append: "find P (xs @ ys) = (case find P xs of Some x \<Rightarrow> Some x | None \<Rightarrow> find P ys)"
  by (induction xs) auto

section \<open>Character arrays\<close>

text \<open>
  A \<open>char\<close> array: its size and the bytes from the start up to the last one written. The bytes
  after those are zero, which is what \<open>char b[n] = ""\<close> and \<open>memset\<close> leave there.
\<close>

record cbuf =
  cap :: nat
  bytes :: string

definition buf_new :: "nat \<Rightarrow> cbuf" where
  "buf_new n = \<lparr>cap = n, bytes = []\<rparr>"

definition buf_get :: "cbuf \<Rightarrow> int \<Rightarrow> char option" where
  "buf_get b i =
     (if 0 \<le> i \<and> i < int (cap b)
      then Some (if nat i < length (bytes b) then bytes b ! nat i else NUL) else None)"

text \<open>The bytes \<open>cs\<close> stored from index \<open>off\<close> on; outside the array is \<open>None\<close>.\<close>

definition buf_write :: "cbuf \<Rightarrow> int \<Rightarrow> string \<Rightarrow> cbuf option" where
  "buf_write b off cs =
     (if 0 \<le> off \<and> nat off + length cs \<le> cap b
      then Some (b\<lparr>bytes := take (nat off) (bytes b) @ replicate (nat off - length (bytes b)) NUL
                          @ cs @ drop (nat off + length cs) (bytes b)\<rparr>)
      else None)"

definition buf_put :: "cbuf \<Rightarrow> int \<Rightarrow> char \<Rightarrow> cbuf option" where
  "buf_put b i c = buf_write b i [c]"

text \<open>The C string at the start of the array; an array with no NUL is not one.\<close>

definition cstr :: "cbuf \<Rightarrow> string" where
  "cstr b = takeWhile (\<lambda>c. c \<noteq> NUL) (bytes b)"

definition is_cstr :: "cbuf \<Rightarrow> bool" where
  "is_cstr b \<longleftrightarrow> length (cstr b) < cap b"

text \<open>
  \<open>snprintf(b + off, n, ...)\<close> where \<open>s\<close> is the formatted text: at most \<open>n - 1\<close> characters and a
  NUL are stored, and the length of the whole text is returned.
\<close>

definition snprintf :: "cbuf \<Rightarrow> int \<Rightarrow> nat \<Rightarrow> string \<Rightarrow> (int \<times> cbuf) option" where
  "snprintf b off n s =
     (if n = 0 then Some (int (length s), b)
      else do { b \<leftarrow> buf_write b off (take (n - 1) s @ [NUL]); Some (int (length s), b) })"

text \<open>Normal form: the string \<open>s\<close> and the NUL after it are all that was written.\<close>

definition buf_str :: "nat \<Rightarrow> string \<Rightarrow> cbuf" where
  "buf_str n s = \<lparr>cap = n, bytes = s @ [NUL]\<rparr>"

lemma cap_buf_str [simp]: "cap (buf_str n s) = n"
  by (simp add: buf_str_def)

lemma cstr_buf_str [simp]: "no_nul s \<Longrightarrow> cstr (buf_str n s) = s"
  using takeWhile_no_nul [of s "[]"] by (simp add: cstr_def buf_str_def)

lemma cap_buf_write: "buf_write b off cs = Some b' \<Longrightarrow> cap b' = cap b"
  by (auto simp: buf_write_def split: if_splits)

lemma snprintf_new [cbuf_simps]:
  "length s < n \<Longrightarrow> n \<le> m \<Longrightarrow> snprintf (buf_new m) 0 n s = Some (int (length s), buf_str m s)"
  by (simp add: snprintf_def buf_write_def buf_new_def buf_str_def)

lemma snprintf_append [cbuf_simps]:
  "length s + length t < m \<Longrightarrow> length t < n \<Longrightarrow>
   snprintf (buf_str m s) (int (length s)) n t = Some (int (length t), buf_str m (s @ t))"
  by (simp add: snprintf_def buf_write_def buf_str_def)

lemma buf_write_returns:
  "0 \<le> off \<Longrightarrow> nat off + length cs \<le> cap b \<Longrightarrow> \<exists>b'. buf_write b off cs = Some b'"
  by (simp add: buf_write_def)

lemma snprintf_returns:
  assumes "0 \<le> off" and "nat off + n \<le> cap b"
  shows "\<exists>b'. snprintf b off n s = Some (int (length s), b') \<and> cap b' = cap b"
proof (cases "n = 0")
  case True
  then show ?thesis by (simp add: snprintf_def)
next
  case False
  then have "nat off + length (take (n - 1) s @ [NUL]) \<le> cap b"
    using assms(2) by simp
  then obtain b' where b': "buf_write b off (take (n - 1) s @ [NUL]) = Some b'"
    using buf_write_returns [OF assms(1)] by blast
  with False have "snprintf b off n s = Some (int (length s), b')"
    by (simp add: snprintf_def)
  with cap_buf_write [OF b'] show ?thesis by blast
qed

lemma snprintf_ret: "snprintf b off n s = Some (r, b') \<Longrightarrow> r = int (length s)"
  by (auto simp: snprintf_def bind_Some_iff split: if_splits)

lemma buf_put_last [cbuf_simps]:
  "s \<noteq> [] \<Longrightarrow> length s < m \<Longrightarrow>
   buf_put (buf_str m s) (int (length s) - 1) c = Some (buf_str m (butlast s @ [c]))"
proof -
  assume s: "s \<noteq> []" "length s < m"
  then obtain t x where t: "s = t @ [x]" by (cases s rule: rev_cases) auto
  have "nat (int (length s) - 1) = length t" by (simp add: t)
  with s show ?thesis by (simp add: buf_put_def buf_write_def buf_str_def t)
qed

end
