(* ===== verification/Sorm_Types.thy ===== *)
theory Sorm_Types
  imports Sorm_Prelude
begin

text \<open>
  The types and macros of \<^verbatim>\<open>src/src/sorm.h\<close>: error codes, the enumerations with the strings the
  generator prints for them, the column status bits, the open flags, and the descriptors of columns
  and tables. Also the two pieces of C's formatted output the program needs, \<open>%d\<close> and \<open>%f\<close>, and
  the idiom by which every SQL text is put together in a \<open>char[SQL_STMT_MAX_LEN + 1]\<close>.
\<close>

section \<open>Constants\<close>

definition SQL_STMT_MAX_LEN :: int where "SQL_STMT_MAX_LEN = 1023"
definition SORM_NO_PK :: int where "SORM_NO_PK = -1"
definition ALL_INDEXES :: int where "ALL_INDEXES = -1"
definition NO_INDEXES_IN_RESULT :: int where "NO_INDEXES_IN_RESULT = -1"
definition BUSY_RETRY_TIME :: nat where "BUSY_RETRY_TIME = 10"
definition ALL_COLUMNS :: string where "ALL_COLUMNS = ''*''"
definition COLUMN_NAMES_DELIMITER :: char where "COLUMN_NAMES_DELIMITER = CHR '',''"
definition TABLE_COLUMN_DELIMITER :: char where "TABLE_COLUMN_DELIMITER = CHR ''.''"

definition SORM_ENABLE_FOREIGN_KEY :: "32 word" where "SORM_ENABLE_FOREIGN_KEY = 1"
definition SORM_ENABLE_SEMAPHORE :: "32 word" where "SORM_ENABLE_SEMAPHORE = 2"
definition SORM_ENABLE_RWLOCK :: "32 word" where "SORM_ENABLE_RWLOCK = 4"

definition sorm_foreign_key_enabled :: "32 word \<Rightarrow> bool" where
  "sorm_foreign_key_enabled flags \<longleftrightarrow> SORM_ENABLE_FOREIGN_KEY AND flags = SORM_ENABLE_FOREIGN_KEY"

definition sorm_semaphore_enabled :: "32 word \<Rightarrow> bool" where
  "sorm_semaphore_enabled flags \<longleftrightarrow> SORM_ENABLE_SEMAPHORE AND flags = SORM_ENABLE_SEMAPHORE"

definition sorm_rwlock_enabled :: "32 word \<Rightarrow> bool" where
  "sorm_rwlock_enabled flags \<longleftrightarrow> SORM_ENABLE_RWLOCK AND flags = SORM_ENABLE_RWLOCK"

datatype rwlock_flag = SORM_RWLOCK_READ | SORM_RWLOCK_WRITE

section \<open>Enumerations\<close>

datatype sorm_error_t =
    SORM_OK
  | SORM_NOMEM
  | SORM_DB_ERROR
  | SORM_TOO_LONG
  | SORM_NOPK
  | SORM_NOEXIST
  | SORM_INVALID_NUM
  | SORM_INVALID_COLUMN_NAME
  | SORM_INVALID_MEM
  | SORM_INVALID_TYPE
  | SORM_ARG_NULL
  | SORM_COLUMNS_NAME_EMPTY
  | SORM_FILTER_EMPTY
  | SORM_INIT_FAIL
  | SORM_STRING_BUF_NOT_ENOUGH

primrec sorm_error_code :: "sorm_error_t \<Rightarrow> int" where
  "sorm_error_code SORM_OK = 0"
| "sorm_error_code SORM_NOMEM = 1"
| "sorm_error_code SORM_DB_ERROR = 2"
| "sorm_error_code SORM_TOO_LONG = 3"
| "sorm_error_code SORM_NOPK = 4"
| "sorm_error_code SORM_NOEXIST = 5"
| "sorm_error_code SORM_INVALID_NUM = 6"
| "sorm_error_code SORM_INVALID_COLUMN_NAME = 7"
| "sorm_error_code SORM_INVALID_MEM = 8"
| "sorm_error_code SORM_INVALID_TYPE = 9"
| "sorm_error_code SORM_ARG_NULL = 10"
| "sorm_error_code SORM_COLUMNS_NAME_EMPTY = 11"
| "sorm_error_code SORM_FILTER_EMPTY = 12"
| "sorm_error_code SORM_INIT_FAIL = 13"
| "sorm_error_code SORM_STRING_BUF_NOT_ENOUGH = 14"

text \<open>
  The table ends with a \<open>NULL\<close> entry (here \<open>None\<close>); \<open>sorm_strerror\<close> indexes it without a check, so
  a code outside the table is a read outside the array: the outer \<open>None\<close>.
\<close>

definition sorm_errorstr :: "string option list" where
  "sorm_errorstr =
     [Some ''There is no error'',
      Some ''Can not allocate memory'',
      Some ''Invalid Columns name or filter, or Sqlite3 internal error'',
      Some ''Too long sqlite3 statment'',
      Some ''There is no Primary key'',
      Some ''Rows to be selected do not exist'',
      Some ''The number of rows to be selected is invalid'',
      Some ''Invalid column name'',
      Some ''Invalid sorm_mem'',
      Some ''Invalid sorm_type'',
      Some ''One or more arguments is NULL'',
      Some ''Param columns_name when calling select function is an empty string'',
      Some ''Param filter when calling select function is an empty string'',
      Some ''Sorm intialize fail'',
      Some ''String buffer is not big enough when transfer a sorm object to string'',
      None]"

definition sorm_strerror :: "int \<Rightarrow> string option option" where
  "sorm_strerror error_code = nth_opt sorm_errorstr error_code"

datatype sorm_join_t = SORM_INNER_JOIN | SORM_LEFT_JOIN | SORM_JOIN_OTHER int

text \<open>
  An enumeration variable of C holds any \<open>int\<close>; the last constructor stands for the values that
  none of the names has, which the \<open>default\<close> branches of the code handle.
\<close>

datatype sorm_type_t =
    SORM_TYPE_INT | SORM_TYPE_INT64 | SORM_TYPE_TEXT | SORM_TYPE_DOUBLE | SORM_TYPE_BLOB
  | SORM_TYPE_OTHER int

datatype sorm_mem_t = SORM_MEM_NONE | SORM_MEM_HEAP | SORM_MEM_STACK | SORM_MEM_OTHER int

datatype sorm_constraint_t =
    SORM_CONSTRAINT_NONE | SORM_CONSTRAINT_PK | SORM_CONSTRAINT_PK_ASC | SORM_CONSTRAINT_PK_DESC
  | SORM_CONSTRAINT_UNIQUE | SORM_CONSTRAINT_OTHER int

definition sorm_is_unique_column :: "sorm_constraint_t \<Rightarrow> bool" where
  "sorm_is_unique_column c \<longleftrightarrow>
     c = SORM_CONSTRAINT_PK \<or> c = SORM_CONSTRAINT_PK_ASC \<or> c = SORM_CONSTRAINT_PK_DESC
     \<or> c = SORM_CONSTRAINT_UNIQUE"

text \<open>The SQL names of the types (\<open>sorm_type_db_str\<close>); other values index outside the table.\<close>

fun sorm_type_db_str :: "sorm_type_t \<Rightarrow> string option" where
  "sorm_type_db_str SORM_TYPE_INT = Some ''INTEGER''"
| "sorm_type_db_str SORM_TYPE_INT64 = Some ''INTEGER''"
| "sorm_type_db_str SORM_TYPE_TEXT = Some ''TEXT''"
| "sorm_type_db_str SORM_TYPE_DOUBLE = Some ''REAL''"
| "sorm_type_db_str SORM_TYPE_BLOB = Some ''BLOB''"
| "sorm_type_db_str (SORM_TYPE_OTHER _) = None"

section \<open>Status bits of a column\<close>

type_synonym sorm_stat_t = "32 word"

definition SORM_STAT_NULL :: sorm_stat_t where "SORM_STAT_NULL = 0"
definition SORM_STAT_VALUED :: sorm_stat_t where "SORM_STAT_VALUED = 1"
definition SORM_STAT_NEEDFREE :: sorm_stat_t where "SORM_STAT_NEEDFREE = 2"

definition sorm_is_stat :: "sorm_stat_t \<Rightarrow> sorm_stat_t \<Rightarrow> bool" where
  "sorm_is_stat stat check_stat \<longleftrightarrow> stat AND check_stat = check_stat"

definition sorm_is_stat_valued :: "sorm_stat_t \<Rightarrow> bool" where
  "sorm_is_stat_valued stat = sorm_is_stat stat SORM_STAT_VALUED"

definition sorm_is_stat_needfree :: "sorm_stat_t \<Rightarrow> bool" where
  "sorm_is_stat_needfree stat = sorm_is_stat stat SORM_STAT_NEEDFREE"

lemmas stat_defs = SORM_STAT_NULL_def SORM_STAT_VALUED_def SORM_STAT_NEEDFREE_def sorm_is_stat_def
  sorm_is_stat_valued_def sorm_is_stat_needfree_def

text \<open>A single-bit test reads that bit.\<close>

lemma and_bit_eq_iff:
  "k < 32 \<Longrightarrow> (s :: 32 word) AND 2 ^ k = 2 ^ k \<longleftrightarrow> bit s k"
  by (auto simp: bit_eq_iff [of "s AND 2 ^ k"] bit_simps)

lemma stat_valued_bit: "sorm_is_stat_valued s \<longleftrightarrow> bit s 0"
  using and_bit_eq_iff [of 0 s] by (simp add: stat_defs)

lemma stat_needfree_bit: "sorm_is_stat_needfree s \<longleftrightarrow> bit s 1"
  using and_bit_eq_iff [of 1 s] by (simp add: stat_defs)

lemma flag_bits:
  "sorm_foreign_key_enabled flags \<longleftrightarrow> bit flags 0"
  "sorm_semaphore_enabled flags \<longleftrightarrow> bit flags 1"
  "sorm_rwlock_enabled flags \<longleftrightarrow> bit flags 2"
  using and_bit_eq_iff [of 0 flags] and_bit_eq_iff [of 1 flags] and_bit_eq_iff [of 2 flags]
  by (simp_all add: sorm_foreign_key_enabled_def sorm_semaphore_enabled_def
      sorm_rwlock_enabled_def SORM_ENABLE_FOREIGN_KEY_def SORM_ENABLE_SEMAPHORE_def
      SORM_ENABLE_RWLOCK_def and.commute numeral_eq_Suc)

section \<open>Descriptors\<close>

record sorm_column_descriptor_t =
  c_name :: string
  c_index :: nat
  c_type :: sorm_type_t
  c_constraint :: sorm_constraint_t
  c_mem :: sorm_mem_t
  c_max_len :: int
  c_offset :: nat
  is_foreign_key :: bool
  foreign_table_name :: string
  foreign_column_name :: string

record sorm_table_descriptor_t =
  t_name :: string
  t_size :: nat
  columns_num :: int
  PK_index :: int
  create_sql :: "string option"
  columns :: "sorm_column_descriptor_t list"

text \<open>\<open>table_desc->columns[i]\<close>\<close>

definition column_at :: "sorm_table_descriptor_t \<Rightarrow> int \<Rightarrow> sorm_column_descriptor_t option" where
  "column_at td i = nth_opt (columns td) i"

text \<open>The index values of \<open>for (i = 0; i < table_desc->columns_num; i ++)\<close>.\<close>

definition column_indexes :: "sorm_table_descriptor_t \<Rightarrow> nat list" where
  "column_indexes td = [0..<nat (columns_num td)]"

text \<open>
  What the generator promises of a descriptor: the count is the length of the array, the names are
  C strings, lengths are not negative, the primary key is a column or \<open>SORM_NO_PK\<close>.
\<close>

definition wf_column :: "sorm_column_descriptor_t \<Rightarrow> bool" where
  "wf_column c \<longleftrightarrow> no_nul (c_name c) \<and> no_nul (foreign_table_name c) \<and>
     no_nul (foreign_column_name c) \<and> 0 \<le> c_max_len c \<and> c_max_len c < 2 ^ 31 - 1"

definition wf_table :: "sorm_table_descriptor_t \<Rightarrow> bool" where
  "wf_table td \<longleftrightarrow> columns_num td = int (length (columns td)) \<and> no_nul (t_name td) \<and>
     list_all wf_column (columns td) \<and>
     (PK_index td = SORM_NO_PK \<or> (0 \<le> PK_index td \<and> PK_index td < columns_num td))"

lemma wf_table_columns_num: "wf_table td \<Longrightarrow> columns_num td = int (length (columns td))"
  by (simp add: wf_table_def)

lemma wf_table_column:
  "wf_table td \<Longrightarrow> i < length (columns td) \<Longrightarrow>
   column_at td (int i) = Some (columns td ! i) \<and> wf_column (columns td ! i)"
  by (auto simp: wf_table_def column_at_def list_all_length)

lemma wf_table_indexes: "wf_table td \<Longrightarrow> column_indexes td = [0..<length (columns td)]"
  by (simp add: wf_table_def column_indexes_def)

section \<open>Formatted output\<close>

definition digit_char :: "nat \<Rightarrow> char" where
  "digit_char n = char_of (48 + n)"

fun show_nat :: "nat \<Rightarrow> string" where
  "show_nat n = (if n < 10 then [digit_char n] else show_nat (n div 10) @ [digit_char (n mod 10)])"

declare show_nat.simps [simp del]

text \<open>\<open>%d\<close> and \<open>PRId64\<close>.\<close>

definition printf_d :: "int \<Rightarrow> string" where
  "printf_d i = (if i < 0 then CHR ''-'' # show_nat (nat (- i)) else show_nat (nat i))"

text \<open>
  \<open>%f\<close> of an IEEE 754 double given by its bits: six decimals, rounded to nearest, ties to even,
  as the C library does in the default rounding mode.
\<close>

definition round_div_even :: "nat \<Rightarrow> nat \<Rightarrow> nat" where
  "round_div_even n d =
     (let q = n div d; r = n mod d in
      if 2 * r < d then q else if 2 * r > d then q + 1 else if even q then q else q + 1)"

definition pad6 :: "string \<Rightarrow> string" where
  "pad6 s = replicate (6 - length s) CHR ''0'' @ s"

definition printf_f :: "64 word \<Rightarrow> string" where
  "printf_f w =
     (let sign = (if bit w 63 then ''-'' else []);
          e = unat (drop_bit 52 w AND 2047);
          frac = unat (w AND (2 ^ 52 - 1)) in
      if e = 2047 then sign @ (if frac = 0 then ''inf'' else ''nan'')
      else let m = (if e = 0 then frac else frac + 2 ^ 52);
               x = (if e = 0 then 1 else e);
               u = (if x \<ge> 1075 then m * 2 ^ (x - 1075) * 10 ^ 6
                    else round_div_even (m * 10 ^ 6) (2 ^ (1075 - x))) in
           sign @ show_nat (u div 10 ^ 6) @ ''.'' @ pad6 (show_nat (u mod 10 ^ 6)))"

lemma digit_char_not_nul: "n < 10 \<Longrightarrow> digit_char n \<noteq> NUL"
proof -
  assume n: "n < 10"
  have "of_char (digit_char n) = 48 + n"
    using n by (simp add: digit_char_def)
  then show ?thesis by auto
qed

lemma no_nul_show_nat [simp]: "no_nul (show_nat n)"
proof (induction n rule: show_nat.induct)
  case (1 n)
  then show ?case
    by (cases "n < 10") (simp_all add: show_nat.simps [of n] digit_char_not_nul)
qed

lemma no_nul_printf_d [simp]: "no_nul (printf_d i)"
  by (simp add: printf_d_def)

lemma no_nul_printf_f [simp]: "no_nul (printf_f w)"
proof -
  have r: "no_nul (replicate k CHR ''0'')" for k by (simp add: no_nul_def)
  show ?thesis by (auto simp: printf_f_def Let_def pad6_def r)
qed

section \<open>Putting a statement together\<close>

text \<open>
  The idiom of every function that builds a statement: \<open>sql_stmt\<close> and the \<open>offset\<close> of its end,
  \<open>ret = snprintf(sql_stmt + offset, SQL_STMT_MAX_LEN - offset + 1, ...); offset += ret;\<close> and
  \<open>SORM_TOO_LONG\<close> when \<open>ret < 0 || offset > SQL_STMT_MAX_LEN\<close>.
\<close>

type_synonym sqlbuf = "cbuf \<times> int"

definition sql_stmt_init :: sqlbuf where
  "sql_stmt_init = (buf_new (nat (SQL_STMT_MAX_LEN + 1)), 0)"

definition stmt_printf :: "sqlbuf \<Rightarrow> string \<Rightarrow> (sorm_error_t \<times> sqlbuf) option" where
  "stmt_printf sql s =
     (let (buf, offset) = sql in
      do { (ret, buf) \<leftarrow> snprintf buf offset (size_t (SQL_STMT_MAX_LEN - offset + 1)) s;
           let offset = offset + ret;
           Some (if ret < 0 \<or> offset > SQL_STMT_MAX_LEN then SORM_TOO_LONG else SORM_OK,
                 (buf, offset)) })"

text \<open>Normal form of a statement under construction: exactly the text \<open>s\<close> was written.\<close>

definition sql_at :: "string \<Rightarrow> sqlbuf" where
  "sql_at s = (buf_str 1024 s, int (length s))"

lemma stmt_printf_init:
  "length s \<le> 1023 \<Longrightarrow> stmt_printf sql_stmt_init s = Some (SORM_OK, sql_at s)"
  by (simp add: stmt_printf_def sql_stmt_init_def sql_at_def SQL_STMT_MAX_LEN_def snprintf_new)

lemma stmt_printf_init_long:
  "1023 < length s \<Longrightarrow> \<exists>q. stmt_printf sql_stmt_init s = Some (SORM_TOO_LONG, q)"
  by (simp add: stmt_printf_def sql_stmt_init_def SQL_STMT_MAX_LEN_def snprintf_def buf_write_def
      buf_new_def)

lemma stmt_printf_at:
  assumes "length s + length t \<le> 1023"
  shows "stmt_printf (sql_at s) t = Some (SORM_OK, sql_at (s @ t))"
proof -
  have "size_t (SQL_STMT_MAX_LEN - int (length s) + 1) = 1024 - length s"
    using assms by (simp add: SQL_STMT_MAX_LEN_def)
  moreover have "snprintf (buf_str 1024 s) (int (length s)) (1024 - length s) t
      = Some (int (length t), buf_str 1024 (s @ t))"
    using assms by (intro snprintf_append) auto
  ultimately show ?thesis
    using assms by (simp add: stmt_printf_def sql_at_def SQL_STMT_MAX_LEN_def)
qed

lemma stmt_printf_at_long:
  assumes "length s \<le> 1023" and "1023 < length s + length t"
  shows "\<exists>q. stmt_printf (sql_at s) t = Some (SORM_TOO_LONG, q)"
proof -
  have sz: "size_t (SQL_STMT_MAX_LEN - int (length s) + 1) = 1024 - length s"
    using assms by (simp add: SQL_STMT_MAX_LEN_def)
  obtain b where "snprintf (buf_str 1024 s) (int (length s)) (1024 - length s) t
      = Some (int (length t), b)"
    using snprintf_returns [of "int (length s)" "1024 - length s" "buf_str 1024 s" t] assms by auto
  with sz assms show ?thesis
    by (simp add: stmt_printf_def sql_at_def SQL_STMT_MAX_LEN_def)
qed

lemmas stmt_printf_simps = stmt_printf_init stmt_printf_at

end
