(* ===== verification/Sorm_Memory.thy ===== *)
theory Sorm_Memory
  imports Sorm_Types
begin

text \<open>
  Dynamic memory: the objects the program keeps on the heap, the allocators of
  \<^verbatim>\<open>src/src/memory.h\<close> (\<open>_malloc\<close>, \<open>_free\<close>, \<open>_strdup\<close>; a leading underscore of the source is
  written \<open>i_\<close> here) and the contract an application's allocator has to keep, as the locale
  \<open>alloc_contract\<close>. The C library's \<open>malloc\<close>, \<open>free\<close> and \<open>strdup\<close> are the instance the program
  uses when the allocator is \<open>NULL\<close>.
\<close>

section \<open>Objects on the heap\<close>

text \<open>An address; \<open>0\<close> is \<open>NULL\<close>. Addresses name whole blocks.\<close>

type_synonym addr = nat

text \<open>
  The member of a sorm object that holds a column: a number, a pointer (\<open>SORM_MEM_HEAP\<close>) or an
  array of \<open>max_len + 1\<close> characters inside the object (\<open>SORM_MEM_STACK\<close>). Doubles are their 64 bits.
\<close>

datatype member =
    M_int32 "32 word"
  | M_int64 "64 word"
  | M_double "64 word"
  | M_ptr addr
  | M_array cbuf

text \<open>
  What the generated structure holds for one column: the blob length (used by blobs only), the
  status word and the member.
\<close>

record cell =
  blob_len :: "32 word"
  stat :: sorm_stat_t
  val :: member

text \<open>A sorm object: the copy of the table descriptor at its head and one cell per column.\<close>

record sorm_object =
  desc :: sorm_table_descriptor_t
  cells :: "cell list"

text \<open>
  A \<open>const void *value\<close> argument: what it points to. \<open>V_mem a\<close> points to the heap block \<open>a\<close>, the
  others to a variable of the caller with that type.
\<close>

datatype value_arg = V_int32 "32 word" | V_int64 "64 word" | V_double "64 word" | V_mem addr

text \<open>What a block holds.\<close>

datatype content =
    C_raw nat                              \<comment> \<open>fresh memory of that size\<close>
  | C_bytes "char list"                    \<comment> \<open>characters: a string with its NUL, or a blob\<close>
  | C_objects "sorm_object list"           \<comment> \<open>an array of sorm objects\<close>
  | C_node addr addr addr                  \<comment> \<open>\<open>sorm_list_t\<close>: next, prev, data\<close>

record block =
  owner :: "nat option"    \<comment> \<open>memory pool of the allocator that gave it; \<open>None\<close> for \<open>malloc\<close>\<close>
  content :: content

record heap =
  blocks :: "addr \<Rightarrow> block option"
  brk :: addr              \<comment> \<open>all addresses from here on are unused\<close>
  room :: nat              \<comment> \<open>bytes \<open>malloc\<close> can still give\<close>

definition store :: "heap \<Rightarrow> addr \<Rightarrow> content \<Rightarrow> heap" where
  "store h p c = h\<lparr>blocks := (blocks h)(p := map_option (\<lambda>b. b\<lparr>content := c\<rparr>) (blocks h p))\<rparr>"

definition load :: "heap \<Rightarrow> addr \<Rightarrow> content option" where
  "load h p = map_option content (blocks h p)"

text \<open>The C string a block holds: the characters up to the NUL, which has to be there.\<close>

definition load_str :: "heap \<Rightarrow> addr \<Rightarrow> string option" where
  "load_str h p =
     (case load h p of
        Some (C_bytes cs) \<Rightarrow>
          if NUL \<in> set cs then Some (takeWhile (\<lambda>c. c \<noteq> NUL) cs) else None
      | _ \<Rightarrow> None)"

text \<open>\<open>memcpy\<close> out of a block: \<open>n\<close> bytes, all of which have to be in the block.\<close>

definition load_bytes :: "heap \<Rightarrow> addr \<Rightarrow> nat \<Rightarrow> char list option" where
  "load_bytes h p n =
     (case load h p of
        Some (C_bytes cs) \<Rightarrow> if n \<le> length cs then Some (take n cs) else None
      | _ \<Rightarrow> None)"

lemma load_store [simp]:
  "load (store h p c) q = (if p = q \<and> blocks h p \<noteq> None then Some c else load h q)"
  by (auto simp: load_def store_def)

lemma owner_store [simp]:
  "map_option owner (blocks (store h p c) q) = map_option owner (blocks h q)"
  by (cases "blocks h q") (auto simp: store_def)

section \<open>The C library's allocator\<close>

definition malloc :: "nat \<Rightarrow> heap \<Rightarrow> addr \<times> heap" where
  "malloc n h =
     (if n \<le> room h
      then (brk h, h\<lparr>blocks := (blocks h)(brk h \<mapsto> \<lparr>owner = None, content = C_raw n\<rparr>),
                     brk := Suc (brk h), room := room h - n\<rparr>)
      else (0, h))"

text \<open>\<open>free(NULL)\<close> does nothing; freeing what \<open>malloc\<close> did not give is an error.\<close>

definition free :: "addr \<Rightarrow> heap \<Rightarrow> heap option" where
  "free p h =
     (if p = 0 then Some h
      else case blocks h p of
        Some b \<Rightarrow> if owner b = None then Some (h\<lparr>blocks := (blocks h)(p := None)\<rparr>) else None
      | None \<Rightarrow> None)"

definition strdup :: "string \<Rightarrow> heap \<Rightarrow> addr \<times> heap" where
  "strdup s h =
     (let (p, h) = malloc (length s + 1) h in
      if p = 0 then (0, h) else (p, store h p (C_bytes (s @ [NUL]))))"

text \<open>No block lies at \<open>NULL\<close> or above the break.\<close>

definition heap_ok :: "heap \<Rightarrow> bool" where
  "heap_ok h \<longleftrightarrow> 0 < brk h \<and> blocks h 0 = None \<and> (\<forall>p. brk h \<le> p \<longrightarrow> blocks h p = None)"

section \<open>Allocators: \<open>sorm_allocator_t\<close>\<close>

text \<open>
  The callbacks belong to the application; they get the memory pool and work on the heap. A
  \<open>NULL\<close> allocator is \<open>None\<close>.
\<close>

record sorm_allocator_t =
  alloc_fn :: "nat \<Rightarrow> nat \<Rightarrow> heap \<Rightarrow> addr \<times> heap"
  free_fn :: "nat \<Rightarrow> addr \<Rightarrow> heap \<Rightarrow> heap option"
  strdup_fn :: "nat \<Rightarrow> string \<Rightarrow> heap \<Rightarrow> addr \<times> heap"
  memory_pool :: nat

definition i_malloc :: "sorm_allocator_t option \<Rightarrow> nat \<Rightarrow> heap \<Rightarrow> (addr \<times> heap) option" where
  "i_malloc allocator n h =
     (if n = 0 then Some (0, h)
      else let (buf, h) = (case allocator of
                 None \<Rightarrow> malloc n h
               | Some a \<Rightarrow> alloc_fn a (memory_pool a) n h) in
           if buf = 0 then None else Some (buf, h))"

definition i_free :: "sorm_allocator_t option \<Rightarrow> addr \<Rightarrow> heap \<Rightarrow> heap option" where
  "i_free allocator ptr h =
     (case allocator of
        None \<Rightarrow> free ptr h
      | Some a \<Rightarrow> free_fn a (memory_pool a) ptr h)"

text \<open>\<open>str\<close> is \<open>None\<close> for a \<open>NULL\<close> argument.\<close>

definition i_strdup :: "sorm_allocator_t option \<Rightarrow> string option \<Rightarrow> heap \<Rightarrow> (addr \<times> heap) option" where
  "i_strdup allocator str h =
     (case str of
        None \<Rightarrow> Some (0, h)
      | Some s \<Rightarrow>
          let (buf, h) = (case allocator of
                 None \<Rightarrow> strdup s h
               | Some a \<Rightarrow> strdup_fn a (memory_pool a) s h) in
          if buf = 0 then None else Some (buf, h))"

definition pool_of :: "sorm_allocator_t option \<Rightarrow> nat option" where
  "pool_of allocator = map_option memory_pool allocator"

section \<open>The contract of an allocator\<close>

text \<open>
  What the program relies on, for the three entry points: a block that was not in use, owned by the
  allocator's pool, and everything else unchanged; \<open>free\<close> takes back exactly such a block.
\<close>

locale alloc_contract =
  fixes mal :: "nat \<Rightarrow> heap \<Rightarrow> (addr \<times> heap) option"
    and fre :: "addr \<Rightarrow> heap \<Rightarrow> heap option"
    and dup :: "string option \<Rightarrow> heap \<Rightarrow> (addr \<times> heap) option"
    and pool :: "nat option"
  assumes mal_zero: "mal 0 h = Some (0, h)"
    and mal_fresh: "heap_ok h \<Longrightarrow> 0 < n \<Longrightarrow> mal n h = Some (p, h') \<Longrightarrow>
        p \<noteq> 0 \<and> blocks h p = None \<and> heap_ok h' \<and>
        blocks h' = (blocks h)(p \<mapsto> \<lparr>owner = pool, content = C_raw n\<rparr>)"
    and fre_null: "fre 0 h = Some h"
    and fre_owned: "heap_ok h \<Longrightarrow> blocks h p = Some b \<Longrightarrow> owner b = pool \<Longrightarrow>
        \<exists>h'. fre p h = Some h' \<and> heap_ok h' \<and> blocks h' = (blocks h)(p := None)"
    and dup_null: "dup None h = Some (0, h)"
    and dup_fresh: "heap_ok h \<Longrightarrow> dup (Some s) h = Some (p, h') \<Longrightarrow>
        p \<noteq> 0 \<and> blocks h p = None \<and> heap_ok h' \<and>
        blocks h' = (blocks h)(p \<mapsto> \<lparr>owner = pool, content = C_bytes (s @ [NUL])\<rparr>)"
begin

lemma mal_nonnull: "heap_ok h \<Longrightarrow> mal n h = Some (p, h') \<Longrightarrow> p = 0 \<longleftrightarrow> n = 0"
  using mal_zero [of h] mal_fresh [of h n p h'] by (cases "n = 0") auto

lemma mal_other: "heap_ok h \<Longrightarrow> mal n h = Some (p, h') \<Longrightarrow> q \<noteq> p \<Longrightarrow> blocks h' q = blocks h q"
  using mal_zero [of h] mal_fresh [of h n p h'] by (cases "n = 0") auto

lemma mal_ok: "heap_ok h \<Longrightarrow> mal n h = Some (p, h') \<Longrightarrow> heap_ok h'"
  using mal_zero [of h] mal_fresh [of h n p h'] by (cases "n = 0") auto

lemma dup_load:
  "heap_ok h \<Longrightarrow> no_nul s \<Longrightarrow> dup (Some s) h = Some (p, h') \<Longrightarrow> load_str h' p = Some s"
  using dup_fresh [of h s p h'] takeWhile_no_nul [of s "[]"]
  by (auto simp: load_str_def load_def)

text \<open>Freeing what was just given restores the blocks.\<close>

lemma mal_fre:
  assumes "heap_ok h" and "0 < n" and "mal n h = Some (p, h')"
  shows "\<exists>h''. fre p h' = Some h'' \<and> heap_ok h'' \<and> blocks h'' = blocks h"
proof -
  from mal_fresh [OF assms]
  have p: "blocks h p = None" and ok: "heap_ok h'"
    and b: "blocks h' = (blocks h)(p \<mapsto> \<lparr>owner = pool, content = C_raw n\<rparr>)" by auto
  from fre_owned [OF ok, of p] b obtain h'' where
    h'': "fre p h' = Some h''" "heap_ok h''" "blocks h'' = (blocks h')(p := None)" by auto
  have "(blocks h')(p := None) = blocks h" using p b by auto
  with h'' show ?thesis by auto
qed

end

text \<open>An allocator argument is acceptable when it keeps the contract.\<close>

definition allocator_ok :: "sorm_allocator_t option \<Rightarrow> bool" where
  "allocator_ok al \<longleftrightarrow> alloc_contract (i_malloc al) (i_free al) (i_strdup al) (pool_of al)"

lemma malloc_fresh:
  assumes "heap_ok h" and "malloc n h = (p, h')" and "p \<noteq> 0"
  shows "blocks h p = None \<and> heap_ok h' \<and>
    blocks h' = (blocks h)(p \<mapsto> \<lparr>owner = None, content = C_raw n\<rparr>)"
  using assms by (auto simp: malloc_def heap_ok_def split: if_splits)

interpretation libc: alloc_contract "i_malloc None" "i_free None" "i_strdup None" "pool_of None"
proof (unfold_locales, goal_cases)
  case (1 h)
  show ?case by (simp add: i_malloc_def)
next
  case (2 h n p h')
  then obtain "malloc n h = (p, h')" and "p \<noteq> 0"
    by (auto simp: i_malloc_def split: prod.splits if_splits)
  with malloc_fresh [of h n p h'] 2(1) show ?case by (simp add: pool_of_def)
next
  case (3 h)
  show ?case by (simp add: i_free_def free_def)
next
  case (4 h p b)
  then show ?case by (auto simp: i_free_def free_def pool_of_def heap_ok_def)
next
  case (5 h)
  show ?case by (simp add: i_strdup_def)
next
  case (6 h s p h')
  then obtain h1 where m: "malloc (length s + 1) h = (p, h1)" and p: "p \<noteq> 0"
    and h': "h' = store h1 p (C_bytes (s @ [NUL]))"
    by (auto simp: i_strdup_def strdup_def split: prod.splits if_splits)
  from malloc_fresh [OF 6(1) m p] h' p show ?case
    by (auto simp: store_def pool_of_def heap_ok_def fun_eq_iff)
qed

lemma allocator_ok_libc: "allocator_ok None"
  unfolding allocator_ok_def by (rule libc.alloc_contract_axioms)

text \<open>With room left, the C library's allocator gives memory.\<close>

lemma malloc_room: "n \<le> room h \<Longrightarrow> heap_ok h \<Longrightarrow>
   malloc n h = (brk h, h\<lparr>blocks := (blocks h)(brk h \<mapsto> \<lparr>owner = None, content = C_raw n\<rparr>),
                     brk := Suc (brk h), room := room h - n\<rparr>) \<and> 0 < brk h"
  by (simp add: malloc_def heap_ok_def)

lemma strdup_room: "length s + 1 \<le> room h \<Longrightarrow> heap_ok h \<Longrightarrow>
   \<exists>p h'. i_strdup None (Some s) h = Some (p, h')"
  using malloc_room [of "length s + 1" h] by (auto simp: i_strdup_def strdup_def Let_def)

lemma i_malloc_room: "n \<le> room h \<Longrightarrow> heap_ok h \<Longrightarrow> \<exists>p h'. i_malloc None n h = Some (p, h')"
  using malloc_room [of n h] by (auto simp: i_malloc_def)

end
