(* ===== verification/Sorm_Sem.thy ===== *)
theory Sorm_Sem
  imports Sorm_Types
begin

text \<open>
  \<^verbatim>\<open>src/src/semaphore.c\<close>: one System V semaphore per key, created on first use. The system calls
  \<open>semget\<close>, \<open>semctl(SETVAL)\<close> and \<open>semop\<close> are modelled on a table of semaphore values; \<open>semop\<close> with
  \<open>-1\<close> on a zero semaphore waits, which is \<open>None\<close>. Each function of the source is the tree of the system calls it
  makes and what it does with their answers. Run in one go, it is what the other theories use; in the second half several
  processes run these trees call by call, any call may fail, and a process may end at any moment.
\<close>

section \<open>The semaphore table\<close>

record sem_state =
  sem_val :: "int \<Rightarrow> int option"     \<comment> \<open>value of semaphore 0 of the set with that key\<close>
  sem_room :: nat                    \<comment> \<open>sets the system can still create\<close>

text \<open>The largest value of a semaphore (\<open>SEMVMX\<close>).\<close>

definition SEMVMX :: int where "SEMVMX = 32767"

datatype sem_error_t = SEM_OK | SEM_INIT_FAIL | SEM_OP_FAIL

text \<open>An identifier is the key of the set; \<open>None\<close> is the return value \<open>-1\<close>.\<close>

definition semget :: "int \<Rightarrow> bool \<Rightarrow> sem_state \<Rightarrow> int option \<times> sem_state" where
  "semget key creat s =
     (case sem_val s key of
        Some v \<Rightarrow> (Some key, s)
      | None \<Rightarrow>
          if creat \<and> 0 < sem_room s
          then (Some key, s\<lparr>sem_val := (sem_val s)(key \<mapsto> 0), sem_room := sem_room s - 1\<rparr>)
          else (None, s))"

definition semctl_setval :: "int option \<Rightarrow> int \<Rightarrow> sem_state \<Rightarrow> bool \<times> sem_state" where
  "semctl_setval sem_id v s =
     (case sem_id of
        None \<Rightarrow> (False, s)
      | Some key \<Rightarrow>
          if sem_val s key = None then (False, s)
          else (True, s\<lparr>sem_val := (sem_val s)(key \<mapsto> v)\<rparr>))"

text \<open>\<open>semop\<close> by \<open>op\<close>: \<open>None\<close> waits, \<open>False\<close> is \<open>-1\<close>.\<close>

definition semop :: "int option \<Rightarrow> int \<Rightarrow> sem_state \<Rightarrow> (bool \<times> sem_state) option" where
  "semop sem_id op s =
     (case sem_id of
        None \<Rightarrow> Some (False, s)
      | Some key \<Rightarrow>
          (case sem_val s key of
             None \<Rightarrow> Some (False, s)
           | Some v \<Rightarrow>
               if v + op < 0 then None
               else if v + op > SEMVMX then Some (False, s)
               else Some (True, s\<lparr>sem_val := (sem_val s)(key \<mapsto> v + op)\<rparr>)))"

section \<open>Operations\<close>

text \<open>
  A system call, its answer (\<open>None\<close> is \<open>-1\<close>) and a function as the tree of its calls: it has returned, or it makes a call and
  goes on with the answer.
\<close>

datatype sem_call = Semget int bool | Semctl_setval "int option" int | Semop "int option" int

datatype sem_code = Done sem_error_t | Call sem_call "int option \<Rightarrow> sem_code"

text \<open>What the system does; \<open>None\<close> waits.\<close>

definition ok_answer :: "bool \<Rightarrow> int option" where
  "ok_answer ok = (if ok then Some 0 else None)"

fun do_call :: "sem_call \<Rightarrow> sem_state \<Rightarrow> (int option \<times> sem_state) option" where
  "do_call (Semget key creat) s = Some (semget key creat s)"
| "do_call (Semctl_setval sem_id v) s = Some (apfst ok_answer (semctl_setval sem_id v s))"
| "do_call (Semop sem_id op) s = map_option (apfst ok_answer) (semop sem_id op s)"

primrec run_code :: "sem_code \<Rightarrow> sem_state \<Rightarrow> (sem_error_t \<times> sem_state) option" where
  "run_code (Done ret) s = Some (ret, s)"
| "run_code (Call c k) s = do { (r, s) \<leftarrow> do_call c s; run_code (k r) s }"

text \<open>The block that \<open>sem_init\<close>, \<open>sem_p\<close> and \<open>sem_v\<close> share: find the set or create it with 1, then go on with its identifier.\<close>

definition sem_find_code :: "int \<Rightarrow> (int option \<Rightarrow> sem_code) \<Rightarrow> sem_code" where
  "sem_find_code sem_key go_on =
     Call (Semget sem_key False) (\<lambda>sem_id.
       if sem_id = None
       then Call (Semget sem_key True) (\<lambda>sem_id.
              Call (Semctl_setval sem_id 1) (\<lambda>r.
                if r = None then Done SEM_INIT_FAIL else go_on sem_id))
       else go_on sem_id)"

definition semop_code :: "int \<Rightarrow> int option \<Rightarrow> sem_code" where
  "semop_code op sem_id = Call (Semop sem_id op) (\<lambda>r. if r = None then Done SEM_OP_FAIL else Done SEM_OK)"

definition sem_init_code :: "int \<Rightarrow> sem_code" where
  "sem_init_code sem_key = sem_find_code sem_key (\<lambda>sem_id. Done SEM_OK)"

definition sem_p_code :: "int \<Rightarrow> sem_code" where
  "sem_p_code sem_key = sem_find_code sem_key (semop_code (-1))"

definition sem_v_code :: "int \<Rightarrow> sem_code" where
  "sem_v_code sem_key = sem_find_code sem_key (semop_code 1)"

text \<open>The functions, run in one go.\<close>

definition sem_init :: "int \<Rightarrow> sem_state \<Rightarrow> (sem_error_t \<times> sem_state) option" where
  "sem_init sem_key = run_code (sem_init_code sem_key)"

definition sem_final :: "sem_state \<Rightarrow> sem_state" where
  "sem_final s = s"

definition sem_p :: "int \<Rightarrow> sem_state \<Rightarrow> (sem_error_t \<times> sem_state) option" where
  "sem_p sem_key = run_code (sem_p_code sem_key)"

definition sem_v :: "int \<Rightarrow> sem_state \<Rightarrow> (sem_error_t \<times> sem_state) option" where
  "sem_v sem_key = run_code (sem_v_code sem_key)"

lemmas sem_codes = sem_find_code_def semop_code_def sem_init_code_def sem_p_code_def sem_v_code_def

text \<open>The value a caller of \<open>sem_p\<close> or \<open>sem_v\<close> finds: a missing set counts as 1.\<close>

definition sem_count :: "sem_state \<Rightarrow> int \<Rightarrow> int" where
  "sem_count s key = (case sem_val s key of Some v \<Rightarrow> v | None \<Rightarrow> 1)"

definition sem_usable :: "sem_state \<Rightarrow> int \<Rightarrow> bool" where
  "sem_usable s key \<longleftrightarrow> sem_val s key \<noteq> None \<or> 0 < sem_room s"

text \<open>With a set there or room for one, the shared block goes on with it.\<close>

lemma sem_find_runs:
  "sem_usable s key \<Longrightarrow> \<exists>s'. run_code (sem_find_code key go_on) s = run_code (go_on (Some key)) s' \<and>
     sem_val s' = (sem_val s)(key \<mapsto> sem_count s key)"
  by (auto simp: sem_find_code_def semget_def semctl_setval_def ok_answer_def sem_count_def sem_usable_def fun_eq_iff
      split: option.splits)

lemma sem_find_fails:
  "\<not> sem_usable s key \<Longrightarrow> run_code (sem_find_code key go_on) s = Some (SEM_INIT_FAIL, s)"
  by (auto simp: sem_find_code_def semget_def semctl_setval_def ok_answer_def sem_usable_def)

lemma sem_init_ok: "sem_usable s key \<Longrightarrow> \<exists>s'. sem_init key s = Some (SEM_OK, s') \<and> sem_val s' = (sem_val s)(key \<mapsto> sem_count s key)"
  using sem_find_runs [of s key "\<lambda>sem_id. Done SEM_OK"] by (auto simp: sem_init_def sem_init_code_def)

lemma sem_p_takes:
  assumes "sem_usable s key" and "0 < sem_count s key" and "sem_count s key \<le> SEMVMX"
  shows "\<exists>s'. sem_p key s = Some (SEM_OK, s') \<and> sem_val s' = (sem_val s)(key \<mapsto> sem_count s key - 1)"
  using sem_find_runs [OF assms(1), of "semop_code (-1)"] assms(2,3)
  by (auto simp: sem_p_def sem_p_code_def semop_code_def semop_def ok_answer_def SEMVMX_def)

lemma sem_p_waits:
  assumes "sem_usable s key" and "sem_count s key = 0"
  shows "sem_p key s = None"
  using sem_find_runs [OF assms(1), of "semop_code (-1)"] assms(2)
  by (auto simp: sem_p_def sem_p_code_def semop_code_def semop_def)

lemma sem_v_gives:
  assumes "sem_usable s key" and "0 \<le> sem_count s key" and "sem_count s key < SEMVMX"
  shows "\<exists>s'. sem_v key s = Some (SEM_OK, s') \<and> sem_val s' = (sem_val s)(key \<mapsto> sem_count s key + 1)"
  using sem_find_runs [OF assms(1), of "semop_code 1"] assms(2,3)
  by (auto simp: sem_v_def sem_v_code_def semop_code_def semop_def ok_answer_def SEMVMX_def)

lemma sem_v_full:
  assumes "sem_usable s key" and "sem_count s key = SEMVMX"
  shows "\<exists>s'. sem_v key s = Some (SEM_OP_FAIL, s') \<and> sem_val s' = (sem_val s)(key \<mapsto> SEMVMX)"
  using sem_find_runs [OF assms(1), of "semop_code 1"] assms(2)
  by (auto simp: sem_v_def sem_v_code_def semop_code_def semop_def ok_answer_def SEMVMX_def fun_eq_iff)

lemma sem_no_room:
  assumes "\<not> sem_usable s key"
  shows "sem_init key s = Some (SEM_INIT_FAIL, s)" and "sem_p key s = Some (SEM_INIT_FAIL, s)"
    and "sem_v key s = Some (SEM_INIT_FAIL, s)"
  using sem_find_fails [OF assms]
  by (simp_all add: sem_init_def sem_init_code_def sem_p_def sem_p_code_def sem_v_def sem_v_code_def)

lemma sem_count_upd [simp]:
  "sem_val s' = (sem_val s)(key \<mapsto> v) \<Longrightarrow> sem_count s' k = (if k = key then v else sem_count s k)"
  by (simp add: sem_count_def)

section \<open>A process alone\<close>

text \<open>
  \<open>sem_p\<close> followed by \<open>sem_v\<close> on the same key, in a system where the set exists or can be
  created and its value is at least 1: both return \<open>SEM_OK\<close>, \<open>sem_p\<close> takes one unit, and after
  \<open>sem_v\<close> every semaphore has the value it had (a set that did not exist is left with 1).
\<close>

theorem sem_p_v_restores:
  assumes "sem_usable s key" and "0 < sem_count s key" and "sem_count s key \<le> SEMVMX"
  shows "\<exists>s1 s2. sem_p key s = Some (SEM_OK, s1) \<and> sem_count s1 key = sem_count s key - 1 \<and>
    sem_v key s1 = Some (SEM_OK, s2) \<and> (\<forall>k. sem_count s2 k = sem_count s k)"
proof -
  obtain s1 where s1: "sem_p key s = Some (SEM_OK, s1)"
      "sem_val s1 = (sem_val s)(key \<mapsto> sem_count s key - 1)"
    using sem_p_takes [OF assms] by auto
  then have c1: "sem_count s1 key = sem_count s key - 1" by simp
  have "sem_usable s1 key" using s1(2) by (simp add: sem_usable_def)
  then obtain s2 where "sem_v key s1 = Some (SEM_OK, s2)"
      "sem_val s2 = (sem_val s1)(key \<mapsto> sem_count s key)"
    using sem_v_gives [of s1 key] c1 assms(2,3) by auto
  with s1 c1 show ?thesis by auto
qed

theorem sem_p_v_restores_witness:
  "\<exists>s1 s2. sem_p 1639 \<lparr>sem_val = Map.empty, sem_room = 1\<rparr> = Some (SEM_OK, s1) \<and>
    sem_count s1 1639 = 0 \<and> sem_v 1639 s1 = Some (SEM_OK, s2) \<and> (\<forall>k. sem_count s2 k = 1)"
  using sem_p_v_restores [of "\<lparr>sem_val = Map.empty, sem_room = 1\<rparr>" 1639]
  by (simp add: sem_usable_def sem_count_def SEMVMX_def)

end
