(* ===== verification/Sorm_Db.thy ===== *)
theory Sorm_Db
  imports Sorm_Memory Sorm_Sem
begin

text \<open>
  The state the library works on and its lowest layer (\<^verbatim>\<open>src/src/sorm.c\<close>, \<open>_lock\<close> to
  \<open>_sqlite3_finalize\<close>): connections, the lock taken around a statement, and the calls of SQLite that
  are repeated while SQLite answers \<open>SQLITE_BUSY\<close>.

  SQLite is a parameter: a record of functions over a state \<open>'db\<close> the library never looks into. The
  \<open>world\<close> holds that state, the heap, the semaphores and read-write locks of the system, and the
  sequence of calls made so far, by which theorems speak about the order of calls.
\<close>

section \<open>SQLite as a parameter\<close>

definition SQLITE_OK :: int where "SQLITE_OK = 0"
definition SQLITE_BUSY :: int where "SQLITE_BUSY = 5"
definition SQLITE_ROW :: int where "SQLITE_ROW = 100"
definition SQLITE_DONE :: int where "SQLITE_DONE = 101"
definition SQLITE_NULL :: int where "SQLITE_NULL = 5"

lemmas sqlite_codes = SQLITE_OK_def SQLITE_BUSY_def SQLITE_ROW_def SQLITE_DONE_def SQLITE_NULL_def

text \<open>A prepared statement; \<open>0\<close> is a \<open>NULL\<close> handle.\<close>

type_synonym stmt = nat

text \<open>What the \<open>sqlite3_bind_*\<close> functions get; a \<open>NULL\<close> pointer binds \<open>NULL\<close>.\<close>

datatype bind_value =
    Bind_int "32 word" | Bind_int64 "64 word" | Bind_double "64 word"
  | Bind_text string | Bind_blob "char list" | Bind_null

record 'db sqlite3_api =
  sqlite3_open :: "string \<Rightarrow> 'db \<Rightarrow> int \<times> 'db"
  sqlite3_close :: "'db \<Rightarrow> int \<times> 'db"
  sqlite3_prepare :: "string \<Rightarrow> 'db \<Rightarrow> int \<times> stmt \<times> 'db"
  sqlite3_bind :: "stmt \<Rightarrow> int \<Rightarrow> bind_value \<Rightarrow> 'db \<Rightarrow> int \<times> 'db"
  sqlite3_step :: "stmt \<Rightarrow> 'db \<Rightarrow> int \<times> 'db"
  sqlite3_finalize :: "stmt \<Rightarrow> 'db \<Rightarrow> int \<times> 'db"
  sqlite3_column_type :: "stmt \<Rightarrow> int \<Rightarrow> 'db \<Rightarrow> int"
  sqlite3_column_int :: "stmt \<Rightarrow> int \<Rightarrow> 'db \<Rightarrow> 32 word"
  sqlite3_column_int64 :: "stmt \<Rightarrow> int \<Rightarrow> 'db \<Rightarrow> 64 word"
  sqlite3_column_double :: "stmt \<Rightarrow> int \<Rightarrow> 'db \<Rightarrow> 64 word"
  sqlite3_column_text :: "stmt \<Rightarrow> int \<Rightarrow> 'db \<Rightarrow> string option"
  sqlite3_column_blob :: "stmt \<Rightarrow> int \<Rightarrow> 'db \<Rightarrow> char list option"
  sqlite3_column_bytes :: "stmt \<Rightarrow> int \<Rightarrow> 'db \<Rightarrow> 32 word"
  sqlite3_last_insert_rowid :: "'db \<Rightarrow> 64 word"
  sqlite3_changes :: "'db \<Rightarrow> int"

section \<open>The world\<close>

datatype rwlock_state = RW_free | RW_readers nat | RW_writer

text \<open>The calls that leave the library.\<close>

datatype call =
    Call_open string int
  | Call_close int
  | Call_prepare string int stmt
  | Call_bind stmt int bind_value int
  | Call_step stmt int
  | Call_finalize stmt int
  | Call_lock
  | Call_unlock

record 'db world =
  db :: 'db
  hp :: heap
  sems :: sem_state
  rwlocks :: "addr \<Rightarrow> rwlock_state"
  calls :: "call list"

datatype sorm_db_t = SORM_DB_SQLITE

text \<open>A connection; \<open>sqlite3_handle\<close> is the \<open>db\<close> of the world, \<open>db_type\<close> the member \<open>db\<close> of the source.\<close>

record sorm_connection_t =
  db_type :: sorm_db_t
  transaction_num :: int
  sem_key :: int
  rwlock :: addr
  flags :: "32 word"

definition log_call :: "call \<Rightarrow> 'db world \<Rightarrow> 'db world" where
  "log_call c w = w\<lparr>calls := calls w @ [c]\<rparr>"

text \<open>\<open>sqlite3_prepare\<close> gets \<open>SQL_STMT_MAX_LEN\<close> as the number of bytes it may read.\<close>

definition sq_prepare :: "'db sqlite3_api \<Rightarrow> string \<Rightarrow> 'db world \<Rightarrow> int \<times> stmt \<times> 'db world" where
  "sq_prepare api sql w =
     (let sql = take (nat SQL_STMT_MAX_LEN) sql; (ret, st, d) = sqlite3_prepare api sql (db w) in
      (ret, st, log_call (Call_prepare sql ret st) (w\<lparr>db := d\<rparr>)))"

definition sq_bind ::
  "'db sqlite3_api \<Rightarrow> stmt \<Rightarrow> int \<Rightarrow> bind_value \<Rightarrow> 'db world \<Rightarrow> int \<times> 'db world" where
  "sq_bind api st i v w =
     (let (ret, d) = sqlite3_bind api st i v (db w) in
      (ret, log_call (Call_bind st i v ret) (w\<lparr>db := d\<rparr>)))"

definition sq_step :: "'db sqlite3_api \<Rightarrow> stmt \<Rightarrow> 'db world \<Rightarrow> int \<times> unit \<times> 'db world" where
  "sq_step api st w =
     (let (ret, d) = sqlite3_step api st (db w) in
      (ret, (), log_call (Call_step st ret) (w\<lparr>db := d\<rparr>)))"

definition sq_finalize :: "'db sqlite3_api \<Rightarrow> stmt \<Rightarrow> 'db world \<Rightarrow> int \<times> unit \<times> 'db world" where
  "sq_finalize api st w =
     (let (ret, d) = sqlite3_finalize api st (db w) in
      (ret, (), log_call (Call_finalize st ret) (w\<lparr>db := d\<rparr>)))"

section \<open>Locks\<close>

definition pthread_rwlock_rdlock :: "addr \<Rightarrow> 'db world \<Rightarrow> 'db world option" where
  "pthread_rwlock_rdlock a w =
     (case rwlocks w a of
        RW_free \<Rightarrow> Some (w\<lparr>rwlocks := (rwlocks w)(a := RW_readers 1)\<rparr>)
      | RW_readers n \<Rightarrow> Some (w\<lparr>rwlocks := (rwlocks w)(a := RW_readers (Suc n))\<rparr>)
      | RW_writer \<Rightarrow> None)"

definition pthread_rwlock_wrlock :: "addr \<Rightarrow> 'db world \<Rightarrow> 'db world option" where
  "pthread_rwlock_wrlock a w =
     (case rwlocks w a of
        RW_free \<Rightarrow> Some (w\<lparr>rwlocks := (rwlocks w)(a := RW_writer)\<rparr>)
      | _ \<Rightarrow> None)"

text \<open>Unlocking a lock that nobody holds is undefined.\<close>

definition pthread_rwlock_unlock :: "addr \<Rightarrow> 'db world \<Rightarrow> 'db world option" where
  "pthread_rwlock_unlock a w =
     (case rwlocks w a of
        RW_free \<Rightarrow> None
      | RW_readers n \<Rightarrow>
          Some (w\<lparr>rwlocks := (rwlocks w)(a := (if n \<le> 1 then RW_free else RW_readers (n - 1)))\<rparr>)
      | RW_writer \<Rightarrow> Some (w\<lparr>rwlocks := (rwlocks w)(a := RW_free)\<rparr>))"

definition i_lock :: "sorm_connection_t \<Rightarrow> rwlock_flag \<Rightarrow> 'db world \<Rightarrow> 'db world option" where
  "i_lock conn rwlock_flag w =
     (if sorm_semaphore_enabled (flags conn)
      then do { (ret, s) \<leftarrow> sem_p (sem_key conn) (sems w);
                Some (log_call Call_lock (w\<lparr>sems := s\<rparr>)) }
      else if sorm_rwlock_enabled (flags conn)
      then do { w \<leftarrow> (if rwlock_flag = SORM_RWLOCK_READ
                      then pthread_rwlock_rdlock (rwlock conn) w
                      else pthread_rwlock_wrlock (rwlock conn) w);
                Some (log_call Call_lock w) }
      else Some w)"

definition i_unlock :: "sorm_connection_t \<Rightarrow> 'db world \<Rightarrow> 'db world option" where
  "i_unlock conn w =
     (if sorm_semaphore_enabled (flags conn)
      then do { (ret, s) \<leftarrow> sem_v (sem_key conn) (sems w);
                Some (log_call Call_unlock (w\<lparr>sems := s\<rparr>)) }
      else if sorm_rwlock_enabled (flags conn)
      then do { w \<leftarrow> pthread_rwlock_unlock (rwlock conn) w;
                Some (log_call Call_unlock w) }
      else Some w)"

section \<open>Calls repeated while busy\<close>

text \<open>\<open>do { ret = f(...); retry_time ++; } while (ret == SQLITE_BUSY && retry_time < BUSY_RETRY_TIME)\<close>\<close>

function busy_retry :: "('w \<Rightarrow> int \<times> 'a \<times> 'w) \<Rightarrow> nat \<Rightarrow> 'w \<Rightarrow> int \<times> 'a \<times> 'w" where
  "busy_retry f retry_time w =
     (let (ret, x, w) = f w; retry_time = retry_time + 1 in
      if ret = SQLITE_BUSY \<and> retry_time < BUSY_RETRY_TIME then busy_retry f retry_time w
      else (ret, x, w))"
  by pat_completeness auto
termination
  by (relation "measure (\<lambda>(f, retry_time, w). BUSY_RETRY_TIME - retry_time)") auto

declare busy_retry.simps [simp del]

definition i_sqlite3_step ::
  "'db sqlite3_api \<Rightarrow> sorm_connection_t \<Rightarrow> stmt \<Rightarrow> rwlock_flag \<Rightarrow> 'db world \<Rightarrow>
   (int \<times> 'db world) option" where
  "i_sqlite3_step api conn stmt_handle rw_flag w =
     do { w \<leftarrow> (if transaction_num conn = 0 then i_lock conn rw_flag w else Some w);
          let (ret, u, w) = busy_retry (sq_step api stmt_handle) 0 w;
          w \<leftarrow> (if transaction_num conn = 0 then i_unlock conn w else Some w);
          Some (ret, w) }"

definition i_sqlite3_prepare ::
  "'db sqlite3_api \<Rightarrow> string \<Rightarrow> 'db world \<Rightarrow> int \<times> stmt \<times> 'db world" where
  "i_sqlite3_prepare api sql_stmt w = busy_retry (sq_prepare api sql_stmt) 0 w"

definition i_sqlite3_finalize :: "'db sqlite3_api \<Rightarrow> stmt \<Rightarrow> 'db world \<Rightarrow> int \<times> 'db world" where
  "i_sqlite3_finalize api stmt_handle w =
     (let (ret, u, w) = busy_retry (sq_finalize api stmt_handle) 0 w in (ret, w))"

section \<open>The tail every statement function shares\<close>

text \<open>
  \<open>DB_FINALIZE: ret = _sqlite3_finalize(conn, stmt_handle); if (ret != SQLITE_OK) return
  SORM_DB_ERROR; return ret_val;\<close>
\<close>

definition db_finalize ::
  "'db sqlite3_api \<Rightarrow> stmt \<Rightarrow> sorm_error_t \<Rightarrow> 'db world \<Rightarrow> sorm_error_t \<times> 'db world" where
  "db_finalize api stmt_handle ret_val w =
     (let (ret, w) = i_sqlite3_finalize api stmt_handle w in
      (if ret \<noteq> SQLITE_OK then SORM_DB_ERROR else ret_val, w))"

definition sorm_run_stmt ::
  "'db sqlite3_api \<Rightarrow> sorm_connection_t \<Rightarrow> string \<Rightarrow> rwlock_flag \<Rightarrow> 'db world \<Rightarrow>
   (sorm_error_t \<times> 'db world) option" where
  "sorm_run_stmt api conn sql_stmt rwlock_flag w =
     (let (ret, stmt_handle, w) = i_sqlite3_prepare api sql_stmt w in
      if ret \<noteq> SQLITE_OK then Some (SORM_DB_ERROR, w)
      else do { (ret, w) \<leftarrow> i_sqlite3_step api conn stmt_handle rwlock_flag w;
                let ret_val = (if ret \<noteq> SQLITE_DONE then SORM_DB_ERROR else SORM_OK);
                Some (db_finalize api stmt_handle ret_val w) })"

section \<open>What the calls leave alone\<close>

lemma log_call_simps [frame_simps, simp]:
  "db (log_call c w) = db w" "hp (log_call c w) = hp w" "sems (log_call c w) = sems w"
  "rwlocks (log_call c w) = rwlocks w" "calls (log_call c w) = calls w @ [c]"
  by (simp_all add: log_call_def)

text \<open>
  A call of SQLite changes the database and adds itself to the calls; memory and locks stay. The
  laws of such a call, and what they give for the repeated call.
\<close>

locale sqlite_call =
  fixes f :: "'db world \<Rightarrow> int \<times> 'a \<times> 'db world"
    and ev :: "int \<Rightarrow> 'a \<Rightarrow> call"
  assumes f_frame: "f w = (ret, x, w') \<Longrightarrow>
      hp w' = hp w \<and> sems w' = sems w \<and> rwlocks w' = rwlocks w \<and> calls w' = calls w @ [ev ret x]"
begin

text \<open>The calls made, all answered \<open>SQLITE_BUSY\<close> but the last; ten are made only when all are.\<close>

lemma retry_calls:
  assumes "n < BUSY_RETRY_TIME" and "busy_retry f n w = (ret, x, w')"
  shows "hp w' = hp w \<and> sems w' = sems w \<and> rwlocks w' = rwlocks w \<and>
    (\<exists>es. calls w' = calls w @ es @ [ev ret x] \<and> (\<forall>e \<in> set es. \<exists>y. e = ev SQLITE_BUSY y) \<and>
      length es < BUSY_RETRY_TIME - n \<and>
      (ret = SQLITE_BUSY \<longrightarrow> length es + 1 = BUSY_RETRY_TIME - n))"
  using assms
proof (induction "BUSY_RETRY_TIME - n" arbitrary: n w)
  case 0
  then show ?case by simp
next
  case (Suc k)
  obtain r y v where f: "f w = (r, y, v)" by (metis prod_cases3)
  note fr = f_frame [OF f]
  show ?case
  proof (cases "r = SQLITE_BUSY \<and> n + 1 < BUSY_RETRY_TIME")
    case True
    then have "busy_retry f (n + 1) v = (ret, x, w')"
      using Suc.prems(2) f by (simp add: busy_retry.simps [of f n w])
    moreover have "k = BUSY_RETRY_TIME - (n + 1)" using Suc.hyps(2) by simp
    ultimately obtain es where es: "hp w' = hp v" "sems w' = sems v" "rwlocks w' = rwlocks v"
        "calls w' = calls v @ es @ [ev ret x]" "\<forall>e \<in> set es. \<exists>y. e = ev SQLITE_BUSY y"
        "length es < BUSY_RETRY_TIME - (n + 1)"
        "ret = SQLITE_BUSY \<longrightarrow> length es + 1 = BUSY_RETRY_TIME - (n + 1)"
      using Suc.hyps(1) [of "n + 1" v] True by auto
    then have "calls w' = calls w @ (ev r y # es) @ [ev ret x]" using fr by simp
    with es fr True show ?thesis by (intro conjI exI [of _ "ev r y # es"]) auto
  next
    case False
    then have "(r, y, v) = (ret, x, w')"
      using Suc.prems(2) f by (auto simp: busy_retry.simps [of f n w])
    with fr False Suc.prems(1) show ?thesis by (auto intro!: exI [of _ "[]"])
  qed
qed

lemma retry_all_busy:
  assumes "\<And>v. fst (f v) = SQLITE_BUSY"
  shows "fst (busy_retry f n w) = SQLITE_BUSY"
proof (induction "BUSY_RETRY_TIME - n" arbitrary: n w rule: less_induct)
  case less
  obtain y v where f: "f w = (SQLITE_BUSY, y, v)" using assms [of w] by (metis fst_conv prod_cases3)
  show ?case
  proof (cases "n + 1 < BUSY_RETRY_TIME")
    case True
    then have "fst (busy_retry f (n + 1) v) = SQLITE_BUSY" by (intro less) simp
    with True f show ?thesis by (simp add: busy_retry.simps [of f n w])
  next
    case False
    with f show ?thesis by (simp add: busy_retry.simps [of f n w])
  qed
qed

lemma retry_frame:
  "busy_retry f 0 w = (ret, x, w') \<Longrightarrow>
   hp w' = hp w \<and> sems w' = sems w \<and> rwlocks w' = rwlocks w"
  using retry_calls [of 0 w ret x w'] by (simp add: BUSY_RETRY_TIME_def)

end

interpretation step_call: sqlite_call "sq_step api st" "\<lambda>ret x. Call_step st ret" for api st
  by unfold_locales (auto simp: sq_step_def split: prod.splits)

interpretation finalize_call: sqlite_call "sq_finalize api st" "\<lambda>ret x. Call_finalize st ret"
  for api st
  by unfold_locales (auto simp: sq_finalize_def split: prod.splits)

interpretation prepare_call: sqlite_call "sq_prepare api sql"
  "\<lambda>ret x. Call_prepare (take (nat SQL_STMT_MAX_LEN) sql) ret x" for api sql
  by unfold_locales (auto simp: sq_prepare_def Let_def split: prod.splits)

text \<open>The calls of a lock: it is free for a statement, taken, and free again.\<close>

definition lock_ready :: "sorm_connection_t \<Rightarrow> 'db world \<Rightarrow> bool" where
  "lock_ready conn w \<longleftrightarrow>
     (if sorm_semaphore_enabled (flags conn)
      then sem_usable (sems w) (sem_key conn) \<and> 0 < sem_count (sems w) (sem_key conn) \<and>
           sem_count (sems w) (sem_key conn) \<le> SEMVMX
      else sorm_rwlock_enabled (flags conn) \<longrightarrow> rwlocks w (rwlock conn) = RW_free)"

text \<open>Two worlds with the same locks: same free units and same lock states.\<close>

definition same_locks :: "'db world \<Rightarrow> 'db world \<Rightarrow> bool" where
  "same_locks w w' \<longleftrightarrow> (\<forall>k. sem_count (sems w') k = sem_count (sems w) k) \<and> rwlocks w' = rwlocks w"

lemma same_locks_refl [simp]: "same_locks w w"
  by (simp add: same_locks_def)

lemma same_locks_trans: "same_locks u v \<Longrightarrow> same_locks v w \<Longrightarrow> same_locks u w"
  by (simp add: same_locks_def)

definition lock_events :: "sorm_connection_t \<Rightarrow> call \<Rightarrow> call list" where
  "lock_events conn c =
     (if sorm_semaphore_enabled (flags conn) \<or> sorm_rwlock_enabled (flags conn) then [c] else [])"

lemma lock_taken:
  assumes "lock_ready conn w"
  shows "\<exists>w1. i_lock conn fl w = Some w1 \<and> hp w1 = hp w \<and> db w1 = db w \<and>
    calls w1 = calls w @ lock_events conn Call_lock \<and>
    (\<forall>w2. sems w2 = sems w1 \<longrightarrow> rwlocks w2 = rwlocks w1 \<longrightarrow>
      (\<exists>w3. i_unlock conn w2 = Some w3 \<and> hp w3 = hp w2 \<and> db w3 = db w2 \<and> same_locks w w3 \<and>
         lock_ready conn w3 \<and> calls w3 = calls w2 @ lock_events conn Call_unlock))"
proof -
  let ?k = "sem_key conn"
  consider (sem) "sorm_semaphore_enabled (flags conn)"
    | (rw) "\<not> sorm_semaphore_enabled (flags conn)" "sorm_rwlock_enabled (flags conn)"
    | (none) "\<not> sorm_semaphore_enabled (flags conn)" "\<not> sorm_rwlock_enabled (flags conn)" by blast
  then show ?thesis
  proof cases
    case sem
    with assms have u: "sem_usable (sems w) ?k" "0 < sem_count (sems w) ?k"
        "sem_count (sems w) ?k \<le> SEMVMX" by (simp_all add: lock_ready_def)
    then obtain s1 where p: "sem_p ?k (sems w) = Some (SEM_OK, s1)"
        and v1: "sem_val s1 = (sem_val (sems w))(?k \<mapsto> sem_count (sems w) ?k - 1)"
      using sem_p_takes by blast
    have "sem_usable s1 ?k" using v1 by (simp add: sem_usable_def)
    then obtain s2 where v: "sem_v ?k s1 = Some (SEM_OK, s2)"
        and v2: "sem_val s2 = (sem_val s1)(?k \<mapsto> sem_count (sems w) ?k)"
      using sem_v_gives [of s1 ?k] u(2,3) v1 by auto
    have "sem_count s2 k = sem_count (sems w) k" for k using v1 v2 by simp
    moreover have "sem_usable s2 ?k" using v2 by (simp add: sem_usable_def)
    ultimately show ?thesis using sem p v u
      by (auto simp: i_lock_def i_unlock_def same_locks_def lock_events_def lock_ready_def)
  next
    case rw
    then show ?thesis using assms
      by (auto simp: lock_ready_def i_lock_def i_unlock_def pthread_rwlock_rdlock_def
          pthread_rwlock_wrlock_def pthread_rwlock_unlock_def same_locks_def lock_events_def)
  next
    case none
    then show ?thesis by (auto simp: i_lock_def i_unlock_def same_locks_def lock_events_def lock_ready_def)
  qed
qed

text \<open>The calls of \<open>_sqlite3_step\<close>, with the lock around them outside a transaction.\<close>

definition step_events :: "sorm_connection_t \<Rightarrow> call list \<Rightarrow> call list" where
  "step_events conn cs =
     (if transaction_num conn = 0
      then lock_events conn Call_lock @ cs @ lock_events conn Call_unlock else cs)"

definition step_run :: "stmt \<Rightarrow> int \<Rightarrow> call list \<Rightarrow> bool" where
  "step_run st ret cs \<longleftrightarrow>
     (\<exists>n. cs = replicate n (Call_step st SQLITE_BUSY) @ [Call_step st ret] \<and> n < BUSY_RETRY_TIME \<and>
          (ret = SQLITE_BUSY \<longrightarrow> n + 1 = BUSY_RETRY_TIME))"

lemma all_eq_replicate: "(\<forall>x \<in> set xs. x = a) \<Longrightarrow> xs = replicate (length xs) a"
  by (induction xs) auto

lemma step_returns:
  assumes "transaction_num conn = 0 \<longrightarrow> lock_ready conn w"
  shows "\<exists>ret w' cs. i_sqlite3_step api conn st fl w = Some (ret, w') \<and> same_locks w w' \<and>
    hp w' = hp w \<and> calls w' = calls w @ step_events conn cs \<and> step_run st ret cs \<and>
    (transaction_num conn = 0 \<longrightarrow> lock_ready conn w')"
proof -
  have retry: "\<exists>cs. hp v' = hp v \<and> sems v' = sems v \<and> rwlocks v' = rwlocks v \<and>
      calls v' = calls v @ cs \<and> step_run st ret cs"
    if "busy_retry (sq_step api st) 0 v = (ret, u, v')" for v v' ret u
  proof -
    from step_call.retry_calls [OF _ that] obtain es where
      "hp v' = hp v" "sems v' = sems v" "rwlocks v' = rwlocks v"
      "calls v' = calls v @ es @ [Call_step st ret]" "\<forall>e \<in> set es. e = Call_step st SQLITE_BUSY"
      "length es < BUSY_RETRY_TIME" "ret = SQLITE_BUSY \<longrightarrow> length es + 1 = BUSY_RETRY_TIME"
      by (auto simp: BUSY_RETRY_TIME_def)
    then show ?thesis using all_eq_replicate [of es] by (auto simp: step_run_def)
  qed
  show ?thesis
  proof (cases "transaction_num conn = 0")
    case True
    with assms lock_taken [of conn w fl] obtain w1 where w1: "i_lock conn fl w = Some w1"
        "hp w1 = hp w" "calls w1 = calls w @ lock_events conn Call_lock"
        "\<And>w2. sems w2 = sems w1 \<Longrightarrow> rwlocks w2 = rwlocks w1 \<Longrightarrow>
          \<exists>w3. i_unlock conn w2 = Some w3 \<and> hp w3 = hp w2 \<and> same_locks w w3 \<and> lock_ready conn w3 \<and>
             calls w3 = calls w2 @ lock_events conn Call_unlock" by metis
    obtain ret u w2 where r: "busy_retry (sq_step api st) 0 w1 = (ret, u, w2)" by (metis prod_cases3)
    from retry [OF r] w1(4) [of w2] obtain cs w3 where
      "hp w2 = hp w1" "calls w2 = calls w1 @ cs" "step_run st ret cs"
      "i_unlock conn w2 = Some w3" "hp w3 = hp w2" "same_locks w w3" "lock_ready conn w3"
      "calls w3 = calls w2 @ lock_events conn Call_unlock" by auto
    with True w1 r show ?thesis by (simp add: i_sqlite3_step_def step_events_def)
  next
    case False
    obtain ret u w2 where r: "busy_retry (sq_step api st) 0 w = (ret, u, w2)" by (metis prod_cases3)
    from retry [OF r] False r show ?thesis
      by (auto simp: i_sqlite3_step_def step_events_def same_locks_def)
  qed
qed

section \<open>The life of a statement\<close>

text \<open>
  Abstract specification of a function that runs one statement: which calls it makes, in which
  order, and what it returns. The text \<open>sql\<close> is prepared (again while busy), the values \<open>bs\<close> are
  bound in order, the statement is run under the lock, and finalized (again while busy).
\<close>

definition prepare_run :: "string \<Rightarrow> int \<Rightarrow> stmt \<Rightarrow> call list \<Rightarrow> bool" where
  "prepare_run sql ret st cs \<longleftrightarrow>
     (\<exists>es. cs = es @ [Call_prepare (take 1023 sql) ret st] \<and>
           (\<forall>e \<in> set es. \<exists>y. e = Call_prepare (take 1023 sql) SQLITE_BUSY y) \<and>
           length es < BUSY_RETRY_TIME \<and>
           (ret = SQLITE_BUSY \<longrightarrow> length es + 1 = BUSY_RETRY_TIME))"

definition finalize_run :: "stmt \<Rightarrow> int \<Rightarrow> call list \<Rightarrow> bool" where
  "finalize_run st ret cs \<longleftrightarrow>
     (\<exists>n. cs = replicate n (Call_finalize st SQLITE_BUSY) @ [Call_finalize st ret] \<and>
          n < BUSY_RETRY_TIME \<and> (ret = SQLITE_BUSY \<longrightarrow> n + 1 = BUSY_RETRY_TIME))"

definition bind_calls :: "stmt \<Rightarrow> (int \<times> bind_value) list \<Rightarrow> call list" where
  "bind_calls st bs = map (\<lambda>(i, v). Call_bind st i v SQLITE_OK) bs"

inductive stmt_protocol ::
  "sorm_connection_t \<Rightarrow> string \<Rightarrow> (int \<times> bind_value) list \<Rightarrow> sorm_error_t \<Rightarrow> call list \<Rightarrow> bool"
  for conn sql bs where
  not_prepared: "prepare_run sql ret st ps \<Longrightarrow> ret \<noteq> SQLITE_OK \<Longrightarrow>
     stmt_protocol conn sql bs SORM_DB_ERROR ps"
| not_bound: "prepare_run sql SQLITE_OK st ps \<Longrightarrow> bs = done @ (i, v) # rest \<Longrightarrow> ret \<noteq> SQLITE_OK \<Longrightarrow>
     finalize_run st f fs \<Longrightarrow>
     stmt_protocol conn sql bs SORM_DB_ERROR
       (ps @ bind_calls st done @ [Call_bind st i v ret] @ fs)"
| executed: "prepare_run sql SQLITE_OK st ps \<Longrightarrow> step_run st r ss \<Longrightarrow> finalize_run st f fs \<Longrightarrow>
     stmt_protocol conn sql bs (if f = SQLITE_OK \<and> r = SQLITE_DONE then SORM_OK else SORM_DB_ERROR)
       (ps @ bind_calls st bs @ step_events conn ss @ fs)"

inductive_cases stmt_protocolE: "stmt_protocol conn sql bs ret cs"

lemma prepare_returns:
  assumes "i_sqlite3_prepare api sql w = (ret, st, w')"
  shows "\<exists>cs. hp w' = hp w \<and> sems w' = sems w \<and> rwlocks w' = rwlocks w \<and>
    calls w' = calls w @ cs \<and> prepare_run sql ret st cs"
proof -
  have b: "0 < BUSY_RETRY_TIME" by (simp add: BUSY_RETRY_TIME_def)
  from prepare_call.retry_calls [OF b assms [unfolded i_sqlite3_prepare_def]]
  show ?thesis by (auto simp: prepare_run_def SQL_STMT_MAX_LEN_def)
qed

lemma finalize_returns:
  assumes "i_sqlite3_finalize api st w = (ret, w')"
  shows "\<exists>cs. hp w' = hp w \<and> sems w' = sems w \<and> rwlocks w' = rwlocks w \<and>
    calls w' = calls w @ cs \<and> finalize_run st ret cs"
proof -
  have b: "0 < BUSY_RETRY_TIME" by (simp add: BUSY_RETRY_TIME_def)
  from assms obtain u where "busy_retry (sq_finalize api st) 0 w = (ret, u, w')"
    by (auto simp: i_sqlite3_finalize_def split: prod.splits)
  from finalize_call.retry_calls [OF b this] obtain es where
    "hp w' = hp w" "sems w' = sems w" "rwlocks w' = rwlocks w"
    "calls w' = calls w @ es @ [Call_finalize st ret]"
    "\<forall>e \<in> set es. e = Call_finalize st SQLITE_BUSY" "length es < BUSY_RETRY_TIME"
    "ret = SQLITE_BUSY \<longrightarrow> length es + 1 = BUSY_RETRY_TIME" by auto
  then show ?thesis using all_eq_replicate [of es] by (auto simp: finalize_run_def)
qed

lemma db_finalize_returns:
  assumes "db_finalize api st rv w = (ret, w')"
  shows "\<exists>f cs. ret = (if f \<noteq> SQLITE_OK then SORM_DB_ERROR else rv) \<and> hp w' = hp w \<and>
    sems w' = sems w \<and> rwlocks w' = rwlocks w \<and> calls w' = calls w @ cs \<and> finalize_run st f cs"
proof -
  obtain f w1 where f: "i_sqlite3_finalize api st w = (f, w1)" by fastforce
  from finalize_returns [OF f] obtain cs where cs: "hp w1 = hp w" "sems w1 = sems w"
    "rwlocks w1 = rwlocks w" "calls w1 = calls w @ cs" "finalize_run st f cs" by blast
  have "w' = w1" and "ret = (if f \<noteq> SQLITE_OK then SORM_DB_ERROR else rv)"
    using assms f by (simp_all add: db_finalize_def)
  with cs show ?thesis by (intro exI [of _ f] exI [of _ cs]) simp
qed

text \<open>A run that returns, leaves the locks and the heap as they were and follows the protocol.\<close>

definition runs_stmt ::
  "sorm_connection_t \<Rightarrow> string \<Rightarrow> (int \<times> bind_value) list \<Rightarrow> 'db world \<Rightarrow>
   (sorm_error_t \<times> 'db world) option \<Rightarrow> bool" where
  "runs_stmt conn sql bs w res \<longleftrightarrow>
     (\<exists>ret w' cs. res = Some (ret, w') \<and> same_locks w w' \<and> hp w' = hp w \<and>
        calls w' = calls w @ cs \<and> stmt_protocol conn sql bs ret cs)"

lemma run_stmt_runs:
  assumes "transaction_num conn = 0 \<longrightarrow> lock_ready conn w"
  shows "runs_stmt conn sql [] w (sorm_run_stmt api conn sql fl w)"
proof -
  obtain ret st w1 where p: "i_sqlite3_prepare api sql w = (ret, st, w1)" by (metis prod_cases3)
  from prepare_returns [OF p] obtain ps where ps: "hp w1 = hp w" "sems w1 = sems w"
    "rwlocks w1 = rwlocks w" "calls w1 = calls w @ ps" "prepare_run sql ret st ps" by auto
  show ?thesis
  proof (cases "ret = SQLITE_OK")
    case False
    with p ps show ?thesis
      by (auto simp: runs_stmt_def sorm_run_stmt_def same_locks_def intro: stmt_protocol.not_prepared)
  next
    case True
    have "transaction_num conn = 0 \<longrightarrow> lock_ready conn w1"
      using assms ps by (simp add: lock_ready_def)
    from step_returns [OF this, of api st fl] obtain r w2 ss where
      s: "i_sqlite3_step api conn st fl w1 = Some (r, w2)" "same_locks w1 w2" "hp w2 = hp w1"
        "calls w2 = calls w1 @ step_events conn ss" "step_run st r ss" by auto
    let ?rv = "if r \<noteq> SQLITE_DONE then SORM_DB_ERROR else SORM_OK"
    obtain e w3 where f: "db_finalize api st ?rv w2 = (e, w3)" by fastforce
    from db_finalize_returns [OF f] obtain fr fs where
      fs0: "e = (if fr \<noteq> SQLITE_OK then SORM_DB_ERROR else ?rv)" and fs: "hp w3 = hp w2"
        "sems w3 = sems w2" "rwlocks w3 = rwlocks w2" "calls w3 = calls w2 @ fs"
        "finalize_run st fr fs" by blast
    have e: "e = (if fr = SQLITE_OK \<and> r = SQLITE_DONE then SORM_OK else SORM_DB_ERROR)"
      using fs0 by simp
    have run: "sorm_run_stmt api conn sql fl w = Some (e, w3)"
      using p True s(1) f by (simp add: sorm_run_stmt_def)
    have "stmt_protocol conn sql [] e (ps @ bind_calls st [] @ step_events conn ss @ fs)"
      unfolding e using True ps(5) s(5) fs(5) by (intro stmt_protocol.executed) simp_all
    moreover have "calls w3 = calls w @ ps @ bind_calls st [] @ step_events conn ss @ fs"
      using ps s fs by (simp add: bind_calls_def)
    moreover have "same_locks w w3" using ps s fs by (simp add: same_locks_def)
    ultimately show ?thesis using run ps s fs unfolding runs_stmt_def by metis
  qed
qed

section \<open>A scripted database\<close>

text \<open>
  An instance of the SQLite parameter for concrete runs: the state is the list of answers, each call
  takes the next one (0 when none is left), every statement has handle 1 and every value is \<open>NULL\<close>.
\<close>

definition answer :: "int list \<Rightarrow> int" where
  "answer d = (case d of [] \<Rightarrow> 0 | a # _ \<Rightarrow> a)"

definition script_api :: "int list sqlite3_api" where
  "script_api = \<lparr>
     sqlite3_open = (\<lambda>path d. (answer d, tl d)),
     sqlite3_close = (\<lambda>d. (answer d, tl d)),
     sqlite3_prepare = (\<lambda>sql d. (answer d, 1, tl d)),
     sqlite3_bind = (\<lambda>st i v d. (answer d, tl d)),
     sqlite3_step = (\<lambda>st d. (answer d, tl d)),
     sqlite3_finalize = (\<lambda>st d. (answer d, tl d)),
     sqlite3_column_type = (\<lambda>st i d. SQLITE_NULL),
     sqlite3_column_int = (\<lambda>st i d. 0),
     sqlite3_column_int64 = (\<lambda>st i d. 0),
     sqlite3_column_double = (\<lambda>st i d. 0),
     sqlite3_column_text = (\<lambda>st i d. None),
     sqlite3_column_blob = (\<lambda>st i d. None),
     sqlite3_column_bytes = (\<lambda>st i d. 0),
     sqlite3_last_insert_rowid = (\<lambda>d. 7),
     sqlite3_changes = (\<lambda>d. 0)\<rparr>"

definition start_world :: "'db \<Rightarrow> 'db world" where
  "start_world d = \<lparr>db = d, hp = \<lparr>blocks = Map.empty, brk = 2, room = 65536\<rparr>,
     sems = \<lparr>sem_val = Map.empty, sem_room = 8\<rparr>, rwlocks = (\<lambda>_. RW_free), calls = []\<rparr>"

definition sem_conn :: sorm_connection_t where
  "sem_conn = \<lparr>db_type = SORM_DB_SQLITE, transaction_num = 0, sem_key = 1639, rwlock = 0, flags = SORM_ENABLE_SEMAPHORE\<rparr>"

lemma sem_conn_simps [simp]:
  "transaction_num sem_conn = 0" "sem_key sem_conn = 1639"
  "sorm_semaphore_enabled (flags sem_conn)"
  "lock_ready sem_conn (start_world d)"
  by (simp_all add: sem_conn_def sorm_semaphore_enabled_def lock_ready_def start_world_def
      sem_usable_def sem_count_def SEMVMX_def)

lemma calls_start_world [simp]: "calls (start_world d) = []"
  by (simp add: start_world_def)

section \<open>Properties\<close>

text \<open>
  C21: \<open>_sqlite3_step\<close> outside a transaction, when its lock can be taken: it returns, the lock is
  taken before the first and released after the last \<open>sqlite3_step\<close> and all locks are as before, and
  \<open>sqlite3_step\<close> is called on the same statement at most ten times, again only after
  \<open>SQLITE_BUSY\<close>, so that \<open>SQLITE_BUSY\<close> is returned only after ten tries.
\<close>

theorem step_under_lock:
  assumes "transaction_num conn = 0" and "lock_ready conn w"
  shows "\<exists>ret w' n. i_sqlite3_step api conn st fl w = Some (ret, w') \<and> same_locks w w' \<and>
    calls w' = calls w @ lock_events conn Call_lock @
      replicate n (Call_step st SQLITE_BUSY) @ [Call_step st ret] @ lock_events conn Call_unlock \<and>
    n < 10 \<and> (ret = SQLITE_BUSY \<longrightarrow> n = 9)"
  using step_returns [of conn w api st fl] assms
  by (fastforce simp: step_events_def step_run_def BUSY_RETRY_TIME_def)

theorem step_under_lock_witness:
  "\<exists>ret w' n. i_sqlite3_step script_api sem_conn 1 SORM_RWLOCK_WRITE (start_world [5, 101])
      = Some (ret, w') \<and> calls w' = Call_lock # replicate n (Call_step 1 SQLITE_BUSY)
        @ [Call_step 1 ret, Call_unlock] \<and> n < 10"
  using step_under_lock [of sem_conn "start_world [5, 101]" script_api 1 SORM_RWLOCK_WRITE]
  by (auto simp: lock_events_def)

text \<open>
  C20: \<open>sorm_run_stmt\<close> implements the protocol of a statement, on every answer of SQLite: it
  returns \<open>SORM_OK\<close> exactly when the text was prepared, the run ended with \<open>SQLITE_DONE\<close> and the
  statement was finalized without an error, a prepared statement is finalized before it returns,
  and heap and locks are as before.
\<close>

theorem run_stmt_protocol:
  assumes "transaction_num conn = 0 \<longrightarrow> lock_ready conn w"
  shows "\<exists>ret w' cs. sorm_run_stmt api conn sql fl w = Some (ret, w') \<and> same_locks w w' \<and>
    hp w' = hp w \<and> calls w' = calls w @ cs \<and> stmt_protocol conn sql [] ret cs"
  using run_stmt_runs [OF assms, of sql api fl] by (simp add: runs_stmt_def)

theorem run_stmt_protocol_witness:
  "\<exists>ret w' cs. sorm_run_stmt script_api sem_conn ''PRAGMA foreign_keys = ON'' SORM_RWLOCK_WRITE
      (start_world [0, 101, 0]) = Some (ret, w') \<and> calls w' = cs \<and>
    stmt_protocol sem_conn ''PRAGMA foreign_keys = ON'' [] ret cs"
  using run_stmt_protocol [of sem_conn "start_world [0, 101, 0]" script_api
      "''PRAGMA foreign_keys = ON''" SORM_RWLOCK_WRITE] by auto

text \<open>
  When SQLite answers \<open>SQLITE_BUSY\<close> to \<open>sqlite3_finalize\<close>, as it does for a statement whose last
  run ended so, \<open>_sqlite3_finalize\<close> finalizes the same statement ten times, although the first call
  has destroyed it.
\<close>

theorem finalize_again_while_busy:
  assumes "\<And>d. fst (sqlite3_finalize api st d) = SQLITE_BUSY"
  shows "\<exists>w'. i_sqlite3_finalize api st w = (SQLITE_BUSY, w') \<and>
    calls w' = calls w @ replicate 10 (Call_finalize st SQLITE_BUSY)"
proof -
  obtain ret w' where r: "i_sqlite3_finalize api st w = (ret, w')" by fastforce
  from finalize_returns [OF r] obtain n where
    n: "calls w' = calls w @ replicate n (Call_finalize st SQLITE_BUSY) @ [Call_finalize st ret]"
      "ret = SQLITE_BUSY \<longrightarrow> n + 1 = BUSY_RETRY_TIME" by (auto simp: finalize_run_def)
  have "fst (sq_finalize api st v) = SQLITE_BUSY" for v
    using assms [of "db v"] by (cases "sqlite3_finalize api st (db v)") (simp add: sq_finalize_def)
  then have "fst (busy_retry (sq_finalize api st) 0 w) = SQLITE_BUSY"
    by (rule finalize_call.retry_all_busy)
  with r have ret: "ret = SQLITE_BUSY"
    by (auto simp: i_sqlite3_finalize_def split: prod.splits)
  have "replicate 9 x @ [x] = replicate 10 x" for x :: call
    by (simp add: replicate_append_same numeral_eq_Suc)
  with n ret r show ?thesis by (auto simp: BUSY_RETRY_TIME_def)
qed

theorem finalize_again_while_busy_witness:
  "\<exists>w'. i_sqlite3_finalize (script_api\<lparr>sqlite3_finalize := \<lambda>st d. (SQLITE_BUSY, d)\<rparr>) 1 (start_world [])
      = (SQLITE_BUSY, w') \<and> calls w' = replicate 10 (Call_finalize 1 SQLITE_BUSY)"
  using finalize_again_while_busy
    [of "script_api\<lparr>sqlite3_finalize := \<lambda>st d. (SQLITE_BUSY, d)\<rparr>" 1 "start_world []"] by simp

end
