(* ===== verification/Sorm_Strings.thy ===== *)
theory Sorm_Strings
  imports Sorm_Memory
begin

text \<open>
  The string routines of \<^verbatim>\<open>src/src/sorm.c\<close>: \<open>trim\<close>, \<open>_fix_string\<close> (doubling of single quotes,
  from right to left so that source and destination may be the same buffer), the filter and
  statement builders and the index suffix. Characters are stored one by one with the bounds of the
  arrays checked.
\<close>

section \<open>Blanks and \<open>trim\<close>\<close>

definition blank :: "char \<Rightarrow> bool" where
  "blank c \<longleftrightarrow> c = CHR '' '' \<or> c = CHR 0x09"

text \<open>
  A buffer that \<open>strdup\<close> gave, with its NUL, and indexes into it. The three loops of \<open>trim\<close>; the
  last one walks down and may leave the buffer.
\<close>

function trim_head :: "char list \<Rightarrow> int \<Rightarrow> int option" where
  "trim_head b p =
     (case nth_opt b p of None \<Rightarrow> None
      | Some c \<Rightarrow> if blank c then trim_head b (p + 1) else Some p)"
  by pat_completeness auto
termination
  by (relation "measure (\<lambda>(b, p). nat (int (length b) - p))")
    (auto simp: nth_opt_def split: if_splits)

function trim_find_end :: "char list \<Rightarrow> int \<Rightarrow> int option" where
  "trim_find_end b e =
     (case nth_opt b e of None \<Rightarrow> None
      | Some c \<Rightarrow> if c \<noteq> NUL then trim_find_end b (e + 1) else Some e)"
  by pat_completeness auto
termination
  by (relation "measure (\<lambda>(b, e). nat (int (length b) - e))")
    (auto simp: nth_opt_def split: if_splits)

function trim_tail :: "char list \<Rightarrow> int \<Rightarrow> char list option" where
  "trim_tail b e =
     (case nth_opt b e of None \<Rightarrow> None
      | Some c \<Rightarrow> if blank c then trim_tail (b[nat e := NUL]) (e - 1) else Some b)"
  by pat_completeness auto
termination
  by (relation "measure (\<lambda>(b, e). nat (e + 1))") (auto simp: nth_opt_def split: if_splits)

declare trim_head.simps [simp del] trim_find_end.simps [simp del] trim_tail.simps [simp del]

text \<open>\<open>trim(&str, str_end)\<close>: the buffer after it and the new start; \<open>None\<close> for a \<open>NULL\<close> end.\<close>

definition trim :: "char list \<Rightarrow> int \<Rightarrow> int option \<Rightarrow> (char list \<times> int) option" where
  "trim b str str_end =
     do { str \<leftarrow> trim_head b str;
          str_end \<leftarrow> (case str_end of None \<Rightarrow> trim_find_end b str | Some e \<Rightarrow> Some e);
          b \<leftarrow> trim_tail b (str_end - 1);
          Some (b, str) }"

text \<open>Reference: blanks taken off both ends.\<close>

definition strip :: "string \<Rightarrow> string" where
  "strip s = rev (dropWhile blank (rev (dropWhile blank s)))"

lemma blank_NUL [simp]: "\<not> blank NUL"
  by (simp add: blank_def)

lemma trim_head_seg:
  "trim_head (pre @ seg @ NUL # post) (int (length pre))
   = Some (int (length pre + length (takeWhile blank seg)))"
proof (induction seg arbitrary: pre)
  case Nil
  show ?case by (subst trim_head.simps) (simp add: nth_opt_def)
next
  case (Cons c seg)
  have IH: "trim_head (pre @ c # seg @ NUL # post) (1 + int (length pre))
      = Some (1 + int (length pre) + int (length (takeWhile blank seg)))"
    using Cons.IH [of "pre @ [c]"] by (simp add: algebra_simps)
  show ?case
  proof (cases "blank c")
    case True
    then show ?thesis
      using IH by (subst trim_head.simps) (simp add: nth_opt_def nth_append add.commute)
  next
    case False
    then show ?thesis by (subst trim_head.simps) (simp add: nth_opt_def nth_append)
  qed
qed

lemma trim_find_end_seg:
  "no_nul seg \<Longrightarrow> trim_find_end (pre @ seg @ NUL # post) (int (length pre))
   = Some (int (length pre + length seg))"
proof (induction seg arbitrary: pre)
  case Nil
  show ?case by (subst trim_find_end.simps) (simp add: nth_opt_def)
next
  case (Cons c seg)
  have IH: "trim_find_end (pre @ c # seg @ NUL # post) (1 + int (length pre))
      = Some (1 + int (length pre) + int (length seg))"
    using Cons.IH [of "pre @ [c]"] Cons.prems by (simp add: algebra_simps)
  with Cons.prems show ?case
    by (subst trim_find_end.simps) (simp add: nth_opt_def nth_append add.commute)
qed

lemma trim_tail_seg:
  assumes "list_all blank bl" and "xs \<noteq> []" and "\<not> blank (last xs)"
  shows "trim_tail (xs @ bl @ post) (int (length xs + length bl) - 1)
    = Some (xs @ replicate (length bl) NUL @ post)"
  using assms(1)
proof (induction bl arbitrary: post rule: rev_induct)
  case Nil
  have l: "nat (int (length xs) - 1) = length xs - 1" by simp
  from assms(2,3) show ?case
    by (subst trim_tail.simps) (simp add: nth_opt_def nth_append l last_conv_nth Suc_le_eq)
next
  case (snoc c bl)
  let ?n = "length xs + length bl"
  have upd: "(xs @ (bl @ [c]) @ post)[?n := NUL] = xs @ bl @ (NUL # post)"
    by (simp add: list_update_append)
  have idx: "(xs @ (bl @ [c]) @ post) ! ?n = c" by (simp add: nth_append)
  have "trim_tail (xs @ bl @ NUL # post) (int ?n - 1)
      = Some (xs @ replicate (length bl) NUL @ (NUL # post))"
    using snoc.IH [of "NUL # post"] snoc.prems by simp
  moreover have "replicate (length bl) NUL @ NUL # post = NUL # replicate (length bl) NUL @ post"
    by (simp add: replicate_append_same [symmetric])
  ultimately show ?case
    using snoc.prems idx upd
    by (subst trim_tail.simps) (simp add: nth_opt_def nat_int_add nth_append)
qed

lemma strip_split:
  assumes "\<not> list_all blank seg"
  obtains bl where "list_all blank bl"
    and "seg = takeWhile blank seg @ strip seg @ bl" and "strip seg \<noteq> []"
    and "\<not> blank (last (strip seg))"
proof -
  let ?d = "dropWhile blank seg"
  let ?bl = "rev (takeWhile blank (rev ?d))"
  have d: "?d \<noteq> []" using assms by (simp add: dropWhile_eq_Nil_conv list_all_iff)
  have dd: "?d = strip seg @ ?bl"
    unfolding strip_def by (metis rev_append rev_rev_ident takeWhile_dropWhile_id)
  have "\<not> blank (hd ?d)" using d by (rule hd_dropWhile)
  then have ne: "dropWhile blank (rev ?d) \<noteq> []"
    using d by (metis dropWhile_eq_Nil_conv hd_in_set set_rev)
  have "\<not> blank (hd (dropWhile blank (rev ?d)))" using ne by (rule hd_dropWhile)
  then have "\<not> blank (last (strip seg))" using ne by (simp add: strip_def last_rev)
  moreover have "strip seg \<noteq> []" using ne by (simp add: strip_def)
  moreover have "list_all blank ?bl"
    by (metis list_all_iff set_rev set_takeWhileD)
  moreover have "seg = takeWhile blank seg @ strip seg @ ?bl"
    using dd by (metis takeWhile_dropWhile_id)
  ultimately show thesis using that by blast
qed

text \<open>
  On a segment that is not all blanks, \<open>trim\<close> returns the start of the stripped text, which is
  followed by a NUL, and leaves everything before and after the segment alone.
\<close>

lemma trim_segment:
  assumes "\<not> list_all blank seg" and "no_nul seg"
    and "str_end = None \<or> str_end = Some (int (length pre + length seg))"
  shows "\<exists>k. trim (pre @ seg @ NUL # post) (int (length pre)) str_end
     = Some (pre @ takeWhile blank seg @ strip seg @ replicate k NUL @ NUL # post,
             int (length pre + length (takeWhile blank seg)))"
proof -
  obtain bl where bl: "list_all blank bl" and seg: "seg = takeWhile blank seg @ strip seg @ bl"
    and ne: "strip seg \<noteq> []" "\<not> blank (last (strip seg))"
    using strip_split [OF assms(1)] .
  let ?hd = "takeWhile blank seg" and ?b = "pre @ seg @ NUL # post"
  let ?xs = "pre @ ?hd @ strip seg"
  have drop: "no_nul (strip seg @ bl)" using seg assms(2) by (metis no_nul_simps(3))
  have b: "?b = (pre @ ?hd) @ (strip seg @ bl) @ NUL # post" using seg by simp
  have "length (pre @ ?hd) + length (strip seg @ bl) = length pre + length seg"
    using seg by (metis add.assoc append_assoc length_append)
  with trim_find_end_seg [OF drop, of "pre @ ?hd" post]
  have fe: "trim_find_end ?b (int (length pre + length ?hd)) = Some (int (length pre + length seg))"
    unfolding b by (simp only: length_append)
  have len: "length ?xs + length bl = length pre + length seg"
    using seg by (metis add.assoc append_assoc length_append)
  have tl: "trim_tail ?b (int (length pre + length seg) - 1)
      = Some (?xs @ replicate (length bl) NUL @ NUL # post)"
  proof -
    have b': "?b = ?xs @ bl @ NUL # post" using seg by simp
    have "trim_tail (?xs @ bl @ NUL # post) (int (length ?xs + length bl) - 1)
        = Some (?xs @ replicate (length bl) NUL @ NUL # post)"
      using ne by (intro trim_tail_seg bl) auto
    then show ?thesis unfolding b' len .
  qed
  show ?thesis
    using assms(3) trim_head_seg [of pre seg post] fe tl by (auto simp: trim_def)
qed

section \<open>\<open>_fix_string\<close>\<close>

abbreviation quote :: char where
  "quote \<equiv> CHR 0x27"

text \<open>Reference: every single quote doubled.\<close>

definition escape :: "string \<Rightarrow> string" where
  "escape s = concat (map (\<lambda>c. if c = quote then [quote, quote] else [c]) s)"

text \<open>
  The counting loop looks at the character after the one it counts, so the quote at index 0 is not
  seen: the result is \<open>fixed_string_len\<close> before \<open>string_len\<close> is added.
\<close>

fun fix_count :: "string \<Rightarrow> int" where
  "fix_count [] = 0"
| "fix_count [c] = 0"
| "fix_count (c # d # cs) = (if d = quote then 1 else 0) + fix_count (d # cs)"

text \<open>
  The copying loop: \<open>i\<close> runs down the destination, \<open>iter\<close> down the source. The source is read through
  \<open>rd\<close>, which gets the current destination: the two may be the same buffer.
\<close>

function fix_copy :: "(cbuf \<Rightarrow> int \<Rightarrow> char option) \<Rightarrow> cbuf \<Rightarrow> int \<Rightarrow> int \<Rightarrow> cbuf option" where
  "fix_copy rd fixed i iter =
     (if i < 0 then Some fixed
      else do { c \<leftarrow> rd fixed iter;
                fixed \<leftarrow> buf_put fixed i c;
                c \<leftarrow> rd fixed iter;
                if c = quote
                then do { fixed \<leftarrow> buf_put fixed (i - 1) c; fix_copy rd fixed (i - 2) (iter - 1) }
                else fix_copy rd fixed (i - 1) (iter - 1) })"
  by pat_completeness auto
termination
  by (relation "measure (\<lambda>(rd, fixed, i, iter). nat (i + 1))") auto

declare fix_copy.simps [simp del]

definition i_fix_string ::
  "(cbuf \<Rightarrow> int \<Rightarrow> char option) \<Rightarrow> string \<Rightarrow> cbuf \<Rightarrow> int \<Rightarrow> (sorm_error_t \<times> cbuf) option" where
  "i_fix_string rd str fixed_string len =
     (let string_len = int (length str);
          fixed_string_len = fix_count str + string_len in
      if fixed_string_len \<ge> len then Some (SORM_TOO_LONG, fixed_string)
      else do { b \<leftarrow> fix_copy rd fixed_string fixed_string_len string_len; Some (SORM_OK, b) })"

text \<open>The two ways to call it: \<open>sorm_fix_string(s, buf, len)\<close> and \<open>sorm_fix_string(buf, buf, len)\<close>.\<close>

definition read_other :: "string \<Rightarrow> cbuf \<Rightarrow> int \<Rightarrow> char option" where
  "read_other str b i = nth_opt (str @ [NUL]) i"

definition sorm_fix_string :: "string \<Rightarrow> cbuf \<Rightarrow> int \<Rightarrow> (sorm_error_t \<times> cbuf) option" where
  "sorm_fix_string str fixed_string len = i_fix_string (read_other str) str fixed_string len"

definition sorm_fix_string_same :: "cbuf \<Rightarrow> int \<Rightarrow> (sorm_error_t \<times> cbuf) option" where
  "sorm_fix_string_same b len = i_fix_string buf_get (cstr b) b len"

lemma escape_simps [simp]:
  "escape [] = []"
  "escape (c # s) = (if c = quote then [quote, quote] else [c]) @ escape s"
  "escape (s @ t) = escape s @ escape t"
  by (simp_all add: escape_def)

lemma length_escape: "length (escape s) = length s + count_list s quote"
  by (induction s) auto

lemma length_escape_ge: "length s \<le> length (escape s)"
  by (simp add: length_escape)

lemma no_nul_escape [simp]: "no_nul (escape s) \<longleftrightarrow> no_nul s"
  by (induction s) auto

lemma fix_count_eq: "fix_count s = int (count_list (tl s) quote)"
  by (induction s rule: fix_count.induct) auto

lemma fixed_len_eq:
  "s = [] \<or> hd s \<noteq> quote \<Longrightarrow> fix_count s + int (length s) = int (length (escape s))"
  by (cases s) (auto simp: fix_count_eq length_escape)

lemma fixed_len_leading:
  "fix_count (quote # s) + int (length (quote # s)) = int (length (escape s)) + 1"
  by (simp add: fix_count_eq length_escape)

text \<open>Reading back what \<open>buf_put\<close> stored.\<close>

lemma buf_put_Some:
  "0 \<le> i \<Longrightarrow> i < int (cap b) \<Longrightarrow> \<exists>b'. buf_put b i c = Some b' \<and> cap b' = cap b"
  by (auto simp: buf_put_def buf_write_def)

lemma buf_put_get:
  assumes "buf_put b i c = Some b'"
  shows "buf_get b' k = (if k = i then Some c else buf_get b k)"
proof -
  from assms have i: "0 \<le> i" "nat i < cap b" and b': "b' = b\<lparr>bytes := take (nat i) (bytes b)
      @ replicate (nat i - length (bytes b)) NUL @ [c] @ drop (nat i + 1) (bytes b)\<rparr>"
    by (auto simp: buf_put_def buf_write_def split: if_splits)
  show ?thesis
  proof (cases "0 \<le> k \<and> k < int (cap b)")
    case True
    then obtain n where k: "k = int n" "n < cap b" by (metis nonneg_int_cases of_nat_less_iff)
    from i obtain m where m: "i = int m" by (metis nonneg_int_cases)
    show ?thesis
      unfolding b' using k i m
      by (auto simp: buf_get_def nth_append nth_Cons' not_less min_def split: if_splits)
  next
    case False
    with i b' show ?thesis by (auto simp: buf_get_def)
  qed
qed

lemma buf_put_cap: "buf_put b i c = Some b' \<Longrightarrow> cap b' = cap b"
  by (auto simp: buf_put_def dest: cap_buf_write)

lemma cstr_by_get:
  assumes "\<And>k. k < length s \<Longrightarrow> buf_get b (int k) = Some (s ! k)"
    and "buf_get b (int (length s)) = Some NUL" and "no_nul s"
  shows "cstr b = s"
proof -
  have nth: "k < length (bytes b) \<and> bytes b ! k = s ! k" if "k < length s" for k
    using assms(1) [OF that] assms(3) that
    by (auto simp: buf_get_def no_nul_def split: if_splits)
  have le: "length s \<le> length (bytes b)"
    using nth by (metis linorder_not_less nat_less_le)
  have tk: "take (length s) (bytes b) = s"
    by (rule nth_equalityI) (use le nth in auto)
  have "bytes b = s @ drop (length s) (bytes b)"
    using tk by (metis append_take_drop_id)
  moreover have "drop (length s) (bytes b) = [] \<or> hd (drop (length s) (bytes b)) = NUL"
    using assms(2) by (cases "length s < length (bytes b)") (auto simp: buf_get_def hd_drop_conv_nth split: if_splits)
  ultimately show ?thesis
    using takeWhile_no_nul [OF assms(3)] assms(3) unfolding cstr_def
    by (cases "drop (length s) (bytes b)") (force simp: takeWhile_eq_all_conv no_nul_def)+
qed

text \<open>
  What the copying loop needs of its source, whichever buffer it is: as long as the first \<open>n\<close>
  characters are \<open>intact\<close> they can be read, and a store that does not change them keeps them so.
\<close>

locale fix_source =
  fixes rd :: "cbuf \<Rightarrow> int \<Rightarrow> char option"
    and str :: string
    and intact :: "cbuf \<Rightarrow> nat \<Rightarrow> bool"
  assumes reads: "intact b n \<Longrightarrow> j < n \<Longrightarrow> n \<le> Suc (length str) \<Longrightarrow>
      rd b (int j) = Some ((str @ [NUL]) ! j)"
    and intact_mono: "intact b n \<Longrightarrow> m \<le> n \<Longrightarrow> intact b m"
    and intact_put: "intact b n \<Longrightarrow> buf_put b i c = Some b' \<Longrightarrow>
      (\<And>j. j < n \<Longrightarrow> i = int j \<Longrightarrow> c = (str @ [NUL]) ! j) \<Longrightarrow> intact b' n"
begin

text \<open>One round of the loop at source index \<open>n\<close>, destination index \<open>i\<close>.\<close>

lemma copy_plain:
  assumes "intact b (Suc n)" and "n \<le> length str" and "int n \<le> i"
    and "(str @ [NUL]) ! n = c" and "c \<noteq> quote" and "buf_put b i c = Some b1"
  shows "fix_copy rd b i (int n) = fix_copy rd b1 (i - 1) (int n - 1)" and "intact b1 n"
proof -
  have rd: "rd b (int n) = Some c" using reads [OF assms(1), of n] assms(2,4) by simp
  have i1: "intact b1 (Suc n)"
    using assms(1,6) by (rule intact_put) (use assms(3,4) in \<open>auto simp: less_Suc_eq\<close>)
  have "rd b1 (int n) = Some c" using reads [OF i1, of n] assms(2,4) by simp
  with rd assms(3,5,6) show "fix_copy rd b i (int n) = fix_copy rd b1 (i - 1) (int n - 1)"
    by (subst fix_copy.simps) simp
  show "intact b1 n" using i1 by (rule intact_mono) simp
qed

lemma copy_quote:
  assumes "intact b (Suc n)" and "n \<le> length str" and "int n < i"
    and "(str @ [NUL]) ! n = quote"
    and "buf_put b i quote = Some b1" and "buf_put b1 (i - 1) quote = Some b2"
  shows "fix_copy rd b i (int n) = fix_copy rd b2 (i - 2) (int n - 1)" and "intact b2 n"
proof -
  have rd: "rd b (int n) = Some quote" using reads [OF assms(1), of n] assms(2,4) by simp
  have i1: "intact b1 (Suc n)"
    using assms(1,5) by (rule intact_put) (use assms(3) in auto)
  have "rd b1 (int n) = Some quote" using reads [OF i1, of n] assms(2,4) by simp
  with rd assms(3,5,6) show "fix_copy rd b i (int n) = fix_copy rd b2 (i - 2) (int n - 1)"
    by (subst fix_copy.simps) simp
  have "intact b2 (Suc n)"
    using i1 assms(6) by (rule intact_put) (use assms(3,4) in \<open>auto simp: less_Suc_eq\<close>)
  then show "intact b2 n" by (rule intact_mono) simp
qed

lemma copy_prefix:
  assumes "str = p @ q" and "p = [] \<or> hd p \<noteq> quote"
    and "intact b (length p)" and "length (escape p) \<le> cap b"
  shows "\<exists>b'. fix_copy rd b (int (length (escape p)) - 1) (int (length p) - 1) = Some b' \<and>
    cap b' = cap b \<and>
    (\<forall>k. buf_get b' k = (if 0 \<le> k \<and> k < int (length (escape p)) then Some (escape p ! nat k)
                        else buf_get b k))"
  using assms
proof (induction p arbitrary: b q rule: rev_induct)
  case Nil
  show ?case by (subst fix_copy.simps) auto
next
  case (snoc c p)
  let ?n = "length p" and ?m = "length (escape p)"
  have nm: "?n \<le> ?m" by (rule length_escape_ge)
  have nth: "(str @ [NUL]) ! ?n = c" and len: "?n \<le> length str"
    using snoc.prems(1) by (simp_all add: nth_append)
  have int: "intact b (Suc ?n)" using snoc.prems(3) by simp
  have hd: "p = [] \<or> hd p \<noteq> quote" using snoc.prems(2) by (cases p) auto
  show ?case
  proof (cases "c = quote")
    case False
    obtain b1 where b1: "buf_put b (int ?m) c = Some b1" "cap b1 = cap b"
      using buf_put_Some [of "int ?m" b c] snoc.prems(4) False by auto
    note step = copy_plain [OF int len _ nth False b1(1)]
    from step(2) nm have "intact b1 ?n" by simp
    from snoc.IH [OF _ hd this, of "c # q"] snoc.prems(1,4) b1(2) False obtain b' where
      b': "fix_copy rd b1 (int ?m - 1) (int ?n - 1) = Some b'" "cap b' = cap b"
        "\<forall>k. buf_get b' k = (if 0 \<le> k \<and> k < int ?m then Some (escape p ! nat k)
                            else buf_get b1 k)" by auto
    have "fix_copy rd b (int ?m) (int ?n) = Some b'" using step(1) nm b'(1) by simp
    with b'(2,3) False show ?thesis
      by (auto simp: buf_put_get [OF b1(1)] nth_append)
  next
    case True
    with snoc.prems(2) have "p \<noteq> []" by auto
    obtain b1 where b1: "buf_put b (int ?m + 1) c = Some b1" "cap b1 = cap b"
      using buf_put_Some [of "int ?m + 1" b c] snoc.prems(4) True by auto
    obtain b2 where b2: "buf_put b1 (int ?m) c = Some b2" "cap b2 = cap b"
      using buf_put_Some [of "int ?m" b1 c] snoc.prems(4) True b1(2) by auto
    have "fix_copy rd b (int ?m + 1) (int ?n) = fix_copy rd b2 (int ?m + 1 - 2) (int ?n - 1)"
      and i2: "intact b2 ?n"
      using copy_quote [OF int len, of "int ?m + 1" b1 b2] nm nth True b1(1) b2(1) by auto
    moreover from snoc.IH [OF _ hd i2, of "c # q"] snoc.prems(1,4) b2(2) True obtain b' where
      b': "fix_copy rd b2 (int ?m - 1) (int ?n - 1) = Some b'" "cap b' = cap b"
        "\<forall>k. buf_get b' k = (if 0 \<le> k \<and> k < int ?m then Some (escape p ! nat k)
                            else buf_get b2 k)" by auto
    ultimately have "fix_copy rd b (1 + int ?m) (int ?n) = Some b'" by (simp add: add.commute)
    moreover have "buf_get b' k = (if 0 \<le> k \<and> k < 2 + int ?m
        then Some ((escape p @ [quote, quote]) ! nat k) else buf_get b k)" for k
    proof (cases "k = int ?m \<or> k = 1 + int ?m")
      case k: True
      then have "nat k - ?m = 0 \<or> nat k - ?m = 1" and "\<not> nat k < ?m" by auto
      with k b'(3) True show ?thesis
        by (auto simp: buf_put_get [OF b1(1)] buf_put_get [OF b2(1)] nth_append)
    next
      case False
      with b'(3) show ?thesis
        by (auto simp: buf_put_get [OF b1(1)] buf_put_get [OF b2(1)] nth_append)
    qed
    ultimately show ?thesis using b'(2) True by (simp del: append.simps)
  qed
qed

lemma fix_string_ok:
  assumes "no_nul str" and "str = [] \<or> hd str \<noteq> quote" and "intact b (Suc (length str))"
    and "int (length (escape str)) < len" and "len \<le> int (cap b)"
  shows "\<exists>b'. i_fix_string rd str b len = Some (SORM_OK, b') \<and> cstr b' = escape str \<and>
    cap b' = cap b"
proof -
  let ?n = "length str" and ?m = "length (escape str)"
  have nm: "?n \<le> ?m" by (rule length_escape_ge)
  obtain b1 where b1: "buf_put b (int ?m) NUL = Some b1" "cap b1 = cap b"
    using buf_put_Some [of "int ?m" b NUL] assms(4,5) by auto
  have step: "fix_copy rd b (int ?m) (int ?n) = fix_copy rd b1 (int ?m - 1) (int ?n - 1)"
    and i1: "intact b1 ?n"
    using copy_plain [OF assms(3) _ _ _ _ b1(1)] nm by auto
  obtain b' where b': "fix_copy rd b1 (int ?m - 1) (int ?n - 1) = Some b'" "cap b' = cap b"
      "\<forall>k. buf_get b' k = (if 0 \<le> k \<and> k < int ?m then Some (escape str ! nat k)
                          else buf_get b1 k)"
    using copy_prefix [of str "[]" b1] assms(2,4,5) i1 b1(2) by auto
  have "cstr b' = escape str"
    by (rule cstr_by_get) (use b'(3) buf_put_get [OF b1(1)] assms(1) in auto)
  with b'(1,2) step fixed_len_eq [OF assms(2)] assms(4) show ?thesis
    by (simp add: i_fix_string_def)
qed

lemma fix_string_too_long:
  assumes "str = [] \<or> hd str \<noteq> quote" and "len \<le> int (length (escape str))"
  shows "i_fix_string rd str b len = Some (SORM_TOO_LONG, b)"
  using assms fixed_len_eq [of str] by (simp add: i_fix_string_def)

text \<open>A quote at index 0 of the source is copied to index 0 and then to index \<open>-1\<close>.\<close>

lemma copy_leading:
  assumes "str = quote # u @ q" and "intact b (Suc (length u))"
  shows "fix_copy rd b (int (length (escape u))) (int (length u)) = None"
  using assms
proof (induction u arbitrary: b q rule: rev_induct)
  case Nil
  then have rd: "rd b 0 = Some quote" using reads [of b 1 0] by simp
  show ?case
  proof (cases "buf_put b 0 quote")
    case None
    with rd show ?thesis by (subst fix_copy.simps) simp
  next
    case (Some b1)
    then have "intact b1 1"
      using Nil.prems by (intro intact_put [of b 1 0 quote b1]) auto
    then have "rd b1 0 = Some quote" using reads [of b1 1 0] Nil.prems by simp
    with rd Some show ?thesis
      by (subst fix_copy.simps) (simp add: buf_put_def buf_write_def)
  qed
next
  case (snoc c u)
  let ?n = "Suc (length u)" and ?m = "length (escape u)"
  have nm: "length u \<le> ?m" by (rule length_escape_ge)
  have nth: "(str @ [NUL]) ! ?n = c" and len: "?n \<le> length str"
    using snoc.prems(1) by (simp_all add: nth_append)
  have int: "intact b (Suc ?n)" using snoc.prems(2) by simp
  have rd: "rd b (int ?n) = Some c" using reads [OF int, of ?n] nth len by simp
  have ih: "intact b' ?n \<Longrightarrow> fix_copy rd b' (int ?m) (int (length u)) = None" for b'
    using snoc.IH [of "c # q" b'] snoc.prems(1) by simp
  show ?case
  proof (cases "c = quote")
    case False
    show ?thesis
    proof (cases "buf_put b (int ?m + 1) c")
      case None
      with rd False show ?thesis by (subst fix_copy.simps) (simp add: add.commute)
    next
      case (Some b1)
      have "fix_copy rd b (int ?m + 1) (int ?n) = fix_copy rd b1 (int ?m) (int (length u))"
        and "intact b1 ?n"
        using copy_plain [OF int len _ nth False Some] nm by auto
      with ih False show ?thesis by (simp add: add.commute)
    qed
  next
    case True
    show ?thesis
    proof (cases "buf_put b (int ?m + 2) quote")
      case None
      with rd True show ?thesis by (subst fix_copy.simps) (simp add: add.commute)
    next
      case b1: (Some b1)
      have "intact b1 (Suc ?n)"
        using int b1 by (rule intact_put) (use nm in auto)
      then have rd1: "rd b1 (int ?n) = Some quote" using reads [of b1 "Suc ?n" ?n] nth len True by simp
      show ?thesis
      proof (cases "buf_put b1 (int ?m + 1) quote")
        case None
        with rd rd1 b1 True show ?thesis by (subst fix_copy.simps) (simp add: add.commute)
      next
        case (Some b2)
        have "fix_copy rd b (int ?m + 2) (int ?n) = fix_copy rd b2 (int ?m) (int (length u))"
          and "intact b2 ?n"
          using copy_quote [OF int len, of "int ?m + 2" b1 b2] nm nth True b1 Some
          by (auto simp: add.commute)
        with ih True show ?thesis by (simp add: add.commute)
      qed
    qed
  qed
qed

end

interpretation other_buf: fix_source "read_other str" str "\<lambda>b n. True" for str
  by unfold_locales (auto simp: read_other_def nth_opt_def)

interpretation same_buf: fix_source buf_get str
  "\<lambda>b n. \<forall>j < n. buf_get b (int j) = Some ((str @ [NUL]) ! j)" for str
  by unfold_locales (auto simp: buf_put_get)

lemma cstr_intact:
  assumes "is_cstr b" and "j < Suc (length (cstr b))"
  shows "buf_get b (int j) = Some ((cstr b @ [NUL]) ! j)"
proof -
  let ?n = "length (cstr b)"
  have pre: "k < ?n \<Longrightarrow> bytes b ! k = cstr b ! k" for k
    by (simp add: cstr_def takeWhile_nth)
  have le: "?n \<le> length (bytes b)" by (simp add: cstr_def length_takeWhile_le)
  show ?thesis
  proof (cases "j < ?n")
    case True
    with le pre assms(1) show ?thesis by (auto simp: buf_get_def is_cstr_def nth_append)
  next
    case False
    with assms(2) have j: "j = ?n" by simp
    have "?n < length (bytes b) \<Longrightarrow> bytes b ! ?n = NUL"
      unfolding cstr_def using nth_length_takeWhile by fastforce
    with j assms(1) show ?thesis by (auto simp: buf_get_def is_cstr_def)
  qed
qed

lemma no_nul_cstr [simp]: "no_nul (cstr b)"
  by (auto simp: no_nul_def cstr_def dest: set_takeWhileD)

section \<open>Index suffix\<close>

fun index_suffix_loop :: "cbuf \<Rightarrow> int \<Rightarrow> string \<Rightarrow> cbuf option" where
  "index_suffix_loop b i [] = buf_put b i NUL"
| "index_suffix_loop b i (c # cs) =
     (if c = COLUMN_NAMES_DELIMITER
      then do { b \<leftarrow> buf_put b i CHR ''_''; index_suffix_loop b (i + 1) cs }
      else if c \<noteq> CHR '' ''
      then do { b \<leftarrow> buf_put b i c; index_suffix_loop b (i + 1) cs }
      else index_suffix_loop b i cs)"

text \<open>The buffer is the one its callers allocate: \<open>strlen(columns_name) + 1\<close> bytes.\<close>

definition i_construct_index_suffix :: "string \<Rightarrow> string option" where
  "i_construct_index_suffix columns_name =
     map_option cstr (index_suffix_loop (buf_new (length columns_name + 1)) 0 columns_name)"

definition index_suffix :: "string \<Rightarrow> string" where
  "index_suffix s =
     map (\<lambda>c. if c = CHR '','' then CHR ''_'' else c) (filter (\<lambda>c. c \<noteq> CHR '' '') s)"

lemma buf_put_end:
  "length acc < n \<Longrightarrow> buf_put \<lparr>cap = n, bytes = acc\<rparr> (int (length acc)) c
   = Some \<lparr>cap = n, bytes = acc @ [c]\<rparr>"
  by (simp add: buf_put_def buf_write_def)

lemma index_suffix_loop_eq:
  "length acc + length s < n \<Longrightarrow>
   index_suffix_loop \<lparr>cap = n, bytes = acc\<rparr> (int (length acc)) s
   = Some (buf_str n (acc @ index_suffix s))"
proof (induction s arbitrary: acc)
  case Nil
  then show ?case by (simp add: buf_put_end index_suffix_def buf_str_def)
next
  case (Cons c s)
  have "index_suffix_loop \<lparr>cap = n, bytes = acc @ [d]\<rparr> (int (length acc) + 1) s
      = Some (buf_str n (acc @ d # index_suffix s))" for d
    using Cons.IH [of "acc @ [d]"] Cons.prems by (simp add: add.commute)
  moreover have "index_suffix_loop \<lparr>cap = n, bytes = acc\<rparr> (int (length acc)) s
      = Some (buf_str n (acc @ index_suffix s))"
    using Cons.IH [of acc] Cons.prems by simp
  ultimately show ?case
    using Cons.prems by (simp add: buf_put_end index_suffix_def COLUMN_NAMES_DELIMITER_def)
qed

lemma no_nul_index_suffix: "no_nul s \<Longrightarrow> no_nul (index_suffix s)"
  by (auto simp: no_nul_def index_suffix_def)

lemma construct_index_suffix_eq:
  "no_nul s \<Longrightarrow> i_construct_index_suffix s = Some (index_suffix s)"
  using index_suffix_loop_eq [of "[]" s "length s + 1"]
  by (simp add: i_construct_index_suffix_def buf_new_def no_nul_index_suffix)

section \<open>Filters and the head of a \<open>SELECT\<close>\<close>

text \<open>\<open>_construct_column_filter\<close>; the caller's \<open>filter\<close> has \<open>SQL_STMT_MAX_LEN + 1\<close> bytes.\<close>

definition i_construct_column_filter ::
  "heap \<Rightarrow> sorm_table_descriptor_t option \<Rightarrow> int \<Rightarrow> value_arg option \<Rightarrow>
   (sorm_error_t \<times> cbuf) option" where
  "i_construct_column_filter h table_desc column_index column_value =
     (case (table_desc, column_value) of
        (Some td, Some v) \<Rightarrow>
          if column_index < columns_num td then
          do { column_desc \<leftarrow> column_at td column_index;
               let filter = buf_new (nat (SQL_STMT_MAX_LEN + 1));
               let printed = (\<lambda>s. do {
                     (offset, filter) \<leftarrow> snprintf filter 0 (size_t (SQL_STMT_MAX_LEN + 1)) s;
                     Some (if offset < 0 \<or> offset > SQL_STMT_MAX_LEN then SORM_TOO_LONG
                           else SORM_OK, filter) });
               (case c_type column_desc of
                  SORM_TYPE_INT \<Rightarrow>
                    (case v of V_int32 i \<Rightarrow>
                       printed (c_name column_desc @ '' = '' @ printf_d (sint i)) | _ \<Rightarrow> None)
                | SORM_TYPE_INT64 \<Rightarrow>
                    (case v of V_int64 i \<Rightarrow>
                       printed (c_name column_desc @ '' = '' @ printf_d (sint i)) | _ \<Rightarrow> None)
                | SORM_TYPE_TEXT \<Rightarrow>
                    (case v of V_mem p \<Rightarrow>
                       do { s \<leftarrow> load_str h p;
                            (ret, fixed_buf) \<leftarrow> sorm_fix_string s
                               (buf_new (nat (SQL_STMT_MAX_LEN + 1))) (SQL_STMT_MAX_LEN + 1);
                            if ret \<noteq> SORM_OK then Some (ret, filter)
                            else printed (c_name column_desc @ '' = '' @ [quote] @ cstr fixed_buf
                                          @ [quote]) } | _ \<Rightarrow> None)
                | SORM_TYPE_DOUBLE \<Rightarrow>
                    (case v of V_double d \<Rightarrow>
                       printed (c_name column_desc @ '' = '' @ printf_f d) | _ \<Rightarrow> None)
                | _ \<Rightarrow> Some (SORM_INVALID_TYPE, filter)) }
          else None
      | _ \<Rightarrow> None)"

definition i_construct_select_stmt :: "string \<Rightarrow> string \<Rightarrow> (sorm_error_t \<times> sqlbuf) option" where
  "i_construct_select_stmt table_name columns_name =
     stmt_printf sql_stmt_init (''SELECT '' @ columns_name @ '' FROM '' @ table_name)"

definition i_construct_filter_stmt ::
  "sqlbuf \<Rightarrow> string option \<Rightarrow> (sorm_error_t \<times> sqlbuf) option" where
  "i_construct_filter_stmt sql filter_arg =
     (case filter_arg of
        None \<Rightarrow> Some (SORM_OK, sql)
      | Some f \<Rightarrow> stmt_printf sql ('' WHERE '' @ f))"

text \<open>
  Reference: how SQL reads a string literal after its opening quote (two quotes stand for one, a
  single one ends it): the value and the text after the literal.
\<close>

fun sql_literal :: "string \<Rightarrow> (string \<times> string) option" where
  "sql_literal [] = None"
| "sql_literal [c] = (if c = quote then Some ([], []) else None)"
| "sql_literal (c # d # cs) =
     (if c = quote
      then if d = quote then map_option (\<lambda>(v, r). (quote # v, r)) (sql_literal cs)
           else Some ([], d # cs)
      else map_option (\<lambda>(v, r). (c # v, r)) (sql_literal (d # cs)))"

lemma sql_literal_plain:
  "c \<noteq> quote \<Longrightarrow> sql_literal (c # cs) = map_option (\<lambda>(v, r). (c # v, r)) (sql_literal cs)"
  by (cases cs) auto

lemma sql_literal_escape:
  "r = [] \<or> hd r \<noteq> quote \<Longrightarrow> sql_literal (escape s @ quote # r) = Some (s, r)"
proof (induction s)
  case Nil
  then show ?case by (cases r) auto
next
  case (Cons c s)
  then show ?case by (cases "c = quote") (auto simp: sql_literal_plain)
qed

lemma filter_printed:
  "length s \<le> 1023 \<Longrightarrow>
   snprintf (buf_new (nat (SQL_STMT_MAX_LEN + 1))) 0 (size_t (SQL_STMT_MAX_LEN + 1)) s
   = Some (int (length s), buf_str 1024 s)"
  by (simp add: SQL_STMT_MAX_LEN_def snprintf_new)

section \<open>Properties\<close>

text \<open>
  C29: \<open>sorm_fix_string\<close> with two buffers. For a source that does not start with a quote and a
  destination of at least \<open>len\<close> bytes it returns: \<open>SORM_TOO_LONG\<close> with the destination untouched
  when the doubled text and its NUL do not fit in \<open>len\<close>, otherwise \<open>SORM_OK\<close> with the destination
  holding the source with every single quote doubled.
\<close>

theorem fix_string_escapes:
  assumes "no_nul s" and "s = [] \<or> hd s \<noteq> quote" and "len \<le> int (cap b)"
  shows "if len \<le> int (length (escape s)) then sorm_fix_string s b len = Some (SORM_TOO_LONG, b)
    else \<exists>b'. sorm_fix_string s b len = Some (SORM_OK, b') \<and> cstr b' = escape s \<and> cap b' = cap b"
  using other_buf.fix_string_ok [OF assms(1,2) _ _ assms(3)]
    other_buf.fix_string_too_long [OF assms(2)]
  by (auto simp: sorm_fix_string_def not_le)

theorem fix_string_escapes_witness:
  "\<exists>b'. sorm_fix_string ''it's'' (buf_new 8) 8 = Some (SORM_OK, b') \<and> cstr b' = ''it''@[quote,quote]@''s''
    \<and> cap b' = 8"
  using fix_string_escapes [of "''it's''" 8 "buf_new 8"] by (simp add: buf_new_def)

text \<open>
  \<open>sorm_fix_string\<close> with source and destination in the same buffer, as its comment allows: the
  text of the buffer is replaced by itself with every quote doubled.
\<close>

theorem fix_string_in_place:
  assumes "is_cstr b" and "cstr b = [] \<or> hd (cstr b) \<noteq> quote" and "len \<le> int (cap b)"
  shows "if len \<le> int (length (escape (cstr b)))
    then sorm_fix_string_same b len = Some (SORM_TOO_LONG, b)
    else \<exists>b'. sorm_fix_string_same b len = Some (SORM_OK, b') \<and> cstr b' = escape (cstr b)
      \<and> cap b' = cap b"
  using same_buf.fix_string_ok [OF no_nul_cstr assms(2) _ _ assms(3)] cstr_intact [OF assms(1)]
    same_buf.fix_string_too_long [OF assms(2)]
  by (auto simp: sorm_fix_string_same_def not_le)

theorem fix_string_in_place_witness:
  "\<exists>b'. sorm_fix_string_same (buf_str 6 ''a'b'') 6 = Some (SORM_OK, b') \<and>
     cstr b' = ''a''@[quote,quote]@''b'' \<and> cap b' = 6"
  using fix_string_in_place [of "buf_str 6 ''a'b''" 6] by (simp add: is_cstr_def)

text \<open>
  A source that starts with a quote makes \<open>sorm_fix_string\<close> store outside the destination, at
  index \<open>-1\<close>, whatever the rest of the source is, whenever the length check passes; the quote at
  index 0 is not counted.
\<close>

theorem fix_string_leading_quote:
  assumes "no_nul s" and "int (length (escape s)) + 1 < len"
  shows "sorm_fix_string (quote # s) b len = None"
proof -
  let ?m = "int (length (escape s)) + 1" and ?n = "length (quote # s)"
  have len: "fix_count (quote # s) + int ?n = ?m" by (rule fixed_len_leading)
  have rd: "read_other (quote # s) b' (int ?n) = Some NUL" for b'
    using other_buf.reads [where str = "quote # s" and n = "Suc ?n" and j = ?n and b = b'] by simp
  have "fix_copy (read_other (quote # s)) b ?m (int ?n) = None"
  proof (cases "buf_put b ?m NUL")
    case None
    with rd show ?thesis by (subst fix_copy.simps) simp
  next
    case (Some b1)
    have "fix_copy (read_other (quote # s)) b ?m (int ?n)
        = fix_copy (read_other (quote # s)) b1 (int (length (escape s))) (int (length s))"
      using other_buf.copy_plain [where str = "quote # s" and n = ?n and i = ?m and c = NUL] Some
        length_escape_ge [of s] by simp
    then show ?thesis using other_buf.copy_leading [where str = "quote # s" and u = s and q = "[]"]
      by simp
  qed
  with assms(2) show ?thesis
    unfolding sorm_fix_string_def i_fix_string_def Let_def len by simp
qed

theorem fix_string_leading_quote_witness:
  "sorm_fix_string (quote # ''x'') (buf_new 1024) 1024 = None"
  using fix_string_leading_quote [of "''x''" 1024 "buf_new 1024"] by simp

end
