(* ===== verification/Sorm_Object.thy ===== *)
theory Sorm_Object
  imports Sorm_Db Sorm_Strings
begin

text \<open>
  Sorm objects (\<^verbatim>\<open>src/src/sorm.c\<close>): the status words, creation and release, setting a column, the
  values handed to \<open>sqlite3_bind_*\<close>, the values taken from \<open>sqlite3_column_*\<close>, and the printed form.
  An object that needs to free memory owns it: \<open>object_ok\<close> is the invariant that makes \<open>sorm_free\<close>
  right, and every operation keeps it.
\<close>

section \<open>Status words and blob lengths\<close>

definition cell_at :: "sorm_object \<Rightarrow> int \<Rightarrow> cell option" where
  "cell_at obj column_index =
     (if 0 \<le> column_index \<and> column_index < columns_num (desc obj)
      then nth_opt (cells obj) column_index else None)"

definition update_cell :: "sorm_object \<Rightarrow> int \<Rightarrow> (cell \<Rightarrow> cell) \<Rightarrow> sorm_object option" where
  "update_cell obj column_index f =
     do { c \<leftarrow> cell_at obj column_index;
          Some (obj\<lparr>cells := (cells obj)[nat column_index := f c]\<rparr>) }"

definition i_get_column_stat :: "sorm_object \<Rightarrow> int \<Rightarrow> sorm_stat_t option" where
  "i_get_column_stat obj column_index = map_option stat (cell_at obj column_index)"

definition i_set_column_stat :: "sorm_object \<Rightarrow> int \<Rightarrow> sorm_stat_t \<Rightarrow> sorm_object option" where
  "i_set_column_stat obj column_index s = update_cell obj column_index (\<lambda>c. c\<lparr>stat := s\<rparr>)"

definition i_add_column_stat :: "sorm_object \<Rightarrow> int \<Rightarrow> sorm_stat_t \<Rightarrow> sorm_object option" where
  "i_add_column_stat obj column_index add_stat =
     do { s \<leftarrow> i_get_column_stat obj column_index;
          i_set_column_stat obj column_index (s OR add_stat) }"

definition i_del_column_stat :: "sorm_object \<Rightarrow> int \<Rightarrow> sorm_stat_t \<Rightarrow> sorm_object option" where
  "i_del_column_stat obj column_index del_stat =
     do { s \<leftarrow> i_get_column_stat obj column_index;
          i_set_column_stat obj column_index (s AND NOT del_stat) }"

definition i_get_blob_len :: "sorm_object \<Rightarrow> int \<Rightarrow> int option" where
  "i_get_blob_len obj column_index = map_option (\<lambda>c. sint (blob_len c)) (cell_at obj column_index)"

definition i_set_blob_len :: "sorm_object \<Rightarrow> int \<Rightarrow> int \<Rightarrow> sorm_object option" where
  "i_set_blob_len obj column_index len =
     update_cell obj column_index (\<lambda>c. c\<lparr>blob_len := word_of_int len\<rparr>)"

text \<open>The member at the column's offset, read and written.\<close>

definition get_member :: "sorm_object \<Rightarrow> int \<Rightarrow> member option" where
  "get_member obj column_index = map_option val (cell_at obj column_index)"

definition set_member :: "sorm_object \<Rightarrow> int \<Rightarrow> member \<Rightarrow> sorm_object option" where
  "set_member obj column_index m = update_cell obj column_index (\<lambda>c. c\<lparr>val := m\<rparr>)"

section \<open>Creation\<close>

text \<open>
  The members the generated structure has for a column, zeroed. A column with no legal type or
  memory has none.
\<close>

definition zero_member :: "sorm_column_descriptor_t \<Rightarrow> member" where
  "zero_member c =
     (let text = (case c_mem c of
            SORM_MEM_HEAP \<Rightarrow> M_ptr 0
          | SORM_MEM_STACK \<Rightarrow> M_array (buf_new (nat (c_max_len c + 1)))
          | _ \<Rightarrow> M_array (buf_new 0)) in
      case c_type c of
        SORM_TYPE_INT \<Rightarrow> M_int32 0
      | SORM_TYPE_INT64 \<Rightarrow> M_int64 0
      | SORM_TYPE_DOUBLE \<Rightarrow> M_double 0
      | SORM_TYPE_TEXT \<Rightarrow> text
      | SORM_TYPE_BLOB \<Rightarrow> text
      | SORM_TYPE_OTHER _ \<Rightarrow> M_array (buf_new 0))"

definition new_object :: "sorm_table_descriptor_t \<Rightarrow> sorm_object" where
  "new_object td =
     \<lparr>desc = td, cells = map (\<lambda>c. \<lparr>blob_len = 0, stat = 0, val = zero_member c\<rparr>) (columns td)\<rparr>"

text \<open>
  \<open>memset\<close> and the copies of the descriptor make an array of new objects of the fresh block. The
  result is \<open>NULL\<close> (0) for a \<open>NULL\<close> descriptor, for \<open>n = 0\<close> and when there is no memory.
\<close>

definition sorm_new_array ::
  "sorm_allocator_t option \<Rightarrow> sorm_table_descriptor_t option \<Rightarrow> int \<Rightarrow> heap \<Rightarrow>
   (addr \<times> heap) option" where
  "sorm_new_array allocator init_table_desc n h =
     (case init_table_desc of
        None \<Rightarrow> Some (0, h)
      | Some td \<Rightarrow>
          if n = 0 then Some (0, h)
          else do { (p, h) \<leftarrow> i_malloc allocator (size_t (int (t_size td) * n)) h;
                    if p = 0 then Some (0, h)
                    else Some (p, store h p (C_objects (replicate (nat n) (new_object td)))) })"

definition sorm_new ::
  "sorm_allocator_t option \<Rightarrow> sorm_table_descriptor_t option \<Rightarrow> heap \<Rightarrow> (addr \<times> heap) option" where
  "sorm_new allocator init_table_desc h = sorm_new_array allocator init_table_desc 1 h"

section \<open>Release\<close>

fun free_columns :: "sorm_allocator_t option \<Rightarrow> sorm_object \<Rightarrow> nat list \<Rightarrow> heap \<Rightarrow> heap option" where
  "free_columns allocator obj [] h = Some h"
| "free_columns allocator obj (i # is) h =
     do { s \<leftarrow> i_get_column_stat obj (int i);
          if sorm_is_stat_needfree s
          then do { c \<leftarrow> column_at (desc obj) (int i);
                    if c_type c \<noteq> SORM_TYPE_TEXT \<and> c_type c \<noteq> SORM_TYPE_BLOB then None
                    else if c_mem c \<noteq> SORM_MEM_HEAP then None
                    else case get_member obj (int i) of
                      Some (M_ptr a) \<Rightarrow>
                        do { h \<leftarrow> i_free allocator a h; free_columns allocator obj is h }
                    | _ \<Rightarrow> None }
          else free_columns allocator obj is h }"

text \<open>The members of the object are read before each \<open>free\<close>; the object itself stays allocated.\<close>

definition sorm_free :: "sorm_allocator_t option \<Rightarrow> sorm_object option \<Rightarrow> heap \<Rightarrow> heap option" where
  "sorm_free allocator table_desc h =
     (case table_desc of
        None \<Rightarrow> Some h
      | Some obj \<Rightarrow> free_columns allocator obj (column_indexes (desc obj)) h)"

fun free_objects ::
  "sorm_allocator_t option \<Rightarrow> addr \<Rightarrow> nat list \<Rightarrow> heap \<Rightarrow> heap option" where
  "free_objects allocator p [] h = Some h"
| "free_objects allocator p (i # is) h =
     (case load h p of
        Some (C_objects os) \<Rightarrow>
          if i < length os
          then do { h \<leftarrow> sorm_free allocator (Some (os ! i)) h; free_objects allocator p is h }
          else None
      | _ \<Rightarrow> None)"

definition sorm_free_array ::
  "sorm_allocator_t option \<Rightarrow> addr \<Rightarrow> int \<Rightarrow> heap \<Rightarrow> heap option" where
  "sorm_free_array allocator p n h =
     (if p = 0 then Some h
      else do { h \<leftarrow> free_objects allocator p [0..<nat n] h; i_free allocator p h })"

section \<open>Setting a column\<close>

text \<open>
  \<open>value\<close> is read with the type of the column; a variable of another type is not one it may read.
\<close>

definition sorm_set_column_value ::
  "sorm_object option \<Rightarrow> int \<Rightarrow> value_arg option \<Rightarrow> int \<Rightarrow> heap \<Rightarrow>
   (sorm_error_t \<times> sorm_object option) option" where
  "sorm_set_column_value table_desc column_index value_p value_len h =
     (case (table_desc, value_p) of
        (Some obj, Some v) \<Rightarrow>
          do { column_desc \<leftarrow> column_at (desc obj) column_index;
               let valued = (\<lambda>obj. do {
                     obj \<leftarrow> i_add_column_stat obj column_index SORM_STAT_VALUED;
                     obj \<leftarrow> i_del_column_stat obj column_index SORM_STAT_NEEDFREE;
                     Some (SORM_OK, Some obj) });
               (case c_type column_desc of
                  SORM_TYPE_INT \<Rightarrow>
                    (case v of V_int32 i \<Rightarrow>
                       do { obj \<leftarrow> set_member obj column_index (M_int32 i); valued obj }
                     | _ \<Rightarrow> None)
                | SORM_TYPE_INT64 \<Rightarrow>
                    (case v of V_int64 i \<Rightarrow>
                       do { obj \<leftarrow> set_member obj column_index (M_int64 i); valued obj }
                     | _ \<Rightarrow> None)
                | SORM_TYPE_TEXT \<Rightarrow>
                    (case v of V_mem p \<Rightarrow>
                       (case c_mem column_desc of
                          SORM_MEM_HEAP \<Rightarrow>
                            do { obj \<leftarrow> set_member obj column_index (M_ptr p); valued obj }
                        | SORM_MEM_STACK \<Rightarrow>
                            do { s \<leftarrow> load_str h p;
                                 m \<leftarrow> get_member obj column_index;
                                 b \<leftarrow> (case m of M_array b \<Rightarrow> Some b | _ \<Rightarrow> None);
                                 (offset, b) \<leftarrow> snprintf b 0 (size_t (c_max_len column_desc + 1)) s;
                                 obj \<leftarrow> set_member obj column_index (M_array b);
                                 if offset < 0 \<or> offset > c_max_len column_desc
                                 then Some (SORM_TOO_LONG, Some obj) else valued obj }
                        | _ \<Rightarrow> Some (SORM_INVALID_MEM, Some obj))
                     | _ \<Rightarrow> None)
                | SORM_TYPE_DOUBLE \<Rightarrow>
                    (case v of V_double d \<Rightarrow>
                       do { obj \<leftarrow> set_member obj column_index (M_double d); valued obj }
                     | _ \<Rightarrow> None)
                | SORM_TYPE_BLOB \<Rightarrow>
                    (case v of V_mem p \<Rightarrow>
                       (case c_mem column_desc of
                          SORM_MEM_HEAP \<Rightarrow>
                            do { obj \<leftarrow> set_member obj column_index (M_ptr p);
                                 obj \<leftarrow> i_set_blob_len obj column_index value_len;
                                 valued obj }
                        | SORM_MEM_STACK \<Rightarrow>
                            if value_len > c_max_len column_desc then Some (SORM_TOO_LONG, Some obj)
                            else do { bs \<leftarrow> load_bytes h p (size_t value_len);
                                      m \<leftarrow> get_member obj column_index;
                                      b \<leftarrow> (case m of M_array b \<Rightarrow> Some b | _ \<Rightarrow> None);
                                      b \<leftarrow> buf_write b 0 bs;
                                      obj \<leftarrow> set_member obj column_index (M_array b);
                                      obj \<leftarrow> i_set_blob_len obj column_index value_len;
                                      valued obj }
                        | _ \<Rightarrow> Some (SORM_INVALID_MEM, Some obj))
                     | _ \<Rightarrow> None)
                | SORM_TYPE_OTHER _ \<Rightarrow> Some (SORM_INVALID_TYPE, Some obj)) }
      | (_, _) \<Rightarrow> Some (SORM_ARG_NULL, table_desc))"

fun check_columns :: "sorm_object \<Rightarrow> nat list \<Rightarrow> bool option" where
  "check_columns obj [] = Some False"
| "check_columns obj (i # is) =
     do { s \<leftarrow> i_get_column_stat obj (int i);
          if sorm_is_stat_valued s then Some True else check_columns obj is }"

definition i_check_has_value :: "sorm_object \<Rightarrow> bool option" where
  "i_check_has_value obj = check_columns obj (column_indexes (desc obj))"

section \<open>Values for a statement\<close>

text \<open>
  What a column hands to SQLite. \<open>SQLITE_STATIC\<close> makes SQLite read texts and blobs when the
  statement runs; nothing is stored in between, so the value is read here. \<open>Inl\<close> is the error.
\<close>

definition column_bind_value ::
  "sorm_object \<Rightarrow> int \<Rightarrow> heap \<Rightarrow> (sorm_error_t + bind_value) option" where
  "column_bind_value obj column_index h =
     do { column_desc \<leftarrow> column_at (desc obj) column_index;
          m \<leftarrow> get_member obj column_index;
          len \<leftarrow> i_get_blob_len obj column_index;
          (case c_type column_desc of
             SORM_TYPE_INT \<Rightarrow>
               (case m of M_int32 i \<Rightarrow> Some (Inr (Bind_int i)) | _ \<Rightarrow> None)
           | SORM_TYPE_INT64 \<Rightarrow>
               (case m of M_int64 i \<Rightarrow> Some (Inr (Bind_int64 i)) | _ \<Rightarrow> None)
           | SORM_TYPE_TEXT \<Rightarrow>
               (case c_mem column_desc of
                  SORM_MEM_HEAP \<Rightarrow>
                    (case m of
                       M_ptr p \<Rightarrow> if p = 0 then Some (Inr Bind_null)
                                  else map_option (\<lambda>s. Inr (Bind_text s)) (load_str h p)
                     | _ \<Rightarrow> None)
                | SORM_MEM_STACK \<Rightarrow>
                    (case m of
                       M_array b \<Rightarrow> if is_cstr b then Some (Inr (Bind_text (cstr b))) else None
                     | _ \<Rightarrow> None)
                | _ \<Rightarrow> Some (Inl SORM_INVALID_MEM))
           | SORM_TYPE_DOUBLE \<Rightarrow>
               (case m of M_double d \<Rightarrow> Some (Inr (Bind_double d)) | _ \<Rightarrow> None)
           | SORM_TYPE_BLOB \<Rightarrow>
               (case c_mem column_desc of
                  SORM_MEM_HEAP \<Rightarrow>
                    (case m of
                       M_ptr p \<Rightarrow> if p = 0 then Some (Inr Bind_null)
                                  else if len < 0 then None
                                  else map_option (\<lambda>s. Inr (Bind_blob s)) (load_bytes h p (nat len))
                     | _ \<Rightarrow> None)
                | SORM_MEM_STACK \<Rightarrow>
                    (case m of
                       M_array b \<Rightarrow>
                         if 0 \<le> len \<and> nat len \<le> cap b
                         then Some (Inr (Bind_blob (take (nat len) (bytes b)
                                    @ replicate (nat len - length (bytes b)) NUL)))
                         else None
                     | _ \<Rightarrow> None)
                | _ \<Rightarrow> Some (Inl SORM_INVALID_MEM))
           | SORM_TYPE_OTHER _ \<Rightarrow> Some (Inl SORM_INVALID_TYPE)) }"

definition i_sqlite3_column_bind ::
  "'db sqlite3_api \<Rightarrow> stmt \<Rightarrow> sorm_object \<Rightarrow> int \<Rightarrow> int \<Rightarrow> 'db world \<Rightarrow>
   (sorm_error_t \<times> 'db world) option" where
  "i_sqlite3_column_bind api stmt_handle obj column_index bind_index w =
     do { s \<leftarrow> i_get_column_stat obj column_index;
          if stmt_handle = 0 \<or> \<not> sorm_is_stat_valued s then None
          else do { v \<leftarrow> column_bind_value obj column_index (hp w);
                    (case v of
                       Inl e \<Rightarrow> Some (e, w)
                     | Inr bv \<Rightarrow>
                         (let (ret, w) = sq_bind api stmt_handle bind_index bv w in
                          Some (if ret \<noteq> SQLITE_OK then SORM_DB_ERROR else SORM_OK, w))) } }"

section \<open>Values of a row\<close>

definition i_sqlite3_column ::
  "'db sqlite3_api \<Rightarrow> sorm_allocator_t option \<Rightarrow> sorm_object \<Rightarrow> stmt \<Rightarrow> int \<Rightarrow> int \<Rightarrow> 'db \<Rightarrow> heap \<Rightarrow>
   (sorm_error_t \<times> sorm_object \<times> heap) option" where
  "i_sqlite3_column api allocator obj stmt_handle column_index result_index d h =
     (if stmt_handle = 0 then None else
     do { column_desc \<leftarrow> column_at (desc obj) column_index;
          let valued = (\<lambda>obj h. do {
                obj \<leftarrow> i_add_column_stat obj column_index SORM_STAT_VALUED;
                Some (SORM_OK, obj, h) });
          let text = sqlite3_column_text api stmt_handle result_index d;
          let blob = sqlite3_column_blob api stmt_handle result_index d;
          let len = sint (sqlite3_column_bytes api stmt_handle result_index d);
          if sqlite3_column_type api stmt_handle result_index d = SQLITE_NULL
          then do { obj \<leftarrow> i_add_column_stat obj column_index SORM_STAT_NULL;
                    Some (SORM_OK, obj, h) }
          else (case c_type column_desc of
             SORM_TYPE_INT \<Rightarrow>
               do { obj \<leftarrow> set_member obj column_index
                      (M_int32 (sqlite3_column_int api stmt_handle result_index d));
                    valued obj h }
           | SORM_TYPE_INT64 \<Rightarrow>
               do { obj \<leftarrow> set_member obj column_index
                      (M_int64 (sqlite3_column_int64 api stmt_handle result_index d));
                    valued obj h }
           | SORM_TYPE_TEXT \<Rightarrow>
               (case c_mem column_desc of
                  SORM_MEM_HEAP \<Rightarrow>
                    do { (p, h) \<leftarrow> i_strdup allocator text h;
                         obj \<leftarrow> set_member obj column_index (M_ptr p);
                         obj \<leftarrow> i_add_column_stat obj column_index SORM_STAT_NEEDFREE;
                         valued obj h }
                | SORM_MEM_STACK \<Rightarrow>
                    if blob = None then valued obj h
                    else do { s \<leftarrow> text;
                              m \<leftarrow> get_member obj column_index;
                              b \<leftarrow> (case m of M_array b \<Rightarrow> Some b | _ \<Rightarrow> None);
                              (offset, b) \<leftarrow> snprintf b 0 (size_t (c_max_len column_desc + 1)) s;
                              obj \<leftarrow> set_member obj column_index (M_array b);
                              if offset < 0 \<or> offset > c_max_len column_desc
                              then Some (SORM_TOO_LONG, obj, h) else valued obj h }
                | _ \<Rightarrow> Some (SORM_INVALID_MEM, obj, h))
           | SORM_TYPE_DOUBLE \<Rightarrow>
               do { obj \<leftarrow> set_member obj column_index
                      (M_double (sqlite3_column_double api stmt_handle result_index d));
                    valued obj h }
           | SORM_TYPE_BLOB \<Rightarrow>
               (case c_mem column_desc of
                  SORM_MEM_HEAP \<Rightarrow>
                    if len \<noteq> 0
                    then do { (p, h) \<leftarrow> i_malloc allocator (size_t len) h;
                              if p = 0 then Some (SORM_NOMEM, obj, h)
                              else do {
                                bs \<leftarrow> blob;
                                h \<leftarrow> (if size_t len \<le> length bs
                                      then Some (store h p (C_bytes (take (size_t len) bs)))
                                      else None);
                                obj \<leftarrow> i_add_column_stat obj column_index SORM_STAT_NEEDFREE;
                                obj \<leftarrow> set_member obj column_index (M_ptr p);
                                obj \<leftarrow> i_set_blob_len obj column_index len;
                                valued obj h } }
                    else do { obj \<leftarrow> set_member obj column_index (M_ptr 0);
                              obj \<leftarrow> i_set_blob_len obj column_index len;
                              valued obj h }
                | SORM_MEM_STACK \<Rightarrow>
                    if len > c_max_len column_desc then Some (SORM_TOO_LONG, obj, h)
                    else do { bs \<leftarrow> (if len = 0 then Some [] else blob);
                              m \<leftarrow> get_member obj column_index;
                              b \<leftarrow> (case m of M_array b \<Rightarrow> Some b | _ \<Rightarrow> None);
                              b \<leftarrow> (if size_t len \<le> length bs
                                    then buf_write b 0 (take (size_t len) bs) else None);
                              obj \<leftarrow> set_member obj column_index (M_array b);
                              obj \<leftarrow> i_set_blob_len obj column_index len;
                              valued obj h }
                | _ \<Rightarrow> Some (SORM_INVALID_MEM, obj, h))
           | SORM_TYPE_OTHER _ \<Rightarrow> Some (SORM_INVALID_TYPE, obj, h)) })"

text \<open>The loop of \<open>_parse_select_result\<close> over the columns; \<open>xs\<close> is \<open>column_indexes_in_result\<close>.\<close>

fun parse_columns ::
  "'db sqlite3_api \<Rightarrow> sorm_allocator_t option \<Rightarrow> stmt \<Rightarrow> int list \<Rightarrow> nat list \<Rightarrow> 'db \<Rightarrow>
   sorm_object \<Rightarrow> heap \<Rightarrow> (sorm_error_t \<times> sorm_object \<times> heap) option" where
  "parse_columns api allocator stmt_handle xs [] d obj h = Some (SORM_OK, obj, h)"
| "parse_columns api allocator stmt_handle xs (i # is) d obj h =
     do { x \<leftarrow> nth_opt xs (int i);
          if x \<noteq> NO_INDEXES_IN_RESULT
          then do { (ret, obj, h) \<leftarrow>
                      i_sqlite3_column api allocator obj stmt_handle (int i) x d h;
                    if ret \<noteq> SORM_OK then Some (ret, obj, h)
                    else parse_columns api allocator stmt_handle xs is d obj h }
          else parse_columns api allocator stmt_handle xs is d obj h }"

definition i_parse_select_result ::
  "'db sqlite3_api \<Rightarrow> sorm_allocator_t option \<Rightarrow> stmt \<Rightarrow> int list \<Rightarrow> 'db \<Rightarrow> sorm_object \<Rightarrow> heap \<Rightarrow>
   (sorm_error_t \<times> sorm_object \<times> heap) option" where
  "i_parse_select_result api allocator stmt_handle column_indexes_in_result d row h =
     parse_columns api allocator stmt_handle column_indexes_in_result (column_indexes (desc row))
       d row h"


section \<open>Updates of one cell\<close>

definition put_cell :: "sorm_object \<Rightarrow> nat \<Rightarrow> cell \<Rightarrow> sorm_object" where
  "put_cell obj i c = obj\<lparr>cells := (cells obj)[i := c]\<rparr>"

definition has_cell :: "sorm_object \<Rightarrow> nat \<Rightarrow> bool" where
  "has_cell obj i \<longleftrightarrow> columns_num (desc obj) = int (length (cells obj)) \<and> i < length (cells obj)"

lemma put_cell_simps [simp]:
  "desc (put_cell obj i c) = desc obj"
  "length (cells (put_cell obj i c)) = length (cells obj)"
  "put_cell (put_cell obj i c) i c' = put_cell obj i c'"
  "has_cell (put_cell obj i c) j = has_cell obj j"
  "has_cell obj i \<Longrightarrow> cells (put_cell obj i c) ! i = c"
  "j \<noteq> i \<Longrightarrow> cells (put_cell obj i c) ! j = cells obj ! j"
  "put_cell obj i (cells obj ! i) = obj"
  by (simp_all add: put_cell_def has_cell_def)

lemma cell_at_has: "has_cell obj i \<Longrightarrow> cell_at obj (int i) = Some (cells obj ! i)"
  by (simp add: has_cell_def cell_at_def)

lemma update_cell_has:
  "has_cell obj i \<Longrightarrow> update_cell obj (int i) f = Some (put_cell obj i (f (cells obj ! i)))"
  by (simp add: update_cell_def cell_at_has put_cell_def)

text \<open>The accessors on a cell that exists.\<close>

lemma cell_ops:
  assumes "has_cell obj i"
  shows "i_get_column_stat obj (int i) = Some (stat (cells obj ! i))"
    and "i_add_column_stat obj (int i) s =
      Some (put_cell obj i ((cells obj ! i)\<lparr>stat := stat (cells obj ! i) OR s\<rparr>))"
    and "i_del_column_stat obj (int i) s =
      Some (put_cell obj i ((cells obj ! i)\<lparr>stat := stat (cells obj ! i) AND NOT s\<rparr>))"
    and "i_get_blob_len obj (int i) = Some (sint (blob_len (cells obj ! i)))"
    and "i_set_blob_len obj (int i) n =
      Some (put_cell obj i ((cells obj ! i)\<lparr>blob_len := word_of_int n\<rparr>))"
    and "get_member obj (int i) = Some (val (cells obj ! i))"
    and "set_member obj (int i) m = Some (put_cell obj i ((cells obj ! i)\<lparr>val := m\<rparr>))"
  using assms
  by (simp_all add: i_get_column_stat_def i_add_column_stat_def i_del_column_stat_def
      i_set_column_stat_def i_get_blob_len_def i_set_blob_len_def get_member_def set_member_def
      cell_at_has update_cell_has)

lemma stat_or_valued [simp]:
  "sorm_is_stat_valued (s OR SORM_STAT_VALUED)"
  "sorm_is_stat_valued (s OR SORM_STAT_NEEDFREE) \<longleftrightarrow> sorm_is_stat_valued s"
  "sorm_is_stat_valued (s AND NOT SORM_STAT_NEEDFREE) \<longleftrightarrow> sorm_is_stat_valued s"
  "s OR SORM_STAT_NULL = s"
  by (simp_all add: stat_valued_bit bit_simps SORM_STAT_VALUED_def SORM_STAT_NEEDFREE_def
      SORM_STAT_NULL_def bit_1_iff)

lemma stat_or_needfree [simp]:
  "sorm_is_stat_needfree (s OR SORM_STAT_NEEDFREE)"
  "sorm_is_stat_needfree (s OR SORM_STAT_VALUED) \<longleftrightarrow> sorm_is_stat_needfree s"
  "\<not> sorm_is_stat_needfree (s AND NOT SORM_STAT_NEEDFREE)"
  by (simp_all add: stat_needfree_bit bit_simps SORM_STAT_VALUED_def SORM_STAT_NEEDFREE_def
      bit_1_iff bit_not_iff)

section \<open>Well-formed objects\<close>

text \<open>
  The member has the form the generator gives it, a text array holds a C string and a blob array as
  many bytes as its length says, and only a heap text or blob may carry \<open>NEEDFREE\<close>.
\<close>

definition wf_cell :: "sorm_column_descriptor_t \<Rightarrow> cell \<Rightarrow> bool" where
  "wf_cell c cl \<longleftrightarrow>
     (case c_type c of
        SORM_TYPE_INT \<Rightarrow> (\<exists>i. val cl = M_int32 i) \<and> \<not> sorm_is_stat_needfree (stat cl)
      | SORM_TYPE_INT64 \<Rightarrow> (\<exists>i. val cl = M_int64 i) \<and> \<not> sorm_is_stat_needfree (stat cl)
      | SORM_TYPE_DOUBLE \<Rightarrow> (\<exists>d. val cl = M_double d) \<and> \<not> sorm_is_stat_needfree (stat cl)
      | SORM_TYPE_TEXT \<Rightarrow>
          (case c_mem c of
             SORM_MEM_HEAP \<Rightarrow> \<exists>a. val cl = M_ptr a
           | SORM_MEM_STACK \<Rightarrow> (\<exists>b. val cl = M_array b \<and> cap b = nat (c_max_len c + 1) \<and> is_cstr b)
                \<and> \<not> sorm_is_stat_needfree (stat cl)
           | _ \<Rightarrow> \<not> sorm_is_stat_needfree (stat cl))
      | SORM_TYPE_BLOB \<Rightarrow>
          (case c_mem c of
             SORM_MEM_HEAP \<Rightarrow> \<exists>a. val cl = M_ptr a
           | SORM_MEM_STACK \<Rightarrow> (\<exists>b. val cl = M_array b \<and> cap b = nat (c_max_len c + 1)) \<and>
                0 \<le> sint (blob_len cl) \<and> sint (blob_len cl) \<le> c_max_len c
                \<and> \<not> sorm_is_stat_needfree (stat cl)
           | _ \<Rightarrow> \<not> sorm_is_stat_needfree (stat cl))
      | SORM_TYPE_OTHER _ \<Rightarrow> \<not> sorm_is_stat_needfree (stat cl))"

text \<open>The blocks a cell has to free.\<close>

definition owned_cell :: "cell \<Rightarrow> addr set" where
  "owned_cell cl =
     (if sorm_is_stat_needfree (stat cl)
      then case val cl of M_ptr a \<Rightarrow> {a} - {0} | _ \<Rightarrow> {} else {})"

definition owned :: "sorm_object \<Rightarrow> addr set" where
  "owned obj = (\<Union>cl \<in> set (cells obj). owned_cell cl)"

definition wf_object :: "sorm_object \<Rightarrow> bool" where
  "wf_object obj \<longleftrightarrow> wf_table (desc obj) \<and> list_all2 wf_cell (columns (desc obj)) (cells obj)"

definition disjoint_cells :: "sorm_object \<Rightarrow> bool" where
  "disjoint_cells obj \<longleftrightarrow>
     (\<forall>i < length (cells obj). \<forall>j < length (cells obj). i \<noteq> j \<longrightarrow>
        owned_cell (cells obj ! i) \<inter> owned_cell (cells obj ! j) = {})"

definition object_ok :: "nat option \<Rightarrow> heap \<Rightarrow> sorm_object \<Rightarrow> bool" where
  "object_ok pool h obj \<longleftrightarrow> wf_object obj \<and> disjoint_cells obj \<and>
     (\<forall>a \<in> owned obj. \<exists>b. blocks h a = Some b \<and> owner b = pool)"

lemma wf_object_has: "wf_object obj \<Longrightarrow> i < length (columns (desc obj)) \<Longrightarrow> has_cell obj i"
  by (auto simp: wf_object_def has_cell_def wf_table_columns_num dest: list_all2_lengthD)

lemma wf_object_length: "wf_object obj \<Longrightarrow> length (cells obj) = length (columns (desc obj))"
  by (auto simp: wf_object_def dest: list_all2_lengthD)

lemma wf_object_cell:
  "wf_object obj \<Longrightarrow> i < length (columns (desc obj)) \<Longrightarrow>
   wf_cell (columns (desc obj) ! i) (cells obj ! i)"
  by (auto simp: wf_object_def dest: list_all2_nthD)

lemma wf_object_indexes: "wf_object obj \<Longrightarrow> column_indexes (desc obj) = [0..<length (cells obj)]"
  using wf_object_length by (simp add: wf_object_def wf_table_indexes)

lemma wf_object_put [wf_intros]:
  "wf_object obj \<Longrightarrow> wf_cell (columns (desc obj) ! i) c \<Longrightarrow> wf_object (put_cell obj i c)"
proof -
  assume wf: "wf_object obj" "wf_cell (columns (desc obj) ! i) c"
  then have "list_all2 wf_cell ((columns (desc obj))[i := columns (desc obj) ! i])
      ((cells obj)[i := c])"
    by (intro list_all2_update_cong) (auto simp: wf_object_def)
  with wf(1) show ?thesis by (simp add: wf_object_def put_cell_def)
qed

lemma owned_nth: "owned obj = (\<Union>i < length (cells obj). owned_cell (cells obj ! i))"
  by (auto simp: owned_def set_conv_nth)

lemma owned_put:
  "has_cell obj i \<Longrightarrow>
   owned (put_cell obj i c) = owned_cell c \<union> (\<Union>j \<in> {..< length (cells obj)} - {i}. owned_cell (cells obj ! j))"
proof -
  assume h: "has_cell obj i"
  then have i: "{..< length (cells obj)} = insert i ({..< length (cells obj)} - {i})"
    by (auto simp: has_cell_def)
  have eq: "(\<Union>j \<in> {..< length (cells obj)} - {i}. owned_cell (cells (put_cell obj i c) ! j))
      = (\<Union>j \<in> {..< length (cells obj)} - {i}. owned_cell (cells obj ! j))"
    by (rule SUP_cong) auto
  have "owned (put_cell obj i c) = owned_cell (cells (put_cell obj i c) ! i) \<union>
      (\<Union>j \<in> {..< length (cells obj)} - {i}. owned_cell (cells (put_cell obj i c) ! j))"
    unfolding owned_nth put_cell_simps(2) by (subst i) blast
  also have "\<dots> = owned_cell c \<union> (\<Union>j \<in> {..< length (cells obj)} - {i}. owned_cell (cells obj ! j))"
    unfolding eq using h by simp
  finally show ?thesis .
qed

text \<open>A cell that owned nothing takes ownership of blocks the object does not own yet.\<close>

lemma object_take:
  assumes "object_ok pool h obj" and "i < length (columns (desc obj))"
    and "owned_cell (cells obj ! i) = {}"
    and "wf_cell (columns (desc obj) ! i) c" and "owned_cell c \<inter> owned obj = {}"
    and "\<And>a. a \<in> owned obj \<Longrightarrow> blocks h' a = blocks h a"
    and "\<And>a. a \<in> owned_cell c \<Longrightarrow> \<exists>b. blocks h' a = Some b \<and> owner b = pool"
  shows "object_ok pool h' (put_cell obj i c)" and "owned (put_cell obj i c) = owned_cell c \<union> owned obj"
proof -
  from assms(1) have wf: "wf_object obj" and dj: "disjoint_cells obj"
    and own: "\<forall>a \<in> owned obj. \<exists>b. blocks h a = Some b \<and> owner b = pool"
    by (auto simp: object_ok_def)
  have has: "has_cell obj i" using wf assms(2) by (rule wf_object_has)
  have rest: "(\<Union>j \<in> {..< length (cells obj)} - {i}. owned_cell (cells obj ! j)) = owned obj"
    using owned_put [OF has, of "cells obj ! i"] assms(3) by simp
  show o: "owned (put_cell obj i c) = owned_cell c \<union> owned obj"
    using owned_put [OF has, of c] rest by simp
  have sub: "j < length (cells obj) \<Longrightarrow> owned_cell (cells obj ! j) \<subseteq> owned obj" for j
    by (auto simp: owned_nth)
  have "disjoint_cells (put_cell obj i c)"
    unfolding disjoint_cells_def
  proof (intro allI impI)
    fix j k assume jk: "j < length (cells (put_cell obj i c))" "k < length (cells (put_cell obj i c))"
      "j \<noteq> k"
    then show "owned_cell (cells (put_cell obj i c) ! j) \<inter> owned_cell (cells (put_cell obj i c) ! k) = {}"
      using has dj sub [of j] sub [of k] assms(5)
      by (cases "j = i"; cases "k = i") (auto simp: disjoint_cells_def)
  qed
  moreover have "wf_object (put_cell obj i c)" using wf assms(4) by (rule wf_object_put)
  ultimately show "object_ok pool h' (put_cell obj i c)"
    using own assms(6,7) unfolding object_ok_def o by auto
qed

text \<open>A cell that lets go of what it owned.\<close>

lemma object_drop:
  assumes "object_ok pool h obj" and "i < length (columns (desc obj))"
    and "owned_cell c = {}" and "wf_cell (columns (desc obj) ! i) c"
  shows "object_ok pool h (put_cell obj i c)" and "owned (put_cell obj i c) \<subseteq> owned obj"
proof -
  from assms(1) have wf: "wf_object obj" and dj: "disjoint_cells obj"
    by (auto simp: object_ok_def)
  have has: "has_cell obj i" using wf assms(2) by (rule wf_object_has)
  show sub: "owned (put_cell obj i c) \<subseteq> owned obj"
    unfolding owned_put [OF has] using assms(3) by (auto simp: owned_nth)
  have "owned_cell (cells (put_cell obj i c) ! j) \<subseteq> owned_cell (cells obj ! j)" for j
    using assms(3) has by (cases "j = i") auto
  then have "disjoint_cells (put_cell obj i c)"
    using dj unfolding disjoint_cells_def put_cell_simps(2) by blast
  with wf_object_put [OF wf assms(4)] sub assms(1) show "object_ok pool h (put_cell obj i c)"
    by (auto simp: object_ok_def)
qed

lemma object_ok_new:
  assumes "wf_table td"
  shows "object_ok pool h (new_object td)" and "owned (new_object td) = {}"
proof -
  have "0 \<le> c_max_len c" if "c \<in> set (columns td)" for c
    using assms that by (auto simp: wf_table_def wf_column_def list_all_iff)
  then have "wf_cell c \<lparr>blob_len = 0, stat = 0, val = zero_member c\<rparr>" if "c \<in> set (columns td)" for c
    using that by (auto simp: wf_cell_def zero_member_def stat_needfree_bit buf_new_def is_cstr_def
        cstr_def split: sorm_type_t.splits sorm_mem_t.splits)
  with assms have wf: "wf_object (new_object td)"
    by (auto simp: wf_object_def new_object_def list_all2_conv_all_nth)
  have o: "owned_cell (cells (new_object td) ! i) = {}" if "i < length (columns td)" for i
    using that by (simp add: new_object_def owned_cell_def stat_needfree_bit)
  have l: "length (cells (new_object td)) = length (columns td)" by (simp add: new_object_def)
  show e: "owned (new_object td) = {}" unfolding owned_nth l using o by simp
  have "disjoint_cells (new_object td)" unfolding disjoint_cells_def l using o by simp
  with wf e show "object_ok pool h (new_object td)" by (simp add: object_ok_def)
qed

section \<open>Release of what is owned\<close>

lemma free_columns_owned:
  assumes "alloc_contract (i_malloc al) (i_free al) (i_strdup al) pool"
    and "wf_object obj" and "disjoint_cells obj"
    and "distinct is" and "set is \<subseteq> {..< length (cells obj)}"
    and "heap_ok h"
    and "\<And>i a. i \<in> set is \<Longrightarrow> a \<in> owned_cell (cells obj ! i) \<Longrightarrow> \<exists>b. blocks h a = Some b \<and> owner b = pool"
  shows "\<exists>h'. free_columns al obj is h = Some h' \<and> heap_ok h' \<and>
    blocks h' = (\<lambda>a. if a \<in> (\<Union>i \<in> set is. owned_cell (cells obj ! i)) then None else blocks h a)"
  using assms(4-7)
proof (induction "is" arbitrary: h)
  case Nil
  then show ?case by simp
next
  case (Cons i "is")
  note c = assms(1)
  let ?cl = "cells obj ! i" and ?col = "columns (desc obj) ! i"
  have i: "i < length (columns (desc obj))"
    using Cons.prems(2) wf_object_length [OF assms(2)] by auto
  note has = wf_object_has [OF assms(2) i] and wfc = wf_object_cell [OF assms(2) i]
  have col: "column_at (desc obj) (int i) = Some ?col"
    using assms(2) i by (simp add: wf_object_def wf_table_column)
  show ?case
  proof (cases "sorm_is_stat_needfree (stat ?cl)")
    case False
    then have "owned_cell ?cl = {}" by (simp add: owned_cell_def)
    moreover have "\<exists>h'. free_columns al obj is h = Some h' \<and> heap_ok h' \<and>
      blocks h' = (\<lambda>a. if a \<in> (\<Union>i \<in> set is. owned_cell (cells obj ! i)) then None else blocks h a)"
      using Cons.prems by (intro Cons.IH) auto
    ultimately show ?thesis using False has by (simp add: cell_ops)
  next
    case True
    then obtain a where a: "val ?cl = M_ptr a" and t: "c_type ?col = SORM_TYPE_TEXT \<or> c_type ?col = SORM_TYPE_BLOB"
      and m: "c_mem ?col = SORM_MEM_HEAP"
      using wfc by (auto simp: wf_cell_def split: sorm_type_t.splits sorm_mem_t.splits)
    have oc: "owned_cell ?cl = {a} - {0}" using True a by (simp add: owned_cell_def)
    obtain h1 where h1: "i_free al a h = Some h1" "heap_ok h1" "blocks h1 = (if a = 0 then blocks h else (blocks h)(a := None))"
    proof (cases "a = 0")
      case True
      with alloc_contract.fre_null [OF c, of h] Cons.prems(3) that show ?thesis by simp
    next
      case False
      with Cons.prems(4) [of i a] oc obtain b where "blocks h a = Some b" "owner b = pool" by auto
      from alloc_contract.fre_owned [OF c Cons.prems(3) this] False that show ?thesis by auto
    qed
    have sep: "a \<notin> owned_cell (cells obj ! j)" if "j \<in> set is" "a \<noteq> 0" for j
    proof -
      have "j \<noteq> i" "j < length (cells obj)" "i < length (cells obj)"
        using that Cons.prems(1,2) by auto
      with assms(3) have "owned_cell ?cl \<inter> owned_cell (cells obj ! j) = {}"
        unfolding disjoint_cells_def by simp
      with oc that(2) show ?thesis by auto
    qed
    have "\<exists>h'. free_columns al obj is h1 = Some h' \<and> heap_ok h' \<and>
      blocks h' = (\<lambda>x. if x \<in> (\<Union>i \<in> set is. owned_cell (cells obj ! i)) then None else blocks h1 x)"
    proof (rule Cons.IH)
      show "distinct is" "set is \<subseteq> {..< length (cells obj)}" using Cons.prems(1,2) by auto
      show "heap_ok h1" by (rule h1(2))
      fix j x assume j: "j \<in> set is" "x \<in> owned_cell (cells obj ! j)"
      with sep [OF j(1)] have "blocks h1 x = blocks h x" using h1(3) by auto
      with Cons.prems(4) [of j x] j show "\<exists>b. blocks h1 x = Some b \<and> owner b = pool" by simp
    qed
    then obtain h' where h': "free_columns al obj is h1 = Some h'" "heap_ok h'"
      "blocks h' = (\<lambda>x. if x \<in> (\<Union>i \<in> set is. owned_cell (cells obj ! i)) then None else blocks h1 x)"
      by blast
    have "free_columns al obj (i # is) h = Some h'"
      using t by (auto simp: cell_ops [OF has] True col m a h1(1) h'(1))
    moreover have "blocks h' = (\<lambda>x. if x \<in> (\<Union>i \<in> set (i # is). owned_cell (cells obj ! i)) then None
        else blocks h x)"
      using h'(3) h1(3) oc by (auto simp: fun_eq_iff)
    ultimately show ?thesis using h'(2) by blast
  qed
qed

lemma sorm_free_owned:
  assumes "allocator_ok al" and "object_ok (pool_of al) h obj" and "heap_ok h"
  shows "\<exists>h'. sorm_free al (Some obj) h = Some h' \<and> heap_ok h' \<and>
    blocks h' = (\<lambda>a. if a \<in> owned obj then None else blocks h a)"
proof -
  from assms(2) have wf: "wf_object obj" "disjoint_cells obj" by (simp_all add: object_ok_def)
  have "\<exists>h'. free_columns al obj [0..<length (cells obj)] h = Some h' \<and> heap_ok h' \<and>
    blocks h' = (\<lambda>a. if a \<in> (\<Union>i \<in> set [0..<length (cells obj)]. owned_cell (cells obj ! i)) then None
      else blocks h a)"
    using assms wf by (intro free_columns_owned) (auto simp: allocator_ok_def object_ok_def owned_nth)
  moreover have "(\<Union>i \<in> set [0..<length (cells obj)]. owned_cell (cells obj ! i)) = owned obj"
    unfolding owned_nth by (rule SUP_cong) auto
  ultimately show ?thesis by (simp only: sorm_free_def option.case wf_object_indexes [OF wf(1)])
qed

section \<open>Reading a row\<close>

lemma heap_ok_store [wf_intros]: "heap_ok h \<Longrightarrow> heap_ok (store h p c)"
  by (auto simp: heap_ok_def store_def)

lemma blocks_store_new:
  "blocks h = g(p \<mapsto> b) \<Longrightarrow> blocks (store h p c) = g(p \<mapsto> b\<lparr>content := c\<rparr>)"
  by (auto simp: store_def fun_eq_iff)

lemma is_cstr_printed:
  assumes "snprintf b 0 n s = Some (r, b')" and "0 < n" and "n \<le> cap b"
  shows "is_cstr b' \<and> cap b' = cap b \<and>
    (no_nul s \<and> r < int n \<longrightarrow> cstr b' = s)"
proof -
  have b': "b' = b\<lparr>bytes := take (n - 1) s @ [NUL] @ drop (Suc (min (length s) (n - 1))) (bytes b)\<rparr>"
    and r: "r = int (length s)"
    using assms by (auto simp: snprintf_def buf_write_def bind_Some_iff split: if_splits)
  have "NUL \<in> set (take (n - 1) s @ [NUL])" by simp
  then have "length (takeWhile (\<lambda>c. c \<noteq> NUL) (take (n - 1) s @ [NUL] @ zs)) \<le> n - 1" for zs
    by (metis (mono_tags, lifting) append.assoc append_Cons append_Nil length_take min.cobounded2
        order.trans takeWhile_append1 takeWhile_tail length_takeWhile_le)
  from this [of "drop (Suc (min (length s) (n - 1))) (bytes b)"]
  have "length (cstr b') < cap b" using assms(2,3) unfolding cstr_def b' by simp
  moreover have "cstr b' = s" if "no_nul s" "r < int n"
    using that takeWhile_no_nul [of s] unfolding cstr_def b' r by simp
  ultimately show ?thesis by (simp add: is_cstr_def b')
qed

lemma sint_word_of_int_small:
  "0 \<le> n \<Longrightarrow> n < 2 ^ 31 \<Longrightarrow> sint (word_of_int n :: 32 word) = n"
  by (simp add: sint_sbintrunc' signed_take_bit_int_eq_self)

text \<open>What happened to the heap when a cell was filled from a row.\<close>

definition cell_filled :: "nat option \<Rightarrow> heap \<Rightarrow> heap \<Rightarrow> cell \<Rightarrow> bool" where
  "cell_filled pool h h' cl \<longleftrightarrow> heap_ok h' \<and>
     (owned_cell cl = {} \<and> blocks h' = blocks h \<or>
      (\<exists>a b. owned_cell cl = {a} \<and> blocks h a = None \<and> owner b = pool \<and> blocks h' = (blocks h)(a \<mapsto> b)))"

lemma column_at_wf: "wf_object obj \<Longrightarrow> i < length (columns (desc obj)) \<Longrightarrow>
   column_at (desc obj) (int i) = Some (columns (desc obj) ! i)"
  by (simp add: wf_object_def wf_table_column)

lemma owned_cell_none: "\<not> sorm_is_stat_needfree (stat cl) \<Longrightarrow> owned_cell cl = {}"
  by (simp add: owned_cell_def)


lemma max_len_bounds:
  "wf_object obj \<Longrightarrow> i < length (columns (desc obj)) \<Longrightarrow>
   0 \<le> c_max_len (columns (desc obj) ! i) \<and> c_max_len (columns (desc obj) ! i) < 2 ^ 31 - 1"
  by (auto simp: wf_object_def wf_table_def wf_column_def list_all_length)

lemma column_open: "i_sqlite3_column api al obj st ci ri d h = Some r \<Longrightarrow> st \<noteq> 0"
  by (rule notI) (simp add: i_sqlite3_column_def)

lemma column_text_filled:
  assumes al: "allocator_ok al" and wf: "wf_object obj" and i: "i < length (columns (desc obj))"
    and ok: "heap_ok h" and nf: "\<not> sorm_is_stat_needfree (stat (cells obj ! i))"
    and nn: "sqlite3_column_type api st ri d \<noteq> SQLITE_NULL"
    and t: "c_type (columns (desc obj) ! i) = SORM_TYPE_TEXT"
    and run: "i_sqlite3_column api al obj st (int i) ri d h = Some (ret, obj', h')"
  shows "\<exists>cl. obj' = put_cell obj i cl \<and> wf_cell (columns (desc obj) ! i) cl \<and>
    cell_filled (pool_of al) h h' cl"
proof -
  let ?c = "columns (desc obj) ! i" and ?cl = "cells obj ! i"
  note has = wf_object_has [OF wf i] and wfc = wf_object_cell [OF wf i]
  note max = max_len_bounds [OF wf i] and c = al [unfolded allocator_ok_def]
  note run' = run [unfolded i_sqlite3_column_def if_not_P [OF column_open [OF run]] Let_def column_at_wf [OF wf i]]
  note ops = cell_ops [OF has] cell_ops [of "put_cell obj i x" i for x, simplified, OF has]
  show ?thesis
  proof (cases "c_mem ?c")
    case SORM_MEM_HEAP
    with run' t nn obtain p where d: "i_strdup al (sqlite3_column_text api st ri d) h = Some (p, h')"
      and o: "obj' = put_cell obj i (?cl\<lparr>val := M_ptr p,
                stat := (stat ?cl OR SORM_STAT_NEEDFREE) OR SORM_STAT_VALUED\<rparr>)"
      by (auto simp: bind_Some_iff ops has)
    let ?cl' = "?cl\<lparr>val := M_ptr p, stat := (stat ?cl OR SORM_STAT_NEEDFREE) OR SORM_STAT_VALUED\<rparr>"
    have w: "wf_cell ?c ?cl'" using t SORM_MEM_HEAP by (simp add: wf_cell_def)
    have oc: "owned_cell ?cl' = {p} - {0}" by (simp add: owned_cell_def)
    have "cell_filled (pool_of al) h h' ?cl'"
    proof (cases "sqlite3_column_text api st ri d")
      case None
      with d alloc_contract.dup_null [OF c, of h] ok oc show ?thesis by (simp add: cell_filled_def)
    next
      case (Some s)
      with alloc_contract.dup_fresh [OF c ok, of s p h'] d oc show ?thesis
        unfolding cell_filled_def by (intro conjI disjI2 exI [of _ p] exI) auto
    qed
    with o w show ?thesis by blast
  next
    case SORM_MEM_STACK
    with wfc t obtain b where b: "val ?cl = M_array b" "cap b = nat (c_max_len ?c + 1)" "is_cstr b"
      by (auto simp: wf_cell_def)
    have sz: "size_t (c_max_len ?c + 1) = nat (c_max_len ?c + 1)" using max by simp
    consider (none) "obj' = put_cell obj i (?cl\<lparr>stat := stat ?cl OR SORM_STAT_VALUED\<rparr>)" "h' = h"
      | (some) s r b' where "snprintf b 0 (nat (c_max_len ?c + 1)) s = Some (r, b')" "h' = h"
          "obj' = put_cell obj i (?cl\<lparr>val := M_array b'\<rparr>) \<or>
           obj' = put_cell obj i (?cl\<lparr>val := M_array b', stat := stat ?cl OR SORM_STAT_VALUED\<rparr>)"
      using run' t nn SORM_MEM_STACK b(1) sz
      by (cases "sqlite3_column_blob api st ri d") (auto simp: bind_Some_iff ops has split: if_splits)
    then show ?thesis
    proof cases
      case none
      with b t SORM_MEM_STACK nf ok show ?thesis
        by (auto simp: wf_cell_def cell_filled_def owned_cell_none)
    next
      case some
      with is_cstr_printed [OF some(1)] b(2) max have "is_cstr b'" "cap b' = nat (c_max_len ?c + 1)"
        by auto
      with some(2,3) t SORM_MEM_STACK nf ok show ?thesis
        by (auto simp: wf_cell_def cell_filled_def owned_cell_none)
    qed
  qed (use run' t nn wfc ok nf put_cell_simps(7) [of obj i] in
      \<open>auto simp: cell_filled_def owned_cell_none intro!: exI [of _ ?cl]\<close>)
qed

lemma column_blob_filled:
  assumes al: "allocator_ok al" and wf: "wf_object obj" and i: "i < length (columns (desc obj))"
    and ok: "heap_ok h" and nf: "\<not> sorm_is_stat_needfree (stat (cells obj ! i))"
    and nn: "sqlite3_column_type api st ri d \<noteq> SQLITE_NULL"
    and t: "c_type (columns (desc obj) ! i) = SORM_TYPE_BLOB"
    and run: "i_sqlite3_column api al obj st (int i) ri d h = Some (ret, obj', h')"
  shows "\<exists>cl. obj' = put_cell obj i cl \<and> wf_cell (columns (desc obj) ! i) cl \<and>
    cell_filled (pool_of al) h h' cl"
proof -
  let ?c = "columns (desc obj) ! i" and ?cl = "cells obj ! i"
  let ?n = "sint (sqlite3_column_bytes api st ri d)"
  note has = wf_object_has [OF wf i] and wfc = wf_object_cell [OF wf i]
  note max = max_len_bounds [OF wf i] and c = al [unfolded allocator_ok_def]
  note run' = run [unfolded i_sqlite3_column_def if_not_P [OF column_open [OF run]] Let_def column_at_wf [OF wf i]]
  note ops = cell_ops [OF has] cell_ops [of "put_cell obj i x" i for x, simplified, OF has]
  have same: ?thesis if "obj' = obj" "h' = h"
    using that wfc ok nf put_cell_simps(7) [of obj i]
    by (auto simp: cell_filled_def owned_cell_none intro!: exI [of _ ?cl])
  show ?thesis
  proof (cases "c_mem ?c")
    case SORM_MEM_HEAP
    show ?thesis
    proof (cases "?n = 0")
      case True
      with run' t nn SORM_MEM_HEAP nf ok has show ?thesis
        by (auto simp: bind_Some_iff ops wf_cell_def cell_filled_def owned_cell_none)
    next
      case False
      then obtain p h1 where m: "i_malloc al (size_t ?n) h = Some (p, h1)"
        using run' t nn SORM_MEM_HEAP by (auto simp: bind_Some_iff)
      show ?thesis
      proof (cases "p = 0")
        case True
        with alloc_contract.mal_nonnull [OF c ok m] have "size_t ?n = 0" by simp
        with alloc_contract.mal_zero [OF c, of h] m True run' t nn SORM_MEM_HEAP False
        show ?thesis by (intro same) auto
      next
        case p: False
        with alloc_contract.mal_nonnull [OF c ok m] have "0 < size_t ?n" by simp
        from alloc_contract.mal_fresh [OF c ok this m] have f: "blocks h p = None" "heap_ok h1"
          "blocks h1 = (blocks h)(p \<mapsto> \<lparr>owner = pool_of al, content = C_raw (size_t ?n)\<rparr>)" by auto
        obtain bs where o: "obj' = put_cell obj i (?cl\<lparr>val := M_ptr p,
              blob_len := word_of_int ?n, stat := (stat ?cl OR SORM_STAT_NEEDFREE) OR SORM_STAT_VALUED\<rparr>)" (is "_ = put_cell _ _ ?cl'")
          and h': "h' = store h1 p (C_bytes (take (size_t ?n) bs))"
          using run' t nn SORM_MEM_HEAP False m p
          by (auto simp: bind_Some_iff ops has split: if_splits)
        have "owned_cell ?cl' = {p}" using p by (simp add: owned_cell_def)
        moreover have "wf_cell ?c ?cl'" using t SORM_MEM_HEAP by (simp add: wf_cell_def)
        ultimately show ?thesis using o h' f blocks_store_new [OF f(3)] heap_ok_store [OF f(2)]
          unfolding cell_filled_def by (intro exI [of _ ?cl'] conjI disjI2 exI [of _ p] exI) auto
      qed
    qed
  next
    case SORM_MEM_STACK
    with wfc t obtain b where b: "val ?cl = M_array b" "cap b = nat (c_max_len ?c + 1)"
      by (auto simp: wf_cell_def)
    show ?thesis
    proof (cases "?n > c_max_len ?c")
      case True
      with run' t nn SORM_MEM_STACK show ?thesis by (intro same) auto
    next
      case False
      obtain bs b' where w: "buf_write b 0 (take (size_t ?n) bs) = Some b'" "size_t ?n \<le> length bs"
        and o: "obj' = put_cell obj i (?cl\<lparr>val := M_array b',
            blob_len := word_of_int ?n, stat := stat ?cl OR SORM_STAT_VALUED\<rparr>)" and h': "h' = h"
        using run' t nn SORM_MEM_STACK False b
        by (auto simp: bind_Some_iff ops has split: if_splits)
      have "size_t ?n \<le> nat (c_max_len ?c + 1)"
        using w b(2) by (auto simp: buf_write_def split: if_splits)
      with max size_t_neg [of ?n] sint_ge [of "sqlite3_column_bytes api st ri d"]
      have "0 \<le> ?n" by (cases "?n < 0") auto
      then have "sint (word_of_int ?n :: 32 word) = ?n"
        using False max by (intro sint_word_of_int_small) auto
      with o h' False \<open>0 \<le> ?n\<close> cap_buf_write [OF w(1)] b(2) t SORM_MEM_STACK nf ok show ?thesis
        by (auto simp: wf_cell_def cell_filled_def owned_cell_none)
    qed
  qed (rule same; use run' t nn in auto)+
qed

lemma sqlite3_column_filled:
  assumes al: "allocator_ok al" and wf: "wf_object obj" and i: "i < length (columns (desc obj))"
    and ok: "heap_ok h" and nf: "\<not> sorm_is_stat_needfree (stat (cells obj ! i))"
    and run: "i_sqlite3_column api al obj st (int i) ri d h = Some (ret, obj', h')"
  shows "\<exists>cl. obj' = put_cell obj i cl \<and> wf_cell (columns (desc obj) ! i) cl \<and>
    cell_filled (pool_of al) h h' cl"
proof -
  let ?c = "columns (desc obj) ! i" and ?cl = "cells obj ! i"
  note has = wf_object_has [OF wf i] and wfc = wf_object_cell [OF wf i]
  note run' = run [unfolded i_sqlite3_column_def if_not_P [OF column_open [OF run]] Let_def column_at_wf [OF wf i]]
  note ops = cell_ops [OF has] cell_ops [of "put_cell obj i x" i for x, simplified, OF has]
  have same: ?thesis if "obj' = obj" "h' = h"
    using that wfc ok nf put_cell_simps(7) by (metis cell_filled_def owned_cell_none)
  show ?thesis
  proof (cases "sqlite3_column_type api st ri d = SQLITE_NULL")
    case True
    with run' show ?thesis by (intro same) (auto simp: ops)
  next
    case nn: False
    show ?thesis
    proof (cases "c_type ?c")
      case SORM_TYPE_INT
      with run' nn show ?thesis using nf ok has
        by (auto simp: ops wf_cell_def cell_filled_def owned_cell_none)
    next
      case SORM_TYPE_INT64
      with run' nn show ?thesis using nf ok has
        by (auto simp: ops wf_cell_def cell_filled_def owned_cell_none)
    next
      case SORM_TYPE_DOUBLE
      with run' nn show ?thesis using nf ok has
        by (auto simp: ops wf_cell_def cell_filled_def owned_cell_none)
    next
      case (SORM_TYPE_OTHER x)
      with run' nn show ?thesis by (intro same) auto
    next
      case SORM_TYPE_TEXT
      from column_text_filled [OF al wf i ok nf nn this run] show ?thesis .
    next
      case SORM_TYPE_BLOB
      from column_blob_filled [OF al wf i ok nf nn this run] show ?thesis .
    qed
  qed
qed

text \<open>
  While a row is read into an object: what the object owns was allocated since \<open>h0\<close>, and nothing
  else of the heap has changed.
\<close>

definition row_ok :: "nat option \<Rightarrow> heap \<Rightarrow> heap \<Rightarrow> sorm_object \<Rightarrow> bool" where
  "row_ok pool h0 h obj \<longleftrightarrow> object_ok pool h obj \<and> heap_ok h \<and>
     (\<forall>a. blocks h0 a = (if a \<in> owned obj then None else blocks h a))"

lemma row_ok_put:
  assumes "row_ok pool h0 h obj" and "i < length (columns (desc obj))"
    and "\<not> sorm_is_stat_needfree (stat (cells obj ! i))"
    and "wf_cell (columns (desc obj) ! i) cl" and "cell_filled pool h h' cl"
  shows "row_ok pool h0 h' (put_cell obj i cl)"
proof -
  have ok: "object_ok pool h obj" using assms(1) by (simp add: row_ok_def)
  note take = object_take [OF ok assms(2) owned_cell_none [OF assms(3)] assms(4)]
  from assms(5) consider (none) "owned_cell cl = {}" "blocks h' = blocks h"
    | (some) a b where "owned_cell cl = {a}" "blocks h a = None" "owner b = pool"
        "blocks h' = (blocks h)(a \<mapsto> b)"
    by (auto simp: cell_filled_def)
  then show ?thesis
  proof cases
    case none
    with take [of h'] assms(1,5) ok show ?thesis
      by (auto simp: row_ok_def cell_filled_def object_ok_def)
  next
    case some
    have a: "a \<notin> owned obj" using ok some(2) by (auto simp: object_ok_def)
    have "object_ok pool h' (put_cell obj i cl)"
      by (rule take(1)) (use a some in auto)
    moreover have "owned (put_cell obj i cl) = owned_cell cl \<union> owned obj"
      by (rule take(2) [where h' = h']) (use a some in auto)
    ultimately show ?thesis using a some assms(1,5) by (auto simp: row_ok_def cell_filled_def)
  qed
qed

lemma parse_columns_ok:
  assumes "allocator_ok al" and "row_ok (pool_of al) h0 h obj"
    and "distinct js" and "set js \<subseteq> {..< length (columns (desc obj))}"
    and "\<And>i. i \<in> set js \<Longrightarrow> \<not> sorm_is_stat_needfree (stat (cells obj ! i))"
    and "parse_columns api al st xs js d obj h = Some (ret, obj', h')"
  shows "row_ok (pool_of al) h0 h' obj' \<and> desc obj' = desc obj"
  using assms(2-)
proof (induction js arbitrary: obj h)
  case Nil
  then show ?case by auto
next
  case (Cons i js)
  have i: "i < length (columns (desc obj))" and nf: "\<not> sorm_is_stat_needfree (stat (cells obj ! i))"
    using Cons.prems by auto
  have wf: "wf_object obj" and hok: "heap_ok h"
    using Cons.prems(1) by (auto simp: row_ok_def object_ok_def)
  obtain x where x: "nth_opt xs (int i) = Some x" using Cons.prems(5) by (auto simp: bind_Some_iff)
  show ?case
  proof (cases "x = NO_INDEXES_IN_RESULT")
    case True
    then show ?thesis using Cons.prems x by (intro Cons.IH) auto
  next
    case False
    then obtain r o1 h1 where c: "i_sqlite3_column api al obj st (int i) x d h = Some (r, o1, h1)"
      and rest: "if r \<noteq> SORM_OK then (r, o1, h1) = (ret, obj', h')
        else parse_columns api al st xs js d o1 h1 = Some (ret, obj', h')"
      using Cons.prems(5) x by (auto simp: bind_Some_iff split: if_splits)
    from sqlite3_column_filled [OF assms(1) wf i hok nf c] obtain cl where
      o1: "o1 = put_cell obj i cl" and cl: "wf_cell (columns (desc obj) ! i) cl"
        "cell_filled (pool_of al) h h1 cl" by blast
    have row: "row_ok (pool_of al) h0 h1 o1"
      unfolding o1 using Cons.prems(1) i nf cl by (rule row_ok_put)
    have "\<not> sorm_is_stat_needfree (stat (cells o1 ! j))" if "j \<in> set js" for j
      using Cons.prems(2,4) that o1 by (cases "j = i") auto
    with row rest Cons.IH [of h1 o1] Cons.prems(2,3) o1 show ?thesis by (auto split: if_splits)
  qed
qed

lemma parse_result_ok:
  assumes "allocator_ok al" and "row_ok (pool_of al) h0 h obj" and "owned obj = {}"
    and "\<And>i. i < length (columns (desc obj)) \<Longrightarrow> \<not> sorm_is_stat_needfree (stat (cells obj ! i))"
    and "i_parse_select_result api al st xs d obj h = Some (ret, obj', h')"
  shows "row_ok (pool_of al) h0 h' obj' \<and> desc obj' = desc obj"
proof -
  have wf: "wf_object obj" using assms(2) by (simp add: row_ok_def object_ok_def)
  show ?thesis
    using assms wf_object_length [OF wf]
    by (intro parse_columns_ok [OF assms(1,2), where js = "[0..<length (cells obj)]"])
      (auto simp: i_parse_select_result_def wf_object_indexes [OF wf])
qed

lemma new_object_plain: "i < length (columns td) \<Longrightarrow> stat (cells (new_object td) ! i) = 0"
  by (simp add: new_object_def)

lemma row_ok_new: "wf_table td \<Longrightarrow> heap_ok h \<Longrightarrow> row_ok pool h h (new_object td)"
  using object_ok_new(1) [of td pool h] object_ok_new(2) [of td] by (simp add: row_ok_def)

lemma row_ok_free:
  assumes "allocator_ok al" and "row_ok (pool_of al) h0 h obj"
  shows "\<exists>h'. sorm_free al (Some obj) h = Some h' \<and> heap_ok h' \<and> blocks h' = blocks h0"
proof -
  obtain h' where "sorm_free al (Some obj) h = Some h'" "heap_ok h'"
    "blocks h' = (\<lambda>a. if a \<in> owned obj then None else blocks h a)"
    using sorm_free_owned [of al h obj] assms by (auto simp: row_ok_def)
  moreover have "(\<lambda>a. if a \<in> owned obj then None else blocks h a) = blocks h0"
    using assms(2) by (auto simp: row_ok_def fun_eq_iff)
  ultimately show ?thesis by auto
qed

section \<open>Round trip through a row\<close>

text \<open>
  What SQLite's documentation says of \<open>sqlite3_column_*\<close> when the column of the row holds the value
  \<open>v\<close>: \<open>sqlite3_column_text\<close> gives even an empty text as a string, while \<open>sqlite3_column_blob\<close> gives a \<open>NULL\<close> pointer for
  anything of length zero, an empty text included.
\<close>

definition column_answers :: "'db sqlite3_api \<Rightarrow> stmt \<Rightarrow> int \<Rightarrow> 'db \<Rightarrow> bind_value \<Rightarrow> bool" where
  "column_answers api st ri d v \<longleftrightarrow>
     (sqlite3_column_type api st ri d = SQLITE_NULL \<longleftrightarrow> v = Bind_null) \<and>
     (case v of
        Bind_int i \<Rightarrow> sqlite3_column_int api st ri d = i
      | Bind_int64 i \<Rightarrow> sqlite3_column_int64 api st ri d = i
      | Bind_double x \<Rightarrow> sqlite3_column_double api st ri d = x
      | Bind_text s \<Rightarrow> sqlite3_column_text api st ri d = Some s \<and>
          sqlite3_column_blob api st ri d = (if s = [] then None else Some s)
      | Bind_blob bs \<Rightarrow> length bs < 2 ^ 31 \<and>
          sqlite3_column_bytes api st ri d = word_of_int (int (length bs)) \<and>
          sqlite3_column_blob api st ri d = (if bs = [] then None else Some bs)
      | Bind_null \<Rightarrow> True)"

primrec value_size :: "bind_value \<Rightarrow> nat" where
  "value_size (Bind_int i) = 0"
| "value_size (Bind_int64 i) = 0"
| "value_size (Bind_double d) = 0"
| "value_size (Bind_text s) = length s + 1"
| "value_size (Bind_blob bs) = length bs"
| "value_size Bind_null = 0"

lemma load_str_no_nul: "load_str h p = Some s \<Longrightarrow> no_nul s"
  by (auto simp: load_str_def no_nul_def dest: set_takeWhileD split: option.splits content.splits if_splits)

text \<open>The value a \<open>const void *\<close> argument stands for, for a column of a given type.\<close>

definition arg_value ::
  "heap \<Rightarrow> sorm_column_descriptor_t \<Rightarrow> value_arg \<Rightarrow> int \<Rightarrow> bind_value option" where
  "arg_value h c v len =
     (case (c_type c, v) of
        (SORM_TYPE_INT, V_int32 i) \<Rightarrow> Some (Bind_int i)
      | (SORM_TYPE_INT64, V_int64 i) \<Rightarrow> Some (Bind_int64 i)
      | (SORM_TYPE_DOUBLE, V_double x) \<Rightarrow> Some (Bind_double x)
      | (SORM_TYPE_TEXT, V_mem p) \<Rightarrow> if p = 0 then None else map_option Bind_text (load_str h p)
      | (SORM_TYPE_BLOB, V_mem p) \<Rightarrow>
          if p = 0 \<or> len < 0 \<or> 2 ^ 31 \<le> len then None
          else map_option Bind_blob (load_bytes h p (nat len))
      | _ \<Rightarrow> None)"

text \<open>The texts and blobs that do not fit in the member.\<close>

definition too_long :: "sorm_column_descriptor_t \<Rightarrow> bind_value \<Rightarrow> bool" where
  "too_long c v \<longleftrightarrow> c_mem c = SORM_MEM_STACK \<and>
     (case v of
        Bind_text s \<Rightarrow> c_max_len c < int (length s)
      | Bind_blob bs \<Rightarrow> c_max_len c < int (length bs)
      | _ \<Rightarrow> False)"

definition mem_legal :: "sorm_column_descriptor_t \<Rightarrow> bool" where
  "mem_legal c \<longleftrightarrow> c_type c = SORM_TYPE_TEXT \<or> c_type c = SORM_TYPE_BLOB \<longrightarrow>
     c_mem c = SORM_MEM_HEAP \<or> c_mem c = SORM_MEM_STACK"

lemma buf_write_take:
  "buf_write b 0 bs = Some b' \<Longrightarrow>
   take (length bs) (bytes b') @ replicate (length bs - length (bytes b')) NUL = bs"
  by (auto simp: buf_write_def split: if_splits)

lemma load_bytes_length: "load_bytes h p n = Some bs \<Longrightarrow> length bs = n"
  by (auto simp: load_bytes_def split: option.splits content.splits if_splits)


text \<open>The outcome of setting column \<open>i\<close> to \<open>v\<close>: only its cell changes.\<close>

definition sets_cell ::
  "sorm_object \<Rightarrow> nat \<Rightarrow> heap \<Rightarrow> bind_value \<Rightarrow> (sorm_error_t \<times> sorm_object option) option \<Rightarrow> bool" where
  "sets_cell obj i h v res \<longleftrightarrow>
     (let c = columns (desc obj) ! i in
      \<exists>cl. res = Some (if too_long c v then SORM_TOO_LONG else SORM_OK, Some (put_cell obj i cl)) \<and>
        wf_cell c cl \<and>
        (if too_long c v then stat cl = stat (cells obj ! i)
         else sorm_is_stat_valued (stat cl) \<and> \<not> sorm_is_stat_needfree (stat cl) \<and>
              column_bind_value (put_cell obj i cl) (int i) h = Some (Inr v)))"

lemmas set_column_defs = sets_cell_def sorm_set_column_value_def column_bind_value_def wf_cell_def
  too_long_def

lemma set_text_stack:
  assumes wf: "wf_object obj" and i: "i < length (columns (desc obj))"
    and t: "c_type (columns (desc obj) ! i) = SORM_TYPE_TEXT"
    and m: "c_mem (columns (desc obj) ! i) = SORM_MEM_STACK" and s: "load_str h p = Some s"
  shows "sets_cell obj i h (Bind_text s) (sorm_set_column_value (Some obj) (int i) (Some (V_mem p)) len h)"
proof -
  let ?c = "columns (desc obj) ! i" and ?cl = "cells obj ! i"
  note has = wf_object_has [OF wf i] and wfc = wf_object_cell [OF wf i]
  note max = max_len_bounds [OF wf i] and col = column_at_wf [OF wf i]
  note ops = cell_ops [OF has] cell_ops [of "put_cell obj i x" i for x, simplified, OF has]
  let ?st = "(stat ?cl OR SORM_STAT_VALUED) AND NOT SORM_STAT_NEEDFREE"
  have sz: "size_t (c_max_len ?c + 1) = nat (c_max_len ?c + 1)" using max by simp
  from wfc t m obtain b where b: "val ?cl = M_array b" "cap b = nat (c_max_len ?c + 1)"
    by (auto simp: wf_cell_def)
  then obtain b' where b': "snprintf b 0 (nat (c_max_len ?c + 1)) s = Some (int (length s), b')"
    using snprintf_returns [of 0 "nat (c_max_len ?c + 1)" b s] by auto
  with is_cstr_printed [OF b'] b(2) max load_str_no_nul [OF s] have
    c: "is_cstr b'" "cap b' = nat (c_max_len ?c + 1)" "int (length s) \<le> c_max_len ?c \<Longrightarrow> cstr b' = s"
    by auto
  show ?thesis
  proof (cases "c_max_len ?c < int (length s)")
    case True
    with t m s b b' c has wfc show ?thesis unfolding set_column_defs
      by (auto simp: Let_def col ops sz intro!: exI [of _ "?cl\<lparr>val := M_array b'\<rparr>"])
  next
    case False
    with t m s b b' c has show ?thesis unfolding set_column_defs
      by (auto simp: Let_def col ops sz intro!: exI [of _ "?cl\<lparr>val := M_array b', stat := ?st\<rparr>"])
  qed
qed

lemma set_blob_stack:
  assumes wf: "wf_object obj" and i: "i < length (columns (desc obj))"
    and t: "c_type (columns (desc obj) ! i) = SORM_TYPE_BLOB"
    and m: "c_mem (columns (desc obj) ! i) = SORM_MEM_STACK" and len: "0 \<le> len" "len < 2 ^ 31"
    and s: "load_bytes h p (nat len) = Some s"
  shows "sets_cell obj i h (Bind_blob s) (sorm_set_column_value (Some obj) (int i) (Some (V_mem p)) len h)"
proof -
  let ?c = "columns (desc obj) ! i" and ?cl = "cells obj ! i"
  note has = wf_object_has [OF wf i] and wfc = wf_object_cell [OF wf i]
  note max = max_len_bounds [OF wf i] and col = column_at_wf [OF wf i]
  note ops = cell_ops [OF has] cell_ops [of "put_cell obj i x" i for x, simplified, OF has]
  let ?st = "(stat ?cl OR SORM_STAT_VALUED) AND NOT SORM_STAT_NEEDFREE"
  have l: "len = int (length s)" using load_bytes_length [OF s] len by simp
  show ?thesis
  proof (cases "len > c_max_len ?c")
    case True
    with t m l has wfc show ?thesis unfolding set_column_defs
      by (auto simp: Let_def col ops intro!: exI [of _ ?cl])
  next
    case False
    from t m wfc obtain b where b: "val ?cl = M_array b" "cap b = nat (c_max_len ?c + 1)"
      by (auto simp: wf_cell_def)
    have "length s \<le> cap b" using b(2) l False by linarith
    then obtain b' where b': "buf_write b 0 s = Some b'"
      using buf_write_returns [of 0 s b] by auto
    have "sint (word_of_int len :: 32 word) = len" using len by (rule sint_word_of_int_small)
    with t m s b l len False has cap_buf_write [OF b'] buf_write_take [OF b'] b' show ?thesis
      unfolding set_column_defs
      by (auto simp: Let_def col ops
          intro!: exI [of _ "?cl\<lparr>val := M_array b', blob_len := word_of_int len, stat := ?st\<rparr>"])
  qed
qed

lemma set_column_value_sets:
  assumes wf: "wf_object obj" and i: "i < length (columns (desc obj))"
    and v: "arg_value h (columns (desc obj) ! i) va len = Some v"
    and ml: "mem_legal (columns (desc obj) ! i)"
  shows "sets_cell obj i h v (sorm_set_column_value (Some obj) (int i) (Some va) len h)"
proof -
  let ?c = "columns (desc obj) ! i" and ?cl = "cells obj ! i"
  note has = wf_object_has [OF wf i] and col = column_at_wf [OF wf i]
  note ops = cell_ops [OF has] cell_ops [of "put_cell obj i x" i for x, simplified, OF has]
  let ?st = "(stat ?cl OR SORM_STAT_VALUED) AND NOT SORM_STAT_NEEDFREE"
  have num: ?thesis if "c_type ?c \<noteq> SORM_TYPE_TEXT" "c_type ?c \<noteq> SORM_TYPE_BLOB"
    using v that has unfolding arg_value_def set_column_defs
    by (auto simp: Let_def col ops split: sorm_type_t.splits value_arg.splits
        intro!: exI [of _ "?cl\<lparr>val := x, stat := ?st\<rparr>" for x])
  show ?thesis
  proof (cases "c_type ?c")
    case SORM_TYPE_TEXT
    with v obtain p s where p: "va = V_mem p" "p \<noteq> 0" "load_str h p = Some s" "v = Bind_text s"
      by (auto simp: arg_value_def split: value_arg.splits if_splits)
    show ?thesis
    proof (cases "c_mem ?c = SORM_MEM_HEAP")
      case True
      with p SORM_TYPE_TEXT has show ?thesis unfolding set_column_defs
        by (auto simp: Let_def col ops intro!: exI [of _ "?cl\<lparr>val := M_ptr p, stat := ?st\<rparr>"])
    next
      case False
      then have "c_mem ?c = SORM_MEM_STACK" using ml SORM_TYPE_TEXT by (auto simp: mem_legal_def)
      with set_text_stack [OF wf i SORM_TYPE_TEXT] p show ?thesis by simp
    qed
  next
    case SORM_TYPE_BLOB
    with v obtain p s where p: "va = V_mem p" "p \<noteq> 0" "0 \<le> len" "len < 2 ^ 31"
        "load_bytes h p (nat len) = Some s" "v = Bind_blob s"
      by (auto simp: arg_value_def split: value_arg.splits if_splits)
    show ?thesis
    proof (cases "c_mem ?c = SORM_MEM_HEAP")
      case True
      with p SORM_TYPE_BLOB has sint_word_of_int_small [OF p(3,4)] show ?thesis
        unfolding set_column_defs
        by (auto simp: Let_def col ops
            intro!: exI [of _ "?cl\<lparr>val := M_ptr p, blob_len := word_of_int len, stat := ?st\<rparr>"])
    next
      case False
      then have "c_mem ?c = SORM_MEM_STACK" using ml SORM_TYPE_BLOB by (auto simp: mem_legal_def)
      with set_blob_stack [OF wf i SORM_TYPE_BLOB] p show ?thesis by simp
    qed
  qed (use num in simp_all)
qed

lemma column_bind_calls:
  assumes "has_cell obj i" and "sorm_is_stat_valued (stat (cells obj ! i))"
    and "column_bind_value obj (int i) (hp w) = Some (Inr v)" and "st \<noteq> 0"
  shows "\<exists>r d. i_sqlite3_column_bind api st obj (int i) bi w
    = Some (if r \<noteq> SQLITE_OK then SORM_DB_ERROR else SORM_OK, log_call (Call_bind st bi v r) (w\<lparr>db := d\<rparr>))"
  using assms by (auto simp: i_sqlite3_column_bind_def cell_ops sq_bind_def Let_def split: prod.splits)

lemma sets_cell_owned:
  assumes "sets_cell obj i h v (Some (ret, Some obj'))" and "mem_legal (columns (desc obj) ! i)"
    and "arg_value h (columns (desc obj) ! i) va len = Some v"
  shows "\<exists>cl. obj' = put_cell obj i cl \<and> wf_cell (columns (desc obj) ! i) cl \<and> owned_cell cl = {}"
proof -
  let ?c = "columns (desc obj) ! i"
  from assms(1) obtain cl where cl: "obj' = put_cell obj i cl" "wf_cell ?c cl"
    "too_long ?c v \<or> \<not> sorm_is_stat_needfree (stat cl)"
    unfolding sets_cell_def Let_def by (auto split: if_splits)
  moreover have "\<not> sorm_is_stat_needfree (stat cl)" if "too_long ?c v"
    using that cl(2) assms(3) unfolding too_long_def wf_cell_def arg_value_def
    by (auto split: sorm_type_t.splits value_arg.splits bind_value.splits if_splits)
  ultimately show ?thesis using owned_cell_none by blast
qed

text \<open>
  C18: \<open>sorm_set_column_value\<close> on every column with a legal type and memory, for an argument of the
  column's type: it returns \<open>SORM_TOO_LONG\<close> exactly for a text or blob longer than a stack member
  and \<open>SORM_OK\<close> otherwise; only the column's own cell changes, the object owns no memory it did not
  own, and after \<open>SORM_OK\<close> the column is valued and \<open>_sqlite3_column_bind\<close> hands exactly the value
  given to SQLite.
\<close>

theorem set_column_then_bind:
  assumes "object_ok pool (hp w) obj" and "i < length (columns (desc obj))"
    and "mem_legal (columns (desc obj) ! i)"
    and "arg_value (hp w) (columns (desc obj) ! i) va len = Some v" and "st \<noteq> 0"
  shows "\<exists>ret obj'. sorm_set_column_value (Some obj) (int i) (Some va) len (hp w) = Some (ret, Some obj') \<and>
    object_ok pool (hp w) obj' \<and> owned obj' \<subseteq> owned obj \<and>
    (\<forall>j. j \<noteq> i \<longrightarrow> cells obj' ! j = cells obj ! j) \<and>
    ret = (if too_long (columns (desc obj) ! i) v then SORM_TOO_LONG else SORM_OK) \<and>
    (ret = SORM_OK \<longrightarrow> (\<exists>r d. i_sqlite3_column_bind api st obj' (int i) bi w
       = Some (if r \<noteq> SQLITE_OK then SORM_DB_ERROR else SORM_OK,
               log_call (Call_bind st bi v r) (w\<lparr>db := d\<rparr>))))"
proof -
  let ?c = "columns (desc obj) ! i"
  have wf: "wf_object obj" using assms(1) by (simp add: object_ok_def)
  note sets = set_column_value_sets [OF wf assms(2,4,3)]
  then obtain ret obj' where r: "sorm_set_column_value (Some obj) (int i) (Some va) len (hp w) = Some (ret, Some obj')"
    unfolding sets_cell_def Let_def by blast
  from sets_cell_owned [OF sets [unfolded r] assms(3,4)] obtain cl where
    cl: "obj' = put_cell obj i cl" "wf_cell ?c cl" "owned_cell cl = {}" by blast
  have ret: "ret = (if too_long ?c v then SORM_TOO_LONG else SORM_OK)"
    and ok: "\<not> too_long ?c v \<Longrightarrow> sorm_is_stat_valued (stat (cells obj' ! i)) \<and>
      column_bind_value obj' (int i) (hp w) = Some (Inr v)"
    using sets r wf_object_has [OF wf assms(2)] unfolding sets_cell_def Let_def by auto
  have "has_cell obj' i" using wf_object_has [OF wf assms(2)] cl(1) by simp
  with ok have "\<not> too_long ?c v \<Longrightarrow> \<exists>r d. i_sqlite3_column_bind api st obj' (int i) bi w
       = Some (if r \<noteq> SQLITE_OK then SORM_DB_ERROR else SORM_OK,
               log_call (Call_bind st bi v r) (w\<lparr>db := d\<rparr>))"
    using assms(5) by (intro column_bind_calls) auto
  with r ret object_drop [OF assms(1,2) cl(3,2)] cl(1) show ?thesis by auto
qed

text \<open>A table for concrete runs: an integer key, a short text in the object, a text on the heap.\<close>

definition demo_column :: "string \<Rightarrow> sorm_type_t \<Rightarrow> sorm_constraint_t \<Rightarrow> sorm_mem_t \<Rightarrow> int \<Rightarrow>
   sorm_column_descriptor_t" where
  "demo_column n t k m l = \<lparr>c_name = n, c_index = 0, c_type = t, c_constraint = k, c_mem = m,
     c_max_len = l, c_offset = 0, is_foreign_key = False, foreign_table_name = '''',
     foreign_column_name = ''''\<rparr>"

definition demo_table :: sorm_table_descriptor_t where
  "demo_table = \<lparr>t_name = ''device'', t_size = 96, columns_num = 3, PK_index = 0, create_sql = None,
     columns = [demo_column ''id'' SORM_TYPE_INT SORM_CONSTRAINT_PK SORM_MEM_NONE 0,
                demo_column ''uuid'' SORM_TYPE_TEXT SORM_CONSTRAINT_UNIQUE SORM_MEM_STACK 4,
                demo_column ''name'' SORM_TYPE_TEXT SORM_CONSTRAINT_NONE SORM_MEM_HEAP 0]\<rparr>"

lemma wf_demo_table [simp]: "wf_table demo_table"
  by (simp add: demo_table_def demo_column_def wf_table_def wf_column_def)

lemma demo_columns [simp]:
  "columns demo_table =
     [demo_column ''id'' SORM_TYPE_INT SORM_CONSTRAINT_PK SORM_MEM_NONE 0,
      demo_column ''uuid'' SORM_TYPE_TEXT SORM_CONSTRAINT_UNIQUE SORM_MEM_STACK 4,
      demo_column ''name'' SORM_TYPE_TEXT SORM_CONSTRAINT_NONE SORM_MEM_HEAP 0]"
  by (simp add: demo_table_def)

lemma heap_ok_start [simp]: "heap_ok (hp (start_world d))"
  by (simp add: heap_ok_def start_world_def)

lemma desc_new_object [simp]: "desc (new_object td) = td"
  by (simp add: new_object_def)

theorem set_column_then_bind_witness:
  "\<exists>obj' r d. sorm_set_column_value (Some (new_object demo_table)) 0 (Some (V_int32 7)) 0
      (hp (start_world ([] :: int list))) = Some (SORM_OK, Some obj') \<and>
    map_option snd (i_sqlite3_column_bind script_api 1 obj' 0 1 (start_world ([] :: int list)))
      = Some (log_call (Call_bind 1 1 (Bind_int 7) r) ((start_world ([] :: int list))\<lparr>db := d\<rparr>))"
proof -
  have ok: "object_ok None (hp (start_world ([] :: int list))) (new_object demo_table)"
    by (rule object_ok_new) simp
  have "0 < length (columns (desc (new_object demo_table)))"
    "mem_legal (columns (desc (new_object demo_table)) ! 0)"
    "arg_value (hp (start_world ([] :: int list))) (columns (desc (new_object demo_table)) ! 0) (V_int32 7) 0
       = Some (Bind_int 7)"
    by (simp_all add: mem_legal_def arg_value_def demo_column_def)
  from set_column_then_bind [OF ok this one_neq_zero, of script_api 1] obtain ret obj' where
    s: "sorm_set_column_value (Some (new_object demo_table)) (int 0) (Some (V_int32 7)) 0
          (hp (start_world ([] :: int list))) = Some (ret, Some obj')"
    and r: "ret = (if too_long (columns (desc (new_object demo_table)) ! 0) (Bind_int 7)
          then SORM_TOO_LONG else SORM_OK)"
    and b: "ret = SORM_OK \<longrightarrow> (\<exists>r d. i_sqlite3_column_bind script_api 1 obj' (int 0) 1 (start_world ([] :: int list))
       = Some (if r \<noteq> SQLITE_OK then SORM_DB_ERROR else SORM_OK,
               log_call (Call_bind 1 1 (Bind_int 7) r) ((start_world ([] :: int list))\<lparr>db := d\<rparr>)))" by blast
  from r have "ret = SORM_OK" by (simp add: too_long_def)
  with b obtain r d where "i_sqlite3_column_bind script_api 1 obj' 0 1 (start_world ([] :: int list))
       = Some (if r \<noteq> SQLITE_OK then SORM_DB_ERROR else SORM_OK,
               log_call (Call_bind 1 1 (Bind_int 7) r) ((start_world ([] :: int list))\<lparr>db := d\<rparr>))" by auto
  with s \<open>ret = SORM_OK\<close> show ?thesis by (intro exI [of _ obj'] exI [of _ r] exI [of _ d]) simp
qed

section \<open>Round trip\<close>

text \<open>What the column holds after it was read back: an empty heap blob comes back as \<open>NULL\<close>.\<close>

definition read_back :: "sorm_column_descriptor_t \<Rightarrow> bind_value \<Rightarrow> bind_value" where
  "read_back c v = (if v = Bind_blob [] \<and> c_mem c = SORM_MEM_HEAP then Bind_null else v)"

text \<open>The values a column of this type can hand to SQLite.\<close>

definition storable :: "sorm_column_descriptor_t \<Rightarrow> bind_value \<Rightarrow> bool" where
  "storable c v \<longleftrightarrow> mem_legal c \<and> \<not> too_long c v \<and>
     (case v of
        Bind_int i \<Rightarrow> c_type c = SORM_TYPE_INT
      | Bind_int64 i \<Rightarrow> c_type c = SORM_TYPE_INT64
      | Bind_double x \<Rightarrow> c_type c = SORM_TYPE_DOUBLE
      | Bind_text s \<Rightarrow> c_type c = SORM_TYPE_TEXT \<and> no_nul s
      | Bind_blob bs \<Rightarrow> c_type c = SORM_TYPE_BLOB
      | Bind_null \<Rightarrow> (c_type c = SORM_TYPE_TEXT \<or> c_type c = SORM_TYPE_BLOB) \<and> c_mem c = SORM_MEM_HEAP)"

lemma bound_storable:
  assumes wf: "wf_object obj" and i: "i < length (columns (desc obj))"
    and v: "column_bind_value obj (int i) h = Some (Inr v)"
  shows "storable (columns (desc obj) ! i) v"
proof -
  let ?c = "columns (desc obj) ! i" and ?cl = "cells obj ! i"
  note has = wf_object_has [OF wf i] and wfc = wf_object_cell [OF wf i]
  note max = max_len_bounds [OF wf i] and col = column_at_wf [OF wf i]
  have "length (take n xs @ replicate (n - length xs) NUL) = n" for n xs by simp
  with v wfc max show ?thesis
    unfolding column_bind_value_def storable_def mem_legal_def too_long_def wf_cell_def
    by (auto simp: col cell_ops [OF has] is_cstr_def load_str_no_nul
        split: sorm_type_t.splits sorm_mem_t.splits member.splits if_splits)
qed


lemma stat_valued_zero [simp]: "sorm_is_stat_valued SORM_STAT_VALUED"
  using stat_or_valued(1) [of 0] by simp

definition fresh_cell :: "sorm_column_descriptor_t \<Rightarrow> cell" where
  "fresh_cell c = \<lparr>blob_len = 0, stat = 0, val = zero_member c\<rparr>"

lemma new_object_cell [simp]:
  "i < length (columns td) \<Longrightarrow> cells (new_object td) ! i = fresh_cell (columns td ! i)"
  by (simp add: new_object_def fresh_cell_def)

text \<open>The allocator has the memory a value needs.\<close>

definition gives :: "sorm_allocator_t option \<Rightarrow> heap \<Rightarrow> bind_value \<Rightarrow> bool" where
  "gives al h v = (case v of
     Bind_text s \<Rightarrow> i_strdup al (Some s) h \<noteq> None | Bind_blob bs \<Rightarrow> i_malloc al (length bs) h \<noteq> None | _ \<Rightarrow> True)"

lemma gives_room: "heap_ok h \<Longrightarrow> value_size v \<le> room h \<Longrightarrow> gives None h v"
  using strdup_room [of _ h] i_malloc_room [of _ h] by (auto simp: gives_def split: bind_value.splits)

text \<open>Reading a value into a column that is still as in a new object.\<close>

lemma read_text:
  assumes al: "allocator_ok al" and wf: "wf_object obj" and i: "i < length (columns (desc obj))"
    and fr: "cells obj ! i = fresh_cell (columns (desc obj) ! i)"
    and c: "storable (columns (desc obj) ! i) (Bind_text s)"
    and a: "column_answers api st ri d (Bind_text s)" and h: "heap_ok h" and r: "gives al h (Bind_text s)"
    and st: "st \<noteq> 0"
  shows "\<exists>cl h'. i_sqlite3_column api al obj st (int i) ri d h = Some (SORM_OK, put_cell obj i cl, h') \<and>
    column_bind_value (put_cell obj i cl) (int i) h' = Some (Inr (Bind_text s)) \<and> sorm_is_stat_valued (stat cl)"
proof -
  let ?c = "columns (desc obj) ! i"
  note has = wf_object_has [OF wf i] and max = max_len_bounds [OF wf i] and col = column_at_wf [OF wf i]
  note ops = cell_ops [OF has] cell_ops [of "put_cell obj i x" i for x, simplified, OF has]
  note run = i_sqlite3_column_def if_not_P [OF st] column_bind_value_def Let_def col ops fr fresh_cell_def
  have t: "c_type ?c = SORM_TYPE_TEXT" "no_nul s" using c by (auto simp: storable_def)
  have a': "sqlite3_column_type api st ri d \<noteq> SQLITE_NULL" "sqlite3_column_text api st ri d = Some s"
    "sqlite3_column_blob api st ri d = (if s = [] then None else Some s)" using a by (auto simp: column_answers_def)
  note contract = al [unfolded allocator_ok_def]
  show ?thesis
  proof (cases "c_mem ?c = SORM_MEM_HEAP")
    case True
    obtain p h' where p: "i_strdup al (Some s) h = Some (p, h')" using r by (auto simp: gives_def)
    with alloc_contract.dup_load [OF contract h t(2) p] alloc_contract.dup_fresh [OF contract h p] True t a' has
    show ?thesis
      by (intro exI [of _ "\<lparr>blob_len = 0, stat = 0 OR SORM_STAT_NEEDFREE OR SORM_STAT_VALUED, val = M_ptr p\<rparr>"]
          exI [of _ h']) (simp add: run)
  next
    case False
    then have m: "c_mem ?c = SORM_MEM_STACK" "int (length s) \<le> c_max_len ?c"
      using c t by (auto simp: storable_def mem_legal_def too_long_def)
    have z: "zero_member ?c = M_array (buf_new (nat (c_max_len ?c + 1)))"
      using m t by (simp add: zero_member_def)
    have "snprintf (buf_new (nat (c_max_len ?c + 1))) 0 (nat (c_max_len ?c + 1)) s
        = Some (int (length s), buf_str (nat (c_max_len ?c + 1)) s)"
      using m max by (intro snprintf_new) auto
    moreover have "length s < nat (c_max_len ?c + 1)" using m max by auto
    ultimately show ?thesis
      by (intro exI [of _ "\<lparr>blob_len = 0, stat = 0 OR SORM_STAT_VALUED,
            val = M_array (if s = [] then buf_new (nat (c_max_len ?c + 1)) else buf_str (nat (c_max_len ?c + 1)) s)\<rparr>"]
          exI [of _ h]) (use m t a' has max z in \<open>cases "s = []"; simp add: run is_cstr_def buf_new_def cstr_def [of "\<lparr>cap = _, bytes = []\<rparr>"]\<close>)
  qed
qed

lemma read_blob:
  assumes al: "allocator_ok al" and wf: "wf_object obj" and i: "i < length (columns (desc obj))"
    and fr: "cells obj ! i = fresh_cell (columns (desc obj) ! i)"
    and c: "storable (columns (desc obj) ! i) (Bind_blob s)"
    and a: "column_answers api st ri d (Bind_blob s)" and h: "heap_ok h" and r: "gives al h (Bind_blob s)"
    and st: "st \<noteq> 0"
  shows "\<exists>cl h'. i_sqlite3_column api al obj st (int i) ri d h = Some (SORM_OK, put_cell obj i cl, h') \<and>
    column_bind_value (put_cell obj i cl) (int i) h'
      = Some (Inr (read_back (columns (desc obj) ! i) (Bind_blob s))) \<and> sorm_is_stat_valued (stat cl)"
proof -
  let ?c = "columns (desc obj) ! i" and ?n = "word_of_int (int (length s)) :: 32 word"
  note has = wf_object_has [OF wf i] and max = max_len_bounds [OF wf i] and col = column_at_wf [OF wf i]
  note ops = cell_ops [OF has] cell_ops [of "put_cell obj i x" i for x, simplified, OF has]
  note run = i_sqlite3_column_def if_not_P [OF st] column_bind_value_def Let_def col ops fr fresh_cell_def
  have t: "c_type ?c = SORM_TYPE_BLOB" using c by (auto simp: storable_def)
  have a': "sqlite3_column_type api st ri d \<noteq> SQLITE_NULL" "length s < 2 ^ 31"
    "sqlite3_column_bytes api st ri d = ?n"
    "sqlite3_column_blob api st ri d = (if s = [] then None else Some s)"
    using a by (auto simp: column_answers_def)
  have n: "sint ?n = int (length s)" using a'(2) by (intro sint_word_of_int_small) auto
  have sz: "size_t (int (length s)) = length s" using a'(2) by simp
  consider (empty) "c_mem ?c = SORM_MEM_HEAP" "s = []" | (heap) "c_mem ?c = SORM_MEM_HEAP" "s \<noteq> []"
    | (stack) "c_mem ?c = SORM_MEM_STACK" "int (length s) \<le> c_max_len ?c"
    using c t by (auto simp: storable_def mem_legal_def too_long_def)
  then show ?thesis
  proof cases
    case empty
    with t a' n has show ?thesis
      by (intro exI [of _ "\<lparr>blob_len = 0, stat = 0 OR SORM_STAT_VALUED, val = M_ptr 0\<rparr>"] exI [of _ h])
        (simp add: run read_back_def)
  next
    case heap
    obtain p h1 where p: "i_malloc al (length s) h = Some (p, h1)" using r by (auto simp: gives_def)
    from alloc_contract.mal_fresh [OF al [unfolded allocator_ok_def] h _ p] heap
    have f: "p \<noteq> 0" "blocks h1 p \<noteq> None" by auto
    let ?h' = "store h1 p (C_bytes s)"
    have "load_bytes ?h' p (length s) = Some s" using f(2) by (simp add: load_bytes_def)
    with p f heap t a' n sz has show ?thesis
      by (intro exI [of _ "\<lparr>blob_len = ?n, stat = 0 OR SORM_STAT_NEEDFREE OR SORM_STAT_VALUED, val = M_ptr p\<rparr>"]
          exI [of _ ?h']) (simp add: run read_back_def)
  next
    case stack
    let ?b = "buf_new (nat (c_max_len ?c + 1))"
    have z: "zero_member ?c = M_array ?b" using stack t by (simp add: zero_member_def)
    have le: "length s \<le> nat (c_max_len ?c + 1)" using stack by linarith
    then obtain b' where b': "buf_write ?b 0 s = Some b'"
      using buf_write_returns [of 0 s ?b] by (auto simp: buf_new_def)
    have "cap b' = nat (c_max_len ?c + 1)" using cap_buf_write [OF b'] by (simp add: buf_new_def)
    with b' z le buf_write_take [OF b'] stack t a' n sz has show ?thesis
      by (intro exI [of _ "\<lparr>blob_len = ?n, stat = 0 OR SORM_STAT_VALUED, val = M_array b'\<rparr>"]
          exI [of _ h]) (cases "s = []"; simp add: run read_back_def)
  qed
qed

lemma read_number:
  assumes wf: "wf_object obj" and i: "i < length (columns (desc obj))"
    and fr: "cells obj ! i = fresh_cell (columns (desc obj) ! i)"
    and c: "storable (columns (desc obj) ! i) v" and a: "column_answers api st ri d v" and st: "st \<noteq> 0"
    and n: "(\<exists>x. v = Bind_int x) \<or> (\<exists>x. v = Bind_int64 x) \<or> (\<exists>x. v = Bind_double x) \<or> v = Bind_null"
  shows "\<exists>cl. i_sqlite3_column api al obj st (int i) ri d h = Some (SORM_OK, put_cell obj i cl, h) \<and>
    column_bind_value (put_cell obj i cl) (int i) h = Some (Inr v) \<and>
    (sorm_is_stat_valued (stat cl) \<longleftrightarrow> v \<noteq> Bind_null)"
proof -
  note has = wf_object_has [OF wf i] and col = column_at_wf [OF wf i]
  note ops = cell_ops [OF has] cell_ops [of "put_cell obj i x" i for x, simplified, OF has]
  note run = i_sqlite3_column_def if_not_P [OF st] column_bind_value_def Let_def col ops fr fresh_cell_def
  show ?thesis
  proof (cases "v = Bind_null")
    case True
    with c a has i show ?thesis
      by (intro exI [of _ "cells obj ! i"])
        (auto simp: run storable_def column_answers_def zero_member_def stat_valued_bit)
  next
    case False
    with n c a has i show ?thesis
      by (intro exI [of _ "\<lparr>blob_len = 0, stat = 0 OR SORM_STAT_VALUED,
            val = (case v of Bind_int x \<Rightarrow> M_int32 x | Bind_int64 x \<Rightarrow> M_int64 x | Bind_double x \<Rightarrow> M_double x)\<rparr>"])
        (auto simp: run storable_def column_answers_def)
  qed
qed

lemma read_value:
  assumes al: "allocator_ok al" and wf: "wf_object obj" and i: "i < length (columns (desc obj))"
    and fr: "cells obj ! i = fresh_cell (columns (desc obj) ! i)"
    and c: "storable (columns (desc obj) ! i) v"
    and a: "column_answers api st ri d v" and h: "heap_ok h" and r: "gives al h v" and st: "st \<noteq> 0"
  shows "\<exists>cl h'. i_sqlite3_column api al obj st (int i) ri d h = Some (SORM_OK, put_cell obj i cl, h') \<and>
    column_bind_value (put_cell obj i cl) (int i) h' = Some (Inr (read_back (columns (desc obj) ! i) v)) \<and>
    (sorm_is_stat_valued (stat cl) \<longleftrightarrow> v \<noteq> Bind_null)"
proof (cases v)
  case (Bind_text s)
  with read_text [OF al wf i fr _ _ h _ st, of s] c a r show ?thesis by (auto simp: read_back_def)
next
  case (Bind_blob s)
  with read_blob [OF al wf i fr _ _ h _ st, of s] c a r show ?thesis by auto
qed (use read_number [OF wf i fr c a st, of al h] in \<open>auto simp: read_back_def\<close>)

text \<open>
  C6: Round trip of a column. When a column of a well-formed object hands a value to SQLite and a row
  answers that value, reading the row into a new object of the same table returns \<open>SORM_OK\<close>, and the
  new object's column hands the same value on: numbers, texts and blobs of every kind, in the object
  or on the heap, \<open>NULL\<close> included (the column is then not valued). Only an empty blob on the heap is
  read back as \<open>NULL\<close>.
\<close>

theorem column_roundtrip:
  assumes wf: "wf_object obj" and i: "i < length (columns (desc obj))"
    and v: "column_bind_value obj (int i) h0 = Some (Inr v)"
    and a: "column_answers api st ri d v" and st: "st \<noteq> 0" and h: "heap_ok h" and r: "value_size v \<le> room h"
  shows "\<exists>obj' h'. i_sqlite3_column api None (new_object (desc obj)) st (int i) ri d h
      = Some (SORM_OK, obj', h') \<and>
    column_bind_value obj' (int i) h' = Some (Inr (read_back (columns (desc obj) ! i) v)) \<and>
    (sorm_is_stat_valued (stat (cells obj' ! i)) \<longleftrightarrow> v \<noteq> Bind_null)"
proof -
  let ?o = "new_object (desc obj)"
  have td: "wf_table (desc obj)" using wf by (simp add: wf_object_def)
  have wfo: "wf_object ?o" using object_ok_new(1) [OF td] by (simp add: object_ok_def)
  have i': "i < length (columns (desc ?o))" using i by simp
  note c = bound_storable [OF wf i v]
  from read_value [OF allocator_ok_libc wfo i' _ _ a h gives_room [OF h r] st] c i
    wf_object_has [OF wfo i'] show ?thesis
    by (fastforce simp: put_cell_simps(5))
qed

definition demo_api :: "bind_value sqlite3_api" where
  "demo_api = \<lparr>
     sqlite3_open = (\<lambda>path d. (0, d)), sqlite3_close = (\<lambda>d. (0, d)),
     sqlite3_prepare = (\<lambda>sql d. (0, 1, d)), sqlite3_bind = (\<lambda>st i v d. (0, v)),
     sqlite3_step = (\<lambda>st d. (100, d)), sqlite3_finalize = (\<lambda>st d. (0, d)),
     sqlite3_column_type = (\<lambda>st i d. if d = Bind_null then SQLITE_NULL else 1),
     sqlite3_column_int = (\<lambda>st i d. case d of Bind_int x \<Rightarrow> x | _ \<Rightarrow> 0),
     sqlite3_column_int64 = (\<lambda>st i d. case d of Bind_int64 x \<Rightarrow> x | _ \<Rightarrow> 0),
     sqlite3_column_double = (\<lambda>st i d. case d of Bind_double x \<Rightarrow> x | _ \<Rightarrow> 0),
     sqlite3_column_text = (\<lambda>st i d. case d of Bind_text s \<Rightarrow> Some s | _ \<Rightarrow> None),
     sqlite3_column_blob = (\<lambda>st i d. case d of Bind_text s \<Rightarrow> (if s = [] then None else Some s)
        | Bind_blob s \<Rightarrow> (if s = [] then None else Some s) | _ \<Rightarrow> None),
     sqlite3_column_bytes = (\<lambda>st i d. case d of Bind_text s \<Rightarrow> word_of_int (int (length s))
        | Bind_blob s \<Rightarrow> word_of_int (int (length s)) | _ \<Rightarrow> 0),
     sqlite3_last_insert_rowid = (\<lambda>d. 0), sqlite3_changes = (\<lambda>d. 0)\<rparr>"

lemma demo_api_answers: "value_size v < 2 ^ 31 \<Longrightarrow> column_answers demo_api st ri v v"
  by (auto simp: column_answers_def demo_api_def SQLITE_NULL_def split: bind_value.splits)

definition demo_object :: sorm_object where
  "demo_object = put_cell (new_object demo_table) 1
     \<lparr>blob_len = 0, stat = SORM_STAT_VALUED, val = M_array (buf_str 5 ''abc'')\<rparr>"

theorem column_roundtrip_witness:
  "\<exists>obj' h'. i_sqlite3_column demo_api None (new_object demo_table) 1 1 0 (Bind_text ''abc'')
      (hp (start_world ())) = Some (SORM_OK, obj', h') \<and>
    column_bind_value obj' 1 h' = Some (Inr (Bind_text ''abc''))"
proof -
  let ?h = "hp (start_world ())"
  have d: "desc demo_object = demo_table" by (simp add: demo_object_def)
  have wf: "wf_object demo_object"
    unfolding demo_object_def using object_ok_new(1) [OF wf_demo_table]
    by (intro wf_object_put) (simp_all add: object_ok_def wf_cell_def demo_column_def is_cstr_def
        stat_needfree_bit SORM_STAT_VALUED_def bit_1_iff)
  have v: "column_bind_value demo_object (int 1) ?h = Some (Inr (Bind_text ''abc''))"
    by (simp add: demo_object_def column_bind_value_def put_cell_def new_object_def column_at_def
        nth_opt_def get_member_def cell_at_def i_get_blob_len_def is_cstr_def demo_table_def
        demo_column_def)
  have a: "column_answers demo_api 1 0 (Bind_text ''abc'') (Bind_text ''abc'')"
    by (rule demo_api_answers) simp
  from column_roundtrip [OF wf _ v a _ heap_ok_start, simplified d] show ?thesis
    by (auto simp: start_world_def read_back_def demo_column_def)
qed

end
