(* ===== verification/Sorm_Print.thy ===== *)
theory Sorm_Print
  imports Sorm_Object
begin

text \<open>
  \<open>sorm_to_string\<close> (\<^verbatim>\<open>src/src/sorm.c\<close>): the printed form of an object in a buffer of the caller.
\<close>

section \<open>The operation\<close>

text \<open>The text of one column; \<open>Some None\<close> is the branch that returns \<open>NULL\<close>.\<close>

definition column_text :: "sorm_object \<Rightarrow> int \<Rightarrow> heap \<Rightarrow> string option option" where
  "column_text obj i h =
     do { column_desc \<leftarrow> column_at (desc obj) i;
          s \<leftarrow> i_get_column_stat obj i;
          m \<leftarrow> get_member obj i;
          len \<leftarrow> i_get_blob_len obj i;
          let print = (\<lambda>t. Some (Some (c_name column_desc @ ''('' @ t @ ''); '')));
          if sorm_is_stat_valued s
          then (case c_type column_desc of
                  SORM_TYPE_INT \<Rightarrow>
                    (case m of M_int32 x \<Rightarrow> print (printf_d (sint x)) | _ \<Rightarrow> None)
                | SORM_TYPE_INT64 \<Rightarrow>
                    (case m of M_int64 x \<Rightarrow> print (printf_d (sint x)) | _ \<Rightarrow> None)
                | SORM_TYPE_TEXT \<Rightarrow>
                    (case c_mem column_desc of
                       SORM_MEM_HEAP \<Rightarrow>
                         (case m of
                            M_ptr p \<Rightarrow> do { t \<leftarrow> load_str h p;
                                            print ([CHR 0x22] @ t @ [CHR 0x22]) }
                          | _ \<Rightarrow> None)
                     | SORM_MEM_STACK \<Rightarrow>
                         (case m of
                            M_array b \<Rightarrow> if is_cstr b then print ([CHR 0x22] @ cstr b @ [CHR 0x22]) else None
                          | _ \<Rightarrow> None)
                     | _ \<Rightarrow> Some None)
                | SORM_TYPE_DOUBLE \<Rightarrow>
                    (case m of M_double x \<Rightarrow> print (printf_f x) | _ \<Rightarrow> None)
                | SORM_TYPE_BLOB \<Rightarrow> print (printf_d len)
                | SORM_TYPE_OTHER _ \<Rightarrow> Some None)
          else print ''null'' }"

text \<open>
  The loop over the columns. The result says whether the function returns the buffer (\<open>True\<close>) or
  \<open>NULL\<close>, and the buffer.
\<close>

fun to_string_loop ::
  "sorm_object \<Rightarrow> heap \<Rightarrow> int \<Rightarrow> nat list \<Rightarrow> int \<Rightarrow> cbuf \<Rightarrow> (bool \<times> cbuf) option" where
  "to_string_loop obj h len [] offset b =
     do { (ret, b) \<leftarrow> snprintf b offset (size_t (len - offset + 1)) ''}'';
          Some (True, b) }"
| "to_string_loop obj h len (i # is) offset b =
     do { t \<leftarrow> column_text obj (int i) h;
          case t of
            None \<Rightarrow> Some (False, b)
          | Some s \<Rightarrow>
              do { (ret, b) \<leftarrow> snprintf b offset (size_t (len - offset + 1)) s;
                   let offset = offset + ret;
                   if ret < 0 \<or> offset > len - 1 then Some (True, b)
                   else to_string_loop obj h len is offset b } }"

definition sorm_to_string ::
  "sorm_object option \<Rightarrow> cbuf option \<Rightarrow> int \<Rightarrow> heap \<Rightarrow> (bool \<times> cbuf option) option" where
  "sorm_to_string table_desc str len h =
     (case (table_desc, str) of
        (Some obj, Some b) \<Rightarrow>
          do { (ret, b) \<leftarrow> snprintf b 0 (size_t len) (t_name (desc obj) @ '' { '');
               if ret < 0 \<or> ret > len - 1 then Some (True, Some b)
               else do { (r, b) \<leftarrow> to_string_loop obj h len (column_indexes (desc obj)) ret b;
                         Some (r, Some b) } }
      | _ \<Rightarrow> Some (False, str))"

section \<open>The text\<close>

text \<open>The whole text, when every column has one.\<close>

definition object_text :: "sorm_object \<Rightarrow> string list \<Rightarrow> string" where
  "object_text obj ts = t_name (desc obj) @ '' { '' @ concat ts @ ''}''"

text \<open>A buffer that starts with the C string \<open>s\<close>.\<close>

definition holds_str :: "cbuf \<Rightarrow> string \<Rightarrow> bool" where
  "holds_str b s \<longleftrightarrow> (\<exists>j. bytes b = s @ NUL # j)"

lemma holds_str_cstr: "holds_str b s \<Longrightarrow> no_nul s \<Longrightarrow> cstr b = s"
  by (auto simp: holds_str_def cstr_def takeWhile_no_nul)

lemma snprintf_holds:
  assumes "n \<noteq> 0" and "length s < n" and "n \<le> cap b"
  shows "\<exists>b'. snprintf b 0 n s = Some (int (length s), b') \<and> holds_str b' s \<and> cap b' = cap b"
  using assms by (auto simp: snprintf_def buf_write_def holds_str_def)

lemma snprintf_holds_cut:
  assumes "n \<noteq> 0" and "n \<le> length s" and "n \<le> cap b"
  shows "\<exists>b'. snprintf b 0 n s = Some (int (length s), b') \<and> holds_str b' (take (n - 1) s)"
  using assms by (auto simp: snprintf_def buf_write_def holds_str_def)

lemma snprintf_extends:
  assumes "holds_str b s" and "length s + length t < cap b" and "length t < n"
  shows "\<exists>b'. snprintf b (int (length s)) n t = Some (int (length t), b') \<and> holds_str b' (s @ t) \<and>
    cap b' = cap b"
  using assms by (auto simp: snprintf_def buf_write_def holds_str_def)

text \<open>A text that does not fit is cut one byte too late: the NUL goes behind the buffer.\<close>

lemma snprintf_overflows:
  assumes "cap b = nat len" and "int off < len" and "len \<le> int off + int (length t)" and "len < 2 ^ 31"
  shows "snprintf b (int off) (size_t (len - int off + 1)) t = None"
proof -
  have sz: "size_t (len - int off + 1) = nat (len - int off) + 1" using assms(2,4) by simp
  have "cap b < off + length (take (nat (len - int off)) t @ [NUL])" using assms(1-3) by simp
  then have "buf_write b (int off) (take (nat (len - int off)) t @ [NUL]) = None"
    by (simp add: buf_write_def)
  then show ?thesis by (simp add: snprintf_def sz)
qed

lemma to_string_loop_eq:
  assumes "list_all2 (\<lambda>i t. column_text obj (int i) h = Some (Some t)) is ts"
    and "holds_str b s" and "cap b = nat len" and "int (length s) < len" and "len < 2 ^ 31"
  shows "if int (length (s @ concat ts @ ''}'')) < len
    then \<exists>b'. to_string_loop obj h len is (int (length s)) b = Some (True, b') \<and>
      holds_str b' (s @ concat ts @ ''}'')
    else to_string_loop obj h len is (int (length s)) b = None"
  using assms
proof (induction "is" ts arbitrary: s b rule: list_all2_induct)
  case Nil
  show ?case
  proof (cases "int (length s) + 1 < len")
    case True
    then have "Suc (length s) < nat len" by linarith
    with True snprintf_extends [OF Nil.prems(1), of "''}''" "size_t (len - int (length s) + 1)"]
      Nil.prems show ?thesis by auto
  next
    case False
    with snprintf_overflows [of b len "length s" "''}''"] Nil.prems show ?thesis by simp
  qed
next
  case (Cons i "is" t ts)
  show ?case
  proof (cases "int (length s + length t) < len")
    case True
    then have "length s + length t < nat len" "length t < nat (len - int (length s) + 1)" by linarith+
    then obtain b1 where b1: "snprintf b (int (length s)) (size_t (len - int (length s) + 1)) t
        = Some (int (length t), b1)" "holds_str b1 (s @ t)" "cap b1 = cap b"
      using snprintf_extends [OF Cons.prems(1), of t "size_t (len - int (length s) + 1)"] Cons.prems
      by auto
    have eq: "to_string_loop obj h len (i # is) (int (length s)) b
        = to_string_loop obj h len is (int (length (s @ t))) b1"
      using Cons.hyps(1) b1(1) True by simp
    from Cons.IH [OF b1(2)] b1(3) Cons.prems True show ?thesis
      unfolding eq by (auto split: if_splits)
  next
    case False
    with snprintf_overflows [of b len "length s" t] Cons.prems Cons.hyps(1) show ?thesis by simp
  qed
qed

text \<open>
  C39: \<open>sorm_to_string\<close> with a buffer of \<open>len\<close> bytes, for an object all of whose columns can be
  printed. When the whole text fits the buffer holds exactly it; when not even the head fits the
  head is cut to the buffer; in every other case the function stores one byte behind the buffer,
  because the later \<open>snprintf\<close> calls get \<open>len - offset + 1\<close> as the size.
\<close>

theorem to_string_text:
  assumes "list_all2 (\<lambda>i t. column_text obj (int i) h = Some (Some t)) (column_indexes (desc obj)) ts"
    and "int (cap b) = len" and "0 < len" and "len < 2 ^ 31"
  shows "if int (length (object_text obj ts)) < len
    then \<exists>b'. sorm_to_string (Some obj) (Some b) len h = Some (True, Some b') \<and>
      holds_str b' (object_text obj ts)
    else if int (length (t_name (desc obj) @ '' { '')) < len
    then sorm_to_string (Some obj) (Some b) len h = None
    else \<exists>b'. sorm_to_string (Some obj) (Some b) len h = Some (True, Some b') \<and>
      holds_str b' (take (nat (len - 1)) (t_name (desc obj) @ '' { ''))"
proof -
  let ?head = "t_name (desc obj) @ '' { ''"
  have sz: "size_t len = nat len" using assms(3,4) by simp
  show ?thesis
  proof (cases "int (length ?head) < len")
    case True
    then obtain b1 where b1: "snprintf b 0 (size_t len) ?head = Some (int (length ?head), b1)"
        "holds_str b1 ?head" "cap b1 = cap b"
      using snprintf_holds [of "nat len" ?head b] assms(2,3) by (auto simp: sz)
    have "sorm_to_string (Some obj) (Some b) len h
        = do { (r, b) \<leftarrow> to_string_loop obj h len (column_indexes (desc obj)) (int (length ?head)) b1;
               Some (r, Some b) }"
      using b1(1) True by (simp add: sorm_to_string_def)
    moreover have "object_text obj ts = ?head @ concat ts @ ''}''" by (simp add: object_text_def)
    ultimately show ?thesis
      using to_string_loop_eq [OF assms(1) b1(2), of len] b1(3) True assms(2,4)
      by (auto split: if_splits)
  next
    case False
    then obtain b1 where "snprintf b 0 (size_t len) ?head = Some (int (length ?head), b1)"
        "holds_str b1 (take (nat len - 1) ?head)"
      using snprintf_holds_cut [of "nat len" ?head b] assms(2,3) by (auto simp: sz)
    moreover have "nat (len - 1) = nat len - 1" by simp
    moreover have "\<not> int (length (object_text obj ts)) < len" using False by (simp add: object_text_def)
    ultimately show ?thesis using False by (auto simp: sorm_to_string_def)
  qed
qed

theorem to_string_text_witness:
  "\<exists>b'. sorm_to_string (Some (new_object demo_table)) (Some (buf_new 64)) 64 (hp (start_world ())) =
      Some (True, Some b') \<and> holds_str b' ''device { id(null); uuid(null); name(null); }''"
proof -
  have "list_all2 (\<lambda>i t. column_text (new_object demo_table) (int i) (hp (start_world ())) = Some (Some t))
      (column_indexes (desc (new_object demo_table)))
      [''id(null); '', ''uuid(null); '', ''name(null); '']"
    by (simp add: column_indexes_def demo_table_def upt_rec column_text_def new_object_def column_at_def
        nth_opt_def i_get_column_stat_def cell_at_def get_member_def i_get_blob_len_def
        stat_valued_bit demo_column_def)
  from to_string_text [OF this, of "buf_new 64" 64] show ?thesis
    by (simp add: buf_new_def object_text_def demo_table_def)
qed

end
