(* ===== verification/Sorm_Stmt.thy ===== *)
theory Sorm_Stmt
  imports Sorm_Object
begin

text \<open>
  The functions that run one statement (\<^verbatim>\<open>src/src/sorm.c\<close>): opening and closing a connection,
  creating and dropping tables and indexes, inserting, replacing, deleting and updating rows. Each
  builds its text in a \<open>char[SQL_STMT_MAX_LEN + 1]\<close> and then prepares, binds, steps and finalizes;
  \<open>stmt_protocol\<close> of \<open>Sorm_Db\<close> is the specification of that second half.
\<close>

section \<open>Loops that print and bind\<close>

text \<open>
  The shape of every loop that extends a statement: for index \<open>i\<close>, \<open>f i\<close> is the text to print, or
  \<open>Some None\<close> when the guard of the loop body skips it; the loop ends with \<open>SORM_TOO_LONG\<close> as soon
  as the text does not fit.
\<close>

fun for_print ::
  "(nat \<Rightarrow> string option option) \<Rightarrow> nat list \<Rightarrow> sqlbuf \<Rightarrow> (sorm_error_t \<times> sqlbuf) option" where
  "for_print f [] sql = Some (SORM_OK, sql)"
| "for_print f (i # is) sql =
     do { t \<leftarrow> f i;
          case t of
            None \<Rightarrow> for_print f is sql
          | Some s \<Rightarrow>
              do { (ret, sql) \<leftarrow> stmt_printf sql s;
                   if ret \<noteq> SORM_OK then Some (ret, sql) else for_print f is sql } }"

text \<open>\<open>if (sorm_is_stat_valued(_get_column_stat(table_desc, i)))\<close> with a text made of the name.\<close>

definition if_valued :: "sorm_object \<Rightarrow> (string \<Rightarrow> string) \<Rightarrow> nat \<Rightarrow> string option option" where
  "if_valued obj t i =
     do { s \<leftarrow> i_get_column_stat obj (int i);
          c \<leftarrow> column_at (desc obj) (int i);
          Some (if sorm_is_stat_valued s then Some (t (c_name c)) else None) }"

definition if_unique_valued :: "sorm_object \<Rightarrow> (string \<Rightarrow> string) \<Rightarrow> nat \<Rightarrow> string option option" where
  "if_unique_valued obj t i =
     do { s \<leftarrow> i_get_column_stat obj (int i);
          c \<leftarrow> column_at (desc obj) (int i);
          Some (if sorm_is_unique_column (c_constraint c) \<and> sorm_is_stat_valued s
                then Some (t (c_name c)) else None) }"

text \<open>
  The loops that bind: \<open>guard i\<close> is the condition of the body; the result carries the next
  \<open>bind_index\<close>.
\<close>

fun for_bind ::
  "'db sqlite3_api \<Rightarrow> stmt \<Rightarrow> sorm_object \<Rightarrow> (nat \<Rightarrow> bool option) \<Rightarrow> nat list \<Rightarrow> int \<Rightarrow> 'db world \<Rightarrow>
   (sorm_error_t \<times> int \<times> 'db world) option" where
  "for_bind api st obj guard [] bind_index w = Some (SORM_OK, bind_index, w)"
| "for_bind api st obj guard (i # is) bind_index w =
     do { b \<leftarrow> guard i;
          if b
          then do { (ret, w) \<leftarrow> i_sqlite3_column_bind api st obj (int i) bind_index w;
                    if ret \<noteq> SORM_OK then Some (ret, bind_index, w)
                    else for_bind api st obj guard is (bind_index + 1) w }
          else for_bind api st obj guard is bind_index w }"

definition is_valued :: "sorm_object \<Rightarrow> nat \<Rightarrow> bool option" where
  "is_valued obj i = map_option sorm_is_stat_valued (i_get_column_stat obj (int i))"

definition is_unique_valued :: "sorm_object \<Rightarrow> nat \<Rightarrow> bool option" where
  "is_unique_valued obj i =
     do { s \<leftarrow> i_get_column_stat obj (int i);
          c \<leftarrow> column_at (desc obj) (int i);
          Some (sorm_is_unique_column (c_constraint c) \<and> sorm_is_stat_valued s) }"

text \<open>\<open>sql_stmt[offset - n] = c;\<close>\<close>

definition stmt_put :: "sqlbuf \<Rightarrow> int \<Rightarrow> char \<Rightarrow> sqlbuf option" where
  "stmt_put sql n c = do { b \<leftarrow> buf_put (fst sql) (snd sql - n) c; Some (b, snd sql) }"

text \<open>\<open>if(ret < 0 || offset > SQL_STMT_MAX_LEN) return SORM_TOO_LONG;\<close> before the rest \<open>k\<close>.\<close>

definition unless_error ::
  "(sorm_error_t \<times> sqlbuf) option \<Rightarrow> (sorm_error_t \<Rightarrow> 'a) \<Rightarrow> (sqlbuf \<Rightarrow> 'a option) \<Rightarrow> 'a option" where
  "unless_error m e k = do { (ret, sql) \<leftarrow> m; if ret \<noteq> SORM_OK then Some (e ret) else k sql }"

section \<open>Tables\<close>

text \<open>The part of a column definition after the name and type.\<close>

definition constraint_text :: "sorm_constraint_t \<Rightarrow> string" where
  "constraint_text k =
     (case k of
        SORM_CONSTRAINT_PK \<Rightarrow> '' PRIMARY KEY,''
      | SORM_CONSTRAINT_PK_DESC \<Rightarrow> '' PRIMARY KEY DESC,''
      | SORM_CONSTRAINT_PK_ASC \<Rightarrow> '' PRIMARY KEY ASC,''
      | SORM_CONSTRAINT_UNIQUE \<Rightarrow> '' UNIQUE,''
      | _ \<Rightarrow> '','')"

fun for_column_defs ::
  "sorm_table_descriptor_t \<Rightarrow> nat list \<Rightarrow> sqlbuf \<Rightarrow> (sorm_error_t \<times> sqlbuf) option" where
  "for_column_defs td [] sql = Some (SORM_OK, sql)"
| "for_column_defs td (i # is) sql =
     do { c \<leftarrow> column_at td (int i);
          ty \<leftarrow> sorm_type_db_str (c_type c);
          (ret, sql) \<leftarrow> stmt_printf sql ('' '' @ c_name c @ '' '' @ ty);
          if ret \<noteq> SORM_OK then Some (ret, sql)
          else do { (ret, sql) \<leftarrow> stmt_printf sql (constraint_text (c_constraint c));
                    if ret \<noteq> SORM_OK then Some (ret, sql) else for_column_defs td is sql } }"

definition if_foreign ::
  "sorm_table_descriptor_t \<Rightarrow> (sorm_column_descriptor_t \<Rightarrow> string) \<Rightarrow> nat \<Rightarrow> string option option" where
  "if_foreign td t i =
     do { c \<leftarrow> column_at td (int i); Some (if is_foreign_key c then Some (t c) else None) }"

definition foreign_text :: "sorm_column_descriptor_t \<Rightarrow> string" where
  "foreign_text c = '' FOREIGN KEY('' @ c_name c @ '') REFERENCES '' @ foreign_table_name c @ ''('' @
     foreign_column_name c @ ''),''"

definition foreign_index_text :: "string \<Rightarrow> sorm_column_descriptor_t \<Rightarrow> string" where
  "foreign_index_text t c = ''; CREATE INDEX '' @ c_name c @ ''_index ON '' @ t @ ''('' @ c_name c @ '')''"

definition sorm_create_table ::
  "'db sqlite3_api \<Rightarrow> sorm_connection_t option \<Rightarrow> sorm_table_descriptor_t option \<Rightarrow> 'db world \<Rightarrow>
   (sorm_error_t \<times> 'db world) option" where
  "sorm_create_table api conn table_desc w =
     (case (conn, table_desc) of
        (Some cn, Some td) \<Rightarrow>
          (case create_sql td of
             None \<Rightarrow>
               unless_error (stmt_printf sql_stmt_init (''CREATE TABLE IF NOT EXISTS '' @ t_name td @ ''(''))
                 (\<lambda>e. (e, w)) (\<lambda>sql.
               unless_error (for_column_defs td (column_indexes td) sql) (\<lambda>e. (e, w)) (\<lambda>sql.
               unless_error (if sorm_foreign_key_enabled (flags cn)
                             then for_print (if_foreign td foreign_text) (column_indexes td) sql
                             else Some (SORM_OK, sql)) (\<lambda>e. (e, w)) (\<lambda>sql.
               do { sql \<leftarrow> stmt_put sql 1 CHR '')'';
                    unless_error (for_print (if_foreign td (foreign_index_text (t_name td)))
                                   (column_indexes td) sql) (\<lambda>e. (e, w)) (\<lambda>sql.
                    sorm_run_stmt api cn (cstr (fst sql)) SORM_RWLOCK_WRITE w) })))
           | Some s \<Rightarrow> sorm_run_stmt api cn s SORM_RWLOCK_WRITE w)
      | _ \<Rightarrow> Some (SORM_ARG_NULL, w))"

definition sorm_delete_table ::
  "'db sqlite3_api \<Rightarrow> sorm_connection_t option \<Rightarrow> sorm_table_descriptor_t option \<Rightarrow> 'db world \<Rightarrow>
   (sorm_error_t \<times> 'db world) option" where
  "sorm_delete_table api conn table_desc w =
     (case (conn, table_desc) of
        (Some cn, Some td) \<Rightarrow>
          unless_error (stmt_printf sql_stmt_init (''DROP TABLE '' @ t_name td)) (\<lambda>e. (e, w)) (\<lambda>sql.
          sorm_run_stmt api cn (cstr (fst sql)) SORM_RWLOCK_WRITE w)
      | _ \<Rightarrow> Some (SORM_ARG_NULL, w))"

section \<open>Indexes\<close>

text \<open>The suffix buffer is allocated, filled, printed and freed; the heap ends as it was.\<close>

definition with_index_suffix ::
  "string \<Rightarrow> (string \<Rightarrow> string) \<Rightarrow> 'db world \<Rightarrow> ((sorm_error_t \<times> sqlbuf) \<times> 'db world) option" where
  "with_index_suffix columns_name t w =
     do { (p, h) \<leftarrow> i_malloc None (length columns_name + 1) (hp w);
          index_suffix \<leftarrow> i_construct_index_suffix columns_name;
          r \<leftarrow> stmt_printf sql_stmt_init (t index_suffix);
          h \<leftarrow> i_free None p h;
          Some (r, w\<lparr>hp := h\<rparr>) }"

definition sorm_create_index ::
  "'db sqlite3_api \<Rightarrow> sorm_connection_t option \<Rightarrow> sorm_table_descriptor_t option \<Rightarrow> string option \<Rightarrow>
   'db world \<Rightarrow> (sorm_error_t \<times> 'db world) option" where
  "sorm_create_index api conn table_desc columns_name w =
     (case (conn, table_desc, columns_name) of
        (Some cn, Some td, Some cs) \<Rightarrow>
          do { ((ret, sql), w) \<leftarrow> with_index_suffix cs (\<lambda>s. ''CREATE INDEX IF NOT EXISTS index_'' @ s @
                  '' ON '' @ t_name td @ ''('' @ cs @ '')'') w;
               if ret \<noteq> SORM_OK then Some (ret, w)
               else sorm_run_stmt api cn (cstr (fst sql)) SORM_RWLOCK_WRITE w }
      | _ \<Rightarrow> Some (SORM_ARG_NULL, w))"

definition sorm_drop_index ::
  "'db sqlite3_api \<Rightarrow> sorm_connection_t option \<Rightarrow> string option \<Rightarrow> 'db world \<Rightarrow>
   (sorm_error_t \<times> 'db world) option" where
  "sorm_drop_index api conn columns_name w =
     (case (conn, columns_name) of
        (Some cn, Some cs) \<Rightarrow>
          do { ((ret, sql), w) \<leftarrow> with_index_suffix cs (\<lambda>s. ''DROP INDEX index_'' @ s) w;
               if ret \<noteq> SORM_OK then Some (ret, w)
               else sorm_run_stmt api cn (cstr (fst sql)) SORM_RWLOCK_WRITE w }
      | _ \<Rightarrow> Some (SORM_ARG_NULL, w))"

section \<open>Rows\<close>

text \<open>\<open>sorm_insert\<close> and \<open>sorm_replace\<close>: the object is updated with the row id.\<close>

definition save_run ::
  "'db sqlite3_api \<Rightarrow> sorm_connection_t \<Rightarrow> sorm_object \<Rightarrow> string \<Rightarrow> 'db world \<Rightarrow>
   (sorm_error_t \<times> sorm_object \<times> 'db world) option" where
  "save_run api conn obj sql_stmt w =
     (let (ret, stmt_handle, w) = i_sqlite3_prepare api sql_stmt w in
      if ret \<noteq> SQLITE_OK then Some (SORM_DB_ERROR, obj, w)
      else do { (ret, bind_index, w) \<leftarrow>
                  for_bind api stmt_handle obj (is_valued obj) (column_indexes (desc obj)) 1 w;
                if ret \<noteq> SORM_OK
                then let (ret, w) = db_finalize api stmt_handle ret w in Some (ret, obj, w)
                else do { (ret, w) \<leftarrow> i_sqlite3_step api conn stmt_handle SORM_RWLOCK_WRITE w;
                          if ret \<noteq> SQLITE_DONE
                          then let (ret, w) = db_finalize api stmt_handle SORM_DB_ERROR w in
                               Some (ret, obj, w)
                          else do { (ret, o') \<leftarrow>
                                      (if PK_index (desc obj) \<noteq> SORM_NO_PK
                                       then sorm_set_column_value (Some obj) (PK_index (desc obj))
                                              (Some (V_int32 (ucast (sqlite3_last_insert_rowid api (db w))))) 0 (hp w)
                                       else Some (SORM_OK, Some obj));
                                    obj \<leftarrow> o';
                                    if ret \<noteq> SORM_OK then Some (ret, obj, w)
                                    else let (ret, w) = db_finalize api stmt_handle SORM_OK w in
                                         Some (ret, obj, w) } } })"

definition i_save ::
  "'db sqlite3_api \<Rightarrow> sorm_connection_t option \<Rightarrow> sorm_object option \<Rightarrow> string \<Rightarrow> 'db world \<Rightarrow>
   (sorm_error_t \<times> sorm_object option \<times> 'db world) option" where
  "i_save api conn table_desc insert_or_replace w =
     (case (table_desc, conn) of
        (Some obj, Some cn) \<Rightarrow>
          do { has_value \<leftarrow> i_check_has_value obj;
               if \<not> has_value then Some (SORM_OK, Some obj, w)
               else
               unless_error (stmt_printf sql_stmt_init
                   (insert_or_replace @ '' INTO '' @ t_name (desc obj) @ '' (''))
                 (\<lambda>e. (e, Some obj, w)) (\<lambda>sql.
               unless_error (for_print (if_valued obj (\<lambda>n. '' '' @ n @ '','')) (column_indexes (desc obj)) sql)
                 (\<lambda>e. (e, Some obj, w)) (\<lambda>sql.
               do { sql \<leftarrow> stmt_put sql 1 CHR '')'';
                    unless_error (stmt_printf sql '' VALUES ('') (\<lambda>e. (e, Some obj, w)) (\<lambda>sql.
                    unless_error (for_print (if_valued obj (\<lambda>n. '' ?,'')) (column_indexes (desc obj)) sql)
                      (\<lambda>e. (e, Some obj, w)) (\<lambda>sql.
                    do { sql \<leftarrow> stmt_put sql 1 CHR '')'';
                         (ret, obj, w) \<leftarrow> save_run api cn obj (cstr (fst sql)) w;
                         Some (ret, Some obj, w) })) })) }
      | _ \<Rightarrow> Some (SORM_ARG_NULL, table_desc, w))"

definition sorm_insert ::
  "'db sqlite3_api \<Rightarrow> sorm_connection_t option \<Rightarrow> sorm_object option \<Rightarrow> 'db world \<Rightarrow>
   (sorm_error_t \<times> sorm_object option \<times> 'db world) option" where
  "sorm_insert api conn table_desc w = i_save api conn table_desc ''INSERT'' w"

definition sorm_replace ::
  "'db sqlite3_api \<Rightarrow> sorm_connection_t option \<Rightarrow> sorm_object option \<Rightarrow> 'db world \<Rightarrow>
   (sorm_error_t \<times> sorm_object option \<times> 'db world) option" where
  "sorm_replace api conn table_desc w = i_save api conn table_desc ''REPLACE'' w"

text \<open>
  The second half of \<open>sorm_delete\<close> and \<open>sorm_update\<close>: a failed step returns before
  \<open>DB_FINALIZE\<close>. \<open>binds\<close> is the sequence of binding loops.
\<close>

fun for_binds ::
  "'db sqlite3_api \<Rightarrow> stmt \<Rightarrow> sorm_object \<Rightarrow> (nat \<Rightarrow> bool option) list \<Rightarrow> int \<Rightarrow> 'db world \<Rightarrow>
   (sorm_error_t \<times> int \<times> 'db world) option" where
  "for_binds api st obj [] bind_index w = Some (SORM_OK, bind_index, w)"
| "for_binds api st obj (g # gs) bind_index w =
     do { (ret, bind_index, w) \<leftarrow> for_bind api st obj g (column_indexes (desc obj)) bind_index w;
          if ret \<noteq> SORM_OK then Some (ret, bind_index, w)
          else for_binds api st obj gs bind_index w }"

definition change_run ::
  "'db sqlite3_api \<Rightarrow> sorm_connection_t \<Rightarrow> sorm_object \<Rightarrow> (nat \<Rightarrow> bool option) list \<Rightarrow> string \<Rightarrow>
   'db world \<Rightarrow> (sorm_error_t \<times> 'db world) option" where
  "change_run api conn obj guards sql_stmt w =
     (let (ret, stmt_handle, w) = i_sqlite3_prepare api sql_stmt w in
      if ret \<noteq> SQLITE_OK then Some (SORM_DB_ERROR, w)
      else do { (ret, bind_index, w) \<leftarrow> for_binds api stmt_handle obj guards 1 w;
                if ret \<noteq> SORM_OK then Some (db_finalize api stmt_handle ret w)
                else do { (ret, w) \<leftarrow> i_sqlite3_step api conn stmt_handle SORM_RWLOCK_WRITE w;
                          if ret \<noteq> SQLITE_DONE then Some (SORM_DB_ERROR, w)
                          else Some (db_finalize api stmt_handle SORM_OK w) } })"

definition sorm_delete ::
  "'db sqlite3_api \<Rightarrow> sorm_connection_t option \<Rightarrow> sorm_object option \<Rightarrow> 'db world \<Rightarrow>
   (sorm_error_t \<times> 'db world) option" where
  "sorm_delete api conn table_desc w =
     (case table_desc of
        None \<Rightarrow> Some (SORM_ARG_NULL, w)
      | Some obj \<Rightarrow>
          do { has_value \<leftarrow> i_check_has_value obj;
               if \<not> has_value then Some (SORM_OK, w)
               else
               unless_error (stmt_printf sql_stmt_init (''DELETE FROM '' @ t_name (desc obj) @ '' WHERE ''))
                 (\<lambda>e. (e, w)) (\<lambda>sql.
               unless_error (for_print (if_valued obj (\<lambda>n. '' '' @ n @ ''=? AND'')) (column_indexes (desc obj)) sql)
                 (\<lambda>e. (e, w)) (\<lambda>sql.
               do { sql \<leftarrow> stmt_put sql 4 NUL;
                    cn \<leftarrow> conn;
                    change_run api cn obj [is_valued obj] (cstr (fst sql)) w })) })"

text \<open>
  \<open>sorm_update\<close> steps back over the last comma and prints \<open>WHERE\<close> there, with the size of the
  whole array as the bound.
\<close>

definition update_where :: "sqlbuf \<Rightarrow> (sorm_error_t \<times> sqlbuf) option" where
  "update_where sql =
     (let (buf, offset) = sql; offset = offset - 1 in
      do { buf \<leftarrow> buf_put buf offset NUL;
           (ret, buf) \<leftarrow> snprintf buf offset (size_t (SQL_STMT_MAX_LEN + 1)) '' WHERE'';
           let offset = offset + ret;
           Some (if ret < 0 \<or> offset > SQL_STMT_MAX_LEN then SORM_TOO_LONG else SORM_OK,
                 (buf, offset)) })"

definition sorm_update ::
  "'db sqlite3_api \<Rightarrow> sorm_connection_t option \<Rightarrow> sorm_object option \<Rightarrow> 'db world \<Rightarrow>
   (sorm_error_t \<times> 'db world) option" where
  "sorm_update api conn table_desc w =
     (case table_desc of
        None \<Rightarrow> Some (SORM_ARG_NULL, w)
      | Some obj \<Rightarrow>
          do { has_value \<leftarrow> i_check_has_value obj;
               if \<not> has_value then Some (SORM_OK, w)
               else
               unless_error (stmt_printf sql_stmt_init (''UPDATE '' @ t_name (desc obj) @ '' SET''))
                 (\<lambda>e. (e, w)) (\<lambda>sql.
               unless_error (for_print (if_valued obj (\<lambda>n. '' '' @ n @ ''=?,'')) (column_indexes (desc obj)) sql)
                 (\<lambda>e. (e, w)) (\<lambda>sql.
               unless_error (update_where sql) (\<lambda>e. (e, w)) (\<lambda>sql.
               unless_error (for_print (if_unique_valued obj (\<lambda>n. '' '' @ n @ ''=? AND''))
                               (column_indexes (desc obj)) sql) (\<lambda>e. (e, w)) (\<lambda>sql.
               do { sql \<leftarrow> stmt_put sql 4 NUL;
                    cn \<leftarrow> conn;
                    change_run api cn obj [is_valued obj, is_unique_valued obj] (cstr (fst sql)) w })))) })"

section \<open>Deleting by a filter\<close>

definition sorm_delete_by ::
  "'db sqlite3_api \<Rightarrow> sorm_connection_t option \<Rightarrow> sorm_table_descriptor_t option \<Rightarrow> string option \<Rightarrow>
   'db world \<Rightarrow> (sorm_error_t \<times> 'db world) option" where
  "sorm_delete_by api conn table_desc filter_arg w =
     (case (conn, table_desc) of
        (Some cn, Some td) \<Rightarrow>
          unless_error (stmt_printf sql_stmt_init (''DELETE FROM '' @ t_name td @ '' '')) (\<lambda>e. (e, w)) (\<lambda>sql.
          unless_error (case filter_arg of None \<Rightarrow> Some (SORM_OK, sql)
                        | Some f \<Rightarrow> stmt_printf sql (''WHERE '' @ f)) (\<lambda>e. (e, w)) (\<lambda>sql.
          sorm_run_stmt api cn (cstr (fst sql)) SORM_RWLOCK_WRITE w))
      | _ \<Rightarrow> Some (SORM_ARG_NULL, w))"

definition sorm_delete_by_column ::
  "'db sqlite3_api \<Rightarrow> sorm_connection_t option \<Rightarrow> sorm_table_descriptor_t option \<Rightarrow> int \<Rightarrow>
   value_arg option \<Rightarrow> 'db world \<Rightarrow> (sorm_error_t \<times> 'db world) option" where
  "sorm_delete_by_column api conn table_desc column_index column_value w =
     (if table_desc = None \<or> column_value = None then None
      else do { (ret, fl) \<leftarrow> i_construct_column_filter (hp w) table_desc column_index column_value;
                if ret \<noteq> SORM_OK then Some (ret, w)
                else sorm_delete_by api conn table_desc (Some (cstr fl)) w })"

section \<open>Connections\<close>

definition sizeof_connection :: nat where "sizeof_connection = 40"

definition sorm_open ::
  "'db sqlite3_api \<Rightarrow> string option \<Rightarrow> sorm_db_t \<Rightarrow> int \<Rightarrow> addr \<Rightarrow> 32 word \<Rightarrow> 'db world \<Rightarrow>
   (sorm_error_t \<times> (addr \<times> sorm_connection_t) option \<times> 'db world) option" where
  "sorm_open api path db_arg sem_key_arg rwlock_arg flags_arg w =
     (case path of
        None \<Rightarrow> Some (SORM_ARG_NULL, None, w)
      | Some path \<Rightarrow>
          do { (p, h) \<leftarrow> i_malloc None sizeof_connection (hp w);
               let w = w\<lparr>hp := h\<rparr>;
               let conn = \<lparr>db_type = db_arg, transaction_num = 0, sem_key = 0, rwlock = 0, flags = 0\<rparr>;
               let (ret, d) = sqlite3_open api path (db w);
               let w = log_call (Call_open path ret) (w\<lparr>db := d\<rparr>);
               if ret \<noteq> SQLITE_OK then Some (SORM_DB_ERROR, None, w)
               else do { (ret, w) \<leftarrow>
                           (if sorm_foreign_key_enabled flags_arg
                            then sorm_run_stmt api conn ''PRAGMA foreign_keys = ON'' SORM_RWLOCK_WRITE w
                            else Some (SORM_OK, w));
                         if ret \<noteq> SORM_OK then Some (ret, None, w)
                         else Some (SORM_OK, Some (p, conn\<lparr>
                                sem_key := (if sorm_semaphore_enabled flags_arg then sem_key_arg else 0),
                                rwlock := (if sorm_rwlock_enabled flags_arg then rwlock_arg else 0),
                                flags := flags_arg\<rparr>), w) } })"

text \<open>\<open>while (ret == SQLITE_BUSY) ret = sqlite3_close(...)\<close>, with no bound.\<close>

partial_function (option) close_loop :: "'db sqlite3_api \<Rightarrow> 'db world \<Rightarrow> (int \<times> 'db world) option" where
  "close_loop api w =
     (let (ret, d) = sqlite3_close api (db w); w = log_call (Call_close ret) (w\<lparr>db := d\<rparr>) in
      if ret = SQLITE_BUSY then close_loop api w else Some (ret, w))"

definition sorm_close ::
  "'db sqlite3_api \<Rightarrow> (addr \<times> sorm_connection_t) option \<Rightarrow> 'db world \<Rightarrow>
   (sorm_error_t \<times> 'db world) option" where
  "sorm_close api conn w =
     (case conn of
        None \<Rightarrow> Some (SORM_ARG_NULL, w)
      | Some (p, cn) \<Rightarrow>
          do { (ret, w) \<leftarrow> close_loop api w;
               if ret \<noteq> SQLITE_OK then Some (SORM_DB_ERROR, w)
               else do { h \<leftarrow> i_free None p (hp w); Some (SORM_OK, w\<lparr>hp := h\<rparr>) } })"

definition sorm_changes :: "'db sqlite3_api \<Rightarrow> 'db world \<Rightarrow> int" where
  "sorm_changes api w = sqlite3_changes api (db w)"

section \<open>Texts\<close>

text \<open>
  A step of the construction appends \<open>t\<close> to the text \<open>s\<close>: it succeeds exactly when the result fits
  into \<open>SQL_STMT_MAX_LEN\<close> characters, and ends with \<open>SORM_TOO_LONG\<close> otherwise.
\<close>

definition prints :: "(sorm_error_t \<times> sqlbuf) option \<Rightarrow> string \<Rightarrow> string \<Rightarrow> bool" where
  "prints m s t \<longleftrightarrow>
     (if length s + length t \<le> 1023 then m = Some (SORM_OK, sql_at (s @ t))
      else \<exists>q. m = Some (SORM_TOO_LONG, q))"

lemma prints_init: "prints (stmt_printf sql_stmt_init t) [] t"
  using stmt_printf_init [of t] stmt_printf_init_long [of t] by (auto simp: prints_def)

lemma prints_at: "length s \<le> 1023 \<Longrightarrow> prints (stmt_printf (sql_at s) t) s t"
  using stmt_printf_at [of s t] stmt_printf_at_long [of s t] by (auto simp: prints_def)

lemma prints_nothing: "length s \<le> 1023 \<Longrightarrow> prints (Some (SORM_OK, sql_at s)) s []"
  by (simp add: prints_def)

lemma prints_seq:
  assumes "prints m s t" and "length (s @ t) \<le> 1023 \<Longrightarrow> prints (k (sql_at (s @ t))) (s @ t) u"
  shows "prints (do { (ret, sql) \<leftarrow> m; if ret \<noteq> SORM_OK then Some (ret, sql) else k sql }) s (t @ u)"
  using assms by (cases "length (s @ t) \<le> 1023") (auto simp: prints_def)

lemma unless_error_prints:
  "prints m s t \<Longrightarrow>
   unless_error m e k = (if length (s @ t) \<le> 1023 then k (sql_at (s @ t)) else Some (e SORM_TOO_LONG))"
  by (auto simp: prints_def unless_error_def)

definition piece :: "(nat \<Rightarrow> string option option) \<Rightarrow> nat \<Rightarrow> string" where
  "piece f i = (case f i of Some (Some s) \<Rightarrow> s | _ \<Rightarrow> [])"

lemma prints_for_print:
  "length s \<le> 1023 \<Longrightarrow> (\<And>i. i \<in> set is \<Longrightarrow> f i \<noteq> None) \<Longrightarrow>
   prints (for_print f is (sql_at s)) s (concat (map (piece f) is))"
proof (induction "is" arbitrary: s)
  case Nil
  then show ?case by (simp add: prints_nothing)
next
  case (Cons i "is")
  from Cons.prems(2) [of i] obtain t where t: "f i = Some t" by auto
  show ?case
  proof (cases t)
    case None
    with t Cons show ?thesis by (simp add: piece_def)
  next
    case (Some u)
    have "prints (do { (ret, sql) \<leftarrow> stmt_printf (sql_at s) u;
        if ret \<noteq> SORM_OK then Some (ret, sql) else for_print f is sql }) s (u @ concat (map (piece f) is))"
      using Cons by (intro prints_seq prints_at) auto
    moreover have "piece f i = u" using t Some by (simp add: piece_def)
    ultimately show ?thesis using t Some by simp
  qed
qed

lemma stmt_put_last:
  "length s \<le> 1022 \<Longrightarrow> stmt_put (sql_at (s @ [x])) 1 c = Some (sql_at (s @ [c]))"
  using buf_put_last [of "s @ [x]" 1024 c] by (simp add: stmt_put_def sql_at_def)

lemma stmt_put_cut:
  assumes "no_nul s" and "4 \<le> length s" and "length s \<le> 1023"
  shows "\<exists>q. stmt_put (sql_at s) 4 NUL = Some q \<and> cstr (fst q) = take (length s - 4) s"
proof -
  let ?n = "length s - 4"
  have n: "nat (int (length s) - 4) = ?n" by simp
  have "buf_put (buf_str 1024 s) (int (length s) - 4) NUL
      = Some \<lparr>cap = 1024, bytes = take ?n s @ NUL # drop (Suc ?n) (s @ [NUL])\<rparr>"
    using assms(2,3) by (simp add: buf_put_def buf_write_def buf_str_def n)
  moreover have "no_nul (take ?n s)" using assms(1) by auto
  ultimately show ?thesis by (simp add: stmt_put_def sql_at_def cstr_def takeWhile_no_nul)
qed

lemma cstr_sql_at: "no_nul s \<Longrightarrow> cstr (fst (sql_at s)) = s"
  by (simp add: sql_at_def)

text \<open>The valued columns of an object, and those that are unique as well.\<close>

definition valued :: "sorm_object \<Rightarrow> nat list" where
  "valued obj = filter (\<lambda>i. sorm_is_stat_valued (stat (cells obj ! i))) [0..<length (cells obj)]"

definition unique_valued :: "sorm_object \<Rightarrow> nat list" where
  "unique_valued obj =
     filter (\<lambda>i. sorm_is_unique_column (c_constraint (columns (desc obj) ! i))) (valued obj)"

definition names_of :: "sorm_object \<Rightarrow> nat list \<Rightarrow> string list" where
  "names_of obj is = map (\<lambda>i. c_name (columns (desc obj) ! i)) is"

lemma wf_object_lookup:
  assumes "wf_object obj" and "i < length (cells obj)"
  shows "i_get_column_stat obj (int i) = Some (stat (cells obj ! i))"
    and "column_at (desc obj) (int i) = Some (columns (desc obj) ! i)"
  using assms cell_ops(1) [OF wf_object_has] column_at_wf wf_object_length [OF assms(1)] by auto

lemma concat_map_filter: "concat (map (\<lambda>x. if P x then f x else []) xs) = concat (map f (filter P xs))"
  by (induction xs) auto

lemma prints_valued:
  assumes "wf_object obj" and "length s \<le> 1023"
  shows "prints (for_print (if_valued obj t) (column_indexes (desc obj)) (sql_at s)) s
    (concat (map t (names_of obj (valued obj))))"
proof -
  have p: "piece (if_valued obj t) i
      = (if sorm_is_stat_valued (stat (cells obj ! i)) then t (c_name (columns (desc obj) ! i)) else [])"
    if "i < length (cells obj)" for i
    using wf_object_lookup [OF assms(1) that] by (simp add: piece_def if_valued_def)
  have "concat (map (piece (if_valued obj t)) [0..<length (cells obj)])
      = concat (map (\<lambda>i. if sorm_is_stat_valued (stat (cells obj ! i)) then t (c_name (columns (desc obj) ! i)) else [])
          [0..<length (cells obj)])"
    by (intro arg_cong [where f = concat] map_cong) (use p in auto)
  also have "\<dots> = concat (map t (names_of obj (valued obj)))"
    by (simp add: concat_map_filter valued_def names_of_def comp_def)
  finally show ?thesis
    using prints_for_print [OF assms(2), of "[0..<length (cells obj)]" "if_valued obj t"]
      wf_object_lookup [OF assms(1)] by (simp add: wf_object_indexes [OF assms(1)] if_valued_def)
qed

lemma prints_unique_valued:
  assumes "wf_object obj" and "length s \<le> 1023"
  shows "prints (for_print (if_unique_valued obj t) (column_indexes (desc obj)) (sql_at s)) s
    (concat (map t (names_of obj (unique_valued obj))))"
proof -
  let ?P = "\<lambda>i. sorm_is_unique_column (c_constraint (columns (desc obj) ! i)) \<and>
      sorm_is_stat_valued (stat (cells obj ! i))"
  have p: "piece (if_unique_valued obj t) i = (if ?P i then t (c_name (columns (desc obj) ! i)) else [])"
    if "i < length (cells obj)" for i
    using wf_object_lookup [OF assms(1) that] by (simp add: piece_def if_unique_valued_def)
  have "concat (map (piece (if_unique_valued obj t)) [0..<length (cells obj)])
      = concat (map (\<lambda>i. if ?P i then t (c_name (columns (desc obj) ! i)) else []) [0..<length (cells obj)])"
    by (intro arg_cong [where f = concat] map_cong) (use p in auto)
  also have "\<dots> = concat (map t (names_of obj (unique_valued obj)))"
    by (simp add: concat_map_filter valued_def unique_valued_def names_of_def comp_def conj_commute)
  finally show ?thesis
    using prints_for_print [OF assms(2), of "[0..<length (cells obj)]" "if_unique_valued obj t"]
      wf_object_lookup [OF assms(1)] by (simp add: wf_object_indexes [OF assms(1)] if_unique_valued_def)
qed

lemma check_has_value_eq:
  assumes "wf_object obj"
  shows "i_check_has_value obj = Some (valued obj \<noteq> [])"
proof -
  have "check_columns obj is = Some (\<exists>i \<in> set is. sorm_is_stat_valued (stat (cells obj ! i)))"
    if "set is \<subseteq> {..< length (cells obj)}" for "is"
    using that by (induction "is") (auto simp: wf_object_lookup [OF assms])
  from this [of "[0..<length (cells obj)]"] show ?thesis
    by (auto simp: i_check_has_value_def wf_object_indexes [OF assms] valued_def filter_empty_conv
        lessThan_atLeast0)
qed

lemma names_no_nul:
  assumes "wf_object obj" and "set is \<subseteq> {..< length (cells obj)}" and "n \<in> set (names_of obj is)"
  shows "no_nul n"
  using assms wf_object_length [OF assms(1)] wf_table_column
  by (fastforce simp: names_of_def wf_object_def wf_column_def)

lemma valued_bounds:
  "set (valued obj) \<subseteq> {..< length (cells obj)}" "set (unique_valued obj) \<subseteq> {..< length (cells obj)}"
  by (auto simp: valued_def unique_valued_def)

section \<open>The text of each statement\<close>

definition list_text :: "string list \<Rightarrow> string" where
  "list_text ns = butlast (concat (map (\<lambda>n. '' '' @ n @ '','') ns)) @ '')''"

definition save_sql :: "string \<Rightarrow> sorm_object \<Rightarrow> string" where
  "save_sql verb obj = verb @ '' INTO '' @ t_name (desc obj) @ '' ('' @
     list_text (names_of obj (valued obj)) @ '' VALUES ('' @ list_text (map (\<lambda>i. ''?'') (valued obj))"

lemma list_text_ne:
  "ns \<noteq> [] \<Longrightarrow> \<exists>u. concat (map (\<lambda>n. '' '' @ n @ '','') ns) = u @ '','' \<and> list_text ns = u @ '')''"
  by (cases ns rule: rev_cases) (auto simp: list_text_def butlast_append)

lemma no_nul_list_text: "(\<And>n. n \<in> set ns \<Longrightarrow> no_nul n) \<Longrightarrow> no_nul (list_text ns)"
  unfolding list_text_def by (auto intro!: no_nul_butlast no_nul_concat)

lemma save_eq:
  assumes wf: "wf_object obj" and v: "valued obj \<noteq> []" and verb: "no_nul verb"
  shows "i_save api (Some cn) (Some obj) verb w =
    (if length (save_sql verb obj) \<le> 1023
     then do { (ret, obj, w) \<leftarrow> save_run api cn obj (save_sql verb obj) w; Some (ret, Some obj, w) }
     else Some (SORM_TOO_LONG, Some obj, w))"
proof -
  let ?ns = "names_of obj (valued obj)" and ?qs = "map (\<lambda>i. ''?'') (valued obj)"
  let ?h = "verb @ '' INTO '' @ t_name (desc obj) @ '' (''"
  have ne: "?ns \<noteq> []" "?qs \<noteq> []" using v by (auto simp: names_of_def)
  obtain u where u: "concat (map (\<lambda>n. '' '' @ n @ '','') ?ns) = u @ '',''" "list_text ?ns = u @ '')''"
    using list_text_ne [OF ne(1)] by blast
  obtain z where z: "concat (map (\<lambda>n. '' '' @ n @ '','') ?qs) = z @ '',''" "list_text ?qs = z @ '')''"
    using list_text_ne [OF ne(2)] by blast
  have qs: "concat (map (\<lambda>n. '' ?,'') ?ns) = z @ '',''"
    using z(1) by (simp add: names_of_def comp_def)
  have nn: "no_nul (save_sql verb obj)"
    using verb wf names_no_nul [OF wf valued_bounds(1)]
    by (auto simp: save_sql_def wf_object_def wf_table_def intro!: no_nul_list_text)
  have sql: "save_sql verb obj = ?h @ u @ '')'' @ '' VALUES ('' @ z @ '')''"
    by (simp add: save_sql_def u(2) z(2))
  note steps = unless_error_prints [OF prints_init]
    unless_error_prints [OF prints_valued [OF wf]] unless_error_prints [OF prints_at]
  show ?thesis
  proof (cases "length (save_sql verb obj) \<le> 1023")
    case True
    have 1: "stmt_put (sql_at (?h @ u @ '','')) 1 CHR '')'' = Some (sql_at (?h @ u @ '')''))"
      using stmt_put_last [of "?h @ u" "CHR '',''" "CHR '')''"] True by (simp add: sql)
    have 2: "stmt_put (sql_at (?h @ u @ '')'' @ '' VALUES ('' @ z @ '','')) 1 CHR '')''
        = Some (sql_at (save_sql verb obj))"
      using stmt_put_last [of "?h @ u @ '')'' @ '' VALUES ('' @ z" "CHR '',''" "CHR '')''"] True
      by (simp add: sql)
    from True 1 2 show ?thesis
      unfolding i_save_def by (simp add: check_has_value_eq [OF wf] v steps u(1) [simplified]
          qs [simplified] sql cstr_sql_at [OF nn [unfolded sql], simplified])
  next
    case False
    have 1: "stmt_put (sql_at (?h @ u @ '','')) 1 CHR '')'' = Some (sql_at (?h @ u @ '')''))"
      if "length (?h @ u @ '','') \<le> 1023"
      using stmt_put_last [of "?h @ u" "CHR '',''" "CHR '')''"] that by simp
    from False 1 show ?thesis
      unfolding i_save_def by (simp add: check_has_value_eq [OF wf] v steps u(1) [simplified]
          qs [simplified] sql)
  qed
qed

section \<open>Binding\<close>

fun numbered :: "int \<Rightarrow> 'a list \<Rightarrow> (int \<times> 'a) list" where
  "numbered k [] = []"
| "numbered k (v # vs) = (k, v) # numbered (k + 1) vs"

lemma numbered_append: "numbered k (vs @ us) = numbered k vs @ numbered (k + int (length vs)) us"
  by (induction vs arbitrary: k) (auto simp: algebra_simps)

text \<open>The values the columns \<open>is\<close> hand to SQLite.\<close>

definition column_values :: "sorm_object \<Rightarrow> heap \<Rightarrow> nat list \<Rightarrow> bind_value list \<Rightarrow> bool" where
  "column_values obj h is vs \<longleftrightarrow>
     list_all2 (\<lambda>i v. column_bind_value obj (int i) h = Some (Inr v)) is vs"

definition refused :: "stmt \<Rightarrow> (int \<times> bind_value) list \<Rightarrow> call list \<Rightarrow> bool" where
  "refused st bs cs \<longleftrightarrow> (\<exists>ps i v r rest. bs = ps @ (i, v) # rest \<and> r \<noteq> SQLITE_OK \<and>
     cs = bind_calls st ps @ [Call_bind st i v r])"

lemma bind_calls_append: "bind_calls st (bs @ cs) = bind_calls st bs @ bind_calls st cs"
  by (simp add: bind_calls_def)

lemma refused_left: "refused st bs es \<Longrightarrow> refused st (bs @ cs) es"
  unfolding refused_def by (metis append.assoc append_Cons)

lemma refused_right:
  assumes "refused st cs es"
  shows "refused st (bs @ cs) (bind_calls st bs @ es)"
proof -
  from assms obtain ps i v r rest where "cs = ps @ (i, v) # rest" "r \<noteq> SQLITE_OK"
    "es = bind_calls st ps @ [Call_bind st i v r]" unfolding refused_def by blast
  then show ?thesis unfolding refused_def
    by (intro exI [of _ "bs @ ps"] exI [of _ i] exI [of _ v] exI [of _ r] exI [of _ rest])
      (simp add: bind_calls_append)
qed

text \<open>
  All values bound, or the first that SQLite refuses ends the loop; nothing but the database and the
  calls changes.
\<close>

definition binds_all ::
  "stmt \<Rightarrow> (int \<times> bind_value) list \<Rightarrow> 'db world \<Rightarrow> (sorm_error_t \<times> int \<times> 'db world) option \<Rightarrow> int \<Rightarrow> bool" where
  "binds_all st bs w res next \<longleftrightarrow>
     (\<exists>ret k w' cs. res = Some (ret, k, w') \<and> hp w' = hp w \<and> sems w' = sems w \<and> rwlocks w' = rwlocks w \<and>
        calls w' = calls w @ cs \<and>
        (ret = SORM_OK \<and> k = next \<and> cs = bind_calls st bs \<or>
         ret = SORM_DB_ERROR \<and> refused st bs cs))"

lemma binds_all_append:
  assumes "binds_all st bs w m k" and
    "\<And>w'. hp w' = hp w \<Longrightarrow> binds_all st cs w' (f k w') n"
  shows "binds_all st (bs @ cs) w
    (do { (ret, k, w) \<leftarrow> m; if ret \<noteq> SORM_OK then Some (ret, k, w) else f k w }) n"
proof -
  from assms(1) obtain ret j w1 es where m: "m = Some (ret, j, w1)" "hp w1 = hp w" "sems w1 = sems w"
    "rwlocks w1 = rwlocks w" "calls w1 = calls w @ es" and
    c: "ret = SORM_OK \<and> j = k \<and> es = bind_calls st bs \<or> ret = SORM_DB_ERROR \<and> refused st bs es"
    unfolding binds_all_def by blast
  show ?thesis
  proof (cases "ret = SORM_OK")
    case True
    with c have j: "j = k" "es = bind_calls st bs" by auto
    from assms(2) [OF m(2)] obtain r2 k2 w2 es2 where f: "f k w1 = Some (r2, k2, w2)" "hp w2 = hp w1"
      "sems w2 = sems w1" "rwlocks w2 = rwlocks w1" "calls w2 = calls w1 @ es2"
      "r2 = SORM_OK \<and> k2 = n \<and> es2 = bind_calls st cs \<or> r2 = SORM_DB_ERROR \<and> refused st cs es2"
      unfolding binds_all_def by blast
    have "r2 = SORM_OK \<and> k2 = n \<and> es @ es2 = bind_calls st (bs @ cs) \<or>
         r2 = SORM_DB_ERROR \<and> refused st (bs @ cs) (es @ es2)"
      using f(6) j(2) refused_right by (auto simp: bind_calls_append)
    with True m f j show ?thesis unfolding binds_all_def
      by (intro exI [of _ r2] exI [of _ k2] exI [of _ w2] exI [of _ "es @ es2"]) simp
  next
    case False
    with c m refused_left show ?thesis unfolding binds_all_def by fastforce
  qed
qed

lemma binds_all_none: "binds_all st [] w (Some (SORM_OK, k, w)) k"
  by (auto simp: binds_all_def bind_calls_def)

lemma for_bind_binds:
  assumes wf: "wf_object obj" and "set is \<subseteq> {..< length (cells obj)}"
    and g: "\<And>i. i < length (cells obj) \<Longrightarrow> \<exists>b. guard i = Some b \<and> (b \<longrightarrow> sorm_is_stat_valued (stat (cells obj ! i)))"
    and st: "st \<noteq> 0" and "column_values obj (hp w) (filter (\<lambda>i. guard i = Some True) is) vs"
  shows "binds_all st (numbered k vs) w (for_bind api st obj guard is k w) (k + int (length vs))"
  using assms(2,5)
proof (induction "is" arbitrary: k w vs)
  case Nil
  then show ?case by (simp add: column_values_def binds_all_none)
next
  case (Cons i "is")
  have i: "i < length (cells obj)" using Cons.prems(1) by simp
  from g [OF i] obtain b where b: "guard i = Some b" "b \<longrightarrow> sorm_is_stat_valued (stat (cells obj ! i))"
    by blast
  show ?case
  proof (cases b)
    case False
    with b Cons show ?thesis by simp
  next
    case True
    with b(1) Cons.prems(2) obtain v us where vs: "vs = v # us"
      and v: "column_bind_value obj (int i) (hp w) = Some (Inr v)"
      and us: "column_values obj (hp w) (filter (\<lambda>i. guard i = Some True) is) us"
      by (auto simp: column_values_def list_all2_Cons1)
    have has: "has_cell obj i" using wf_object_has [OF wf] i wf_object_length [OF wf] by simp
    from column_bind_calls [OF has _ v st] b(2) True obtain r d where
      c: "i_sqlite3_column_bind api st obj (int i) k w
        = Some (if r \<noteq> SQLITE_OK then SORM_DB_ERROR else SORM_OK, log_call (Call_bind st k v r) (w\<lparr>db := d\<rparr>))"
      by blast
    let ?m = "do { (ret, w) \<leftarrow> i_sqlite3_column_bind api st obj (int i) k w;
        Some (ret, if ret = SORM_OK then k + 1 else k, w) }"
    have "binds_all st [(k, v)] w ?m (k + 1)"
      using c by (cases "r = SQLITE_OK")
        (auto simp: binds_all_def bind_calls_def refused_def intro!: exI [of _ "[]"] exI [of _ r])
    moreover have "binds_all st (numbered (k + 1) us) w' (for_bind api st obj guard is (k + 1) w')
        (k + 1 + int (length us))" if "hp w' = hp w" for w'
      using Cons.IH [of w' us "k + 1"] Cons.prems(1) us that by simp
    ultimately have "binds_all st ([(k, v)] @ numbered (k + 1) us) w
      (do { (ret, k, w) \<leftarrow> ?m; if ret \<noteq> SORM_OK then Some (ret, k, w) else for_bind api st obj guard is k w })
      (k + 1 + int (length us))"
      by (rule binds_all_append)
    moreover have "for_bind api st obj guard (i # is) k w
      = do { (ret, k, w) \<leftarrow> ?m; if ret \<noteq> SORM_OK then Some (ret, k, w) else for_bind api st obj guard is k w }"
      using b(1) True c by simp
    ultimately show ?thesis by (simp add: vs algebra_simps)
  qed
qed

lemma filter_valued:
  assumes "wf_object obj"
  shows "filter (\<lambda>i. is_valued obj i = Some True) (column_indexes (desc obj)) = valued obj"
    and "filter (\<lambda>i. is_unique_valued obj i = Some True) (column_indexes (desc obj)) = unique_valued obj"
  unfolding wf_object_indexes [OF assms] valued_def unique_valued_def filter_filter
  by (auto intro!: filter_cong simp: is_valued_def is_unique_valued_def wf_object_lookup [OF assms])

lemma bind_valued:
  assumes "wf_object obj" and "column_values obj (hp w) (valued obj) vs" and "st \<noteq> 0"
  shows "binds_all st (numbered k vs) w
    (for_bind api st obj (is_valued obj) (column_indexes (desc obj)) k w) (k + int (length vs))"
proof (rule for_bind_binds [OF assms(1)])
  show "set (column_indexes (desc obj)) \<subseteq> {..<length (cells obj)}"
    by (simp add: wf_object_indexes [OF assms(1)] lessThan_atLeast0)
  show "column_values obj (hp w) (filter (\<lambda>i. is_valued obj i = Some True) (column_indexes (desc obj))) vs"
    using assms by (simp add: filter_valued)
qed (simp_all add: is_valued_def wf_object_lookup [OF assms(1)] assms(3))

lemma bind_unique_valued:
  assumes "wf_object obj" and "column_values obj (hp w) (unique_valued obj) vs" and "st \<noteq> 0"
  shows "binds_all st (numbered k vs) w
    (for_bind api st obj (is_unique_valued obj) (column_indexes (desc obj)) k w) (k + int (length vs))"
proof (rule for_bind_binds [OF assms(1)])
  show "set (column_indexes (desc obj)) \<subseteq> {..<length (cells obj)}"
    by (simp add: wf_object_indexes [OF assms(1)] lessThan_atLeast0)
  show "column_values obj (hp w)
      (filter (\<lambda>i. is_unique_valued obj i = Some True) (column_indexes (desc obj))) vs"
    using assms by (simp add: filter_valued)
qed (simp_all add: is_unique_valued_def wf_object_lookup [OF assms(1)] assms(3))

section \<open>The second half of a statement function\<close>

text \<open>
  The protocol of \<open>sorm_delete\<close> and \<open>sorm_update\<close>: a step that does not end with \<open>SQLITE_DONE\<close>
  returns at once, and the statement is never finalized (\<open>unfinished\<close>).
\<close>

inductive change_protocol ::
  "sorm_connection_t \<Rightarrow> string \<Rightarrow> (int \<times> bind_value) list \<Rightarrow> sorm_error_t \<Rightarrow> call list \<Rightarrow> bool"
  for conn sql bs where
  change_not_prepared: "prepare_run sql ret st ps \<Longrightarrow> ret \<noteq> SQLITE_OK \<Longrightarrow>
     change_protocol conn sql bs SORM_DB_ERROR ps"
| change_not_bound: "prepare_run sql SQLITE_OK st ps \<Longrightarrow> refused st bs es \<Longrightarrow> finalize_run st f fs \<Longrightarrow>
     change_protocol conn sql bs SORM_DB_ERROR (ps @ es @ fs)"
| change_done: "prepare_run sql SQLITE_OK st ps \<Longrightarrow> step_run st SQLITE_DONE ss \<Longrightarrow> finalize_run st f fs \<Longrightarrow>
     change_protocol conn sql bs (if f = SQLITE_OK then SORM_OK else SORM_DB_ERROR)
       (ps @ bind_calls st bs @ step_events conn ss @ fs)"
| unfinished: "prepare_run sql SQLITE_OK st ps \<Longrightarrow> step_run st r ss \<Longrightarrow> r \<noteq> SQLITE_DONE \<Longrightarrow>
     change_protocol conn sql bs SORM_DB_ERROR (ps @ bind_calls st bs @ step_events conn ss)"

lemma stmt_not_bound:
  assumes "prepare_run sql SQLITE_OK st ps" and "refused st bs es" and "finalize_run st f fs"
  shows "stmt_protocol conn sql bs SORM_DB_ERROR (ps @ es @ fs)"
proof -
  from assms(2) obtain qs i v r rest where "bs = qs @ (i, v) # rest" "r \<noteq> SQLITE_OK"
    "es = bind_calls st qs @ [Call_bind st i v r]" unfolding refused_def by blast
  with stmt_protocol.not_bound [OF assms(1), of bs qs i v rest r f fs] assms(3) show ?thesis by simp
qed

text \<open>A run that returned \<open>ret\<close> with locks and heap as before and the calls \<open>cs\<close> added.\<close>

definition after_calls :: "'db world \<Rightarrow> call list \<Rightarrow> 'db world \<Rightarrow> bool" where
  "after_calls w cs w' \<longleftrightarrow> same_locks w w' \<and> hp w' = hp w \<and> calls w' = calls w @ cs"

lemma after_callsI:
  "hp w' = hp w \<Longrightarrow> sems w' = sems w \<Longrightarrow> rwlocks w' = rwlocks w \<Longrightarrow> calls w' = calls w @ cs \<Longrightarrow>
   after_calls w cs w'"
  by (simp add: after_calls_def same_locks_def)

lemma after_calls_trans:
  "after_calls u cs v \<Longrightarrow> after_calls v ds w \<Longrightarrow> after_calls u (cs @ ds) w"
  by (auto simp: after_calls_def intro: same_locks_trans)

text \<open>
  \<open>sqlite3_prepare\<close> gives a \<open>NULL\<close> handle with \<open>SQLITE_OK\<close> only for a text without a statement.
\<close>

definition gives_handle :: "'db sqlite3_api \<Rightarrow> string \<Rightarrow> bool" where
  "gives_handle api sql \<longleftrightarrow>
     (\<forall>d st d'. sqlite3_prepare api (take (nat SQL_STMT_MAX_LEN) sql) d = (SQLITE_OK, st, d') \<longrightarrow> st \<noteq> 0)"

lemma busy_retry_call: "busy_retry f n w = (ret, x, w') \<Longrightarrow> \<exists>v. f v = (ret, x, w')"
proof (induction f n w rule: busy_retry.induct)
  case (1 f n w)
  obtain r y v where "f w = (r, y, v)" by (metis prod_cases3)
  with 1 show ?case
    by (cases "r = SQLITE_BUSY \<and> n + 1 < BUSY_RETRY_TIME") (auto simp: busy_retry.simps [of f n w])
qed

lemma prepare_handle:
  assumes "gives_handle api sql" and "i_sqlite3_prepare api sql w = (SQLITE_OK, st, w')"
  shows "st \<noteq> 0"
proof -
  from busy_retry_call [OF assms(2) [unfolded i_sqlite3_prepare_def]] obtain v where
    v: "sq_prepare api sql v = (SQLITE_OK, st, w')" ..
  obtain r st' d where "sqlite3_prepare api (take (nat SQL_STMT_MAX_LEN) sql) (db v) = (r, st', d)" by (metis prod_cases3)
  with v assms(1) show ?thesis by (auto simp: sq_prepare_def gives_handle_def)
qed

lemma change_run_returns:
  assumes lock: "transaction_num conn = 0 \<longrightarrow> lock_ready conn w"
    and handle: "gives_handle api sql"
    and binds: "\<And>st w'. hp w' = hp w \<Longrightarrow> st \<noteq> 0 \<Longrightarrow> binds_all st bs w' (for_binds api st obj guards 1 w') n"
  shows "\<exists>ret w' cs. change_run api conn obj guards sql w = Some (ret, w') \<and> after_calls w cs w' \<and>
    change_protocol conn sql bs ret cs"
proof -
  obtain ret st w1 where p: "i_sqlite3_prepare api sql w = (ret, st, w1)" by (metis prod_cases3)
  from prepare_returns [OF p] obtain ps where ps: "hp w1 = hp w" "sems w1 = sems w"
    "rwlocks w1 = rwlocks w" "calls w1 = calls w @ ps" "prepare_run sql ret st ps" by auto
  have a1: "after_calls w ps w1" using ps(1-4) by (rule after_callsI)
  show ?thesis
  proof (cases "ret = SQLITE_OK")
    case False
    then have "change_run api conn obj guards sql w = Some (SORM_DB_ERROR, w1)"
      using p by (simp add: change_run_def)
    with a1 change_protocol.change_not_prepared [OF ps(5) False] show ?thesis by blast
  next
    case ok: True
    from binds [OF ps(1) prepare_handle [OF handle p [unfolded ok]]] obtain b k w2 es where b: "for_binds api st obj guards 1 w1 = Some (b, k, w2)"
      and w2: "hp w2 = hp w1" "sems w2 = sems w1" "rwlocks w2 = rwlocks w1" "calls w2 = calls w1 @ es"
      and c: "b = SORM_OK \<and> es = bind_calls st bs \<or> b = SORM_DB_ERROR \<and> refused st bs es"
      unfolding binds_all_def by blast
    have a2: "after_calls w (ps @ es) w2" using a1 after_callsI [OF w2] by (rule after_calls_trans)
    show ?thesis
    proof (cases "b = SORM_OK")
      case False
      with c have r: "b = SORM_DB_ERROR" "refused st bs es" by auto
      obtain e w3 where f: "db_finalize api st b w2 = (e, w3)" by fastforce
      from db_finalize_returns [OF f] r obtain fr fs where e: "e = SORM_DB_ERROR" and w3: "hp w3 = hp w2"
        "sems w3 = sems w2" "rwlocks w3 = rwlocks w2" "calls w3 = calls w2 @ fs" and fs: "finalize_run st fr fs"
        by (auto split: if_splits)
      have "change_run api conn obj guards sql w = Some (SORM_DB_ERROR, w3)"
        using p ok b False f e by (simp add: change_run_def)
      moreover have "change_protocol conn sql bs SORM_DB_ERROR (ps @ es @ fs)"
        using ps(5) [unfolded ok] r(2) fs by (rule change_protocol.change_not_bound)
      moreover have "after_calls w (ps @ es @ fs) w3"
        using after_calls_trans [OF a2 after_callsI [OF w3]] by simp
      ultimately show ?thesis by blast
    next
      case bound: True
      with c have es: "es = bind_calls st bs" by auto
      have "transaction_num conn = 0 \<longrightarrow> lock_ready conn w2" using lock ps w2 by (simp add: lock_ready_def)
      from step_returns [OF this, of api st SORM_RWLOCK_WRITE] obtain r w3 ss where
        s: "i_sqlite3_step api conn st SORM_RWLOCK_WRITE w2 = Some (r, w3)" "same_locks w2 w3"
          "hp w3 = hp w2" "calls w3 = calls w2 @ step_events conn ss" "step_run st r ss" by auto
      have a3: "after_calls w (ps @ bind_calls st bs @ step_events conn ss) w3"
        using after_calls_trans [OF a2, of "step_events conn ss" w3] s es by (simp add: after_calls_def)
      show ?thesis
      proof (cases "r = SQLITE_DONE")
        case False
        then have "change_run api conn obj guards sql w = Some (SORM_DB_ERROR, w3)"
          using p ok b bound s by (simp add: change_run_def)
        moreover have "change_protocol conn sql bs SORM_DB_ERROR (ps @ bind_calls st bs @ step_events conn ss)"
          using ps(5) [unfolded ok] s(5) False by (rule change_protocol.unfinished)
        ultimately show ?thesis using a3 by blast
      next
        case True
        obtain e w4 where f: "db_finalize api st SORM_OK w3 = (e, w4)" by fastforce
        from db_finalize_returns [OF f] obtain fr fs where
          e: "e = (if fr = SQLITE_OK then SORM_OK else SORM_DB_ERROR)" and w4: "hp w4 = hp w3"
          "sems w4 = sems w3" "rwlocks w4 = rwlocks w3" "calls w4 = calls w3 @ fs"
          and fs: "finalize_run st fr fs" by (auto split: if_splits)
        have "change_run api conn obj guards sql w = Some (e, w4)"
          using p ok b bound s(1) True f by (simp add: change_run_def)
        moreover have "change_protocol conn sql bs e (ps @ bind_calls st bs @ step_events conn ss @ fs)"
          unfolding e using ps(5) [unfolded ok] s(5) [unfolded True] fs by (rule change_protocol.change_done)
        moreover have "after_calls w (ps @ bind_calls st bs @ step_events conn ss @ fs) w4"
          using after_calls_trans [OF a3 after_callsI [OF w4]] by simp
        ultimately show ?thesis by blast
      qed
    qed
  qed
qed

text \<open>The row id in the primary key.\<close>

definition with_pk :: "sorm_object \<Rightarrow> 32 word \<Rightarrow> sorm_object" where
  "with_pk obj r =
     (if PK_index (desc obj) = SORM_NO_PK then obj
      else let i = nat (PK_index (desc obj)); cl = cells obj ! i in
           put_cell obj i (cl\<lparr>val := M_int32 r,
             stat := (stat cl OR SORM_STAT_VALUED) AND NOT SORM_STAT_NEEDFREE\<rparr>))"

definition pk_is_int :: "sorm_table_descriptor_t \<Rightarrow> bool" where
  "pk_is_int td \<longleftrightarrow> PK_index td = SORM_NO_PK \<or> c_type (columns td ! nat (PK_index td)) = SORM_TYPE_INT"

lemma set_pk:
  assumes wf: "wf_object obj" and pk: "PK_index (desc obj) \<noteq> SORM_NO_PK" and t: "pk_is_int (desc obj)"
  shows "sorm_set_column_value (Some obj) (PK_index (desc obj)) (Some (V_int32 r)) 0 h
    = Some (SORM_OK, Some (with_pk obj r))"
proof -
  obtain i where pi: "PK_index (desc obj) = int i" and i: "i < length (columns (desc obj))"
    using wf pk by (auto simp: wf_object_def wf_table_def dest!: zero_le_imp_eq_int)
  note has = wf_object_has [OF wf i] and col = column_at_wf [OF wf i]
  have "c_type (columns (desc obj) ! i) = SORM_TYPE_INT" using t pk by (simp add: pk_is_int_def pi)
  then show ?thesis
    using pk has unfolding pi by (simp add: sorm_set_column_value_def col cell_ops [OF has]
        cell_ops [of "put_cell obj i x" i for x, simplified, OF has] with_pk_def pi Let_def)
qed

lemma busy_retry_inv:
  assumes "\<And>v r x v'. f v = (r, x, v') \<Longrightarrow> P v \<Longrightarrow> P v'" and "busy_retry f n w = (ret, x, w')" and "P w"
  shows "P w'"
  using assms(2,3)
proof (induction "BUSY_RETRY_TIME - n" arbitrary: n w rule: less_induct)
  case less
  obtain r y v where f: "f w = (r, y, v)" by (metis prod_cases3)
  have v: "P v" using assms(1) [OF f less.prems(2)] .
  show ?case
  proof (cases "r = SQLITE_BUSY \<and> n + 1 < BUSY_RETRY_TIME")
    case True
    then have "busy_retry f (n + 1) v = (ret, x, w')"
      using less.prems(1) f by (simp add: busy_retry.simps [of f n w])
    moreover have "BUSY_RETRY_TIME - (n + 1) < BUSY_RETRY_TIME - n" using True by linarith
    ultimately show ?thesis using less.hyps [of "n + 1" v] v by simp
  next
    case False
    with less.prems(1) f v show ?thesis by (auto simp: busy_retry.simps [of f n w])
  qed
qed

text \<open>SQLite's row id is changed by an insert and not by \<open>sqlite3_finalize\<close>.\<close>

definition finalize_keeps_rowid :: "'db sqlite3_api \<Rightarrow> bool" where
  "finalize_keeps_rowid api \<longleftrightarrow>
     (\<forall>st d. sqlite3_last_insert_rowid api (snd (sqlite3_finalize api st d)) = sqlite3_last_insert_rowid api d)"

lemma db_finalize_rowid:
  assumes "finalize_keeps_rowid api" and "db_finalize api st rv w = (e, w')"
  shows "sqlite3_last_insert_rowid api (db w') = sqlite3_last_insert_rowid api (db w)"
proof -
  let ?r = "sqlite3_last_insert_rowid api (db w)"
  obtain ret u where b: "busy_retry (sq_finalize api st) 0 w = (ret, u, w')"
    using assms(2) by (auto simp: db_finalize_def i_sqlite3_finalize_def split: prod.splits)
  have "sqlite3_last_insert_rowid api (db v') = ?r"
    if "sq_finalize api st v = (r, x, v')" "sqlite3_last_insert_rowid api (db v) = ?r" for v r x v'
    using that assms(1) by (auto simp: sq_finalize_def finalize_keeps_rowid_def split: prod.splits)
      (metis snd_conv)
  from busy_retry_inv [where P = "\<lambda>v. sqlite3_last_insert_rowid api (db v) = ?r", OF this b] show ?thesis
    by simp
qed

lemma save_run_returns:
  assumes wf: "wf_object obj" and lock: "transaction_num conn = 0 \<longrightarrow> lock_ready conn w"
    and vs: "column_values obj (hp w) (valued obj) vs" and pk: "pk_is_int (desc obj)"
    and row: "finalize_keeps_rowid api" and handle: "gives_handle api sql"
  shows "\<exists>ret obj' w' cs. save_run api conn obj sql w = Some (ret, obj', w') \<and> after_calls w cs w' \<and>
    stmt_protocol conn sql (numbered 1 vs) ret cs \<and>
    (ret = SORM_OK \<longrightarrow> obj' = with_pk obj (ucast (sqlite3_last_insert_rowid api (db w'))))"
proof -
  let ?bs = "numbered 1 vs"
  obtain ret st w1 where p: "i_sqlite3_prepare api sql w = (ret, st, w1)" by (metis prod_cases3)
  from prepare_returns [OF p] obtain ps where ps: "hp w1 = hp w" "sems w1 = sems w"
    "rwlocks w1 = rwlocks w" "calls w1 = calls w @ ps" "prepare_run sql ret st ps" by auto
  have a1: "after_calls w ps w1" using ps(1-4) by (rule after_callsI)
  show ?thesis
  proof (cases "ret = SQLITE_OK")
    case False
    then have "save_run api conn obj sql w = Some (SORM_DB_ERROR, obj, w1)"
      using p by (simp add: save_run_def)
    with a1 stmt_protocol.not_prepared [OF ps(5) False] show ?thesis by blast
  next
    case ok: True
    have "binds_all st ?bs w1 (for_bind api st obj (is_valued obj) (column_indexes (desc obj)) 1 w1)
        (1 + int (length vs))"
      using vs ps(1) by (intro bind_valued [OF wf] prepare_handle [OF handle p [unfolded ok]]) simp
    then obtain b k w2 es where
      b: "for_bind api st obj (is_valued obj) (column_indexes (desc obj)) 1 w1 = Some (b, k, w2)"
      and w2: "hp w2 = hp w1" "sems w2 = sems w1" "rwlocks w2 = rwlocks w1" "calls w2 = calls w1 @ es"
      and c: "b = SORM_OK \<and> es = bind_calls st ?bs \<or> b = SORM_DB_ERROR \<and> refused st ?bs es"
      unfolding binds_all_def by blast
    have a2: "after_calls w (ps @ es) w2" using a1 after_callsI [OF w2] by (rule after_calls_trans)
    show ?thesis
    proof (cases "b = SORM_OK")
      case False
      with c have r: "b = SORM_DB_ERROR" "refused st ?bs es" by auto
      obtain e w3 where f: "db_finalize api st b w2 = (e, w3)" by fastforce
      from db_finalize_returns [OF f] r obtain fr fs where e: "e = SORM_DB_ERROR" and w3: "hp w3 = hp w2"
        "sems w3 = sems w2" "rwlocks w3 = rwlocks w2" "calls w3 = calls w2 @ fs" and fs: "finalize_run st fr fs"
        by (auto split: if_splits)
      have "save_run api conn obj sql w = Some (SORM_DB_ERROR, obj, w3)"
        using p ok b False f e by (simp add: save_run_def)
      moreover have "stmt_protocol conn sql ?bs SORM_DB_ERROR (ps @ es @ fs)"
        using ps(5) [unfolded ok] r(2) fs by (rule stmt_not_bound)
      moreover have "after_calls w (ps @ es @ fs) w3"
        using after_calls_trans [OF a2 after_callsI [OF w3]] by simp
      ultimately show ?thesis by blast
    next
      case bound: True
      with c have es: "es = bind_calls st ?bs" by auto
      have "transaction_num conn = 0 \<longrightarrow> lock_ready conn w2" using lock ps w2 by (simp add: lock_ready_def)
      from step_returns [OF this, of api st SORM_RWLOCK_WRITE] obtain r w3 ss where
        s: "i_sqlite3_step api conn st SORM_RWLOCK_WRITE w2 = Some (r, w3)" "same_locks w2 w3"
          "hp w3 = hp w2" "calls w3 = calls w2 @ step_events conn ss" "step_run st r ss" by auto
      have a3: "after_calls w (ps @ bind_calls st ?bs @ step_events conn ss) w3"
        using after_calls_trans [OF a2, of "step_events conn ss" w3] s es by (simp add: after_calls_def)
      let ?rv = "if r = SQLITE_DONE then SORM_OK else SORM_DB_ERROR"
      let ?o = "if r = SQLITE_DONE then with_pk obj (ucast (sqlite3_last_insert_rowid api (db w3))) else obj"
      obtain e w4 where f: "db_finalize api st ?rv w3 = (e, w4)" by fastforce
      from db_finalize_returns [OF f] obtain fr fs where
        e: "e = (if fr = SQLITE_OK \<and> r = SQLITE_DONE then SORM_OK else SORM_DB_ERROR)"
        and w4: "hp w4 = hp w3" "sems w4 = sems w3" "rwlocks w4 = rwlocks w3" "calls w4 = calls w3 @ fs"
        and fs: "finalize_run st fr fs" by (auto split: if_splits)
      have "stmt_protocol conn sql ?bs e (ps @ bind_calls st ?bs @ step_events conn ss @ fs)"
        unfolding e using ps(5) [unfolded ok] s(5) fs by (rule stmt_protocol.executed)
      moreover have "save_run api conn obj sql w = Some (e, ?o, w4)"
        using p ok b bound s(1) f set_pk [OF wf _ pk]
        by (cases "r = SQLITE_DONE") (simp_all add: save_run_def with_pk_def)
      moreover have "e = SORM_OK \<longrightarrow> ?o = with_pk obj (ucast (sqlite3_last_insert_rowid api (db w4)))"
        using e db_finalize_rowid [OF row f] by (simp split: if_splits)
      moreover have "after_calls w (ps @ bind_calls st ?bs @ step_events conn ss @ fs) w4"
        using after_calls_trans [OF a3 after_callsI [OF w4]] by simp
      ultimately show ?thesis by blast
    qed
  qed
qed

section \<open>Texts of \<open>DELETE\<close> and \<open>UPDATE\<close>\<close>

fun and_text :: "string list \<Rightarrow> string" where
  "and_text [] = []"
| "and_text [n] = '' '' @ n @ ''=?''"
| "and_text (n # m # ns) = '' '' @ n @ ''=? AND'' @ and_text (m # ns)"

fun set_text :: "string list \<Rightarrow> string" where
  "set_text [] = []"
| "set_text [n] = '' '' @ n @ ''=?''"
| "set_text (n # m # ns) = '' '' @ n @ ''=?,'' @ set_text (m # ns)"

lemma concat_and: "ns \<noteq> [] \<Longrightarrow> concat (map (\<lambda>n. '' '' @ n @ ''=? AND'') ns) = and_text ns @ '' AND''"
  by (induction ns rule: and_text.induct) auto

lemma concat_set: "ns \<noteq> [] \<Longrightarrow> concat (map (\<lambda>n. '' '' @ n @ ''=?,'') ns) = set_text ns @ '',''"
  by (induction ns rule: set_text.induct) auto

lemma no_nul_and_text: "(\<And>n. n \<in> set ns \<Longrightarrow> no_nul n) \<Longrightarrow> no_nul (and_text ns)"
  by (induction ns rule: and_text.induct) auto

lemma no_nul_set_text: "(\<And>n. n \<in> set ns \<Longrightarrow> no_nul n) \<Longrightarrow> no_nul (set_text ns)"
  by (induction ns rule: set_text.induct) auto

definition delete_sql :: "sorm_object \<Rightarrow> string" where
  "delete_sql obj = ''DELETE FROM '' @ t_name (desc obj) @ '' WHERE '' @ and_text (names_of obj (valued obj))"

lemma no_nul_names:
  "wf_object obj \<Longrightarrow> n \<in> set (names_of obj (valued obj)) \<Longrightarrow> no_nul n"
  "wf_object obj \<Longrightarrow> n \<in> set (names_of obj (unique_valued obj)) \<Longrightarrow> no_nul n"
  using names_no_nul valued_bounds by blast+

lemma no_nul_table: "wf_object obj \<Longrightarrow> no_nul (t_name (desc obj))"
  by (simp add: wf_object_def wf_table_def)

lemma delete_eq:
  assumes wf: "wf_object obj" and v: "valued obj \<noteq> []"
  shows "sorm_delete api (Some cn) (Some obj) w =
    (if length (delete_sql obj) \<le> 1019 then change_run api cn obj [is_valued obj] (delete_sql obj) w
     else Some (SORM_TOO_LONG, w))"
proof -
  let ?ns = "names_of obj (valued obj)" and ?h = "''DELETE FROM '' @ t_name (desc obj) @ '' WHERE ''"
  have "?ns \<noteq> []" using v by (simp add: names_of_def)
  note c = concat_and [OF this]
  have nn: "no_nul (delete_sql obj)"
    using no_nul_table [OF wf] no_nul_names [OF wf] no_nul_and_text by (auto simp: delete_sql_def)
  have full: "?h @ and_text ?ns @ '' AND'' = delete_sql obj @ '' AND''" by (simp add: delete_sql_def)
  note steps = unless_error_prints [OF prints_init] unless_error_prints [OF prints_valued [OF wf]]
  have eq: "sorm_delete api (Some cn) (Some obj) w =
    (if length (delete_sql obj @ '' AND'') \<le> 1023
     then do { sql \<leftarrow> stmt_put (sql_at (delete_sql obj @ '' AND'')) 4 NUL;
               change_run api cn obj [is_valued obj] (cstr (fst sql)) w }
     else Some (SORM_TOO_LONG, w))"
    unfolding sorm_delete_def delete_sql_def
    by (simp add: check_has_value_eq [OF wf] v steps c [simplified])
  show ?thesis
  proof (cases "length (delete_sql obj) \<le> 1019")
    case True
    then obtain q where "stmt_put (sql_at (delete_sql obj @ '' AND'')) 4 NUL = Some q"
        "cstr (fst q) = delete_sql obj"
      using stmt_put_cut [of "delete_sql obj @ '' AND''"] nn by auto
    with True show ?thesis unfolding eq by simp
  next
    case False
    then show ?thesis unfolding eq by simp
  qed
qed

definition update_head :: "sorm_object \<Rightarrow> string" where
  "update_head obj = ''UPDATE '' @ t_name (desc obj) @ '' SET'' @ set_text (names_of obj (valued obj))"

definition update_sql :: "sorm_object \<Rightarrow> string" where
  "update_sql obj = update_head obj @ '' WHERE'' @ and_text (names_of obj (unique_valued obj))"

lemma unless_error_ok: "unless_error (Some (SORM_OK, sql)) e k = k sql"
  by (simp add: unless_error_def)

lemma update_where_fits:
  "length s \<le> 1017 \<Longrightarrow> update_where (sql_at (s @ [x])) = Some (SORM_OK, sql_at (s @ '' WHERE''))"
  by (simp add: update_where_def sql_at_def buf_put_def buf_write_def buf_str_def snprintf_def
      SQL_STMT_MAX_LEN_def)

lemma update_where_overflows:
  "1017 < length s \<Longrightarrow> length s \<le> 1022 \<Longrightarrow> update_where (sql_at (s @ [x])) = None"
  by (simp add: update_where_def sql_at_def buf_put_def buf_write_def buf_str_def snprintf_def
      SQL_STMT_MAX_LEN_def)

text \<open>
  The four outcomes of \<open>sorm_update\<close> before the database is called. Without a valued unique column
  the text ends with a lone \<open>W\<close>.
\<close>

lemma update_eq:
  assumes wf: "wf_object obj" and v: "valued obj \<noteq> []"
  shows "sorm_update api (Some cn) (Some obj) w =
    (if 1022 < length (update_head obj) then Some (SORM_TOO_LONG, w)
     else if 1017 < length (update_head obj) then None
     else if unique_valued obj = []
     then change_run api cn obj [is_valued obj, is_unique_valued obj] (update_head obj @ '' W'') w
     else if length (update_sql obj) \<le> 1019
     then change_run api cn obj [is_valued obj, is_unique_valued obj] (update_sql obj) w
     else Some (SORM_TOO_LONG, w))"
proof -
  let ?ns = "names_of obj (valued obj)" and ?us = "names_of obj (unique_valued obj)"
  let ?run = "\<lambda>sql. change_run api cn obj [is_valued obj, is_unique_valued obj] sql w"
  have "?ns \<noteq> []" using v by (simp add: names_of_def)
  note c = concat_set [OF this]
  have nh: "no_nul (update_head obj)"
    using no_nul_table [OF wf] no_nul_names(1) [OF wf] no_nul_set_text by (auto simp: update_head_def)
  note steps = unless_error_prints [OF prints_init] unless_error_prints [OF prints_valued [OF wf]]
  have eq: "sorm_update api (Some cn) (Some obj) w =
    (if 1022 < length (update_head obj) then Some (SORM_TOO_LONG, w)
     else unless_error (update_where (sql_at (update_head obj @ '',''))) (\<lambda>e. (e, w)) (\<lambda>sql.
          unless_error (for_print (if_unique_valued obj (\<lambda>n. '' '' @ n @ ''=? AND''))
             (column_indexes (desc obj)) sql) (\<lambda>e. (e, w)) (\<lambda>sql.
          do { sql \<leftarrow> stmt_put sql 4 NUL; ?run (cstr (fst sql)) })))"
    unfolding sorm_update_def update_head_def
    by (simp add: check_has_value_eq [OF wf] v steps c [simplified])
  show ?thesis
  proof (cases "length (update_head obj) \<le> 1017")
    case False
    then show ?thesis unfolding eq using update_where_overflows [of "update_head obj" "CHR '',''"]
      by (auto simp: unless_error_def)
  next
    case True
    let ?w = "update_head obj @ '' WHERE''"
    have l: "length ?w \<le> 1023" using True by simp
    have wh: "sorm_update api (Some cn) (Some obj) w =
      (if length (?w @ concat (map (\<lambda>n. '' '' @ n @ ''=? AND'') ?us)) \<le> 1023
       then do { sql \<leftarrow> stmt_put (sql_at (?w @ concat (map (\<lambda>n. '' '' @ n @ ''=? AND'') ?us))) 4 NUL;
                 ?run (cstr (fst sql)) }
       else Some (SORM_TOO_LONG, w))"
      unfolding eq update_where_fits [OF True] unless_error_ok
        unless_error_prints [OF prints_unique_valued [OF wf l]] using True by simp
    show ?thesis
    proof (cases "unique_valued obj = []")
      case none: True
      then obtain q where "stmt_put (sql_at ?w) 4 NUL = Some q" "cstr (fst q) = update_head obj @ '' W''"
        using stmt_put_cut [of ?w] nh True by auto
      with True none show ?thesis unfolding wh by (simp add: names_of_def)
    next
      case some: False
      then have us: "?us \<noteq> []" by (simp add: names_of_def)
      have full: "?w @ concat (map (\<lambda>n. '' '' @ n @ ''=? AND'') ?us) = update_sql obj @ '' AND''"
        unfolding concat_and [OF us] by (simp add: update_sql_def)
      have nn: "no_nul (update_sql obj)"
        using nh no_nul_names(2) [OF wf] no_nul_and_text by (auto simp: update_sql_def)
      show ?thesis
      proof (cases "length (update_sql obj) \<le> 1019")
        case fits: True
        then obtain q where "stmt_put (sql_at (update_sql obj @ '' AND'')) 4 NUL = Some q"
            "cstr (fst q) = update_sql obj"
          using stmt_put_cut [of "update_sql obj @ '' AND''"] nn by auto
        with True some fits show ?thesis unfolding wh full by simp
      next
        case False
        with True some show ?thesis unfolding wh full by simp
      qed
    qed
  qed
qed

lemma for_binds_single:
  "for_binds api st obj [g] k w = for_bind api st obj g (column_indexes (desc obj)) k w"
  by (cases "for_bind api st obj g (column_indexes (desc obj)) k w") (auto split: prod.splits)

lemma delete_binds:
  assumes "wf_object obj" and "column_values obj (hp w) (valued obj) vs" and "hp w' = hp w" and "st \<noteq> 0"
  shows "binds_all st (numbered 1 vs) w' (for_binds api st obj [is_valued obj] 1 w') (1 + int (length vs))"
  unfolding for_binds_single using assms by (intro bind_valued) auto

lemma update_binds:
  assumes "wf_object obj" and "column_values obj (hp w) (valued obj) vs"
    and "column_values obj (hp w) (unique_valued obj) us" and "hp w' = hp w" and "st \<noteq> 0"
  shows "binds_all st (numbered 1 (vs @ us)) w' (for_binds api st obj [is_valued obj, is_unique_valued obj] 1 w')
    (1 + int (length vs) + int (length us))"
proof -
  have 1: "binds_all st (numbered 1 vs) w'
      (for_bind api st obj (is_valued obj) (column_indexes (desc obj)) 1 w') (1 + int (length vs))"
    using assms by (intro bind_valued) auto
  have 2: "binds_all st (numbered (1 + int (length vs)) us) v
      (for_binds api st obj [is_unique_valued obj] (1 + int (length vs)) v)
      (1 + int (length vs) + int (length us))" if "hp v = hp w'" for v
    unfolding for_binds_single using assms that by (intro bind_unique_valued) auto
  show ?thesis
    unfolding numbered_append for_binds.simps(2) [of _ _ _ "is_valued obj"] using 1 2
    by (rule binds_all_append)
qed

section \<open>Texts of the table and index statements\<close>

definition column_def_text :: "sorm_column_descriptor_t \<Rightarrow> string" where
  "column_def_text c = '' '' @ c_name c @ '' '' @ the (sorm_type_db_str (c_type c)) @
     constraint_text (c_constraint c)"

definition table_sql :: "bool \<Rightarrow> sorm_table_descriptor_t \<Rightarrow> string" where
  "table_sql fk td =
     butlast (''CREATE TABLE IF NOT EXISTS '' @ t_name td @ ''('' @ concat (map column_def_text (columns td)) @
        (if fk then concat (map foreign_text (filter is_foreign_key (columns td))) else [])) @ '')'' @
     concat (map (foreign_index_text (t_name td)) (filter is_foreign_key (columns td)))"

definition types_legal :: "sorm_table_descriptor_t \<Rightarrow> bool" where
  "types_legal td \<longleftrightarrow> list_all (\<lambda>c. sorm_type_db_str (c_type c) \<noteq> None) (columns td)"

lemma map_nth_columns: "map (\<lambda>i. f (columns td ! i)) [0..<length (columns td)] = map f (columns td)"
  by (rule nth_equalityI) auto

lemma prints_column_defs:
  assumes "wf_table td" and "types_legal td" and "set is \<subseteq> {..< length (columns td)}" and "length s \<le> 1023"
  shows "prints (for_column_defs td is (sql_at s)) s (concat (map (\<lambda>i. column_def_text (columns td ! i)) is))"
  using assms(3,4)
proof (induction "is" arbitrary: s)
  case Nil
  then show ?case by (simp add: prints_nothing)
next
  case (Cons i "is")
  let ?c = "columns td ! i"
  have i: "i < length (columns td)" using Cons.prems(1) by simp
  obtain ty where ty: "sorm_type_db_str (c_type ?c) = Some ty"
    using assms(2) i by (auto simp: types_legal_def list_all_length)
  let ?a = "'' '' @ c_name ?c @ '' '' @ ty" and ?b = "constraint_text (c_constraint ?c)"
  have "prints (do { (ret, sql) \<leftarrow> stmt_printf (sql_at s) ?a;
      if ret \<noteq> SORM_OK then Some (ret, sql)
      else do { (ret, sql) \<leftarrow> stmt_printf sql ?b;
                if ret \<noteq> SORM_OK then Some (ret, sql) else for_column_defs td is sql } }) s
      (?a @ ?b @ concat (map (\<lambda>i. column_def_text (columns td ! i)) is))"
    using Cons by (intro prints_seq prints_at) auto
  with wf_table_column [OF assms(1) i] ty show ?case by (simp add: column_def_text_def)
qed

lemma prints_foreign:
  assumes "wf_table td" and "length s \<le> 1023"
  shows "prints (for_print (if_foreign td t) (column_indexes td) (sql_at s)) s
    (concat (map t (filter is_foreign_key (columns td))))"
proof -
  have p: "piece (if_foreign td t) i = (if is_foreign_key (columns td ! i) then t (columns td ! i) else [])"
    if "i < length (columns td)" for i
    using wf_table_column [OF assms(1) that] by (simp add: piece_def if_foreign_def)
  have "concat (map (piece (if_foreign td t)) [0..<length (columns td)])
      = concat (map (\<lambda>i. if is_foreign_key (columns td ! i) then t (columns td ! i) else []) [0..<length (columns td)])"
    by (intro arg_cong [where f = concat] map_cong) (use p in auto)
  also have "\<dots> = concat (map (\<lambda>c. if is_foreign_key c then t c else []) (columns td))"
    by (rule arg_cong [OF map_nth_columns])
  also have "\<dots> = concat (map t (filter is_foreign_key (columns td)))" by (rule concat_map_filter)
  finally show ?thesis
    using prints_for_print [OF assms(2), of "[0..<length (columns td)]" "if_foreign td t"]
      wf_table_column [OF assms(1)] by (simp add: wf_table_indexes [OF assms(1)] if_foreign_def)
qed

lemma no_nul_table_sql:
  assumes "wf_table td" and "types_legal td"
  shows "no_nul (table_sql fk td)"
proof -
  have c: "no_nul (column_def_text c)" if "c \<in> set (columns td)" for c
    using assms that unfolding wf_table_def wf_column_def types_legal_def list_all_iff column_def_text_def
      constraint_text_def by (cases "c_type c"; cases "c_constraint c") auto
  have f: "no_nul (foreign_text c)" "no_nul (foreign_index_text (t_name td) c)" if "c \<in> set (columns td)" for c
    using assms that by (auto simp: wf_table_def wf_column_def list_all_iff foreign_text_def foreign_index_text_def)
  have t: "no_nul (t_name td)" using assms(1) by (simp add: wf_table_def)
  have "no_nul (concat (map column_def_text (columns td)))"
    "no_nul (concat (map foreign_text (filter is_foreign_key (columns td))))"
    "no_nul (concat (map (foreign_index_text (t_name td)) (filter is_foreign_key (columns td))))"
    using c f by (auto intro!: no_nul_concat)
  with t show ?thesis unfolding table_sql_def by (auto intro!: no_nul_butlast simp del: butlast_append)
qed

lemma create_table_eq:
  assumes wf: "wf_table td" and ty: "types_legal td" and cs: "create_sql td = None"
  shows "sorm_create_table api (Some cn) (Some td) w =
    (if length (table_sql (sorm_foreign_key_enabled (flags cn)) td) \<le> 1023
     then sorm_run_stmt api cn (table_sql (sorm_foreign_key_enabled (flags cn)) td) SORM_RWLOCK_WRITE w
     else Some (SORM_TOO_LONG, w))"
proof -
  let ?fk = "sorm_foreign_key_enabled (flags cn)"
  define h where "h = ''CREATE TABLE IF NOT EXISTS '' @ t_name td @ ''(''"
  define c where "c = concat (map column_def_text (columns td))"
  define f where "f = (if ?fk then concat (map foreign_text (filter is_foreign_key (columns td))) else [])"
  define x where "x = concat (map (foreign_index_text (t_name td)) (filter is_foreign_key (columns td)))"
  have cols: "prints (for_column_defs td (column_indexes td) (sql_at s)) s c" if "length s \<le> 1023" for s
    using prints_column_defs [OF wf ty _ that, of "[0..<length (columns td)]"] map_nth_columns [of column_def_text td]
    unfolding c_def wf_table_indexes [OF wf] by (metis lessThan_atLeast0 order_refl set_upt)
  have fks: "prints (if ?fk then for_print (if_foreign td foreign_text) (column_indexes td) (sql_at s)
      else Some (SORM_OK, sql_at s)) s f" if "length s \<le> 1023" for s
    using prints_foreign [OF wf that] prints_nothing [OF that] by (simp add: f_def)
  have ne: "h @ c @ f \<noteq> []" by (simp add: h_def)
  then obtain u y where u: "h @ c @ f = u @ [y]" by (metis rev_exhaust)
  have sql: "table_sql ?fk td = u @ '')'' @ x"
    using u unfolding table_sql_def h_def c_def f_def x_def by (metis append.assoc butlast_snoc)
  have len: "length h + length c + length f = Suc (length u)"
    using arg_cong [OF u, of length] by simp
  have step: "sorm_create_table api (Some cn) (Some td) w =
    (if length (h @ c @ f) \<le> 1023
     then do { sql \<leftarrow> stmt_put (sql_at (h @ c @ f)) 1 CHR '')'';
               unless_error (for_print (if_foreign td (foreign_index_text (t_name td))) (column_indexes td) sql)
                 (\<lambda>e. (e, w)) (\<lambda>sql. sorm_run_stmt api cn (cstr (fst sql)) SORM_RWLOCK_WRITE w) }
     else Some (SORM_TOO_LONG, w))"
    unfolding sorm_create_table_def using cs
    by (simp add: unless_error_prints [OF prints_init] unless_error_prints [OF cols]
        unless_error_prints [OF fks] h_def)
  show ?thesis
  proof (cases "length (h @ c @ f) \<le> 1023")
    case False
    then show ?thesis unfolding step sql using len by simp
  next
    case True
    then have l: "length (u @ '')'') \<le> 1023" "length u \<le> 1022" using len by auto
    have nn: "no_nul (u @ '')'' @ x)" using no_nul_table_sql [OF wf ty] sql by metis
    show ?thesis
      unfolding step u sql stmt_put_last [OF l(2)] Option.bind.bind_lunit
        unless_error_prints [OF prints_foreign [OF wf l(1)]] x_def [symmetric]
      using True [unfolded u] cstr_sql_at [OF nn] by simp
  qed
qed


section \<open>Properties\<close>

lemma run_stmt_after:
  assumes "transaction_num cn = 0 \<longrightarrow> lock_ready cn w"
  shows "\<exists>ret w' cs. sorm_run_stmt api cn sql fl w = Some (ret, w') \<and> after_calls w cs w' \<and>
    stmt_protocol cn sql [] ret cs"
  using run_stmt_runs [OF assms, of sql api fl] by (auto simp: runs_stmt_def after_calls_def)

text \<open>
  C2: \<open>sorm_insert\<close> and \<open>sorm_replace\<close> on a well-formed object. An object without a valued column
  returns \<open>SORM_OK\<close> and makes no call. Otherwise the statement names exactly the valued columns, with
  one \<open>?\<close> each, and is refused with \<open>SORM_TOO_LONG\<close> and no call exactly when it is longer than
  \<open>SQL_STMT_MAX_LEN\<close>; else the call returns after the prepare, bind, step and finalize protocol of
  that text with the values of the valued columns in order, locks and heap as before, and after
  \<open>SORM_OK\<close> an integer primary key holds the low 32 bits of SQLite's row id.
\<close>

theorem save_statement:
  assumes "wf_object obj" and "transaction_num cn = 0 \<longrightarrow> lock_ready cn w"
    and "column_values obj (hp w) (valued obj) vs" and "pk_is_int (desc obj)"
    and "finalize_keeps_rowid api" and "gives_handle api (save_sql verb obj)"
    and "(verb, f) \<in> {(''INSERT'', sorm_insert), (''REPLACE'', sorm_replace)}"
  shows "if valued obj = [] then f api (Some cn) (Some obj) w = Some (SORM_OK, Some obj, w)
    else if 1023 < length (save_sql verb obj)
    then f api (Some cn) (Some obj) w = Some (SORM_TOO_LONG, Some obj, w)
    else \<exists>ret obj' w' cs. f api (Some cn) (Some obj) w = Some (ret, Some obj', w') \<and>
      after_calls w cs w' \<and> stmt_protocol cn (save_sql verb obj) (numbered 1 vs) ret cs \<and>
      (ret = SORM_OK \<longrightarrow> obj' = with_pk obj (ucast (sqlite3_last_insert_rowid api (db w'))))"
proof -
  have f: "f api (Some cn) (Some obj) w = i_save api (Some cn) (Some obj) verb w" and nn: "no_nul verb"
    using assms(7) by (auto simp: sorm_insert_def sorm_replace_def)
  show ?thesis
  proof (cases "valued obj = []")
    case True
    then show ?thesis unfolding f by (simp add: i_save_def check_has_value_eq [OF assms(1)])
  next
    case False
    from save_run_returns [OF assms(1-6)] False
    show ?thesis unfolding f save_eq [OF assms(1) False nn] by fastforce
  qed
qed

text \<open>
  C25: \<open>sorm_delete\<close> on a well-formed object with a valued column: the statement is
  \<open>DELETE FROM t WHERE\<close> with one condition per valued column joined by \<open>AND\<close>, refused with
  \<open>SORM_TOO_LONG\<close> exactly when its text does not fit; otherwise the call returns, with locks and heap
  as before, after the protocol of \<open>change_protocol\<close>: every path finalizes the prepared statement
  except a step that does not end with \<open>SQLITE_DONE\<close>, after which it stays open.
\<close>

theorem delete_statement:
  assumes "wf_object obj" and "transaction_num cn = 0 \<longrightarrow> lock_ready cn w"
    and "column_values obj (hp w) (valued obj) vs" and "valued obj \<noteq> []" and "gives_handle api (delete_sql obj)"
  shows "if 1019 < length (delete_sql obj) then sorm_delete api (Some cn) (Some obj) w = Some (SORM_TOO_LONG, w)
    else \<exists>ret w' cs. sorm_delete api (Some cn) (Some obj) w = Some (ret, w') \<and> after_calls w cs w' \<and>
      change_protocol cn (delete_sql obj) (numbered 1 vs) ret cs"
proof -
  have "\<exists>ret w' cs. change_run api cn obj [is_valued obj] (delete_sql obj) w = Some (ret, w') \<and>
      after_calls w cs w' \<and> change_protocol cn (delete_sql obj) (numbered 1 vs) ret cs"
    using assms(2,5) by (rule change_run_returns) (rule delete_binds [OF assms(1,3)])
  then show ?thesis unfolding delete_eq [OF assms(1,4)] by simp
qed

text \<open>
  C24: \<open>sorm_update\<close> on a well-formed object with a valued unique column whose \<open>SET\<close> part is at most
  1017 characters long: the statement sets every valued column and selects the row by the valued
  unique columns, each value is bound in its place, and the call returns after the protocol of
  \<open>change_protocol\<close>, or with \<open>SORM_TOO_LONG\<close> and no call exactly when the text does not fit.
\<close>

theorem update_statement:
  assumes "wf_object obj" and "transaction_num cn = 0 \<longrightarrow> lock_ready cn w"
    and "column_values obj (hp w) (valued obj) vs" and "column_values obj (hp w) (unique_valued obj) us"
    and "unique_valued obj \<noteq> []" and "length (update_head obj) \<le> 1017" and "gives_handle api (update_sql obj)"
  shows "if 1019 < length (update_sql obj) then sorm_update api (Some cn) (Some obj) w = Some (SORM_TOO_LONG, w)
    else \<exists>ret w' cs. sorm_update api (Some cn) (Some obj) w = Some (ret, w') \<and> after_calls w cs w' \<and>
      change_protocol cn (update_sql obj) (numbered 1 (vs @ us)) ret cs"
proof -
  have v: "valued obj \<noteq> []" using assms(5) by (auto simp: unique_valued_def)
  have "\<exists>ret w' cs. change_run api cn obj [is_valued obj, is_unique_valued obj] (update_sql obj) w
      = Some (ret, w') \<and> after_calls w cs w' \<and> change_protocol cn (update_sql obj) (numbered 1 (vs @ us)) ret cs"
    using assms(2,7) by (rule change_run_returns) (rule update_binds [OF assms(1,3,4)])
  with assms(5,6) show ?thesis unfolding update_eq [OF assms(1) v] by simp
qed

text \<open>
  \<open>sorm_update\<close> prints \<open>WHERE\<close> with the size of the whole array as its bound: when the text
  before it has 1018 to 1022 characters, which passes every earlier check, it stores behind the
  array. And with no valued unique column the text handed to SQLite ends in a lone \<open>W\<close>.
\<close>

theorem update_where_flaws:
  assumes "wf_object obj" and "valued obj \<noteq> []" and "length (update_head obj) \<le> 1022"
    and "1017 < length (update_head obj) \<or> unique_valued obj = []"
  shows "sorm_update api (Some cn) (Some obj) w =
    (if 1017 < length (update_head obj) then None
     else change_run api cn obj [is_valued obj, is_unique_valued obj] (update_head obj @ '' W'') w)"
  using assms(3,4) unfolding update_eq [OF assms(1,2)] by auto

text \<open>
  C26: \<open>sorm_create_table\<close> for a descriptor without a statement of its own and with legal column
  types: the text has every column with its SQL type and constraint, the foreign keys when they are
  enabled, and the index of every foreign key; it is refused with \<open>SORM_TOO_LONG\<close> exactly when it is
  longer than \<open>SQL_STMT_MAX_LEN\<close>, else run under the statement protocol.
\<close>

theorem create_table_statement:
  assumes "wf_table td" and "types_legal td" and "create_sql td = None"
    and "transaction_num cn = 0 \<longrightarrow> lock_ready cn w"
  shows "let sql = table_sql (sorm_foreign_key_enabled (flags cn)) td in
    if 1023 < length sql then sorm_create_table api (Some cn) (Some td) w = Some (SORM_TOO_LONG, w)
    else \<exists>ret w' cs. sorm_create_table api (Some cn) (Some td) w = Some (ret, w') \<and> after_calls w cs w' \<and>
      stmt_protocol cn sql [] ret cs"
  using run_stmt_after [OF assms(4)] unfolding create_table_eq [OF assms(1-3)] Let_def by simp

text \<open>The row of the demo table with its text column set.\<close>

lemma demo_object_facts:
  "wf_object demo_object" "valued demo_object = [1]" "unique_valued demo_object = [1]"
  "names_of demo_object [Suc 0] = [''uuid'']" "desc demo_object = demo_table"
  "column_values demo_object h [Suc 0] [Bind_text ''abc'']" "pk_is_int demo_table"
proof -
  show d: "desc demo_object = demo_table" by (simp add: demo_object_def)
  show "wf_object demo_object"
    unfolding demo_object_def using object_ok_new(1) [OF wf_demo_table]
    by (intro wf_object_put) (simp_all add: object_ok_def wf_cell_def demo_column_def is_cstr_def
        stat_needfree_bit SORM_STAT_VALUED_def bit_1_iff)
  have l: "[0..<length (cells demo_object)] = [0, 1, 2]"
    by (simp add: demo_object_def new_object_def upt_rec)
  show v: "valued demo_object = [1]"
    unfolding valued_def l
    by (simp add: demo_object_def put_cell_def new_object_def stat_valued_bit SORM_STAT_VALUED_def)
  show "unique_valued demo_object = [1]"
    unfolding unique_valued_def v d by (simp add: demo_column_def sorm_is_unique_column_def)
  show "names_of demo_object [Suc 0] = [''uuid'']"
    unfolding names_of_def d by (simp add: demo_column_def)
  show "column_values demo_object h [Suc 0] [Bind_text ''abc'']"
    by (simp add: column_values_def demo_object_def column_bind_value_def put_cell_def new_object_def
        column_at_def nth_opt_def get_member_def cell_at_def i_get_blob_len_def is_cstr_def
        demo_table_def demo_column_def)
  show "pk_is_int demo_table" by (simp add: pk_is_int_def demo_table_def demo_column_def)
qed

lemma demo_name [simp]: "t_name demo_table = ''device''" "create_sql demo_table = None"
  by (simp_all add: demo_table_def)

lemma script_handle [simp]: "gives_handle script_api sql"
  by (simp add: gives_handle_def script_api_def split: prod.splits)

theorem save_statement_witness:
  "\<exists>ret obj' w' cs. sorm_insert script_api (Some sem_conn) (Some demo_object) (start_world [0, 0, 101, 0])
      = Some (ret, Some obj', w') \<and> after_calls (start_world [0, 0, 101, 0]) cs w' \<and>
    stmt_protocol sem_conn ''INSERT INTO device ( uuid) VALUES ( ?)'' [(1, Bind_text ''abc'')] ret cs"
proof -
  let ?w = "start_world [0, 0, 101, 0]"
  have sql: "save_sql ''INSERT'' demo_object = ''INSERT INTO device ( uuid) VALUES ( ?)''"
    by (simp add: save_sql_def demo_object_facts list_text_def)
  have "finalize_keeps_rowid script_api" by (simp add: finalize_keeps_rowid_def script_api_def)
  from save_statement [OF demo_object_facts(1) _ _ _ this script_handle, of sem_conn ?w "[Bind_text ''abc'']" "''INSERT''" sorm_insert]
  show ?thesis by (auto simp: demo_object_facts sql)
qed

theorem delete_statement_witness:
  "\<exists>ret w' cs. sorm_delete script_api (Some sem_conn) (Some demo_object) (start_world [0, 0, 101, 0])
      = Some (ret, w') \<and> after_calls (start_world [0, 0, 101, 0]) cs w' \<and>
    change_protocol sem_conn ''DELETE FROM device WHERE  uuid=?'' [(1, Bind_text ''abc'')] ret cs"
proof -
  have sql: "delete_sql demo_object = ''DELETE FROM device WHERE  uuid=?''"
    by (simp add: delete_sql_def demo_object_facts)
  from delete_statement [OF demo_object_facts(1), of sem_conn "start_world [0, 0, 101, 0]" "[Bind_text ''abc'']" script_api]
  show ?thesis by (simp add: demo_object_facts sql)
qed

theorem update_statement_witness:
  "\<exists>ret w' cs. sorm_update script_api (Some sem_conn) (Some demo_object) (start_world [0, 0, 0, 101, 0])
      = Some (ret, w') \<and> after_calls (start_world [0, 0, 0, 101, 0]) cs w' \<and>
    change_protocol sem_conn ''UPDATE device SET uuid=? WHERE uuid=?''
      [(1, Bind_text ''abc''), (2, Bind_text ''abc'')] ret cs"
proof -
  have sql: "update_sql demo_object = ''UPDATE device SET uuid=? WHERE uuid=?''"
    "update_head demo_object = ''UPDATE device SET uuid=?''"
    by (simp_all add: update_sql_def update_head_def demo_object_facts)
  from update_statement [OF demo_object_facts(1), of sem_conn "start_world [0, 0, 0, 101, 0]"
      "[Bind_text ''abc'']" "[Bind_text ''abc'']" script_api]
  show ?thesis by (simp add: demo_object_facts sql)
qed

text \<open>The same row with only its name, which is not unique.\<close>

definition demo_named :: sorm_object where
  "demo_named = put_cell (new_object demo_table) 2 \<lparr>blob_len = 0, stat = SORM_STAT_VALUED, val = M_ptr 0\<rparr>"

lemma demo_named_facts:
  "wf_object demo_named" "valued demo_named = [2]" "unique_valued demo_named = []"
  "names_of demo_named [2] = [''name'']" "desc demo_named = demo_table"
proof -
  show d: "desc demo_named = demo_table" by (simp add: demo_named_def)
  show "wf_object demo_named"
    unfolding demo_named_def using object_ok_new(1) [OF wf_demo_table]
    by (intro wf_object_put) (simp_all add: object_ok_def wf_cell_def demo_column_def)
  have l: "[0..<length (cells demo_named)] = [0, 1, 2]"
    by (simp add: demo_named_def new_object_def upt_rec)
  show v: "valued demo_named = [2]"
    unfolding valued_def l
    by (simp add: demo_named_def put_cell_def new_object_def stat_valued_bit SORM_STAT_VALUED_def)
  show "unique_valued demo_named = []"
    unfolding unique_valued_def v d by (simp add: demo_column_def sorm_is_unique_column_def)
  show "names_of demo_named [2] = [''name'']"
    unfolding names_of_def d by (simp add: demo_column_def)
qed

theorem update_where_flaws_witness:
  "sorm_update script_api (Some sem_conn) (Some demo_named) (start_world [1])
    = change_run script_api sem_conn demo_named [is_valued demo_named, is_unique_valued demo_named]
        ''UPDATE device SET name=? W'' (start_world [1])"
proof -
  have h: "update_head demo_named = ''UPDATE device SET name=?''"
    by (simp add: update_head_def demo_named_facts)
  from update_where_flaws [OF demo_named_facts(1), of script_api sem_conn "start_world [1]"] show ?thesis
    by (simp add: demo_named_facts h)
qed

theorem create_table_statement_witness:
  "\<exists>ret w' cs. sorm_create_table script_api (Some sem_conn) (Some demo_table) (start_world [0, 101, 0])
      = Some (ret, w') \<and> after_calls (start_world [0, 101, 0]) cs w' \<and>
    stmt_protocol sem_conn
      ''CREATE TABLE IF NOT EXISTS device( id INTEGER PRIMARY KEY, uuid TEXT UNIQUE, name TEXT)'' [] ret cs"
proof -
  have t: "types_legal demo_table" by (simp add: types_legal_def demo_column_def)
  have sql: "table_sql (sorm_foreign_key_enabled (flags sem_conn)) demo_table
      = ''CREATE TABLE IF NOT EXISTS device( id INTEGER PRIMARY KEY, uuid TEXT UNIQUE, name TEXT)''"
    by (simp add: table_sql_def column_def_text_def constraint_text_def demo_column_def)
  from create_table_statement [OF wf_demo_table t _, of sem_conn "start_world [0, 101, 0]" script_api]
  show ?thesis by (simp add: sql)
qed

text \<open>
  A primary key that is not an \<open>int\<close>. Once SQLite has run the \<open>INSERT\<close> or \<open>REPLACE\<close>, \<open>_save\<close> hands
  the address of a 32-bit local variable to \<open>sorm_set_column_value\<close>, which reads it as the column's
  own type: for a key of any other legal type the run goes outside the variable and has no defined
  result.
\<close>

theorem save_pk_not_int:
  assumes wf: "wf_object obj" and pk: "PK_index (desc obj) = int i"
    and t: "c_type (columns (desc obj) ! i) \<in> {SORM_TYPE_INT64, SORM_TYPE_DOUBLE, SORM_TYPE_TEXT, SORM_TYPE_BLOB}"
    and p: "i_sqlite3_prepare api sql w = (SQLITE_OK, st, w1)"
    and b: "for_bind api st obj (is_valued obj) (column_indexes (desc obj)) 1 w1 = Some (SORM_OK, k, w2)"
    and s: "i_sqlite3_step api cn st SORM_RWLOCK_WRITE w2 = Some (SQLITE_DONE, w3)"
  shows "save_run api cn obj sql w = None"
proof -
  have i: "i < length (columns (desc obj))"
    using wf pk by (auto simp: wf_object_def wf_table_def SORM_NO_PK_def)
  have "sorm_set_column_value (Some obj) (int i) (Some (V_int32 r)) 0 h = None" for r h
    using t column_at_wf [OF wf i] by (auto simp: sorm_set_column_value_def)
  with p b s pk show ?thesis by (simp add: save_run_def SORM_NO_PK_def)
qed

definition demo_text_pk :: sorm_object where
  "demo_text_pk = new_object (demo_table\<lparr>PK_index := 1\<rparr>)"

definition plain_conn :: sorm_connection_t where
  "plain_conn = \<lparr>db_type = SORM_DB_SQLITE, transaction_num = 0, sem_key = 0, rwlock = 0, flags = 0\<rparr>"

theorem save_pk_not_int_witness:
  "save_run script_api plain_conn demo_text_pk ''INSERT INTO device () VALUES ()'' (start_world [0, 101, 0]) = None"
proof -
  let ?w = "start_world [0, 101, 0 :: int]" and ?sql = "''INSERT INTO device () VALUES ()''"
  have td: "wf_table (demo_table\<lparr>PK_index := 1\<rparr>)"
    using wf_demo_table by (simp add: wf_table_def demo_table_def)
  have wf: "wf_object demo_text_pk"
    using object_ok_new(1) [OF td] by (simp add: demo_text_pk_def object_ok_def)
  obtain w1 where p: "i_sqlite3_prepare script_api ?sql ?w = (SQLITE_OK, 1, w1)" and d: "db w1 = [101, 0]"
    by (simp add: i_sqlite3_prepare_def busy_retry.simps sq_prepare_def script_api_def answer_def
        start_world_def sqlite_codes)
  have b: "for_bind script_api 1 demo_text_pk (is_valued demo_text_pk) (column_indexes (desc demo_text_pk)) 1 w1
      = Some (SORM_OK, 1, w1)"
    by (simp add: demo_text_pk_def column_indexes_def demo_table_def upt_rec is_valued_def new_object_def
        i_get_column_stat_def cell_at_def nth_opt_def stat_valued_bit)
  have fl: "\<not> sorm_semaphore_enabled 0" "\<not> sorm_rwlock_enabled 0" by (simp_all add: flag_bits)
  obtain w3 where s: "i_sqlite3_step script_api plain_conn 1 SORM_RWLOCK_WRITE w1 = Some (SQLITE_DONE, w3)"
    using d by (simp add: i_sqlite3_step_def plain_conn_def i_lock_def i_unlock_def fl busy_retry.simps
        sq_step_def script_api_def answer_def sqlite_codes)
  show ?thesis
    using save_pk_not_int [OF wf _ _ p b s, of 1] by (simp add: demo_text_pk_def demo_column_def)
qed

section \<open>Deleting by the value of a column\<close>

lemma column_filter_text:
  assumes td: "wf_table td" and i: "i < length (columns td)" and t: "c_type (columns td ! i) = SORM_TYPE_TEXT"
    and s: "load_str h p = Some s" "s = [] \<or> hd s \<noteq> quote"
    and l: "length (c_name (columns td ! i) @ '' = '' @ [quote] @ escape s @ [quote]) \<le> 1023"
  shows "i_construct_column_filter h (Some td) (int i) (Some (V_mem p))
    = Some (SORM_OK, buf_str 1024 (c_name (columns td ! i) @ '' = '' @ [quote] @ escape s @ [quote]))"
proof -
  let ?b = "buf_new (nat (SQL_STMT_MAX_LEN + 1))"
  have nn: "no_nul s" using load_str_no_nul [OF s(1)] .
  have "int (length (escape s)) < SQL_STMT_MAX_LEN + 1" using l by (simp add: SQL_STMT_MAX_LEN_def)
  then obtain b' where b': "sorm_fix_string s ?b (SQL_STMT_MAX_LEN + 1) = Some (SORM_OK, b')" "cstr b' = escape s"
    using other_buf.fix_string_ok [OF nn s(2), of "SQL_STMT_MAX_LEN + 1" ?b]
    by (auto simp: sorm_fix_string_def buf_new_def SQL_STMT_MAX_LEN_def)
  have "int i < columns_num td" using td i by (simp add: wf_table_columns_num)
  with wf_table_column [OF td i] t s(1) b' filter_printed [OF l] l show ?thesis
    by (simp add: i_construct_column_filter_def Let_def SQL_STMT_MAX_LEN_def)
qed

text \<open>
  C30: \<open>sorm_delete_by_column\<close> with a text that does not start with a quote: the statement compares the
  column with a string literal that SQL reads back as exactly the text given, whatever quotes it
  contains, and ends there; it is run under the statement protocol.
\<close>

theorem delete_by_column_literal:
  assumes "wf_table td" and "i < length (columns td)" and "c_type (columns td ! i) = SORM_TYPE_TEXT"
    and "load_str (hp w) p = Some s" and "s = [] \<or> hd s \<noteq> quote"
    and "length (''DELETE FROM '' @ t_name td @ '' WHERE '' @ c_name (columns td ! i) @ '' = '' @ [quote] @
           escape s @ [quote]) \<le> 1023"
    and "transaction_num cn = 0 \<longrightarrow> lock_ready cn w"
  shows "\<exists>ret w' cs lit. sorm_delete_by_column api (Some cn) (Some td) (int i) (Some (V_mem p)) w = Some (ret, w') \<and>
    after_calls w cs w' \<and> sql_literal lit = Some (s, []) \<and>
    stmt_protocol cn (''DELETE FROM '' @ t_name td @ '' WHERE '' @ c_name (columns td ! i) @ '' = '' @ [quote] @ lit)
      [] ret cs"
proof -
  let ?f = "c_name (columns td ! i) @ '' = '' @ [quote] @ escape s @ [quote]"
  let ?h = "''DELETE FROM '' @ t_name td @ '' ''" and ?sql = "''DELETE FROM '' @ t_name td @ '' WHERE '' @ ?f"
  have nn: "no_nul ?sql"
    using assms(1,2) wf_table_column [OF assms(1,2)] load_str_no_nul [OF assms(4)] no_nul_escape
    by (auto simp: wf_table_def wf_column_def)
  have nf: "no_nul ?f" using nn by simp
  have l: "length ?f \<le> 1023" "length ?h + length (''WHERE '' @ ?f) \<le> 1023" using assms(6) by auto
  have p2: "stmt_printf (sql_at ?h) (''WHERE '' @ ?f) = Some (SORM_OK, sql_at ?sql)"
    using stmt_printf_at [OF l(2)] by simp
  have p1: "stmt_printf sql_stmt_init ?h = Some (SORM_OK, sql_at ?h)"
    using l by (intro stmt_printf_init) auto
  have "sorm_delete_by api (Some cn) (Some td) (Some ?f) w = sorm_run_stmt api cn ?sql SORM_RWLOCK_WRITE w"
    unfolding sorm_delete_by_def prod.case option.case p1 p2 unless_error_ok cstr_sql_at [OF nn] ..
  then have "sorm_delete_by_column api (Some cn) (Some td) (int i) (Some (V_mem p)) w
      = sorm_run_stmt api cn ?sql SORM_RWLOCK_WRITE w"
    using column_filter_text [OF assms(1-5) l(1)] nf by (simp add: sorm_delete_by_column_def)
  moreover have "sql_literal (escape s @ [quote]) = Some (s, [])" using sql_literal_escape [of "[]" s] by simp
  ultimately show ?thesis using run_stmt_after [OF assms(7), of api ?sql SORM_RWLOCK_WRITE] by fastforce
qed

definition text_world :: "'db \<Rightarrow> string \<Rightarrow> 'db world" where
  "text_world d s = (start_world d)\<lparr>hp := \<lparr>blocks = [1 \<mapsto> \<lparr>owner = None, content = C_bytes (s @ [NUL])\<rparr>],
     brk = 2, room = 65536\<rparr>\<rparr>"

lemma text_world_simps [simp]:
  "lock_ready sem_conn (text_world d s)" "calls (text_world d s) = []" "heap_ok (hp (text_world d s))"
  "no_nul s \<Longrightarrow> load_str (hp (text_world d s)) 1 = Some s"
  using sem_conn_simps(4) [of d] takeWhile_no_nul [of s "[]"]
  by (auto simp: text_world_def lock_ready_def start_world_def heap_ok_def load_str_def load_def)

theorem delete_by_column_literal_witness:
  "\<exists>ret w' cs lit. sorm_delete_by_column script_api (Some sem_conn) (Some demo_table) 1 (Some (V_mem 1))
      (text_world [0, 101, 0] ''it's'') = Some (ret, w') \<and> sql_literal lit = Some (''it's'', []) \<and>
    stmt_protocol sem_conn (''DELETE FROM device WHERE uuid = '' @ [quote] @ lit) [] ret cs"
proof -
  have l: "load_str (hp (text_world [0, 101, 0 :: int] ''it's'')) 1 = Some ''it's''"
    by (rule text_world_simps) simp
  from delete_by_column_literal [OF wf_demo_table _ _ l, of 1 sem_conn script_api] show ?thesis
    by (fastforce simp: demo_column_def)
qed

section \<open>Indexes\<close>

definition create_index_sql :: "sorm_table_descriptor_t \<Rightarrow> string \<Rightarrow> string" where
  "create_index_sql td cs = ''CREATE INDEX IF NOT EXISTS index_'' @ index_suffix cs @ '' ON '' @ t_name td @
     ''('' @ cs @ '')''"

definition drop_index_sql :: "string \<Rightarrow> string" where
  "drop_index_sql cs = ''DROP INDEX index_'' @ index_suffix cs"

text \<open>As \<open>after_calls\<close>, for a run that took memory and gave it back.\<close>

definition after_calls_mem :: "'db world \<Rightarrow> call list \<Rightarrow> 'db world \<Rightarrow> bool" where
  "after_calls_mem w cs w' \<longleftrightarrow> same_locks w w' \<and> heap_ok (hp w') \<and> blocks (hp w') = blocks (hp w) \<and>
     calls w' = calls w @ cs"

lemma with_index_suffix_eq:
  assumes "no_nul cs" and "heap_ok (hp w)" and "length cs + 1 \<le> room (hp w)"
  shows "\<exists>h. with_index_suffix cs t w = map_option (\<lambda>r. (r, w\<lparr>hp := h\<rparr>)) (stmt_printf sql_stmt_init (t (index_suffix cs))) \<and>
    heap_ok h \<and> blocks h = blocks (hp w)"
proof -
  obtain p h1 where m: "i_malloc None (length cs + 1) (hp w) = Some (p, h1)"
    using i_malloc_room [OF assms(3,2)] by blast
  from libc.mal_fre [OF assms(2) _ m] obtain h2 where "i_free None p h1 = Some h2" "heap_ok h2"
    "blocks h2 = blocks (hp w)" by auto
  with m construct_index_suffix_eq [OF assms(1)] show ?thesis
    by (cases "stmt_printf sql_stmt_init (t (index_suffix cs))") (auto simp: with_index_suffix_def)
qed

lemma index_stmt:
  assumes "no_nul cs" and "heap_ok (hp w)" and "length cs + 1 \<le> room (hp w)"
    and "transaction_num cn = 0 \<longrightarrow> lock_ready cn w" and "no_nul (t (index_suffix cs))"
  shows "\<exists>ret w' es. do { ((ret, sql), w) \<leftarrow> with_index_suffix cs t w;
        if ret \<noteq> SORM_OK then Some (ret, w)
        else sorm_run_stmt api cn (cstr (fst sql)) SORM_RWLOCK_WRITE w } = Some (ret, w') \<and>
    after_calls_mem w es w' \<and>
    (if length (t (index_suffix cs)) \<le> 1023 then stmt_protocol cn (t (index_suffix cs)) [] ret es
     else ret = SORM_TOO_LONG \<and> es = [])"
proof -
  let ?s = "t (index_suffix cs)"
  obtain h where h: "with_index_suffix cs t w = map_option (\<lambda>r. (r, w\<lparr>hp := h\<rparr>)) (stmt_printf sql_stmt_init ?s)"
    "heap_ok h" "blocks h = blocks (hp w)" using with_index_suffix_eq [OF assms(1-3)] by blast
  show ?thesis
  proof (cases "length ?s \<le> 1023")
    case True
    have "transaction_num cn = 0 \<longrightarrow> lock_ready cn (w\<lparr>hp := h\<rparr>)" using assms(4) by (simp add: lock_ready_def)
    from run_stmt_after [OF this, of api ?s SORM_RWLOCK_WRITE] obtain ret w' es where
      "sorm_run_stmt api cn ?s SORM_RWLOCK_WRITE (w\<lparr>hp := h\<rparr>) = Some (ret, w')"
      "after_calls (w\<lparr>hp := h\<rparr>) es w'" "stmt_protocol cn ?s [] ret es" by blast
    with True h stmt_printf_init [OF True] cstr_sql_at [OF assms(5)] show ?thesis
      by (intro exI [of _ ret] exI [of _ w'] exI [of _ es])
        (simp add: after_calls_mem_def after_calls_def same_locks_def)
  next
    case False
    then obtain q where "stmt_printf sql_stmt_init ?s = Some (SORM_TOO_LONG, q)"
      using stmt_printf_init_long [of ?s] by auto
    with False h show ?thesis by (simp add: after_calls_mem_def same_locks_def)
  qed
qed

text \<open>
  \<open>sorm_create_index\<close> and \<open>sorm_drop_index\<close>, given memory for the suffix, build the same index name
  from the same column list: the columns with blanks taken out and commas turned into underscores.
  They return, give back the memory of the suffix, and either run the statement or, exactly when it
  is longer than \<open>SQL_STMT_MAX_LEN\<close>, return \<open>SORM_TOO_LONG\<close> without a call.
\<close>

theorem index_statements:
  assumes "no_nul cs" and "no_nul (t_name td)" and "heap_ok (hp w)" and "length cs + 1 \<le> room (hp w)"
    and "transaction_num cn = 0 \<longrightarrow> lock_ready cn w"
    and "(sql, res) \<in> {(create_index_sql td cs, sorm_create_index api (Some cn) (Some td) (Some cs) w),
           (drop_index_sql cs, sorm_drop_index api (Some cn) (Some cs) w)}"
  shows "\<exists>ret w' es. res = Some (ret, w') \<and> after_calls_mem w es w' \<and>
    (if length sql \<le> 1023 then stmt_protocol cn sql [] ret es else ret = SORM_TOO_LONG \<and> es = [])"
proof -
  let ?c = "\<lambda>s. ''CREATE INDEX IF NOT EXISTS index_'' @ s @ '' ON '' @ t_name td @ ''('' @ cs @ '')''"
  let ?d = "\<lambda>s. ''DROP INDEX index_'' @ s"
  have nn: "no_nul (?c (index_suffix cs))" "no_nul (?d (index_suffix cs))"
    using assms(1,2) no_nul_index_suffix by auto
  consider "sql = ?c (index_suffix cs)" "res = sorm_create_index api (Some cn) (Some td) (Some cs) w"
    | "sql = ?d (index_suffix cs)" "res = sorm_drop_index api (Some cn) (Some cs) w"
    using assms(6) by (auto simp: create_index_sql_def drop_index_sql_def)
  then show ?thesis
  proof cases
    case 1
    show ?thesis
      unfolding 1 sorm_create_index_def prod.case option.case
      by (rule index_stmt [where t = ?c, OF assms(1,3,4,5) nn(1)])
  next
    case 2
    show ?thesis
      unfolding 2 sorm_drop_index_def prod.case option.case
      by (rule index_stmt [where t = ?d, OF assms(1,3,4,5) nn(2)])
  qed
qed

lemma room_start: "room (hp (start_world d)) = 65536"
  by (simp add: start_world_def)

theorem index_statements_witness:
  "\<exists>ret w' es. sorm_create_index script_api (Some sem_conn) (Some demo_table) (Some ''uuid, name'')
      (start_world [0, 101, 0]) = Some (ret, w') \<and> after_calls_mem (start_world [0, 101, 0]) es w' \<and>
    stmt_protocol sem_conn ''CREATE INDEX IF NOT EXISTS index_uuid_name ON device(uuid, name)'' [] ret es"
proof -
  have sql: "create_index_sql demo_table ''uuid, name''
      = ''CREATE INDEX IF NOT EXISTS index_uuid_name ON device(uuid, name)''"
    by (simp add: create_index_sql_def index_suffix_def)
  from index_statements [of "''uuid, name''" demo_table "start_world [0, 101, 0]" sem_conn
      "create_index_sql demo_table ''uuid, name''"
      "sorm_create_index script_api (Some sem_conn) (Some demo_table) (Some ''uuid, name'') (start_world [0, 101, 0])"
      script_api] room_start [of "[0, 101, 0 :: int]"]
  show ?thesis by (simp add: sql)
qed

section \<open>Closing and opening\<close>

definition close_db :: "'db sqlite3_api \<Rightarrow> nat \<Rightarrow> 'db \<Rightarrow> 'db" where
  "close_db api n d = ((\<lambda>d. snd (sqlite3_close api d)) ^^ n) d"

lemma close_loop_returns:
  assumes "\<And>k. k < n \<Longrightarrow> fst (sqlite3_close api (close_db api k (db w))) = SQLITE_BUSY"
    and "fst (sqlite3_close api (close_db api n (db w))) = r" and "r \<noteq> SQLITE_BUSY"
  shows "\<exists>w'. close_loop api w = Some (r, w') \<and> hp w' = hp w \<and> sems w' = sems w \<and> rwlocks w' = rwlocks w \<and>
    calls w' = calls w @ replicate n (Call_close SQLITE_BUSY) @ [Call_close r]"
  using assms
proof (induction n arbitrary: w)
  case 0
  then show ?case
    by (subst close_loop.simps) (auto simp: close_db_def split: prod.splits)
next
  case (Suc n)
  obtain d where d: "sqlite3_close api (db w) = (SQLITE_BUSY, d)"
    using Suc.prems(1) [of 0] by (cases "sqlite3_close api (db w)") (simp add: close_db_def)
  let ?v = "log_call (Call_close SQLITE_BUSY) (w\<lparr>db := d\<rparr>)"
  have it: "close_db api (Suc k) (db w) = close_db api k (db ?v)" for k
    using d by (simp add: close_db_def funpow_swap1 [symmetric] funpow_Suc_right del: funpow.simps)
  obtain w' where "close_loop api ?v = Some (r, w')" "hp w' = hp ?v" "sems w' = sems ?v" "rwlocks w' = rwlocks ?v"
    "calls w' = calls ?v @ replicate n (Call_close SQLITE_BUSY) @ [Call_close r]"
    using Suc.IH [of ?v] Suc.prems it by (metis Suc_less_eq)
  with d show ?case by (subst close_loop.simps) simp
qed

lemma close_loop_diverges:
  assumes "\<And>d. fst (sqlite3_close api d) = SQLITE_BUSY"
  shows "close_loop api w = None"
proof (cases "close_loop api w")
  case (Some r)
  have "\<exists>d. fst (sqlite3_close api d) \<noteq> SQLITE_BUSY"
  proof (rule close_loop.raw_induct [where P = "\<lambda>a v y. \<exists>d. fst (sqlite3_close a d) \<noteq> SQLITE_BUSY", OF _ Some])
    fix cl and a :: "'a sqlite3_api" and v y
    assume 1: "\<And>a v y. cl a v = Some y \<Longrightarrow> \<exists>d. fst (sqlite3_close a d) \<noteq> SQLITE_BUSY"
      "(let (ret, d) = sqlite3_close a (db v); w = log_call (Call_close ret) (v\<lparr>db := d\<rparr>)
        in if ret = SQLITE_BUSY then cl a w else Some (ret, w)) = Some y"
    obtain x d where x: "sqlite3_close a (db v) = (x, d)" by fastforce
    show "\<exists>d. fst (sqlite3_close a d) \<noteq> SQLITE_BUSY"
    proof (cases "x = SQLITE_BUSY")
      case True
      with 1(2) x have "cl a (log_call (Call_close x) (v\<lparr>db := d\<rparr>)) = Some y" by simp
      then show ?thesis by (rule 1(1))
    next
      case False
      with x show ?thesis by (intro exI [of _ "db v"]) simp
    qed
  qed
  with assms show ?thesis by blast
qed simp

text \<open>
  C37: \<open>sorm_close\<close> calls \<open>sqlite3_close\<close> until it is not busy. After finitely many busy answers it
  returns: the connection is freed and \<open>SORM_OK\<close> returned when SQLite closed, else the connection is
  kept and \<open>SORM_DB_ERROR\<close> returned.
\<close>

theorem close_returns:
  assumes "\<And>k. k < n \<Longrightarrow> fst (sqlite3_close api (close_db api k (db w))) = SQLITE_BUSY"
    and "fst (sqlite3_close api (close_db api n (db w))) = r" and "r \<noteq> SQLITE_BUSY"
    and "heap_ok (hp w)" and "blocks (hp w) p = Some b" and "owner b = None"
  shows "\<exists>w'. sorm_close api (Some (p, cn)) w = Some (if r = SQLITE_OK then SORM_OK else SORM_DB_ERROR, w') \<and>
    blocks (hp w') = (if r = SQLITE_OK then (blocks (hp w))(p := None) else blocks (hp w)) \<and>
    calls w' = calls w @ replicate n (Call_close SQLITE_BUSY) @ [Call_close r]"
proof -
  from close_loop_returns [OF assms(1-3)] obtain w' where w': "close_loop api w = Some (r, w')" "hp w' = hp w"
    "calls w' = calls w @ replicate n (Call_close SQLITE_BUSY) @ [Call_close r]" by auto
  obtain h where "i_free None p (hp w) = Some h" "blocks h = (blocks (hp w))(p := None)"
    using libc.fre_owned [OF assms(4,5)] assms(6) by (auto simp: pool_of_def)
  with w' show ?thesis by (cases "r = SQLITE_OK") (auto simp: sorm_close_def)
qed

text \<open>
  \<open>sorm_close\<close> does not return while SQLite stays busy, which is its documented answer for a
  connection that still has a statement that was not finalized, such as the one \<open>sorm_delete\<close> and
  \<open>sorm_update\<close> leave behind after a failed step.
\<close>

theorem close_waits_forever:
  assumes "\<And>d. fst (sqlite3_close api d) = SQLITE_BUSY"
  shows "sorm_close api (Some (p, cn)) w = None"
  using close_loop_diverges [OF assms, of w] by (simp add: sorm_close_def)

theorem close_waits_forever_witness:
  "sorm_close (script_api\<lparr>sqlite3_close := \<lambda>d. (SQLITE_BUSY, d)\<rparr>) (Some (1, sem_conn)) (start_world []) = None"
  using close_waits_forever [of "script_api\<lparr>sqlite3_close := \<lambda>d. (SQLITE_BUSY, d)\<rparr>" 1 sem_conn "start_world []"]
  by simp

theorem close_returns_witness:
  "\<exists>w'. sorm_close script_api (Some (1, sem_conn)) (text_world [5, 0] ''x'') = Some (SORM_OK, w') \<and>
    blocks (hp w') 1 = None \<and> calls w' = [Call_close SQLITE_BUSY, Call_close 0]"
proof -
  let ?w = "text_world [5, 0 :: int] ''x''"
  have 1: "fst (sqlite3_close script_api (close_db script_api k (db ?w))) = SQLITE_BUSY" if "k < 1" for k
    using that by (simp add: close_db_def script_api_def answer_def text_world_def start_world_def sqlite_codes)
  have 2: "fst (sqlite3_close script_api (close_db script_api 1 (db ?w))) = SQLITE_OK"
    by (simp add: close_db_def script_api_def answer_def text_world_def start_world_def sqlite_codes)
  have 3: "blocks (hp ?w) 1 = Some \<lparr>owner = None, content = C_bytes (''x'' @ [NUL])\<rparr>"
    by (simp add: text_world_def)
  show ?thesis
    using close_returns [OF 1 2 _ _ 3, of sem_conn] by (auto simp: sqlite_codes)
qed

text \<open>
  C36: \<open>sorm_open\<close> with a path and memory for the connection returns. When SQLite does not open the file, it
  returns \<open>SORM_DB_ERROR\<close>, no connection, and has made no other call. When SQLite opens it, the statement
  that turns foreign keys on is run, without a lock, exactly when its flag is set, and decides the code; without the flag
  nothing else is called and the code is \<open>SORM_OK\<close>. With \<open>SORM_OK\<close> there is a connection, outside any transaction, with
  the database type and flags asked for and with the semaphore key and the rwlock only when the flags enable them; with any
  other code there is none. In every case, errors included, the memory of the connection stays allocated and no
  other, and the locks are as before.
\<close>

theorem open_connection:
  assumes "heap_ok (hp w)" and "sizeof_connection \<le> room (hp w)"
  shows "\<exists>opened d p w'. sqlite3_open api path (db w) = (opened, d) \<and> same_locks w w' \<and>
    p \<noteq> 0 \<and> blocks (hp w) p = None \<and> blocks (hp w') = (blocks (hp w))(p \<mapsto> \<lparr>owner = None, content = C_raw 40\<rparr>) \<and>
    (if opened \<noteq> SQLITE_OK
     then sorm_open api (Some path) dbt key rw fl w = Some (SORM_DB_ERROR, None, w') \<and>
       calls w' = calls w @ [Call_open path opened] \<and> db w' = d
     else \<exists>ret cs. sorm_open api (Some path) dbt key rw fl w =
         Some (ret, if ret = SORM_OK
           then Some (p, \<lparr>db_type = dbt, transaction_num = 0, sem_key = (if sorm_semaphore_enabled fl then key else 0),
                          rwlock = (if sorm_rwlock_enabled fl then rw else 0), flags = fl\<rparr>)
           else None, w') \<and>
       calls w' = calls w @ Call_open path SQLITE_OK # cs \<and>
       (if sorm_foreign_key_enabled fl
        then stmt_protocol \<lparr>db_type = dbt, transaction_num = 0, sem_key = 0, rwlock = 0, flags = 0\<rparr>
          ''PRAGMA foreign_keys = ON'' [] ret cs
        else ret = SORM_OK \<and> cs = [] \<and> db w' = d))"
proof -
  obtain p h where m: "i_malloc None sizeof_connection (hp w) = Some (p, h)"
    using i_malloc_room [OF assms(2,1)] by blast
  from libc.mal_fresh [OF assms(1) _ m] have p: "p \<noteq> 0" "blocks (hp w) p = None"
    "blocks h = (blocks (hp w))(p \<mapsto> \<lparr>owner = None, content = C_raw 40\<rparr>)"
    by (auto simp: sizeof_connection_def pool_of_def)
  obtain opened d where o: "sqlite3_open api path (db w) = (opened, d)" by fastforce
  let ?c = "\<lparr>db_type = dbt, transaction_num = 0, sem_key = 0, rwlock = 0, flags = 0\<rparr>"
  let ?w = "log_call (Call_open path opened) (w\<lparr>hp := h, db := d\<rparr>)"
  have "lock_ready ?c ?w" by (simp add: lock_ready_def flag_bits)
  then obtain e w' cs where r: "sorm_run_stmt api ?c ''PRAGMA foreign_keys = ON'' SORM_RWLOCK_WRITE ?w = Some (e, w')"
    "after_calls ?w cs w'" "stmt_protocol ?c ''PRAGMA foreign_keys = ON'' [] e cs" using run_stmt_after [of ?c ?w api] by blast
  show ?thesis
  proof (cases "opened = SQLITE_OK \<and> sorm_foreign_key_enabled fl")
    case True
    with m o r(1) have "sorm_open api (Some path) dbt key rw fl w = Some (e, if e = SORM_OK
           then Some (p, \<lparr>db_type = dbt, transaction_num = 0, sem_key = (if sorm_semaphore_enabled fl then key else 0),
                          rwlock = (if sorm_rwlock_enabled fl then rw else 0), flags = fl\<rparr>)
           else None, w')" by (simp add: sorm_open_def Let_def)
    with True o p r(2,3) show ?thesis
      by (intro exI [of _ opened] exI [of _ d] exI [of _ p] exI [of _ w']) (auto simp: after_calls_def same_locks_def log_call_def)
  next
    case False
    with m o p show ?thesis
      by (intro exI [of _ opened] exI [of _ d] exI [of _ p] exI [of _ ?w])
        (auto simp: sorm_open_def Let_def same_locks_def log_call_def)
  qed
qed

theorem open_connection_witness:
  "(\<exists>p w'. sorm_open script_api (Some ''a.db'') SORM_DB_SQLITE 7 5 SORM_ENABLE_SEMAPHORE (start_world [0]) =
      Some (SORM_OK, Some (p, \<lparr>db_type = SORM_DB_SQLITE, transaction_num = 0, sem_key = 7, rwlock = 0, flags = SORM_ENABLE_SEMAPHORE\<rparr>), w') \<and>
      calls w' = [Call_open ''a.db'' 0]) \<and>
   (\<exists>p w'. sorm_open script_api (Some ''a.db'') SORM_DB_SQLITE 7 5 SORM_ENABLE_SEMAPHORE (start_world [14]) = Some (SORM_DB_ERROR, None, w') \<and>
      calls w' = [Call_open ''a.db'' 14] \<and> blocks (hp w') p \<noteq> None)"
proof -
  have r: "sizeof_connection \<le> room (hp (start_world d))" for d :: "int list" by (simp add: room_start sizeof_connection_def)
  note t = open_connection [where api = script_api and path = "''a.db''" and dbt = SORM_DB_SQLITE
      and key = 7 and rw = 5 and fl = SORM_ENABLE_SEMAPHORE, OF heap_ok_start r]
  have "db (start_world d) = d" for d :: "int list" by (simp add: start_world_def)
  then show ?thesis using t [of "[0]"] t [of "[14]"]
    by (fastforce simp: script_api_def answer_def sqlite_codes SORM_ENABLE_SEMAPHORE_def SORM_ENABLE_FOREIGN_KEY_def
        SORM_ENABLE_RWLOCK_def sorm_foreign_key_enabled_def sorm_semaphore_enabled_def sorm_rwlock_enabled_def)
qed

end
