(* ===== verification/Sorm_Transaction.thy ===== *)
theory Sorm_Transaction
  imports Sorm_Stmt
begin

text \<open>
  Transactions (\<^verbatim>\<open>src/src/sorm.c\<close>, \<open>sorm_begin_transaction\<close> to \<open>sorm_rollback_transaction\<close>): a
  counter in the connection that nests them, and the statements the outermost ones run. These
  functions call \<open>sqlite3_prepare\<close> and \<open>sqlite3_step\<close> directly, once.
\<close>

section \<open>Operations\<close>

text \<open>
  The shared middle part: prepare, step once, finalize. \<open>None\<close> in the first component is a return
  before the counter and the lock are touched (\<open>SORM_DB_ERROR\<close>), else it is \<open>ret_val\<close>.
\<close>

definition trans_stmt :: "'db sqlite3_api \<Rightarrow> string \<Rightarrow> 'db world \<Rightarrow> sorm_error_t option \<times> 'db world" where
  "trans_stmt api sql_stmt w =
     (let (ret, stmt_handle, w) = sq_prepare api sql_stmt w in
      if ret \<noteq> SQLITE_OK then (None, w)
      else let (ret, u, w) = sq_step api stmt_handle w;
               ret_val = (if ret \<noteq> SQLITE_DONE then SORM_DB_ERROR else SORM_OK);
               (ret, w) = i_sqlite3_finalize api stmt_handle w in
           if ret \<noteq> SQLITE_OK then (None, w) else (Some ret_val, w))"

text \<open>\<open>transaction_num ++\<close>: the largest \<open>int\<close> has no successor.\<close>

definition int_inc :: "int \<Rightarrow> int option" where
  "int_inc n = (if n < 2 ^ 31 - 1 then Some (n + 1) else None)"

definition sorm_begin_transaction ::
  "'db sqlite3_api \<Rightarrow> sorm_connection_t option \<Rightarrow> string \<Rightarrow> rwlock_flag \<Rightarrow> 'db world \<Rightarrow>
   (sorm_error_t \<times> sorm_connection_t option \<times> 'db world) option" where
  "sorm_begin_transaction api conn sql_stmt rwlock_flag w =
     (case conn of
        None \<Rightarrow> Some (SORM_ARG_NULL, None, w)
      | Some cn \<Rightarrow>
          if transaction_num cn = 0
          then (let (r, w) = trans_stmt api sql_stmt w in
                case r of
                  None \<Rightarrow> Some (SORM_DB_ERROR, Some cn, w)
                | Some ret_val \<Rightarrow>
                    if ret_val = SORM_OK
                    then do { n \<leftarrow> int_inc (transaction_num cn);
                              Some (SORM_OK, Some (cn\<lparr>transaction_num := n\<rparr>), w) }
                    else do { w \<leftarrow> i_unlock cn w; Some (ret_val, Some cn, w) })
          else do { n \<leftarrow> int_inc (transaction_num cn); Some (SORM_OK, Some (cn\<lparr>transaction_num := n\<rparr>), w) })"

definition sorm_begin_write_transaction ::
  "'db sqlite3_api \<Rightarrow> sorm_connection_t option \<Rightarrow> 'db world \<Rightarrow>
   (sorm_error_t \<times> sorm_connection_t option \<times> 'db world) option" where
  "sorm_begin_write_transaction api conn w =
     sorm_begin_transaction api conn ''BEGIN IMMEDIATE TRANSACTION'' SORM_RWLOCK_WRITE w"

definition sorm_begin_read_transaction ::
  "'db sqlite3_api \<Rightarrow> sorm_connection_t option \<Rightarrow> 'db world \<Rightarrow>
   (sorm_error_t \<times> sorm_connection_t option \<times> 'db world) option" where
  "sorm_begin_read_transaction api conn w =
     sorm_begin_transaction api conn ''BEGIN DEFERRED TRANSACTION'' SORM_RWLOCK_READ w"

definition sorm_commit_transaction ::
  "'db sqlite3_api \<Rightarrow> sorm_connection_t option \<Rightarrow> 'db world \<Rightarrow>
   (sorm_error_t \<times> sorm_connection_t option \<times> 'db world) option" where
  "sorm_commit_transaction api conn w =
     (case conn of
        None \<Rightarrow> Some (SORM_ARG_NULL, None, w)
      | Some cn \<Rightarrow>
          if transaction_num cn = 0 then Some (SORM_OK, Some cn, w)
          else if transaction_num cn = 1
          then unless_error (stmt_printf sql_stmt_init ''COMMIT TRANSACTION'') (\<lambda>e. (e, Some cn, w)) (\<lambda>sql.
               let (r, w) = trans_stmt api (cstr (fst sql)) w in
               case r of
                 None \<Rightarrow> Some (SORM_DB_ERROR, Some cn, w)
               | Some ret_val \<Rightarrow>
                   let cn' = (if ret_val = SORM_OK
                              then cn\<lparr>transaction_num := transaction_num cn - 1\<rparr> else cn) in
                   do { w \<leftarrow> i_unlock cn' w; Some (ret_val, Some cn', w) })
          else Some (SORM_OK, Some (cn\<lparr>transaction_num := transaction_num cn - 1\<rparr>), w))"

definition sorm_rollback_transaction ::
  "'db sqlite3_api \<Rightarrow> sorm_connection_t option \<Rightarrow> 'db world \<Rightarrow>
   (sorm_error_t \<times> sorm_connection_t option \<times> 'db world) option" where
  "sorm_rollback_transaction api conn w =
     (case conn of
        None \<Rightarrow> Some (SORM_ARG_NULL, None, w)
      | Some cn \<Rightarrow>
          if transaction_num cn = 0 then Some (SORM_OK, Some cn, w)
          else if transaction_num cn = 1
          then unless_error (stmt_printf sql_stmt_init ''ROLLBACK TRANSACTION'') (\<lambda>e. (e, Some cn, w)) (\<lambda>sql.
               let (r, w) = trans_stmt api (cstr (fst sql)) w in
               case r of
                 None \<Rightarrow> Some (SORM_DB_ERROR, Some cn, w)
               | Some ret_val \<Rightarrow>
                   let cn' = cn\<lparr>transaction_num := transaction_num cn - 1\<rparr> in
                   do { w \<leftarrow> i_unlock cn' w; Some (ret_val, Some cn', w) })
          else Some (SORM_OK, Some (cn\<lparr>transaction_num := transaction_num cn - 1\<rparr>), w))"

section \<open>Sequences of operations\<close>

datatype trans_op = Begin_write | Begin_read | Commit | Rollback

fun trans_op_run ::
  "'db sqlite3_api \<Rightarrow> trans_op \<Rightarrow> sorm_connection_t \<Rightarrow> 'db world \<Rightarrow>
   (sorm_error_t \<times> sorm_connection_t option \<times> 'db world) option" where
  "trans_op_run api Begin_write cn w = sorm_begin_write_transaction api (Some cn) w"
| "trans_op_run api Begin_read cn w = sorm_begin_read_transaction api (Some cn) w"
| "trans_op_run api Commit cn w = sorm_commit_transaction api (Some cn) w"
| "trans_op_run api Rollback cn w = sorm_rollback_transaction api (Some cn) w"

text \<open>One call of the interface, whatever SQLite answers.\<close>

inductive trans_step ::
  "'db sqlite3_api \<Rightarrow> sorm_connection_t \<times> 'db world \<Rightarrow> sorm_connection_t \<times> 'db world \<Rightarrow> bool" for api where
  trans_op: "trans_op_run api op cn w = Some (ret, Some cn', w') \<Longrightarrow> trans_step api (cn, w) (cn', w')"

inductive_cases trans_stepE: "trans_step api s t"

text \<open>A sequence of calls: the results, the connection and the world at its end.\<close>

fun trans_run ::
  "'db sqlite3_api \<Rightarrow> trans_op list \<Rightarrow> sorm_connection_t \<Rightarrow> 'db world \<Rightarrow>
   (sorm_error_t list \<times> sorm_connection_t \<times> 'db world) option" where
  "trans_run api [] cn w = Some ([], cn, w)"
| "trans_run api (op # ops) cn w =
     do { (ret, c, w) \<leftarrow> trans_op_run api op cn w;
          cn \<leftarrow> c;
          (rets, cn, w) \<leftarrow> trans_run api ops cn w;
          Some (ret # rets, cn, w) }"

text \<open>How an operation moves the nesting depth, and sequences that stay at depth \<open>d\<close> or deeper.\<close>

fun nests :: "nat \<Rightarrow> trans_op list \<Rightarrow> bool" where
  "nests d [] \<longleftrightarrow> d = 0"
| "nests d (op # ops) \<longleftrightarrow>
     (if op = Begin_write \<or> op = Begin_read then nests (Suc d) ops
      else 0 < d \<and> nests (d - 1) ops)"

section \<open>The counter\<close>

text \<open>The flags and locks of a connection never change.\<close>

lemma trans_op_conn:
  assumes "trans_op_run api op cn w = Some (ret, Some cn', w')"
  shows "cn' = cn\<lparr>transaction_num := transaction_num cn'\<rparr> \<and>
    (0 \<le> transaction_num cn \<and> transaction_num cn < 2 ^ 31 \<longrightarrow> 0 \<le> transaction_num cn' \<and> transaction_num cn' < 2 ^ 31) \<and>
    \<bar>transaction_num cn' - transaction_num cn\<bar> \<le> 1"
  using assms
  by (cases op) (auto simp: sorm_begin_write_transaction_def sorm_begin_read_transaction_def
      sorm_begin_transaction_def sorm_commit_transaction_def sorm_rollback_transaction_def int_inc_def
      unless_error_def bind_Some_iff Let_def split: if_splits option.splits prod.splits)

lemma inner_ops:
  assumes "0 < d" and "int d < 2 ^ 31 - 1" and "transaction_num cn = int d"
  shows "trans_op_run api Begin_write cn w = Some (SORM_OK, Some (cn\<lparr>transaction_num := int (Suc d)\<rparr>), w)"
    and "trans_op_run api Begin_read cn w = Some (SORM_OK, Some (cn\<lparr>transaction_num := int (Suc d)\<rparr>), w)"
    and "1 < d \<Longrightarrow> trans_op_run api Commit cn w = Some (SORM_OK, Some (cn\<lparr>transaction_num := int (d - 1)\<rparr>), w)"
    and "1 < d \<Longrightarrow> trans_op_run api Rollback cn w = Some (SORM_OK, Some (cn\<lparr>transaction_num := int (d - 1)\<rparr>), w)"
  using assms by (simp_all add: sorm_begin_write_transaction_def sorm_begin_read_transaction_def
      sorm_begin_transaction_def sorm_commit_transaction_def sorm_rollback_transaction_def of_nat_diff int_inc_def)

lemma inner_run:
  assumes "nests d ops" and "transaction_num cn = int (Suc d)" and "int d + int (length ops) < 2 ^ 31 - 2"
  shows "trans_run api ops cn w = Some (replicate (length ops) SORM_OK, cn\<lparr>transaction_num := 1\<rparr>, w)"
  using assms
proof (induction d ops arbitrary: cn rule: nests.induct)
  case (1 d)
  then show ?case by (cases cn) simp
next
  case (2 d op ops)
  show ?case
  proof (cases "op = Begin_write \<or> op = Begin_read")
    case True
    then have "trans_op_run api op cn w = Some (SORM_OK, Some (cn\<lparr>transaction_num := int (Suc (Suc d))\<rparr>), w)"
      using inner_ops(1,2) [of "Suc d" cn api w] "2.prems"(2,3) by auto
    with 2 True show ?thesis by simp
  next
    case False
    then have d: "0 < d" "op = Commit \<or> op = Rollback" using "2.prems"(1) by (cases op; simp)+
    then have "trans_op_run api op cn w = Some (SORM_OK, Some (cn\<lparr>transaction_num := int (Suc (d - 1))\<rparr>), w)"
      using inner_ops(3,4) [of "Suc d" cn api w] "2.prems"(2,3) by auto
    with 2 False d show ?thesis by simp
  qed
qed


section \<open>The outermost transaction\<close>

text \<open>SQLite answers every call of a run with success.\<close>

definition all_done :: "'db sqlite3_api \<Rightarrow> bool" where
  "all_done api \<longleftrightarrow> (\<forall>sql d. fst (sqlite3_prepare api sql d) = SQLITE_OK) \<and>
     (\<forall>st d. fst (sqlite3_step api st d) = SQLITE_DONE \<and> fst (sqlite3_finalize api st d) = SQLITE_OK)"

definition trans_calls :: "string \<Rightarrow> stmt \<Rightarrow> call list" where
  "trans_calls sql st = [Call_prepare sql SQLITE_OK st, Call_step st SQLITE_DONE, Call_finalize st SQLITE_OK]"

lemma trans_stmt_done:
  assumes "all_done api" and "length sql \<le> 1023"
  shows "\<exists>st w'. trans_stmt api sql w = (Some SORM_OK, w') \<and> hp w' = hp w \<and> sems w' = sems w \<and>
    rwlocks w' = rwlocks w \<and> calls w' = calls w @ trans_calls sql st"
proof -
  have t: "take (nat SQL_STMT_MAX_LEN) sql = sql" using assms(2) by (simp add: SQL_STMT_MAX_LEN_def)
  obtain st d1 where p: "sqlite3_prepare api sql (db w) = (SQLITE_OK, st, d1)"
    using assms(1) unfolding all_done_def by (metis fst_conv prod_cases3)
  obtain d2 where s: "sqlite3_step api st d1 = (SQLITE_DONE, d2)"
    using assms(1) unfolding all_done_def by (metis fst_conv surj_pair)
  obtain d3 where f: "sqlite3_finalize api st d2 = (SQLITE_OK, d3)"
    using assms(1) unfolding all_done_def by (metis fst_conv surj_pair)
  show ?thesis
    by (simp add: trans_stmt_def sq_prepare_def sq_step_def i_sqlite3_finalize_def busy_retry.simps
        sq_finalize_def t p s f trans_calls_def sqlite_codes)
qed

definition begin_text :: "trans_op \<Rightarrow> string" where
  "begin_text op = (if op = Begin_write then ''BEGIN IMMEDIATE TRANSACTION'' else ''BEGIN DEFERRED TRANSACTION'')"

definition end_text :: "trans_op \<Rightarrow> string" where
  "end_text op = (if op = Commit then ''COMMIT TRANSACTION'' else ''ROLLBACK TRANSACTION'')"

lemma outer_begin:
  assumes "all_done api" and "transaction_num cn = 0" and "op = Begin_write \<or> op = Begin_read"
  shows "\<exists>st w'. trans_op_run api op cn w = Some (SORM_OK, Some (cn\<lparr>transaction_num := 1\<rparr>), w') \<and>
    hp w' = hp w \<and> sems w' = sems w \<and> rwlocks w' = rwlocks w \<and> calls w' = calls w @ trans_calls (begin_text op) st"
proof -
  have "length (begin_text op) \<le> 1023" by (simp add: begin_text_def)
  from trans_stmt_done [OF assms(1) this, of w] assms(2,3) show ?thesis
    by (auto simp: sorm_begin_write_transaction_def sorm_begin_read_transaction_def sorm_begin_transaction_def
        begin_text_def int_inc_def)
qed

lemma outer_end:
  assumes "all_done api" and "transaction_num cn = 1" and "op = Commit \<or> op = Rollback"
  shows "\<exists>st w1. hp w1 = hp w \<and> sems w1 = sems w \<and> rwlocks w1 = rwlocks w \<and>
    calls w1 = calls w @ trans_calls (end_text op) st \<and>
    trans_op_run api op cn w =
      do { w \<leftarrow> i_unlock (cn\<lparr>transaction_num := 0\<rparr>) w1; Some (SORM_OK, Some (cn\<lparr>transaction_num := 0\<rparr>), w) }"
proof -
  have l: "length (end_text op) \<le> 1023" and n: "no_nul (end_text op)" by (simp_all add: end_text_def)
  have c: "cstr (fst (sql_at (end_text op))) = end_text op" using n by (rule cstr_sql_at)
  from trans_stmt_done [OF assms(1) l, of w] obtain st w1 where
    t: "trans_stmt api (end_text op) w = (Some SORM_OK, w1)" and w1: "hp w1 = hp w" "sems w1 = sems w"
      "rwlocks w1 = rwlocks w" "calls w1 = calls w @ trans_calls (end_text op) st" by blast
  have "trans_op_run api op cn w =
      do { w \<leftarrow> i_unlock (cn\<lparr>transaction_num := 0\<rparr>) w1; Some (SORM_OK, Some (cn\<lparr>transaction_num := 0\<rparr>), w) }"
    using assms(2,3) t c stmt_printf_init [OF l]
    by (auto simp: sorm_commit_transaction_def sorm_rollback_transaction_def unless_error_ok end_text_def Let_def)
  with w1 show ?thesis by blast
qed

lemma trans_run_append:
  "trans_run api (xs @ ys) cn w =
     do { (rs, cn, w) \<leftarrow> trans_run api xs cn w; (rs', cn, w) \<leftarrow> trans_run api ys cn w; Some (rs @ rs', cn, w) }"
proof (induction xs arbitrary: cn w)
  case Nil
  show ?case by (cases "trans_run api ys cn w") auto
next
  case (Cons x xs)
  show ?case
  proof (cases "trans_op_run api x cn w")
    case None
    then show ?thesis by simp
  next
    case (Some t)
    obtain r c v where t: "t = (r, c, v)" by (metis prod_cases3)
    show ?thesis
    proof (cases c)
      case None
      with Some t show ?thesis by simp
    next
      case c: (Some cn')
      show ?thesis using Some t c Cons.IH [of cn' v]
        by (cases "trans_run api xs cn' v") (auto simp: Option.bind_assoc case_prod_unfold)
    qed
  qed
qed

lemma outer_run:
  assumes "all_done api" and "transaction_num cn = 0" and "nests 0 mid"
    and "op1 = Begin_write \<or> op1 = Begin_read" and "op2 = Commit \<or> op2 = Rollback" and "int (length mid) < 2 ^ 31 - 2"
  shows "\<exists>st1 st2 w1. hp w1 = hp w \<and> sems w1 = sems w \<and> rwlocks w1 = rwlocks w \<and>
    calls w1 = calls w @ trans_calls (begin_text op1) st1 @ trans_calls (end_text op2) st2 \<and>
    trans_run api (op1 # mid @ [op2]) cn w =
      do { w \<leftarrow> i_unlock cn w1; Some (replicate (length mid + 2) SORM_OK, cn, w) }"
proof -
  let ?c1 = "cn\<lparr>transaction_num := 1\<rparr>"
  have cn: "cn\<lparr>transaction_num := 0\<rparr> = cn" using assms(2) by (cases cn) simp
  obtain st1 v where b: "trans_op_run api op1 cn w = Some (SORM_OK, Some ?c1, v)"
    and v: "hp v = hp w" "sems v = sems w" "rwlocks v = rwlocks w" "calls v = calls w @ trans_calls (begin_text op1) st1"
    using outer_begin [OF assms(1,2,4)] by blast
  have m: "trans_run api mid ?c1 v = Some (replicate (length mid) SORM_OK, ?c1, v)"
    using inner_run [OF assms(3), of ?c1 api v] assms(6) by simp
  obtain st2 w1 where e: "trans_op_run api op2 ?c1 v = do { w \<leftarrow> i_unlock cn w1; Some (SORM_OK, Some cn, w) }"
    and w1: "hp w1 = hp v" "sems w1 = sems v" "rwlocks w1 = rwlocks v" "calls w1 = calls v @ trans_calls (end_text op2) st2"
    using outer_end [OF assms(1) _ assms(5), of ?c1 v] cn by auto
  have "trans_run api (op1 # mid @ [op2]) cn w = do { w \<leftarrow> i_unlock cn w1; Some (replicate (length mid + 2) SORM_OK, cn, w) }"
    using b m e by (cases "i_unlock cn w1") (auto simp: trans_run_append replicate_append_same)
  with v w1 show ?thesis by (intro exI [of _ st1] exI [of _ st2] exI [of _ w1]) simp
qed

section \<open>Properties\<close>

text \<open>
  C22: The nesting counter. Whatever sequence of transaction calls is made and whatever SQLite
  answers, nothing of the connection but the counter changes and the counter stays between \<open>0\<close> and the
  largest \<open>int\<close>.
\<close>

theorem trans_counter_invariant:
  assumes "(trans_step api)\<^sup>*\<^sup>* (cn, w) (cn', w')" and "0 \<le> transaction_num cn" and "transaction_num cn < 2 ^ 31"
  shows "0 \<le> transaction_num cn' \<and> transaction_num cn' < 2 ^ 31 \<and> cn' = cn\<lparr>transaction_num := transaction_num cn'\<rparr>"
  using assms(1)
proof (induction "(cn', w')" arbitrary: cn' w' rule: rtranclp_induct)
  case base
  then show ?case using assms(2,3) by simp
next
  case (step t)
  obtain cn1 w1 where t: "t = (cn1, w1)" by fastforce
  from step.hyps(2) t obtain op ret where "trans_op_run api op cn1 w1 = Some (ret, Some cn', w')"
    by (auto elim: trans_stepE)
  from trans_op_conn [OF this] step.hyps(3) [OF t] show ?case
    by (cases cn, cases cn1, cases cn') auto
qed

text \<open>
  C23: Nested transactions run one transaction. On a connection without locks and with SQLite answering
  success, a begin, any well-nested sequence of begins, commits and rollbacks, and the matching end
  all return \<open>SORM_OK\<close> and make exactly the calls of the outer begin and the outer end: the inner
  calls only count, and an inner rollback undoes nothing. The sequence is short enough for the counter.
\<close>

theorem outermost_transaction_only:
  assumes "all_done api" and "transaction_num cn = 0" and "nests 0 mid"
    and "op1 = Begin_write \<or> op1 = Begin_read" and "op2 = Commit \<or> op2 = Rollback"
    and "\<not> sorm_semaphore_enabled (flags cn)" and "\<not> sorm_rwlock_enabled (flags cn)" and "int (length mid) < 2 ^ 31 - 2"
  shows "\<exists>st1 st2 w'. trans_run api (op1 # mid @ [op2]) cn w = Some (replicate (length mid + 2) SORM_OK, cn, w') \<and>
    calls w' = calls w @ trans_calls (begin_text op1) st1 @ trans_calls (end_text op2) st2"
proof -
  obtain st1 st2 w1 where o: "calls w1 = calls w @ trans_calls (begin_text op1) st1 @ trans_calls (end_text op2) st2"
    "trans_run api (op1 # mid @ [op2]) cn w =
      do { w \<leftarrow> i_unlock cn w1; Some (replicate (length mid + 2) SORM_OK, cn, w) }"
    using outer_run [OF assms(1-5,8), of w] by blast
  then show ?thesis using assms(6,7) by (auto simp: i_unlock_def)
qed

text \<open>
  C40: Transactions and the lock. Beginning a transaction takes no lock, ending it releases one. With a
  semaphore every transaction leaves one unit more than it found, so from then on two statements can
  run at a time; with a read-write lock that is free the end of the transaction unlocks a lock nobody
  holds, which is undefined.
\<close>

theorem transaction_lock_imbalance:
  assumes "all_done api" and "transaction_num cn = 0" and "nests 0 mid"
    and "op1 = Begin_write \<or> op1 = Begin_read" and "op2 = Commit \<or> op2 = Rollback"
    and "lock_ready cn w" and "sem_count (sems w) (sem_key cn) < SEMVMX"
    and "sorm_semaphore_enabled (flags cn) \<or> sorm_rwlock_enabled (flags cn)" and "int (length mid) < 2 ^ 31 - 2"
  shows "if sorm_semaphore_enabled (flags cn)
    then \<exists>rets w'. trans_run api (op1 # mid @ [op2]) cn w = Some (rets, cn, w') \<and>
      sem_count (sems w') (sem_key cn) = sem_count (sems w) (sem_key cn) + 1
    else trans_run api (op1 # mid @ [op2]) cn w = None"
proof -
  obtain w1 where o: "sems w1 = sems w" "rwlocks w1 = rwlocks w" "trans_run api (op1 # mid @ [op2]) cn w =
      do { w \<leftarrow> i_unlock cn w1; Some (replicate (length mid + 2) SORM_OK, cn, w) }"
    using outer_run [OF assms(1-5,9), of w] by blast
  show ?thesis
  proof (cases "sorm_semaphore_enabled (flags cn)")
    case True
    with assms(6) have "sem_usable (sems w) (sem_key cn)" "0 \<le> sem_count (sems w) (sem_key cn)"
      by (simp_all add: lock_ready_def)
    from sem_v_gives [OF this assms(7)] o True show ?thesis by (auto simp: i_unlock_def)
  next
    case False
    with assms(6,8) o show ?thesis by (simp add: i_unlock_def lock_ready_def pthread_rwlock_unlock_def)
  qed
qed

definition done_api :: "int list sqlite3_api" where
  "done_api = script_api\<lparr>sqlite3_prepare := \<lambda>sql d. (SQLITE_OK, 1, d), sqlite3_step := \<lambda>st d. (SQLITE_DONE, d),
     sqlite3_finalize := \<lambda>st d. (SQLITE_OK, d)\<rparr>"

lemma all_done_api: "all_done done_api"
  by (simp add: all_done_def done_api_def)

theorem trans_counter_invariant_witness:
  "\<exists>cn' w'. (trans_step done_api)\<^sup>*\<^sup>* (plain_conn, start_world []) (cn', w') \<and> transaction_num cn' = 1 \<and>
     transaction_num cn' < 2 ^ 31 \<and> cn' = plain_conn\<lparr>transaction_num := transaction_num cn'\<rparr>"
proof -
  obtain st w' where "trans_op_run done_api Begin_write plain_conn (start_world []) =
      Some (SORM_OK, Some (plain_conn\<lparr>transaction_num := 1\<rparr>), w')"
    using outer_begin [OF all_done_api, of plain_conn Begin_write "start_world []"] by (auto simp: plain_conn_def)
  then have r: "(trans_step done_api)\<^sup>*\<^sup>* (plain_conn, start_world []) (plain_conn\<lparr>transaction_num := 1\<rparr>, w')"
    by (intro r_into_rtranclp trans_step.intros)
  from trans_counter_invariant [OF r] have "transaction_num (plain_conn\<lparr>transaction_num := 1\<rparr>) < 2 ^ 31 \<and>
      plain_conn\<lparr>transaction_num := 1\<rparr> = plain_conn\<lparr>transaction_num := transaction_num (plain_conn\<lparr>transaction_num := 1\<rparr>)\<rparr>"
    by (simp add: plain_conn_def)
  then show ?thesis using r
    by (intro exI [of _ "plain_conn\<lparr>transaction_num := 1\<rparr>"] exI [of _ w']) simp
qed

theorem outermost_transaction_only_witness:
  "\<exists>st1 st2 w'. trans_run done_api [Begin_write, Begin_read, Rollback, Commit] plain_conn (start_world [])
      = Some (replicate 4 SORM_OK, plain_conn, w') \<and>
    calls w' = trans_calls ''BEGIN IMMEDIATE TRANSACTION'' st1 @ trans_calls ''COMMIT TRANSACTION'' st2"
  using outermost_transaction_only [OF all_done_api, of plain_conn "[Begin_read, Rollback]" Begin_write Commit
      "start_world []"]
  by (simp add: plain_conn_def flag_bits begin_text_def end_text_def numeral_eq_Suc)

theorem transaction_lock_imbalance_witness:
  "\<exists>rets w'. trans_run done_api [Begin_write, Commit] sem_conn (start_world []) = Some (rets, sem_conn, w') \<and>
    sem_count (sems w') 1639 = 2"
proof -
  have c: "sem_count (sems (start_world ([] :: int list))) 1639 = 1"
    by (simp add: start_world_def sem_count_def)
  from transaction_lock_imbalance [OF all_done_api, of sem_conn "[]" Begin_write Commit "start_world []"]
  show ?thesis by (simp add: c SEMVMX_def del: trans_run.simps)
qed

end
