(* ===== verification/Sorm_Columns.thy ===== *)
theory Sorm_Columns
  imports Sorm_Strings
begin

text \<open>
  Column lists of a \<open>SELECT\<close> (\<^verbatim>\<open>src/src/sorm.c\<close>, \<open>_column_name_to_index_in_tables\<close> and
  \<open>_columns_name_to_select_columns\<close>): a text such as \<open>device.*, drive\<close> is cut at the commas, each name
  is looked up in the tables, and for every column of every table the position of its value in
  SQLite's result row is computed. The specification is the list of result columns that SQL gives
  for the same text.
\<close>

section \<open>One column name\<close>

text \<open>The loop over the columns of a table; the inner \<open>None\<close> is \<open>not found\<close>.\<close>

fun find_column :: "sorm_table_descriptor_t \<Rightarrow> string \<Rightarrow> nat list \<Rightarrow> nat option option" where
  "find_column td name [] = Some None"
| "find_column td name (j # js) =
     do { c \<leftarrow> column_at td (int j);
          if c_name c = name then Some (Some j) else find_column td name js }"

fun find_table :: "sorm_table_descriptor_t list \<Rightarrow> string \<Rightarrow> nat \<Rightarrow> nat option" where
  "find_table [] name i = None"
| "find_table (td # tds) name i = (if name = t_name td then Some i else find_table tds name (Suc i))"

fun find_in_tables ::
  "sorm_table_descriptor_t list \<Rightarrow> string \<Rightarrow> nat \<Rightarrow> (nat \<times> nat) option option" where
  "find_in_tables [] name i = Some None"
| "find_in_tables (td # tds) name i =
     do { r \<leftarrow> find_column td name (column_indexes td);
          case r of Some j \<Rightarrow> Some (Some (i, j)) | None \<Rightarrow> find_in_tables tds name (Suc i) }"

text \<open>
  \<open>_column_name_to_index_in_tables\<close>: the error code, \<open>*table_index\<close> and \<open>*column_index\<close>. A column
  that no table has runs into \<open>assert(0)\<close>.
\<close>

definition i_column_name_to_index_in_tables ::
  "sorm_table_descriptor_t list \<Rightarrow> string \<Rightarrow> (sorm_error_t \<times> int \<times> int) option" where
  "i_column_name_to_index_in_tables tables_desc column_name =
     (let has_dot = TABLE_COLUMN_DELIMITER \<in> set column_name;
          tname = takeWhile (\<lambda>c. c \<noteq> TABLE_COLUMN_DELIMITER) column_name;
          cname = (if has_dot then tl (dropWhile (\<lambda>c. c \<noteq> TABLE_COLUMN_DELIMITER) column_name)
                   else column_name);
          table_index = (if has_dot then map_option int (find_table tables_desc tname 0)
                         else Some (-1)) in
      case table_index of
        None \<Rightarrow> Some (SORM_INVALID_COLUMN_NAME, -1, 0)
      | Some table_index \<Rightarrow>
          if cname = ALL_COLUMNS
          then Some (SORM_OK, if table_index = -1 then ALL_INDEXES else table_index, ALL_INDEXES)
          else if table_index = -1
          then do { r \<leftarrow> find_in_tables tables_desc cname 0;
                    case r of Some (i, j) \<Rightarrow> Some (SORM_OK, int i, int j) | None \<Rightarrow> None }
          else do { td \<leftarrow> nth_opt tables_desc table_index;
                    r \<leftarrow> find_column td cname (column_indexes td);
                    case r of Some j \<Rightarrow> Some (SORM_OK, table_index, int j) | None \<Rightarrow> None })"

section \<open>A list of column names\<close>

record select_columns_t =
  sel_columns_num :: int
  indexes_in_result :: "int list"

text \<open>\<open>for (i ...) { indexes_in_result[i] = result_columns_num; result_columns_num ++; }\<close>\<close>

fun number_columns :: "nat list \<Rightarrow> int list \<times> int \<Rightarrow> int list \<times> int" where
  "number_columns [] s = s"
| "number_columns (i # is) (xs, r) = number_columns is (xs[i := r], r + 1)"

definition select_table ::
  "sorm_table_descriptor_t \<Rightarrow> nat \<Rightarrow> select_columns_t list \<times> int \<Rightarrow> select_columns_t list \<times> int" where
  "select_table td t s =
     (let (sc, r) = s;
          (xs, r) = number_columns (column_indexes td) (indexes_in_result (sc ! t), r) in
      (sc[t := \<lparr>sel_columns_num = columns_num td, indexes_in_result = xs\<rparr>], r))"

fun select_all_tables ::
  "sorm_table_descriptor_t list \<Rightarrow> nat \<Rightarrow> select_columns_t list \<times> int \<Rightarrow>
   select_columns_t list \<times> int" where
  "select_all_tables [] t s = s"
| "select_all_tables (td # tds) t s = select_all_tables tds (Suc t) (select_table td t s)"

definition select_column ::
  "nat \<Rightarrow> nat \<Rightarrow> select_columns_t list \<times> int \<Rightarrow> select_columns_t list \<times> int" where
  "select_column t c s =
     (let (sc, r) = s; e = sc ! t in
      (if indexes_in_result e ! c = NO_INDEXES_IN_RESULT
       then sc[t := e\<lparr>sel_columns_num := sel_columns_num e + 1,
                      indexes_in_result := (indexes_in_result e)[c := r]\<rparr>]
       else sc, r + 1))"

text \<open>What the body of the loop does with the answer for one name.\<close>

definition select_answer ::
  "sorm_table_descriptor_t list \<Rightarrow> sorm_error_t \<times> int \<times> int \<Rightarrow>
   select_columns_t list \<times> int \<Rightarrow> select_columns_t list \<times> int" where
  "select_answer tables_desc a s =
     (let (ret, table_index, column_index) = a in
      if ret = SORM_OK
      then if column_index = ALL_INDEXES
           then if table_index = ALL_INDEXES then select_all_tables tables_desc 0 s
                else select_table (tables_desc ! nat table_index) (nat table_index) s
           else select_column (nat table_index) (nat column_index) s
      else s)"

function strchr_from :: "char list \<Rightarrow> int \<Rightarrow> char \<Rightarrow> int option option" where
  "strchr_from b p c =
     (case nth_opt b p of None \<Rightarrow> None
      | Some d \<Rightarrow> if d = c then Some (Some p) else if d = NUL then Some None
                 else strchr_from b (p + 1) c)"
  by pat_completeness auto
termination
  by (relation "measure (\<lambda>(b, p, c). nat (int (length b) - p))")
    (auto simp: nth_opt_def split: if_splits)

declare strchr_from.simps [simp del]

lemma strchr_from_bounds:
  "strchr_from b p c = Some (Some q) \<Longrightarrow> p \<le> q \<and> 0 \<le> p \<and> q < int (length b)"
proof (induction b p c rule: strchr_from.induct)
  case (1 b p c)
  from "1.prems" show ?case
    by (subst (asm) strchr_from.simps)
      (auto split: option.splits if_splits dest: nth_opt_SomeD "1.IH")
qed

lemma trim_tail_length: "trim_tail b e = Some b' \<Longrightarrow> length b' = length b"
proof (induction b e rule: trim_tail.induct)
  case (1 b e)
  from "1.prems" show ?case
    by (subst (asm) trim_tail.simps) (auto split: option.splits if_splits dest: "1.IH")
qed

lemma trim_length: "trim b p e = Some (b', p') \<Longrightarrow> length b' = length b"
  by (auto simp: trim_def bind_Some_iff dest: trim_tail_length)

text \<open>
  The loop over the copy \<open>b\<close> of \<open>columns_name\<close>; \<open>p\<close> is the index \<open>column_name\<close> points to. The callee
  gets the text at the trimmed start; it cuts it at the dot, inside the segment, which is not read
  again.
\<close>

function columns_name_loop ::
  "sorm_table_descriptor_t list \<Rightarrow> char list \<Rightarrow> int \<Rightarrow> select_columns_t list \<times> int \<Rightarrow>
   (select_columns_t list \<times> int) option" where
  "columns_name_loop tds b p s =
     (case strchr_from b p COLUMN_NAMES_DELIMITER of
        None \<Rightarrow> None
      | Some delimiter \<Rightarrow>
          (let b1 = (case delimiter of Some q \<Rightarrow> b[nat q := NUL] | None \<Rightarrow> b) in
           case trim b1 p delimiter of
             None \<Rightarrow> None
           | Some (b2, p') \<Rightarrow>
               (case i_column_name_to_index_in_tables tds
                       (takeWhile (\<lambda>c. c \<noteq> NUL) (drop (nat p') b2)) of
                  None \<Rightarrow> None
                | Some a \<Rightarrow>
                    (let s = select_answer tds a s in
                     case delimiter of
                       Some q \<Rightarrow> columns_name_loop tds b2 (q + 1) s
                     | None \<Rightarrow> Some s))))"
  by pat_completeness auto
termination
proof (relation "measure (\<lambda>(tds, b, p, s). nat (int (length b) - p))", goal_cases)
  case 1
  show ?case by simp
next
  case (2 tds b p s dl x y b2 p' a z q)
  then have "p \<le> q \<and> 0 \<le> p \<and> q < int (length b)" by (auto dest: strchr_from_bounds)
  moreover have "length b2 = length b" using 2 by (auto dest!: trim_length)
  ultimately show ?case by auto
qed

declare columns_name_loop.simps [simp del]

definition init_select_columns :: "sorm_table_descriptor_t list \<Rightarrow> select_columns_t list" where
  "init_select_columns tables_desc =
     map (\<lambda>td. \<lparr>sel_columns_num = 0,
                indexes_in_result = replicate (nat (columns_num td)) NO_INDEXES_IN_RESULT\<rparr>) tables_desc"

definition i_columns_name_to_select_columns ::
  "sorm_table_descriptor_t list \<Rightarrow> string \<Rightarrow> heap \<Rightarrow>
   (sorm_error_t \<times> select_columns_t list \<times> heap) option" where
  "i_columns_name_to_select_columns tables_desc columns_name h =
     do { (copy, h) \<leftarrow> i_strdup None (Some columns_name) h;
          b \<leftarrow> (case load h copy of Some (C_bytes cs) \<Rightarrow> Some cs | _ \<Rightarrow> None);
          (sc, result_columns_num) \<leftarrow>
            columns_name_loop tables_desc b 0 (init_select_columns tables_desc, 0);
          h \<leftarrow> i_free None copy h;
          Some (SORM_OK, sc, h) }"

section \<open>What a column list means\<close>

text \<open>The result columns SQL gives for one name, as pairs of a table and a column of it.\<close>

definition table_columns :: "sorm_table_descriptor_t list \<Rightarrow> nat \<Rightarrow> (nat \<times> nat) list" where
  "table_columns tds i = map (Pair i) [0..<length (columns (tds ! i))]"

definition all_columns :: "sorm_table_descriptor_t list \<Rightarrow> (nat \<times> nat) list" where
  "all_columns tds = concat (map (table_columns tds) [0..<length tds])"

definition column_named :: "sorm_table_descriptor_t list \<Rightarrow> string \<Rightarrow> nat \<times> nat \<Rightarrow> bool" where
  "column_named tds n p \<longleftrightarrow> c_name (columns (tds ! fst p) ! snd p) = n"

text \<open>
  \<open>t.*\<close> and \<open>*\<close> are all columns of the table and of all tables, \<open>t.c\<close> is the column \<open>c\<close> of \<open>t\<close>, \<open>c\<close> the
  first column of that name. A table that is not there selects nothing; \<open>None\<close> is a column that is
  not there.
\<close>

definition expand_name :: "sorm_table_descriptor_t list \<Rightarrow> string \<Rightarrow> (nat \<times> nat) list option" where
  "expand_name tds n =
     (if CHR ''.'' \<in> set n
      then let t = takeWhile (\<lambda>c. c \<noteq> CHR ''.'') n; c = tl (dropWhile (\<lambda>c. c \<noteq> CHR ''.'') n) in
           case find (\<lambda>i. t = t_name (tds ! i)) [0..<length tds] of
             None \<Rightarrow> Some []
           | Some i \<Rightarrow>
               if c = ''*'' then Some (table_columns tds i)
               else map_option (\<lambda>p. [p]) (find (column_named tds c) (table_columns tds i))
      else if n = ''*'' then Some (all_columns tds)
      else map_option (\<lambda>p. [p]) (find (column_named tds n) (all_columns tds)))"

function split_names :: "string \<Rightarrow> string list" where
  "split_names t =
     (case dropWhile (\<lambda>c. c \<noteq> CHR '','') t of
        [] \<Rightarrow> [takeWhile (\<lambda>c. c \<noteq> CHR '','') t]
      | _ # r \<Rightarrow> takeWhile (\<lambda>c. c \<noteq> CHR '','') t # split_names r)"
  by pat_completeness auto
termination
proof (relation "measure length", goal_cases)
  case (2 t c r)
  then have "length (dropWhile (\<lambda>c. c \<noteq> CHR '','') t) = Suc (length r)" by simp
  then show ?case using length_dropWhile_le [of "\<lambda>c. c \<noteq> CHR '',''" t] by simp
qed simp

declare split_names.simps [simp del]

fun expand_names :: "sorm_table_descriptor_t list \<Rightarrow> string list \<Rightarrow> (nat \<times> nat) list option" where
  "expand_names tds [] = Some []"
| "expand_names tds (n # ns) =
     do { r \<leftarrow> expand_name tds n; rs \<leftarrow> expand_names tds ns; Some (r @ rs) }"

definition result_columns :: "sorm_table_descriptor_t list \<Rightarrow> string \<Rightarrow> (nat \<times> nat) list option" where
  "result_columns tds columns_name = expand_names tds (map strip (split_names columns_name))"

section \<open>One name\<close>

lemma find_column_eq:
  assumes "wf_table td" and "set js \<subseteq> {..< length (columns td)}"
  shows "find_column td n js = Some (find (\<lambda>j. c_name (columns td ! j) = n) js)"
  using assms(2) by (induction js) (auto simp: wf_table_column [OF assms(1)])

lemma find_table_eq:
  "i \<le> length tds \<Longrightarrow> find_table (drop i tds) n i = find (\<lambda>j. n = t_name (tds ! j)) [i..<length tds]"
proof (induction "length tds - i" arbitrary: i)
  case 0
  then show ?case by simp
next
  case (Suc k)
  then have i: "i < length tds" by simp
  have "find_table (drop (Suc i) tds) n (Suc i) = find (\<lambda>j. n = t_name (tds ! j)) [Suc i..<length tds]"
    using Suc by (intro Suc.hyps(1)) auto
  with i show ?case by (simp add: Cons_nth_drop_Suc [symmetric] upt_conv_Cons)
qed

lemma find_in_tables_eq:
  assumes "\<And>td. td \<in> set tds \<Longrightarrow> wf_table td"
  shows "i \<le> length tds \<Longrightarrow> find_in_tables (drop i tds) n i
    = Some (find (column_named tds n) (concat (map (table_columns tds) [i..<length tds])))"
proof (induction "length tds - i" arbitrary: i)
  case 0
  then show ?case by simp
next
  case (Suc k)
  then have i: "i < length tds" by simp
  let ?td = "tds ! i"
  have IH: "find_in_tables (drop (Suc i) tds) n (Suc i)
      = Some (find (column_named tds n) (concat (map (table_columns tds) [Suc i..<length tds])))"
    using Suc by (intro Suc.hyps(1)) auto
  have wf: "wf_table ?td" using assms i by simp
  have "find_column ?td n (column_indexes ?td)
      = Some (find (\<lambda>j. c_name (columns ?td ! j) = n) [0..<length (columns ?td)])"
    unfolding wf_table_indexes [OF wf] by (rule find_column_eq [OF wf]) auto
  moreover have "find (column_named tds n) (table_columns tds i)
      = map_option (Pair i) (find (\<lambda>j. c_name (columns ?td ! j) = n) [0..<length (columns ?td)])"
    by (simp add: table_columns_def find_map column_named_def comp_def)
  ultimately show ?case
    using i IH by (auto simp: Cons_nth_drop_Suc [symmetric] upt_conv_Cons find_append split: option.splits)
qed

text \<open>The answer for one name says the same as the specification.\<close>

definition answer_columns :: "sorm_table_descriptor_t list \<Rightarrow> sorm_error_t \<times> int \<times> int \<Rightarrow> (nat \<times> nat) list" where
  "answer_columns tds a =
     (let (ret, t, c) = a in
      if ret \<noteq> SORM_OK then []
      else if c = ALL_INDEXES then (if t = ALL_INDEXES then all_columns tds else table_columns tds (nat t))
      else [(nat t, nat c)])"

lemma find_SomeD: "find P xs = Some x \<Longrightarrow> x \<in> set xs \<and> P x"
  by (auto simp: find_Some_iff)

lemma resolve_name:
  assumes "\<And>td. td \<in> set tds \<Longrightarrow> wf_table td"
  shows "map_option (answer_columns tds) (i_column_name_to_index_in_tables tds n) = expand_name tds n"
proof -
  let ?dot = "CHR ''.'' \<in> set n"
  let ?t = "takeWhile (\<lambda>c. c \<noteq> CHR ''.'') n" and ?c = "tl (dropWhile (\<lambda>c. c \<noteq> CHR ''.'') n)"
  note defs = i_column_name_to_index_in_tables_def expand_name_def answer_columns_def Let_def
    TABLE_COLUMN_DELIMITER_def ALL_COLUMNS_def ALL_INDEXES_def
  show ?thesis
  proof (cases ?dot)
    case False
    have ft: "find_in_tables tds n 0 = Some (find (column_named tds n) (all_columns tds))"
      using find_in_tables_eq [where tds = tds and i = 0 and n = n, OF assms] by (simp add: all_columns_def)
    consider "n = ''*''" | "find (column_named tds n) (all_columns tds) = None"
      | i j where "find (column_named tds n) (all_columns tds) = Some (i, j)" by fastforce
    then show ?thesis using False ft by cases (simp_all add: defs)
  next
    case True
    have ft: "find_table tds ?t 0 = find (\<lambda>i. ?t = t_name (tds ! i)) [0..<length tds]"
      using find_table_eq [of 0 tds ?t] by simp
    show ?thesis
    proof (cases "find (\<lambda>i. ?t = t_name (tds ! i)) [0..<length tds]")
      case None
      with True ft show ?thesis by (simp add: defs)
    next
      case (Some i)
      then have i: "i < length tds" by (auto dest: find_SomeD)
      then have wf: "wf_table (tds ! i)" using assms by simp
      have fc: "find_column (tds ! i) ?c (column_indexes (tds ! i))
          = Some (find (\<lambda>j. c_name (columns (tds ! i) ! j) = ?c) [0..<length (columns (tds ! i))])"
        unfolding wf_table_indexes [OF wf] by (rule find_column_eq [OF wf]) auto
      have fs: "find (column_named tds ?c) (table_columns tds i)
          = map_option (Pair i) (find (\<lambda>j. c_name (columns (tds ! i) ! j) = ?c) [0..<length (columns (tds ! i))])"
        by (simp add: table_columns_def find_map column_named_def comp_def)
      have nt: "nth_opt tds (int i) = Some (tds ! i)" using i by simp
      show ?thesis
      proof (cases "?c = ''*''")
        case all: True
        with True Some ft show ?thesis by (simp add: defs)
      next
        case False
        with True Some ft fc fs nt show ?thesis
          by (cases "find (\<lambda>j. c_name (columns (tds ! i) ! j) = ?c) [0..<length (columns (tds ! i))]")
            (simp_all add: defs)
      qed
    qed
  qed
qed

lemma expand_name_valid:
  assumes "expand_name tds n = Some r"
  shows "set r \<subseteq> set (all_columns tds)"
proof -
  have sub: "set (table_columns tds i) \<subseteq> set (all_columns tds)" if "i < length tds" for i
    using that by (auto simp: all_columns_def)
  show ?thesis
    using assms sub
    by (fastforce simp: expand_name_def Let_def split: if_splits option.splits dest: find_SomeD)
qed

section \<open>Positions in the result\<close>

text \<open>The recorded position of column \<open>c\<close> of table \<open>t\<close> when the result columns are \<open>R\<close>.\<close>

definition position_ok :: "(nat \<times> nat) list \<Rightarrow> nat \<times> nat \<Rightarrow> int \<Rightarrow> bool" where
  "position_ok R p x \<longleftrightarrow>
     (if p \<in> set R then \<exists>k < length R. x = int k \<and> R ! k = p else x = NO_INDEXES_IN_RESULT)"

definition selection_ok ::
  "sorm_table_descriptor_t list \<Rightarrow> (nat \<times> nat) list \<Rightarrow> select_columns_t list \<times> int \<Rightarrow> bool" where
  "selection_ok tds R s \<longleftrightarrow> snd s = int (length R) \<and> length (fst s) = length tds \<and>
     set R \<subseteq> set (all_columns tds) \<and>
     (\<forall>t < length tds. length (indexes_in_result (fst s ! t)) = length (columns (tds ! t)) \<and>
        sel_columns_num (fst s ! t) = int (card {c. (t, c) \<in> set R}) \<and>
        (\<forall>c < length (columns (tds ! t)). position_ok R (t, c) (indexes_in_result (fst s ! t) ! c)))"

lemma position_append:
  "position_ok R p x \<Longrightarrow> p \<in> set R \<or> p \<notin> set S \<Longrightarrow> position_ok (R @ S) p x"
proof (cases "p \<in> set R")
  case True
  assume "position_ok R p x"
  with True obtain k where "k < length R" "x = int k" "R ! k = p" by (auto simp: position_ok_def)
  then show ?thesis using True by (auto simp: position_ok_def nth_append intro!: exI [of _ k])
qed (auto simp: position_ok_def)

lemma table_columns_iff [simp]:
  "(u, c) \<in> set (table_columns tds t) \<longleftrightarrow> u = t \<and> c < length (columns (tds ! t))"
  "length (table_columns tds t) = length (columns (tds ! t))"
  by (auto simp: table_columns_def)

lemma all_columns_iff: "(t, c) \<in> set (all_columns tds) \<longleftrightarrow> t < length tds \<and> c < length (columns (tds ! t))"
  by (auto simp: all_columns_def)

lemma number_columns_eq:
  "b \<le> length xs \<Longrightarrow> a \<le> b \<Longrightarrow> \<exists>ys. number_columns [a..<b] (xs, r) = (ys, r + int (b - a)) \<and>
     length ys = length xs \<and>
     (\<forall>i < length xs. ys ! i = (if a \<le> i \<and> i < b then r + int (i - a) else xs ! i))"
proof (induction "b - a" arbitrary: a xs r)
  case 0
  then show ?case by simp
next
  case (Suc k)
  then have ab: "a < b" by simp
  have "\<exists>ys. number_columns [Suc a..<b] (xs[a := r], r + 1) = (ys, r + 1 + int (b - Suc a)) \<and>
     length ys = length (xs[a := r]) \<and>
     (\<forall>i < length (xs[a := r]). ys ! i = (if Suc a \<le> i \<and> i < b then r + 1 + int (i - Suc a) else xs[a := r] ! i))"
    using Suc by (intro Suc.hyps(1)) auto
  then obtain ys where ys: "number_columns [Suc a..<b] (xs[a := r], r + 1) = (ys, r + 1 + int (b - Suc a))"
    "length ys = length xs"
    "\<forall>i < length xs. ys ! i = (if Suc a \<le> i \<and> i < b then r + 1 + int (i - Suc a) else xs[a := r] ! i)" by auto
  have "number_columns [a..<b] (xs, r) = (ys, r + int (b - a))"
    using ab ys(1) by (simp add: upt_conv_Cons of_nat_diff)
  moreover have "ys ! i = (if a \<le> i \<and> i < b then r + int (i - a) else xs ! i)" if "i < length xs" for i
    using ys(3) that ab by (cases "i = a") (auto simp: of_nat_diff)
  ultimately show ?case using ys(2) by blast
qed

lemma card_table_columns: "{c. (t, c) \<in> set (table_columns tds t)} = {..< length (columns (tds ! t))}"
  by auto

lemma select_table_ok:
  assumes "selection_ok tds R s" and "t < length tds" and "wf_table (tds ! t)"
  shows "selection_ok tds (R @ table_columns tds t) (select_table (tds ! t) t s)"
proof -
  obtain sc r where s: "s = (sc, r)" by fastforce
  let ?td = "tds ! t" and ?R = "R @ table_columns tds t"
  let ?n = "length (columns ?td)"
  have ok: "r = int (length R)" "length sc = length tds" "length (indexes_in_result (sc ! t)) = ?n"
    using assms(1,2) by (auto simp: selection_ok_def s)
  obtain ys where ys: "number_columns [0..<?n] (indexes_in_result (sc ! t), r) = (ys, r + int ?n)"
    "length ys = ?n" "\<forall>i < ?n. ys ! i = r + int i"
    using number_columns_eq [of ?n "indexes_in_result (sc ! t)" 0 r] ok(3) by auto
  have sel: "select_table ?td t s = (sc[t := \<lparr>sel_columns_num = int ?n, indexes_in_result = ys\<rparr>], r + int ?n)"
    using ys(1) by (simp add: select_table_def s wf_table_indexes [OF assms(3)] wf_table_columns_num [OF assms(3)])
  have R: "c < ?n \<Longrightarrow> ?R ! (length R + c) = (t, c)" for c by (simp add: nth_append table_columns_def)
  have pos: "position_ok ?R (t, c) (ys ! c)" if "c < ?n" for c
  proof -
    have "length R + c < length ?R" using that by simp
    then show ?thesis using R [OF that] ys(3) that ok(1) unfolding position_ok_def
      by (auto intro!: exI [of _ "length R + c"])
  qed
  have "{c. (t, c) \<in> set ?R} = {..< ?n}"
    using assms(1,2) card_table_columns [of t tds] by (auto simp: selection_ok_def all_columns_iff)
  then have card: "card {c. (t, c) \<in> set ?R} = ?n" by simp
  have other: "{c. (u, c) \<in> set ?R} = {c. (u, c) \<in> set R}" if "u \<noteq> t" for u
    using that by auto
  have posu: "position_ok ?R (u, c) x" if "position_ok R (u, c) x" "u \<noteq> t" for u c x
    using that by (intro position_append) auto
  show ?thesis
    using assms(1,2) ok ys(2) pos card posu unfolding selection_ok_def sel
    by (auto simp: s nth_list_update other all_columns_iff)
qed

lemma select_column_ok:
  assumes "selection_ok tds R s" and "(t, c) \<in> set (all_columns tds)"
  shows "selection_ok tds (R @ [(t, c)]) (select_column t c s)"
proof -
  obtain sc r where s: "s = (sc, r)" by fastforce
  let ?e = "sc ! t" and ?R = "R @ [(t, c)]"
  have tc: "t < length tds" "c < length (columns (tds ! t))" using assms(2) by (auto simp: all_columns_iff)
  have ok: "r = int (length R)" "length sc = length tds" "length (indexes_in_result ?e) = length (columns (tds ! t))"
    "sel_columns_num ?e = int (card {c. (t, c) \<in> set R})" "position_ok R (t, c) (indexes_in_result ?e ! c)"
    using assms(1) tc by (auto simp: selection_ok_def s)
  have posu: "position_ok ?R p x" if "position_ok R p x" "p \<noteq> (t, c)" for p x
    using that by (intro position_append) auto
  show ?thesis
  proof (cases "(t, c) \<in> set R")
    case True
    then have "indexes_in_result ?e ! c \<noteq> NO_INDEXES_IN_RESULT"
      using ok(5) by (auto simp: position_ok_def NO_INDEXES_IN_RESULT_def)
    then have sel: "select_column t c s = (sc, r + 1)" by (simp add: select_column_def s)
    have "set ?R = set R" using True by auto
    moreover have "position_ok ?R p x" if "position_ok R p x" for p x
      using that True by (intro position_append) auto
    ultimately show ?thesis using assms(1) ok(1) unfolding selection_ok_def sel by (auto simp: s)
  next
    case False
    then have ni: "indexes_in_result ?e ! c = NO_INDEXES_IN_RESULT" using ok(5) by (simp add: position_ok_def)
    let ?e' = "?e\<lparr>sel_columns_num := sel_columns_num ?e + 1, indexes_in_result := (indexes_in_result ?e)[c := r]\<rparr>"
    have sel: "select_column t c s = (sc[t := ?e'], r + 1)" using ni by (simp add: select_column_def s Let_def)
    have fin: "finite {c. (t, c) \<in> set R}" by (rule finite_subset [of _ "snd ` set R"]) force+
    have "{d. (t, d) \<in> set ?R} = insert c {d. (t, d) \<in> set R}" by auto
    then have card: "card {d. (t, d) \<in> set ?R} = Suc (card {d. (t, d) \<in> set R})" using False fin by simp
    have other: "{d. (u, d) \<in> set ?R} = {d. (u, d) \<in> set R}" if "u \<noteq> t" for u using that by auto
    have pos: "position_ok ?R (t, c) r" using ok(1) by (auto simp: position_ok_def)
    show ?thesis
      using assms tc ok(1-4) card other posu pos unfolding selection_ok_def sel
      by (auto simp: s nth_list_update)
  qed
qed

lemma select_all_tables_ok:
  assumes "\<And>td. td \<in> set tds \<Longrightarrow> wf_table td"
  shows "selection_ok tds R s \<Longrightarrow> i \<le> length tds \<Longrightarrow>
    selection_ok tds (R @ concat (map (table_columns tds) [i..<length tds])) (select_all_tables (drop i tds) i s)"
proof (induction "length tds - i" arbitrary: i R s)
  case 0
  then show ?case by simp
next
  case (Suc k)
  then have i: "i < length tds" by simp
  have "selection_ok tds (R @ table_columns tds i) (select_table (tds ! i) i s)"
    using Suc.prems(1) i assms by (intro select_table_ok) auto
  then have "selection_ok tds ((R @ table_columns tds i) @ concat (map (table_columns tds) [Suc i..<length tds]))
      (select_all_tables (drop (Suc i) tds) (Suc i) (select_table (tds ! i) i s))"
    using Suc by (intro Suc.hyps(1)) auto
  with i show ?case by (simp add: Cons_nth_drop_Suc [symmetric] upt_conv_Cons)
qed

lemma resolve_all_bounds:
  assumes "i_column_name_to_index_in_tables tds n = Some (SORM_OK, t, ALL_INDEXES)"
  shows "t = ALL_INDEXES \<or> (\<exists>i < length tds. t = int i)"
proof -
  have "i < length tds" if "find_table tds m 0 = Some i" for m i
  proof -
    have "find (\<lambda>j. m = t_name (tds ! j)) [0..<length tds] = Some i"
      using find_table_eq [of 0 tds m] that by simp
    from find_SomeD [OF this] show ?thesis by simp
  qed
  then show ?thesis
    using assms unfolding i_column_name_to_index_in_tables_def ALL_INDEXES_def Let_def
    by (auto simp: bind_Some_iff split: if_splits option.splits)
qed

lemma select_answer_ok:
  assumes "\<And>td. td \<in> set tds \<Longrightarrow> wf_table td" and "selection_ok tds R s"
    and "i_column_name_to_index_in_tables tds n = Some a"
  shows "selection_ok tds (R @ answer_columns tds a) (select_answer tds a s)"
proof -
  obtain ret t c where a: "a = (ret, t, c)" by (metis prod_cases3)
  have "expand_name tds n = Some (answer_columns tds a)"
    using resolve_name [of tds n] assms(1,3) by (metis option.simps(9))
  then have v: "set (answer_columns tds a) \<subseteq> set (all_columns tds)" by (rule expand_name_valid)
  show ?thesis
  proof (cases "ret = SORM_OK")
    case False
    then show ?thesis using assms(2) by (simp add: select_answer_def answer_columns_def a)
  next
    case ok: True
    consider "c = ALL_INDEXES" "t = ALL_INDEXES" | "c = ALL_INDEXES" "t \<noteq> ALL_INDEXES" | "c \<noteq> ALL_INDEXES" by blast
    then show ?thesis
    proof cases
      case 1
      with ok select_all_tables_ok [OF assms(1,2), of 0] show ?thesis
        by (simp add: select_answer_def answer_columns_def a all_columns_def)
    next
      case 2
      with resolve_all_bounds [of tds n t] assms(3) ok obtain i where "i < length tds" "t = int i"
        by (auto simp: a)
      with 2 ok select_table_ok [OF assms(2), of i] assms(1) show ?thesis
        by (simp add: select_answer_def answer_columns_def a)
    next
      case 3
      with ok v select_column_ok [OF assms(2), of "nat t" "nat c"] show ?thesis
        by (simp add: select_answer_def answer_columns_def a)
    qed
  qed
qed


section \<open>The whole list\<close>

fun select_names ::
  "sorm_table_descriptor_t list \<Rightarrow> string list \<Rightarrow> select_columns_t list \<times> int \<Rightarrow>
   (select_columns_t list \<times> int) option" where
  "select_names tds [] s = Some s"
| "select_names tds (n # ns) s =
     do { a \<leftarrow> i_column_name_to_index_in_tables tds n; select_names tds ns (select_answer tds a s) }"

lemma select_names_ok:
  assumes "\<And>td. td \<in> set tds \<Longrightarrow> wf_table td"
  shows "selection_ok tds R s \<Longrightarrow>
    case expand_names tds ns of
      None \<Rightarrow> select_names tds ns s = None
    | Some S \<Rightarrow> \<exists>s'. select_names tds ns s = Some s' \<and> selection_ok tds (R @ S) s'"
proof (induction ns arbitrary: R s)
  case Nil
  then show ?case by simp
next
  case (Cons n ns)
  have e: "expand_name tds n = map_option (answer_columns tds) (i_column_name_to_index_in_tables tds n)"
    using resolve_name [of tds n] assms by simp
  show ?case
  proof (cases "i_column_name_to_index_in_tables tds n")
    case None
    with e show ?thesis by simp
  next
    case (Some a)
    from Cons.IH [OF select_answer_ok [OF assms Cons.prems Some]] Some e show ?thesis
      by (cases "expand_names tds ns") auto
  qed
qed

lemma selection_ok_init: "(\<And>td. td \<in> set tds \<Longrightarrow> wf_table td) \<Longrightarrow> selection_ok tds [] (init_select_columns tds, 0)"
  by (simp add: selection_ok_def init_select_columns_def position_ok_def wf_table_columns_num)

lemma split_names_last: "CHR '','' \<notin> set t \<Longrightarrow> split_names t = [t]"
proof -
  assume c: "CHR '','' \<notin> set t"
  then have "dropWhile (\<lambda>c. c \<noteq> CHR '','') t = []" "takeWhile (\<lambda>c. c \<noteq> CHR '','') t = t"
    by (auto simp: dropWhile_eq_Nil_conv takeWhile_eq_all_conv)
  then show ?thesis by (simp only: split_names.simps [of t] list.case)
qed

lemma split_names_comma: "CHR '','' \<notin> set t \<Longrightarrow> split_names (t @ CHR '','' # u) = t # split_names u"
proof -
  assume "CHR '','' \<notin> set t"
  then have "dropWhile (\<lambda>c. c \<noteq> CHR '','') (t @ CHR '','' # u) = CHR '','' # u"
    "takeWhile (\<lambda>c. c \<noteq> CHR '','') (t @ CHR '','' # u) = t"
    by (subst dropWhile_append2 takeWhile_append2; auto)+
  then show ?thesis by (subst split_names.simps) simp
qed

lemma strchr_from_none:
  assumes "no_nul seg" and "c \<notin> set seg" and "c \<noteq> NUL"
  shows "strchr_from (pre @ seg @ NUL # post) (int (length pre)) c = Some None"
  using assms
proof (induction seg arbitrary: pre)
  case Nil
  then show ?case by (subst strchr_from.simps) (simp add: nth_opt_def)
next
  case (Cons d seg)
  have "strchr_from (pre @ d # seg @ NUL # post) (1 + int (length pre)) c = Some None"
    using Cons.IH [of "pre @ [d]"] Cons.prems by simp
  with Cons.prems show ?case
    by (subst strchr_from.simps) (auto simp: nth_opt_def nth_append add.commute)
qed

lemma strchr_from_some:
  assumes "no_nul seg" and "c \<notin> set seg" and "c \<noteq> NUL"
  shows "strchr_from (pre @ seg @ c # post) (int (length pre)) c = Some (Some (int (length pre + length seg)))"
  using assms
proof (induction seg arbitrary: pre)
  case Nil
  then show ?case by (subst strchr_from.simps) (simp add: nth_opt_def)
next
  case (Cons d seg)
  have "strchr_from (pre @ d # seg @ c # post) (1 + int (length pre)) c = Some (Some (1 + int (length pre) + int (length seg)))"
    using Cons.IH [of "pre @ [d]"] Cons.prems by simp
  with Cons.prems show ?case
    by (subst strchr_from.simps) (auto simp: nth_opt_def nth_append add.commute)
qed

lemma strip_no_nul: "no_nul s \<Longrightarrow> no_nul (strip s)"
  unfolding no_nul_def strip_def by (metis set_dropWhileD set_rev)

lemma trimmed_name:
  "no_nul seg \<Longrightarrow> takeWhile (\<lambda>c. c \<noteq> NUL)
     (drop (nat (int (length pre + length (takeWhile blank seg))))
       (pre @ takeWhile blank seg @ strip seg @ replicate k NUL @ NUL # post)) = strip seg"
proof -
  assume "no_nul seg"
  then have nn: "no_nul (strip seg)" by (rule strip_no_nul)
  have r: "replicate k NUL @ NUL # post = NUL # replicate k NUL @ post" by (induction k) auto
  have "drop (nat (int (length pre + length (takeWhile blank seg))))
       (pre @ takeWhile blank seg @ strip seg @ replicate k NUL @ NUL # post)
      = strip seg @ replicate k NUL @ NUL # post" by simp
  then show ?thesis unfolding r by (simp only: takeWhile_no_nul [OF nn])
qed

lemma columns_name_loop_eq:
  "no_nul t \<Longrightarrow> \<forall>n \<in> set (split_names t). \<not> list_all blank n \<Longrightarrow>
   columns_name_loop tds (pre @ t @ [NUL]) (int (length pre)) s
   = select_names tds (map strip (split_names t)) s"
proof (induction t arbitrary: pre s rule: length_induct)
  case (1 t)
  let ?c = "CHR '',''"
  show ?case
  proof (cases "?c \<in> set t")
    case False
    note sp = split_names_last [OF False]
    have nb: "\<not> list_all blank t" using "1.prems"(2) sp by simp
    obtain k where tr: "trim (pre @ t @ NUL # []) (int (length pre)) None
        = Some (pre @ takeWhile blank t @ strip t @ replicate k NUL @ NUL # [],
             int (length pre + length (takeWhile blank t)))"
      using trim_segment [OF nb "1.prems"(1)] by blast
    have "strchr_from (pre @ t @ NUL # []) (int (length pre)) ?c = Some None"
      using False "1.prems"(1) by (intro strchr_from_none) auto
    with tr trimmed_name [OF "1.prems"(1), of pre k "[]"] show ?thesis
      unfolding sp by (subst columns_name_loop.simps)
        (simp add: COLUMN_NAMES_DELIMITER_def Let_def split: option.splits)
  next
    case True
    then obtain seg u where t: "t = seg @ ?c # u" and seg: "?c \<notin> set seg"
      by (metis split_list_first)
    note sp = split_names_comma [OF seg, of u]
    have nn: "no_nul seg" "no_nul u" using "1.prems"(1) t by auto
    have nb: "\<not> list_all blank seg" using "1.prems"(2) sp t by simp
    let ?q = "length pre + length seg"
    have upd: "(pre @ (seg @ ?c # u) @ [NUL])[?q := NUL] = pre @ seg @ NUL # (u @ [NUL])"
      by (simp add: list_update_append)
    obtain k where tr: "trim (pre @ seg @ NUL # (u @ [NUL])) (int (length pre)) (Some (int ?q))
        = Some (pre @ takeWhile blank seg @ strip seg @ replicate k NUL @ NUL # (u @ [NUL]),
             int (length pre + length (takeWhile blank seg)))"
      using trim_segment [OF nb nn(1)] by blast
    let ?pre = "pre @ takeWhile blank seg @ strip seg @ replicate k NUL @ [NUL]"
    have "length ?pre = ?q + 1"
      using trim_length [OF tr] by simp
    then have IH: "columns_name_loop tds (?pre @ u @ [NUL]) (1 + int ?q) s' = select_names tds (map strip (split_names u)) s'" for s'
      using "1.IH" [rule_format, of u ?pre s'] nn(2) "1.prems"(2) sp t by (simp add: add.commute)
    have "strchr_from (pre @ seg @ ?c # (u @ [NUL])) (int (length pre)) ?c = Some (Some (int ?q))"
      using seg nn(1) by (intro strchr_from_some) auto
    with tr upd trimmed_name [OF nn(1), of pre k "u @ [NUL]"] IH show ?thesis
      unfolding t sp by (subst columns_name_loop.simps)
        (simp add: COLUMN_NAMES_DELIMITER_def Let_def nat_int_add add.commute split: option.splits)
  qed
qed

lemma columns_parsed:
  assumes "\<And>td. td \<in> set tds \<Longrightarrow> wf_table td" and "no_nul cols"
    and "\<forall>n \<in> set (split_names cols). \<not> list_all blank n"
    and "heap_ok h" and "length cols + 1 \<le> room h"
  shows "case result_columns tds cols of
      None \<Rightarrow> i_columns_name_to_select_columns tds cols h = None
    | Some R \<Rightarrow> \<exists>sc h'. i_columns_name_to_select_columns tds cols h = Some (SORM_OK, sc, h') \<and>
        heap_ok h' \<and> blocks h' = blocks h \<and> selection_ok tds R (sc, int (length R))"
proof -
  obtain p h1 where d: "i_strdup None (Some cols) h = Some (p, h1)"
    using strdup_room [OF assms(5,4)] by blast
  from libc.dup_fresh [OF assms(4) d] have f: "blocks h p = None" "heap_ok h1"
    "blocks h1 = (blocks h)(p \<mapsto> \<lparr>owner = pool_of None, content = C_bytes (cols @ [NUL])\<rparr>)" by auto
  then have l: "load h1 p = Some (C_bytes (cols @ [NUL]))" by (simp add: load_def)
  have "(blocks h)(p := None) = blocks h" using f(1) by (simp add: fun_upd_idem)
  then obtain h2 where h2: "i_free None p h1 = Some h2" "heap_ok h2" "blocks h2 = blocks h"
    using libc.fre_owned [OF f(2), of p] f(3) by auto
  have loop: "columns_name_loop tds (cols @ [NUL]) 0 s = select_names tds (map strip (split_names cols)) s" for s
    using columns_name_loop_eq [OF assms(2,3), of tds "[]" s] by simp
  have ok: "case result_columns tds cols of
      None \<Rightarrow> select_names tds (map strip (split_names cols)) (init_select_columns tds, 0) = None
    | Some S \<Rightarrow> \<exists>s'. select_names tds (map strip (split_names cols)) (init_select_columns tds, 0) = Some s' \<and>
        selection_ok tds ([] @ S) s'"
    unfolding result_columns_def using assms(1) by (intro select_names_ok selection_ok_init)
  show ?thesis
  proof (cases "result_columns tds cols")
    case None
    with ok d l loop show ?thesis by (simp add: i_columns_name_to_select_columns_def)
  next
    case (Some R)
    with ok obtain sc r where s: "select_names tds (map strip (split_names cols)) (init_select_columns tds, 0) = Some (sc, r)"
      "selection_ok tds R (sc, r)" by auto
    moreover have "r = int (length R)" using s(2) by (simp add: selection_ok_def)
    ultimately show ?thesis
      using Some d l loop h2 by (simp add: i_columns_name_to_select_columns_def)
  qed
qed

section \<open>Properties\<close>

text \<open>
  C7: Parsing a column list. For well-formed tables, a list whose names are not blank, and memory for
  the working copy: when every column name is known, \<open>_columns_name_to_select_columns\<close> returns
  \<open>SORM_OK\<close>, gives the copy back, and its answer agrees with the result columns SQL computes for the
  list: a column that is selected has the position of one of its occurrences in the result row, a
  column that is not has none, and the count of each table is the number of its columns selected. A
  name of a column that no table has ends in \<open>assert(0)\<close>.
\<close>

theorem columns_name_positions:
  assumes "\<And>td. td \<in> set tds \<Longrightarrow> wf_table td" and "no_nul cols"
    and "\<forall>n \<in> set (split_names cols). \<not> list_all blank n"
    and "heap_ok h" and "length cols + 1 \<le> room h"
  shows "case result_columns tds cols of
      None \<Rightarrow> i_columns_name_to_select_columns tds cols h = None
    | Some R \<Rightarrow> \<exists>sc h'. i_columns_name_to_select_columns tds cols h = Some (SORM_OK, sc, h') \<and>
        heap_ok h' \<and> blocks h' = blocks h \<and> selection_ok tds R (sc, int (length R))"
  using columns_parsed [OF assms] .

definition two_columns :: "string \<Rightarrow> string \<Rightarrow> string \<Rightarrow> sorm_table_descriptor_t" where
  "two_columns t a b = \<lparr>t_name = t, t_size = 64, columns_num = 2, PK_index = SORM_NO_PK, create_sql = None,
     columns = map (\<lambda>n. \<lparr>c_name = n, c_index = 0, c_type = SORM_TYPE_INT, c_constraint = SORM_CONSTRAINT_NONE,
       c_mem = SORM_MEM_NONE, c_max_len = 0, c_offset = 0, is_foreign_key = False,
       foreign_table_name = [], foreign_column_name = []\<rparr>) [a, b]\<rparr>"

theorem columns_name_positions_witness:
  "\<exists>sc h'. i_columns_name_to_select_columns [two_columns ''t'' ''a'' ''b'', two_columns ''u'' ''c'' ''d'']
      ''u.*, a'' \<lparr>blocks = Map.empty, brk = 2, room = 64\<rparr> = Some (SORM_OK, sc, h') \<and>
    selection_ok [two_columns ''t'' ''a'' ''b'', two_columns ''u'' ''c'' ''d''] [(1, 0), (1, 1), (0, 0)] (sc, 3)"
proof -
  let ?tds = "[two_columns ''t'' ''a'' ''b'', two_columns ''u'' ''c'' ''d'']"
    and ?h = "\<lparr>blocks = Map.empty, brk = 2, room = 64\<rparr> :: heap"
  have wf: "wf_table td" if "td \<in> set ?tds" for td
    using that by (auto simp: two_columns_def wf_table_def wf_column_def SORM_NO_PK_def)
  have sp: "split_names ''u.*, a'' = [''u.*'', '' a'']" by code_simp
  have nb: "\<forall>n \<in> set (split_names ''u.*, a''). \<not> list_all blank n" unfolding sp by (simp add: blank_def)
  have R: "result_columns ?tds ''u.*, a'' = Some [(1, 0), (1, 1), (0, 0)]" by code_simp
  have h: "heap_ok ?h" "length ''u.*, a'' + 1 \<le> room ?h" by (simp_all add: heap_ok_def)
  from columns_name_positions [where tds = ?tds, OF wf _ nb h] R show ?thesis by auto
qed

end
