(* ===== verification/Sorm_Row.thy ===== *)
theory Sorm_Row
  imports Sorm_Object
begin

text \<open>
  Reading whole rows (\<open>_parse_select_result\<close> of \<^verbatim>\<open>src/src/sorm.c\<close>): given memory and a SQLite whose
  column functions agree with each other, reading a row into a new object returns, and after
  \<open>SORM_OK\<close> every selected column of the object holds the value of the row and no other column is
  touched.
\<close>

section \<open>What reading relies on\<close>

text \<open>The three ways SQLite gives a column agree: a column with bytes has a text, and the count is right.\<close>

definition columns_consistent :: "'db sqlite3_api \<Rightarrow> bool" where
  "columns_consistent api \<longleftrightarrow> (\<forall>st ri d.
     (sqlite3_column_blob api st ri d \<noteq> None \<longrightarrow> sqlite3_column_text api st ri d \<noteq> None) \<and>
     sint (sqlite3_column_bytes api st ri d) =
       (case sqlite3_column_blob api st ri d of None \<Rightarrow> 0 | Some bs \<Rightarrow> int (length bs)))"

definition memory_lasts :: "sorm_allocator_t option \<Rightarrow> bool" where
  "memory_lasts al \<longleftrightarrow> (\<forall>h. heap_ok h \<longrightarrow> (\<forall>n. i_malloc al n h \<noteq> None) \<and> (\<forall>s. i_strdup al s h \<noteq> None))"

lemma memory_lasts_malloc: "memory_lasts al \<Longrightarrow> heap_ok h \<Longrightarrow> \<exists>p h'. i_malloc al n h = Some (p, h')"
  unfolding memory_lasts_def by fast

lemma memory_lasts_strdup: "memory_lasts al \<Longrightarrow> heap_ok h \<Longrightarrow> \<exists>p h'. i_strdup al s h = Some (p, h')"
  unfolding memory_lasts_def by fast

lemma memory_lasts_gives: "memory_lasts al \<Longrightarrow> heap_ok h \<Longrightarrow> gives al h v"
  by (auto simp: gives_def memory_lasts_def split: bind_value.splits)

section \<open>Reading returns\<close>

lemma column_returns:
  assumes al: "memory_lasts al" and api: "columns_consistent api" and st: "st \<noteq> 0" and wf: "wf_object obj"
    and i: "i < length (columns (desc obj))" and h: "heap_ok h"
  shows "\<exists>ret obj' h'. i_sqlite3_column api al obj st (int i) ri d h = Some (ret, obj', h')"
proof -
  let ?c = "columns (desc obj) ! i" and ?len = "sint (sqlite3_column_bytes api st ri d)"
  let ?blob = "sqlite3_column_blob api st ri d" and ?text = "sqlite3_column_text api st ri d"
  note has = wf_object_has [OF wf i] and wfc = wf_object_cell [OF wf i]
  note max = max_len_bounds [OF wf i] and col = column_at_wf [OF wf i]
  note ops = cell_ops [OF has] cell_ops [of "put_cell obj i x" i for x, simplified, OF has]
  note run = i_sqlite3_column_def if_not_P [OF st] Let_def col ops
  have cons: "?blob \<noteq> None \<longrightarrow> ?text \<noteq> None"
    "?len = (case ?blob of None \<Rightarrow> 0 | Some bs \<Rightarrow> int (length bs))"
    using api by (auto simp: columns_consistent_def)
  have sz: "size_t ?len = length bs" if "?blob = Some bs" for bs
  proof -
    have "?len < 2 ^ 31" using sint_lt [of "sqlite3_column_bytes api st ri d"] by simp
    then show ?thesis using cons(2) that by simp
  qed
  consider (null) "sqlite3_column_type api st ri d = SQLITE_NULL"
    | (str) "c_type ?c = SORM_TYPE_TEXT" | (blob) "c_type ?c = SORM_TYPE_BLOB"
    | (other) "c_type ?c \<noteq> SORM_TYPE_TEXT" "c_type ?c \<noteq> SORM_TYPE_BLOB" by blast
  then show ?thesis
  proof cases
    case null
    then show ?thesis by (simp add: run)
  next
    case other
    then show ?thesis by (cases "c_type ?c") (auto simp: run)
  next
    case str
    obtain p h' where p: "i_strdup al ?text h = Some (p, h')" using memory_lasts_strdup [OF al h] by blast
    have stack: "\<exists>b b'. val (cells obj ! i) = M_array b \<and>
        snprintf b 0 (size_t (c_max_len ?c + 1)) s = Some (int (length s), b')"
      if m: "c_mem ?c = SORM_MEM_STACK" for s
    proof -
      from wfc str m obtain b where b: "val (cells obj ! i) = M_array b" "cap b = nat (c_max_len ?c + 1)"
        by (auto simp: wf_cell_def)
      with snprintf_returns [of 0 "size_t (c_max_len ?c + 1)" b s] max show ?thesis by auto
    qed
    show ?thesis
    proof (cases "c_mem ?c = SORM_MEM_STACK \<and> ?blob \<noteq> None")
      case True
      then obtain s where s: "?text = Some s" using cons(1) by auto
      from stack [of s] True obtain b b' where
        "val (cells obj ! i) = M_array b" "snprintf b 0 (size_t (c_max_len ?c + 1)) s = Some (int (length s), b')"
        by blast
      with True str s show ?thesis by (auto simp: run simp del: size_t_def)
    next
      case False
      then show ?thesis using str p by (cases "c_mem ?c") (auto simp: run)
    qed
  next
    case blob
    show ?thesis
    proof (cases ?blob)
      case None
      then have "?len = 0" using cons(2) by simp
      with None blob wfc max buf_write_returns [of 0 "[]"] show ?thesis
        by (cases "c_mem ?c") (auto simp: run wf_cell_def buf_write_def)
    next
      case (Some bs)
      then have len: "?len = int (length bs)" using cons(2) by simp
      obtain p h' where p: "i_malloc al (length bs) h = Some (p, h')" using memory_lasts_malloc [OF al h] by blast
      show ?thesis
        using blob wfc max len p sz [OF Some] Some
        by (cases "c_mem ?c") (auto simp: run wf_cell_def buf_write_def)
    qed
  qed
qed

lemma parse_columns_returns:
  assumes al: "allocator_ok al" "memory_lasts al" and api: "columns_consistent api" and st: "st \<noteq> 0"
    and "row_ok (pool_of al) h0 h obj" and "distinct js" and "set js \<subseteq> {..< length (columns (desc obj))}"
    and "length xs = length (columns (desc obj))"
    and "\<And>i. i \<in> set js \<Longrightarrow> \<not> sorm_is_stat_needfree (stat (cells obj ! i))"
  shows "\<exists>ret obj' h'. parse_columns api al st xs js d obj h = Some (ret, obj', h')"
  using assms(5-)
proof (induction js arbitrary: obj h)
  case (Cons i js)
  have i: "i < length (columns (desc obj))" and nf: "\<not> sorm_is_stat_needfree (stat (cells obj ! i))"
    using Cons.prems by auto
  have wf: "wf_object obj" and hok: "heap_ok h" using Cons.prems(1) by (auto simp: row_ok_def object_ok_def)
  have x: "nth_opt xs (int i) = Some (xs ! i)" using i Cons.prems(4) by (simp add: nth_opt_def)
  show ?case
  proof (cases "xs ! i = NO_INDEXES_IN_RESULT")
    case True
    have "\<exists>ret obj' h'. parse_columns api al st xs js d obj h = Some (ret, obj', h')"
      by (rule Cons.IH) (use Cons.prems in auto)
    with True x show ?thesis by simp
  next
    case False
    obtain r o1 h1 where c: "i_sqlite3_column api al obj st (int i) (xs ! i) d h = Some (r, o1, h1)"
      using column_returns [OF al(2) api st wf i hok] by blast
    from sqlite3_column_filled [OF al(1) wf i hok nf c] obtain cl where
      o1: "o1 = put_cell obj i cl" and cl: "wf_cell (columns (desc obj) ! i) cl"
        "cell_filled (pool_of al) h h1 cl" by blast
    have row: "row_ok (pool_of al) h0 h1 o1" unfolding o1 using Cons.prems(1) i nf cl by (rule row_ok_put)
    have nf': "\<not> sorm_is_stat_needfree (stat (cells o1 ! j))" if "j \<in> set js" for j
      using Cons.prems(2,5) that o1 by (cases "j = i") auto
    have "\<exists>ret obj' h'. parse_columns api al st xs js d o1 h1 = Some (ret, obj', h')"
      by (rule Cons.IH [OF row]) (use Cons.prems(2-4) nf' o1 in auto)
    with False x c show ?thesis by simp
  qed
qed simp

section \<open>What a row holds\<close>

text \<open>A later allocation does not change what a column holds.\<close>

definition extends :: "heap \<Rightarrow> heap \<Rightarrow> bool" where
  "extends h h' \<longleftrightarrow> (\<forall>p. blocks h p \<noteq> None \<longrightarrow> blocks h' p = blocks h p)"

lemma cell_filled_extends: "cell_filled pool h h' cl \<Longrightarrow> extends h h'"
  by (auto simp: cell_filled_def extends_def)

lemma extends_refl: "extends h h"
  by (simp add: extends_def)

lemma extends_trans: "extends h h1 \<Longrightarrow> extends h1 h2 \<Longrightarrow> extends h h2"
  unfolding extends_def by metis

definition pointers_of :: "sorm_object \<Rightarrow> addr set" where
  "pointers_of obj = {p. p \<noteq> 0 \<and> (\<exists>cl \<in> set (cells obj). val cl = M_ptr p)}"

lemma bind_value_frame:
  assumes "has_cell obj i" and "\<And>p. p \<in> pointers_of obj \<Longrightarrow> blocks h' p = blocks h p"
  shows "column_bind_value obj (int i) h' = column_bind_value obj (int i) h"
proof -
  have *: "load_str h' p = load_str h p \<and> load_bytes h' p n = load_bytes h p n"
    if "val (cells obj ! i) = M_ptr p" "p \<noteq> 0" for p n
  proof -
    have "cells obj ! i \<in> set (cells obj)" using assms(1) by (simp add: has_cell_def)
    with that have "p \<in> pointers_of obj" by (auto simp: pointers_of_def)
    then show ?thesis using assms(2) by (simp add: load_str_def load_bytes_def load_def)
  qed
  show ?thesis
    unfolding column_bind_value_def cell_ops [OF assms(1)] bind.bind_lunit
    by (cases "column_at (desc obj) (int i)"; cases "val (cells obj ! i)")
      (auto simp: * split: sorm_type_t.splits sorm_mem_t.splits)
qed

lemma bind_value_extends:
  assumes "has_cell obj i" and "extends h h'" and "column_bind_value obj (int i) h = Some (Inr v)"
  shows "column_bind_value obj (int i) h' = Some (Inr v)"
proof -
  have "load h' p = load h p" if "load h p \<noteq> None" for p
    using assms(2) that by (auto simp: extends_def load_def)
  then have "load_str h p = Some s \<Longrightarrow> load_str h' p = Some s"
      "load_bytes h p n = Some s \<Longrightarrow> load_bytes h' p n = Some s" for p s n
    by (auto simp: load_str_def load_bytes_def split: option.splits)
  with assms(3) show ?thesis
    unfolding column_bind_value_def cell_ops [OF assms(1)] bind.bind_lunit
    by (cases "column_at (desc obj) (int i)"; cases "val (cells obj ! i)")
      (auto split: sorm_type_t.splits sorm_mem_t.splits if_splits)
qed

lemma bind_value_cell:
  "has_cell obj i \<Longrightarrow> has_cell obj' i \<Longrightarrow> desc obj' = desc obj \<Longrightarrow> cells obj' ! i = cells obj ! i \<Longrightarrow>
   column_bind_value obj' (int i) h = column_bind_value obj (int i) h"
  by (simp add: column_bind_value_def cell_ops)

definition column_holds ::
  "'db sqlite3_api \<Rightarrow> stmt \<Rightarrow> int \<Rightarrow> 'db \<Rightarrow> heap \<Rightarrow> sorm_object \<Rightarrow> nat \<Rightarrow> bool" where
  "column_holds api st ri d h obj i \<longleftrightarrow>
     (if ri = NO_INDEXES_IN_RESULT then cells obj ! i = fresh_cell (columns (desc obj) ! i)
      else \<forall>v. column_answers api st ri d v \<longrightarrow>
        (sorm_is_stat_valued (stat (cells obj ! i)) \<longrightarrow> v \<noteq> Bind_null) \<and>
        (storable (columns (desc obj) ! i) v \<longrightarrow>
           column_bind_value obj (int i) h = Some (Inr (read_back (columns (desc obj) ! i) v)) \<and>
           (v \<noteq> Bind_null \<longrightarrow> sorm_is_stat_valued (stat (cells obj ! i)))))"

definition row_holds :: "'db sqlite3_api \<Rightarrow> stmt \<Rightarrow> int list \<Rightarrow> 'db \<Rightarrow> heap \<Rightarrow> sorm_object \<Rightarrow> bool" where
  "row_holds api st xs d h obj \<longleftrightarrow>
     (\<forall>i < length (columns (desc obj)). column_holds api st (xs ! i) d h obj i) \<and>
     pointers_of obj \<subseteq> owned obj"

lemma column_null:
  assumes "wf_object obj" and "i < length (columns (desc obj))" and "sqlite3_column_type api st ri d = SQLITE_NULL"
    and "st \<noteq> 0"
  shows "i_sqlite3_column api al obj st (int i) ri d h = Some (SORM_OK, obj, h)"
  using assms put_cell_simps(7) [of obj i]
  by (simp add: i_sqlite3_column_def column_at_wf cell_ops [OF wf_object_has [OF assms(1,2)]])

lemma zero_member_ptr: "zero_member c = M_ptr p \<Longrightarrow> p = 0"
  by (auto simp: zero_member_def Let_def split: sorm_type_t.splits sorm_mem_t.splits)

lemma stat_needfree_self [simp]: "sorm_is_stat_needfree SORM_STAT_NEEDFREE"
  using stat_or_needfree(1) [of 0] by simp

text \<open>A pointer that reading stores is one the object has to free.\<close>

lemma column_pointer:
  assumes wf: "wf_object obj" and i: "i < length (columns (desc obj))"
    and fr: "cells obj ! i = fresh_cell (columns (desc obj) ! i)"
    and run: "i_sqlite3_column api al obj st (int i) ri d h = Some (SORM_OK, obj', h')"
    and p: "val (cells obj' ! i) = M_ptr p" "p \<noteq> 0"
  shows "p \<in> owned_cell (cells obj' ! i)"
proof -
  note has = wf_object_has [OF wf i] and col = column_at_wf [OF wf i]
  note ops = cell_ops [OF has] cell_ops [of "put_cell obj i x" i for x, simplified, OF has]
  show ?thesis
    using run p has
    unfolding i_sqlite3_column_def if_not_P [OF column_open [OF run]] Let_def col ops fr fresh_cell_def bind.bind_lunit
    by (auto simp: ops bind_Some_iff owned_cell_def fresh_cell_def fr dest: zero_member_ptr
        split: if_splits sorm_type_t.splits sorm_mem_t.splits member.splits)
qed

lemma pointers_put:
  assumes "pointers_of obj \<subseteq> owned obj" and "owned_cell (cells obj ! i) = {}"
    and "\<And>p. val cl = M_ptr p \<Longrightarrow> p \<noteq> 0 \<Longrightarrow> p \<in> owned_cell cl"
  shows "pointers_of (put_cell obj i cl) \<subseteq> owned (put_cell obj i cl)"
proof
  fix p assume "p \<in> pointers_of (put_cell obj i cl)"
  then obtain k where k: "k < length (cells obj)" "val ((cells obj)[i := cl] ! k) = M_ptr p" "p \<noteq> 0"
    by (auto simp: pointers_of_def put_cell_def in_set_conv_nth)
  show "p \<in> owned (put_cell obj i cl)"
  proof (cases "k = i")
    case True
    then have "p \<in> owned_cell cl" "cl \<in> set (cells (put_cell obj i cl))"
      using k assms(3) by (auto simp: put_cell_def set_update_memI)
    then show ?thesis by (auto simp: owned_def)
  next
    case False
    then have "p \<in> pointers_of obj" using k nth_mem [OF k(1)] by (fastforce simp: pointers_of_def)
    then obtain m where m: "m < length (cells obj)" "p \<in> owned_cell (cells obj ! m)"
      using assms(1) by (fastforce simp: owned_def in_set_conv_nth)
    then have "m \<noteq> i" using assms(2) by auto
    then have "cells obj ! m \<in> set (cells (put_cell obj i cl))"
      using m by (auto simp: put_cell_def in_set_conv_nth intro!: exI [of _ m])
    then show ?thesis using m by (auto simp: owned_def)
  qed
qed

lemma owned_fresh [simp]: "owned_cell (fresh_cell c) = {}"
  by (simp add: owned_cell_def fresh_cell_def stat_needfree_bit)

text \<open>One column: what was read is held, and the columns read before are held as before.\<close>

lemma column_step_holds:
  assumes al: "allocator_ok al" "memory_lasts al" and wf: "wf_object obj" and i: "i < length (columns (desc obj))"
    and h: "heap_ok h" and fr: "cells obj ! i = fresh_cell (columns (desc obj) ! i)"
    and ri: "ri \<noteq> NO_INDEXES_IN_RESULT"
    and run: "i_sqlite3_column api al obj st (int i) ri d h = Some (SORM_OK, obj', h')"
  shows "column_holds api st ri d h' obj' i"
proof -
  have nf: "\<not> sorm_is_stat_needfree (stat (cells obj ! i))" by (simp add: fr fresh_cell_def stat_needfree_bit)
  from sqlite3_column_filled [OF al(1) wf i h nf run] obtain cl where o': "obj' = put_cell obj i cl" by blast
  note has = wf_object_has [OF wf i]
  have v: "column_bind_value obj' (int i) h' = Some (Inr (read_back (columns (desc obj) ! i) v)) \<and>
      (sorm_is_stat_valued (stat (cells obj' ! i)) \<longleftrightarrow> v \<noteq> Bind_null)"
    if "column_answers api st ri d v" "storable (columns (desc obj) ! i) v" for v
    using read_value [OF al(1) wf i fr that(2,1) h memory_lasts_gives [OF al(2) h] column_open [OF run]] run has by auto
  have "\<not> sorm_is_stat_valued (stat (cells obj' ! i))" if "column_answers api st ri d Bind_null"
    using column_null [OF wf i _ column_open [OF run], of api ri d al h] that run
    by (simp add: column_answers_def fr fresh_cell_def stat_valued_bit)
  with v o' ri show ?thesis by (auto simp: column_holds_def)
qed

lemma column_holds_put:
  assumes "wf_object obj" and "wf_object (put_cell obj i cl)" and "j < length (columns (desc obj))" and "j \<noteq> i"
    and "extends h h'" and "column_holds api st ri d h obj j"
  shows "column_holds api st ri d h' (put_cell obj i cl) j"
proof -
  have has: "has_cell obj j" using assms by (intro wf_object_has)
  have "column_bind_value (put_cell obj i cl) (int j) h' = Some (Inr v)"
    if "column_bind_value obj (int j) h = Some (Inr v)" for v
    using bind_value_extends [OF has assms(5) that] bind_value_cell [of obj j "put_cell obj i cl" h'] has assms(4)
    by simp
  then show ?thesis using assms(4,6) by (auto simp: column_holds_def)
qed

lemma parse_columns_holds:
  assumes al: "allocator_ok al" "memory_lasts al"
    and "row_ok (pool_of al) h0 h obj" and "distinct js" and "set js \<subseteq> {..< length (columns (desc obj))}"
    and "length xs = length (columns (desc obj))"
    and "\<And>i. i \<in> set js \<Longrightarrow> cells obj ! i = fresh_cell (columns (desc obj) ! i)"
    and "\<And>i. i < length (columns (desc obj)) \<Longrightarrow> i \<notin> set js \<Longrightarrow> column_holds api st (xs ! i) d h obj i"
    and "pointers_of obj \<subseteq> owned obj"
    and "parse_columns api al st xs js d obj h = Some (SORM_OK, obj', h')"
  shows "row_holds api st xs d h' obj'"
  using assms(3-)
proof (induction js arbitrary: obj h)
  case Nil
  then show ?case by (auto simp: row_holds_def)
next
  case (Cons i js)
  have i: "i < length (columns (desc obj))" and fr: "cells obj ! i = fresh_cell (columns (desc obj) ! i)"
    using Cons.prems by auto
  have wf: "wf_object obj" and hok: "heap_ok h" using Cons.prems(1) by (auto simp: row_ok_def object_ok_def)
  have x: "nth_opt xs (int i) = Some (xs ! i)" using i Cons.prems(4) by (simp add: nth_opt_def)
  show ?case
  proof (cases "xs ! i = NO_INDEXES_IN_RESULT")
    case True
    show ?thesis
    proof (rule Cons.IH [OF Cons.prems(1)])
      show "column_holds api st (xs ! j) d h obj j" if "j < length (columns (desc obj))" "j \<notin> set js" for j
        using that Cons.prems(6) [of j] True fr by (cases "j = i") (auto simp: column_holds_def)
    qed (use Cons.prems True x in auto)
  next
    case False
    then obtain o1 h1 where c: "i_sqlite3_column api al obj st (int i) (xs ! i) d h = Some (SORM_OK, o1, h1)"
      and rest: "parse_columns api al st xs js d o1 h1 = Some (SORM_OK, obj', h')"
      using Cons.prems(8) x by (auto simp: bind_Some_iff split: if_splits)
    have nf: "\<not> sorm_is_stat_needfree (stat (cells obj ! i))" by (simp add: fr fresh_cell_def stat_needfree_bit)
    from sqlite3_column_filled [OF al(1) wf i hok nf c] obtain cl where
      o1: "o1 = put_cell obj i cl" and cl: "wf_cell (columns (desc obj) ! i) cl"
        "cell_filled (pool_of al) h h1 cl" by blast
    have row: "row_ok (pool_of al) h0 h1 o1" unfolding o1 using Cons.prems(1) i nf cl by (rule row_ok_put)
    have wf1: "wf_object (put_cell obj i cl)" using row o1 by (simp add: row_ok_def object_ok_def)
    have cl_i: "cells o1 ! i = cl" using wf_object_has [OF wf i] o1 by simp
    show ?thesis
    proof (rule Cons.IH [OF row])
      show "cells o1 ! j = fresh_cell (columns (desc o1) ! j)" if "j \<in> set js" for j
        using that Cons.prems(2,5) o1 by (cases "j = i") auto
      show "column_holds api st (xs ! j) d h1 o1 j" if "j < length (columns (desc o1))" "j \<notin> set js" for j
      proof (cases "j = i")
        case True
        then show ?thesis using column_step_holds [OF al wf i hok fr False c] by simp
      next
        case other: False
        have "column_holds api st (xs ! j) d h obj j" using that other Cons.prems(6) [of j] o1 by simp
        then show ?thesis unfolding o1
          using column_holds_put [OF wf wf1 _ other cell_filled_extends [OF cl(2)]] that(1) o1 by simp
      qed
      show "pointers_of o1 \<subseteq> owned o1" unfolding o1
        by (rule pointers_put) (use Cons.prems(7) fr column_pointer [OF wf i fr c] cl_i in auto)
    qed (use Cons.prems(2-4) o1 rest in auto)
  qed
qed

text \<open>A row whose selected columns are all \<open>NULL\<close> or a value the column can store: reading it succeeds.\<close>

definition column_fits :: "'db sqlite3_api \<Rightarrow> stmt \<Rightarrow> int \<Rightarrow> 'db \<Rightarrow> sorm_column_descriptor_t \<Rightarrow> bool" where
  "column_fits api st ri d c \<longleftrightarrow> sqlite3_column_type api st ri d = SQLITE_NULL \<or>
     (\<exists>v. column_answers api st ri d v \<and> storable c v)"

definition row_fits :: "'db sqlite3_api \<Rightarrow> stmt \<Rightarrow> sorm_table_descriptor_t \<Rightarrow> int list \<Rightarrow> 'db \<Rightarrow> bool" where
  "row_fits api st td xs d \<longleftrightarrow> (\<forall>i < length (columns td).
     xs ! i \<noteq> NO_INDEXES_IN_RESULT \<longrightarrow> column_fits api st (xs ! i) d (columns td ! i))"

lemma column_fits_ok:
  assumes al: "allocator_ok al" "memory_lasts al" and wf: "wf_object obj" and i: "i < length (columns (desc obj))"
    and h: "heap_ok h" and fr: "cells obj ! i = fresh_cell (columns (desc obj) ! i)"
    and fits: "column_fits api st ri d (columns (desc obj) ! i)"
    and run: "i_sqlite3_column api al obj st (int i) ri d h = Some (ret, obj', h')"
  shows "ret = SORM_OK"
  using fits unfolding column_fits_def
proof
  assume "sqlite3_column_type api st ri d = SQLITE_NULL"
  then show ?thesis using column_null [OF wf i _ column_open [OF run], of api ri d al h] run by simp
next
  assume "\<exists>v. column_answers api st ri d v \<and> storable (columns (desc obj) ! i) v"
  then show ?thesis using read_value [OF al(1) wf i fr _ _ h memory_lasts_gives [OF al(2) h] column_open [OF run]] run by fastforce
qed

lemma parse_columns_fits:
  assumes al: "allocator_ok al" "memory_lasts al"
    and "row_ok (pool_of al) h0 h obj" and "distinct js" and "set js \<subseteq> {..< length (columns (desc obj))}"
    and "length xs = length (columns (desc obj))"
    and "\<And>i. i \<in> set js \<Longrightarrow> cells obj ! i = fresh_cell (columns (desc obj) ! i)"
    and "row_fits api st (desc obj) xs d"
    and "parse_columns api al st xs js d obj h = Some (ret, obj', h')"
  shows "ret = SORM_OK"
  using assms(3-)
proof (induction js arbitrary: obj h)
  case (Cons i js)
  have i: "i < length (columns (desc obj))" and fr: "cells obj ! i = fresh_cell (columns (desc obj) ! i)"
    using Cons.prems by auto
  have wf: "wf_object obj" and hok: "heap_ok h" using Cons.prems(1) by (auto simp: row_ok_def object_ok_def)
  have x: "nth_opt xs (int i) = Some (xs ! i)" using i Cons.prems(4) by (simp add: nth_opt_def)
  show ?case
  proof (cases "xs ! i = NO_INDEXES_IN_RESULT")
    case True
    show ?thesis by (rule Cons.IH [OF Cons.prems(1)]) (use Cons.prems True x in auto)
  next
    case False
    obtain r o1 h1 where c: "i_sqlite3_column api al obj st (int i) (xs ! i) d h = Some (r, o1, h1)"
      using Cons.prems(7) x False by (auto simp: bind_Some_iff)
    have r: "r = SORM_OK"
      using column_fits_ok [OF al wf i hok fr _ c] Cons.prems(6) i False by (simp add: row_fits_def)
    then have rest: "parse_columns api al st xs js d o1 h1 = Some (ret, obj', h')"
      using Cons.prems(7) x False c by simp
    have nf: "\<not> sorm_is_stat_needfree (stat (cells obj ! i))" by (simp add: fr fresh_cell_def stat_needfree_bit)
    from sqlite3_column_filled [OF al(1) wf i hok nf c] obtain cl where
      o1: "o1 = put_cell obj i cl" and cl: "wf_cell (columns (desc obj) ! i) cl"
        "cell_filled (pool_of al) h h1 cl" by blast
    have row: "row_ok (pool_of al) h0 h1 o1" unfolding o1 using Cons.prems(1) i nf cl by (rule row_ok_put)
    show ?thesis
    proof (rule Cons.IH [OF row])
      show "cells o1 ! j = fresh_cell (columns (desc o1) ! j)" if "j \<in> set js" for j
        using that Cons.prems(2,5) o1 by (cases "j = i") auto
    qed (use Cons.prems(2-4,6) o1 rest in auto)
  qed
qed simp

text \<open>Reading a row into a new object.\<close>

lemma parse_new_object:
  assumes al: "allocator_ok al" "memory_lasts al" and api: "columns_consistent api" and st: "st \<noteq> 0"
    and td: "wf_table td" and h: "heap_ok h" and xs: "length xs = length (columns td)"
  shows "\<exists>ret obj h'. i_parse_select_result api al st xs d (new_object td) h = Some (ret, obj, h') \<and>
    row_ok (pool_of al) h h' obj \<and> desc obj = td \<and> (ret = SORM_OK \<longrightarrow> row_holds api st xs d h' obj) \<and>
    (row_fits api st td xs d \<longrightarrow> ret = SORM_OK)"
proof -
  let ?o = "new_object td" and ?js = "[0..<length (columns td)]"
  note row = row_ok_new [OF td h, of "pool_of al"]
  have js: "column_indexes td = ?js" using td by (simp add: column_indexes_def wf_table_columns_num)
  have fr: "\<not> sorm_is_stat_needfree (stat (cells ?o ! i))" if "i < length (columns td)" for i
    using that by (simp add: fresh_cell_def stat_needfree_bit)
  obtain ret obj h' where run: "parse_columns api al st xs ?js d ?o h = Some (ret, obj, h')"
    using parse_columns_returns [OF al api st row, of ?js xs d] fr xs by (auto simp: subset_iff)
  have "row_ok (pool_of al) h h' obj \<and> desc obj = td"
    using parse_columns_ok [OF al(1) row _ _ _ run] fr by (auto simp: subset_iff)
  moreover have "row_holds api st xs d h' obj" if "ret = SORM_OK"
  proof (rule parse_columns_holds [OF al row _ _ _ _ _ _ run [unfolded that]])
    show "pointers_of ?o \<subseteq> owned ?o"
      by (auto simp: pointers_of_def new_object_def dest: zero_member_ptr)
  qed (use xs in auto)
  moreover have "ret = SORM_OK" if "row_fits api st td xs d"
    using parse_columns_fits [OF al row _ _ _ _ _ run] that xs by (auto simp: subset_iff)
  ultimately show ?thesis using run js by (auto simp: i_parse_select_result_def)
qed

section \<open>An allocator and a database for concrete runs\<close>

text \<open>An application's allocator whose pool never runs out.\<close>

definition arena_alloc :: "nat \<Rightarrow> content \<Rightarrow> heap \<Rightarrow> addr \<times> heap" where
  "arena_alloc pool c h =
     (if brk h = 0 then (0, h)
      else (brk h, h\<lparr>blocks := (blocks h)(brk h \<mapsto> \<lparr>owner = Some pool, content = c\<rparr>), brk := Suc (brk h)\<rparr>))"

definition arena :: sorm_allocator_t where
  "arena = \<lparr>
     alloc_fn = (\<lambda>pool n h. arena_alloc pool (C_raw n) h),
     free_fn = (\<lambda>pool p h. if p = 0 then Some h else case blocks h p of
        Some b \<Rightarrow> if owner b = Some pool then Some (h\<lparr>blocks := (blocks h)(p := None)\<rparr>) else None
      | None \<Rightarrow> None),
     strdup_fn = (\<lambda>pool s h. arena_alloc pool (C_bytes (s @ [NUL])) h),
     memory_pool = 7\<rparr>"

lemma arena_alloc_fresh:
  "heap_ok h \<Longrightarrow> arena_alloc pool c h = (p, h') \<Longrightarrow>
   p \<noteq> 0 \<and> blocks h p = None \<and> heap_ok h' \<and> blocks h' = (blocks h)(p \<mapsto> \<lparr>owner = Some pool, content = c\<rparr>)"
  by (auto simp: arena_alloc_def heap_ok_def)

interpretation arena: alloc_contract "i_malloc (Some arena)" "i_free (Some arena)" "i_strdup (Some arena)"
  "pool_of (Some arena)"
proof (unfold_locales, goal_cases)
  case (2 h n p h')
  then have "arena_alloc 7 (C_raw n) h = (p, h')"
    by (auto simp: i_malloc_def arena_def split: prod.splits if_splits)
  with arena_alloc_fresh [OF 2(1)] show ?case by (auto simp: pool_of_def arena_def)
next
  case (6 h s p h')
  then have "arena_alloc 7 (C_bytes (s @ [NUL])) h = (p, h')"
    by (auto simp: i_strdup_def arena_def split: prod.splits if_splits)
  with arena_alloc_fresh [OF 6(1)] show ?case by (auto simp: pool_of_def arena_def)
qed (auto simp: i_malloc_def i_free_def i_strdup_def arena_def pool_of_def heap_ok_def)

lemma arena_ok: "allocator_ok (Some arena)"
  unfolding allocator_ok_def by (rule arena.alloc_contract_axioms)

lemma arena_lasts: "memory_lasts (Some arena)"
proof -
  have "arena_alloc pool c h \<noteq> (0, h')" if "heap_ok h" for pool c h h'
    using arena_alloc_fresh [OF that] by blast
  then show ?thesis
    by (auto simp: memory_lasts_def i_malloc_def i_strdup_def arena_def split: prod.splits option.splits)
qed

text \<open>
  A database that answers a list of rows, the row before the first included: \<open>sqlite3_step\<close> goes on
  to the next row. Texts and blobs have at most a thousand characters.
\<close>

definition rows_value :: "int \<Rightarrow> bind_value list list \<Rightarrow> bind_value" where
  "rows_value ri d = (case d of [] \<Rightarrow> Bind_null | r # rs \<Rightarrow> if 0 \<le> ri \<and> nat ri < length r then r ! nat ri else Bind_null)"

definition rows_bytes :: "bind_value \<Rightarrow> char list" where
  "rows_bytes v = (case v of Bind_text s \<Rightarrow> take 1000 s | Bind_blob s \<Rightarrow> take 1000 s | _ \<Rightarrow> [])"

definition rows_api :: "bind_value list list sqlite3_api" where
  "rows_api = \<lparr>
     sqlite3_open = (\<lambda>path d. (0, d)), sqlite3_close = (\<lambda>d. (0, d)),
     sqlite3_prepare = (\<lambda>sql d. (0, 1, d)), sqlite3_bind = (\<lambda>st i v d. (0, d)),
     sqlite3_step = (\<lambda>st d. (if tl d = [] then 101 else 100, tl d)), sqlite3_finalize = (\<lambda>st d. (0, d)),
     sqlite3_column_type = (\<lambda>st i d. if rows_value i d = Bind_null then 5 else 1),
     sqlite3_column_int = (\<lambda>st i d. case rows_value i d of Bind_int x \<Rightarrow> x | _ \<Rightarrow> 0),
     sqlite3_column_int64 = (\<lambda>st i d. case rows_value i d of Bind_int64 x \<Rightarrow> x | _ \<Rightarrow> 0),
     sqlite3_column_double = (\<lambda>st i d. case rows_value i d of Bind_double x \<Rightarrow> x | _ \<Rightarrow> 0),
     sqlite3_column_text = (\<lambda>st i d. case rows_value i d of Bind_text s \<Rightarrow> Some (take 1000 s)
        | Bind_blob s \<Rightarrow> Some (take 1000 s) | _ \<Rightarrow> None),
     sqlite3_column_blob = (\<lambda>st i d. case rows_value i d of Bind_text s \<Rightarrow> (if s = [] then None else Some (take 1000 s))
        | Bind_blob s \<Rightarrow> (if s = [] then None else Some (take 1000 s)) | _ \<Rightarrow> None),
     sqlite3_column_bytes = (\<lambda>st i d. word_of_int (int (length (rows_bytes (rows_value i d))))),
     sqlite3_last_insert_rowid = (\<lambda>d. 0), sqlite3_changes = (\<lambda>d. 0)\<rparr>"

lemma rows_api_consistent: "columns_consistent rows_api"
  unfolding columns_consistent_def
proof (intro allI, goal_cases)
  case (1 st ri d)
  have "length (rows_bytes v) \<le> 1000" for v by (auto simp: rows_bytes_def split: bind_value.splits)
  then have "length (rows_bytes v) < 2 ^ 31" for v
    using le_less_trans [of "length (rows_bytes v)" 1000 "2 ^ 31"] by simp
  then have "sint (word_of_int (int (length (rows_bytes v))) :: 32 word) = int (length (rows_bytes v))" for v
    by (intro sint_word_of_int_small) auto
  then show ?case by (auto simp: rows_api_def rows_bytes_def split: bind_value.splits)
qed

lemma rows_api_answers:
  "rows_value ri d = v \<Longrightarrow> value_size v \<le> 1000 \<Longrightarrow> column_answers rows_api st ri d v"
  by (auto simp: column_answers_def rows_api_def SQLITE_NULL_def rows_bytes_def split: bind_value.splits)

section \<open>Reading a row\<close>

text \<open>
  C16: Reading a row. With an allocator that keeps its contract and has memory, and one position per
  column, \<open>_parse_select_result\<close> on a new object returns, whatever the row holds, and returns \<open>SORM_OK\<close>
  when every selected column is \<open>NULL\<close> or a value of the column. After \<open>SORM_OK\<close> every
  selected column holds the value SQLite answered for it, \<open>NULL\<close> leaving the column not valued, and
  a column that was not selected is as in the new object. And after any result, error included,
  \<open>sorm_free\<close> on the object returns and gives back exactly the memory the row took.
\<close>

theorem row_read_and_freed:
  assumes "allocator_ok al" and "memory_lasts al" and "columns_consistent api"
    and "st \<noteq> 0" and "wf_table td" and "heap_ok h" and "length xs = length (columns td)"
  shows "\<exists>ret obj h1 h2. i_parse_select_result api al st xs d (new_object td) h = Some (ret, obj, h1) \<and>
    (ret = SORM_OK \<longrightarrow> row_holds api st xs d h1 obj) \<and> (row_fits api st td xs d \<longrightarrow> ret = SORM_OK) \<and>
    sorm_free al (Some obj) h1 = Some h2 \<and> heap_ok h2 \<and> blocks h2 = blocks h"
  using parse_new_object [OF assms, of d] row_ok_free [OF assms(1)] by blast

theorem row_read_and_freed_witness:
  "\<exists>ret obj h1 h2. i_parse_select_result rows_api (Some arena) 1 [0, -1, 1] [[Bind_int 5, Bind_text ''abc'']]
      (new_object demo_table) (hp (start_world ())) = Some (ret, obj, h1) \<and>
    ret = SORM_OK \<and> column_bind_value obj 2 h1 = Some (Inr (Bind_text ''abc'')) \<and>
    sorm_free (Some arena) (Some obj) h1 = Some h2 \<and> blocks h2 = blocks (hp (start_world ()))"
proof -
  let ?d = "[[Bind_int 5, Bind_text ''abc'']]" and ?h = "hp (start_world ())" and ?xs = "[0, -1, 1]"
  obtain ret obj h1 h2 where r: "i_parse_select_result rows_api (Some arena) 1 ?xs ?d (new_object demo_table) ?h
      = Some (ret, obj, h1)" "ret = SORM_OK \<longrightarrow> row_holds rows_api 1 ?xs ?d h1 obj"
      "row_fits rows_api 1 demo_table ?xs ?d \<longrightarrow> ret = SORM_OK"
      "sorm_free (Some arena) (Some obj) h1 = Some h2" "blocks h2 = blocks ?h"
    using row_read_and_freed [OF arena_ok arena_lasts rows_api_consistent one_neq_zero wf_demo_table heap_ok_start [of "()"],
        where xs = ?xs and d = ?d] by auto
  have "desc obj = demo_table"
    using parse_new_object [OF arena_ok arena_lasts rows_api_consistent one_neq_zero wf_demo_table heap_ok_start [of "()"],
        where xs = ?xs and d = ?d] r(1) by auto
  moreover have "column_answers rows_api 1 1 ?d (Bind_text ''abc'')"
    by (rule rows_api_answers) (simp_all add: rows_value_def)
  moreover have "column_answers rows_api 1 0 ?d (Bind_int 5)"
    by (rule rows_api_answers) (simp_all add: rows_value_def)
  then have fits: "row_fits rows_api 1 demo_table ?xs ?d" using calculation(2)
    by (auto simp: row_fits_def column_fits_def NO_INDEXES_IN_RESULT_def storable_def mem_legal_def too_long_def
        demo_column_def no_nul_def less_Suc_eq numeral_3_eq_3)
  ultimately have "row_holds rows_api 1 ?xs ?d h1 obj \<Longrightarrow> column_bind_value obj 2 h1 = Some (Inr (Bind_text ''abc''))"
    by (auto simp: row_holds_def column_holds_def NO_INDEXES_IN_RESULT_def storable_def mem_legal_def too_long_def
        demo_column_def read_back_def no_nul_def dest!: spec [of _ 2])
  with r fits show ?thesis by blast
qed

end
