(* ===== verification/Sorm_List.thy ===== *)
theory Sorm_List
  imports Sorm_Row
begin

text \<open>
  The lists of rows (\<open>sorm_list_t\<close> in \<^verbatim>\<open>src/src/sorm.h\<close>, \<open>_list_free\<close> and \<open>__list_cpy_free\<close> in
  \<^verbatim>\<open>src/src/sorm.c\<close>): circular doubly linked lists on the heap, whose nodes point to the row objects.
  The macros that walk a list are loops that follow the pointers, so they are partial functions; on
  a list that represents a sequence they are shown to return, and what they leave of the heap is
  computed exactly.
\<close>

section \<open>Nodes\<close>

definition sizeof_list :: nat where "sizeof_list = 24"

text \<open>Reading a member of a node; a fresh block has no members to read yet.\<close>

definition node_at :: "heap \<Rightarrow> addr \<Rightarrow> (addr \<times> addr \<times> addr) option" where
  "node_at h p = (case load h p of Some (C_node n q d) \<Rightarrow> Some (n, q, d) | _ \<Rightarrow> None)"

definition get_next :: "heap \<Rightarrow> addr \<Rightarrow> addr option" where
  "get_next h p = map_option (\<lambda>(n, q, d). n) (node_at h p)"

definition get_prev :: "heap \<Rightarrow> addr \<Rightarrow> addr option" where
  "get_prev h p = map_option (\<lambda>(n, q, d). q) (node_at h p)"

definition get_data :: "heap \<Rightarrow> addr \<Rightarrow> addr option" where
  "get_data h p = map_option (\<lambda>(n, q, d). d) (node_at h p)"

text \<open>Writing a member of a node or of a fresh block of the size of a node.\<close>

definition set_node :: "heap \<Rightarrow> addr \<Rightarrow> (addr \<times> addr \<times> addr \<Rightarrow> addr \<times> addr \<times> addr) \<Rightarrow> heap option" where
  "set_node h p f =
     do { (n, q, d) \<leftarrow> (case load h p of
             Some (C_node n q d) \<Rightarrow> Some (n, q, d)
           | Some (C_raw k) \<Rightarrow> if k = sizeof_list then Some (0, 0, 0) else None
           | _ \<Rightarrow> None);
          Some (store h p (case f (n, q, d) of (n, q, d) \<Rightarrow> C_node n q d)) }"

definition set_next :: "heap \<Rightarrow> addr \<Rightarrow> addr \<Rightarrow> heap option" where
  "set_next h p a = set_node h p (\<lambda>(n, q, d). (a, q, d))"

definition set_prev :: "heap \<Rightarrow> addr \<Rightarrow> addr \<Rightarrow> heap option" where
  "set_prev h p a = set_node h p (\<lambda>(n, q, d). (n, a, d))"

definition set_data :: "heap \<Rightarrow> addr \<Rightarrow> addr \<Rightarrow> heap option" where
  "set_data h p a = set_node h p (\<lambda>(n, q, d). (n, q, a))"

section \<open>Operations\<close>

definition init_list_head :: "addr \<Rightarrow> heap \<Rightarrow> heap option" where
  "init_list_head head h = do { h \<leftarrow> set_next h head head; set_prev h head head }"

definition i_list_add :: "addr \<Rightarrow> addr \<Rightarrow> addr \<Rightarrow> heap \<Rightarrow> heap option" where
  "i_list_add new prev next h =
     do { n \<leftarrow> get_next h prev;
          h \<leftarrow> set_next h new n;
          h \<leftarrow> set_next h prev new;
          q \<leftarrow> get_prev h next;
          h \<leftarrow> set_prev h new q;
          set_prev h next new }"

definition list_add_tail :: "addr \<Rightarrow> addr \<Rightarrow> heap \<Rightarrow> heap option" where
  "list_add_tail new head h = do { q \<leftarrow> get_prev h head; i_list_add new q head h }"

definition list_add_head :: "addr \<Rightarrow> addr \<Rightarrow> heap \<Rightarrow> heap option" where
  "list_add_head new head h = do { n \<leftarrow> get_next h head; i_list_add new head n h }"

text \<open>\<open>sorm_free\<close> on a pointer: the object at the head of the block is the one freed.\<close>

definition object_at :: "heap \<Rightarrow> addr \<Rightarrow> nat \<Rightarrow> sorm_object option" where
  "object_at h p k =
     (case load h p of
        Some (C_objects os) \<Rightarrow> if k < length os then Some (os ! k) else None
      | _ \<Rightarrow> None)"

definition set_object :: "heap \<Rightarrow> addr \<Rightarrow> nat \<Rightarrow> sorm_object \<Rightarrow> heap option" where
  "set_object h p k obj =
     (case load h p of
        Some (C_objects os) \<Rightarrow> if k < length os then Some (store h p (C_objects (os[k := obj]))) else None
      | _ \<Rightarrow> None)"

definition sorm_free_ptr :: "sorm_allocator_t option \<Rightarrow> addr \<Rightarrow> heap \<Rightarrow> heap option" where
  "sorm_free_ptr allocator p h =
     (if p = 0 then sorm_free allocator None h
      else do { obj \<leftarrow> object_at h p 0; sorm_free allocator (Some obj) h })"

text \<open>\<open>sorm_list_for_each_safe\<close>: the node after the current one is read before the body frees it.\<close>

partial_function (option) list_free_loop ::
  "sorm_allocator_t option \<Rightarrow> (addr \<Rightarrow> heap \<Rightarrow> heap option) option \<Rightarrow> addr \<Rightarrow> addr \<Rightarrow> addr \<Rightarrow>
   heap \<Rightarrow> heap option" where
  "list_free_loop allocator data_free head pos scratch h =
     (if pos = head then Some h
      else do { h \<leftarrow> (case data_free of
                   None \<Rightarrow> Some h
                 | Some f \<Rightarrow> do { d \<leftarrow> get_data h pos; f d h });
                h \<leftarrow> i_free allocator pos h;
                scratch' \<leftarrow> get_next h scratch;
                list_free_loop allocator data_free head scratch scratch' h })"

definition i_list_free ::
  "sorm_allocator_t option \<Rightarrow> addr \<Rightarrow> (addr \<Rightarrow> heap \<Rightarrow> heap option) option \<Rightarrow> heap \<Rightarrow> heap option" where
  "i_list_free allocator list data_free h =
     (if list \<noteq> 0
      then do { pos \<leftarrow> get_next h list;
                scratch \<leftarrow> get_next h pos;
                h \<leftarrow> list_free_loop allocator data_free list pos scratch h;
                i_free allocator list h }
      else Some h)"

definition sorm_list_free :: "sorm_allocator_t option \<Rightarrow> addr \<Rightarrow> heap \<Rightarrow> heap option" where
  "sorm_list_free allocator head h = i_list_free allocator head (Some (sorm_free_ptr allocator)) h"

text \<open>\<open>memcpy\<close> of \<open>table_desc->size\<close> bytes moves one object.\<close>

partial_function (option) list_cpy_loop ::
  "sorm_allocator_t option \<Rightarrow> addr \<Rightarrow> addr \<Rightarrow> addr \<Rightarrow> addr \<Rightarrow> nat \<Rightarrow> heap \<Rightarrow> (nat \<times> heap) option" where
  "list_cpy_loop allocator rows head pos scratch i h =
     (if pos = head then Some (i, h)
      else do { d \<leftarrow> get_data h pos;
                obj \<leftarrow> object_at h d 0;
                h \<leftarrow> set_object h rows i obj;
                h \<leftarrow> i_free allocator d h;
                h \<leftarrow> i_free allocator pos h;
                scratch' \<leftarrow> get_next h scratch;
                list_cpy_loop allocator rows head scratch scratch' (Suc i) h })"

definition i_list_cpy_free ::
  "sorm_allocator_t option \<Rightarrow> addr \<Rightarrow> int \<Rightarrow> addr \<Rightarrow> heap \<Rightarrow> heap option" where
  "i_list_cpy_free allocator list n rows h =
     (if list = 0 \<or> rows = 0 then None
      else do { pos \<leftarrow> get_next h list;
                scratch \<leftarrow> get_next h pos;
                (i, h) \<leftarrow> list_cpy_loop allocator rows list pos scratch 0 h;
                if int i = n then i_free allocator list h else None })"


section \<open>Writes that keep the shape of the heap\<close>

text \<open>Only contents of blocks in \<open>S\<close> differ.\<close>

definition overwrites :: "addr set \<Rightarrow> heap \<Rightarrow> heap \<Rightarrow> bool" where
  "overwrites S h h' \<longleftrightarrow> (\<forall>a. a \<notin> S \<longrightarrow> blocks h' a = blocks h a) \<and>
     (\<forall>a. map_option owner (blocks h' a) = map_option owner (blocks h a)) \<and> brk h' = brk h \<and> room h' = room h"

lemma overwrites_refl [simp]: "overwrites S h h"
  by (simp add: overwrites_def)

lemma overwrites_store: "overwrites {p} h (store h p c)"
  by (auto simp: overwrites_def store_def option.map_comp comp_def)

lemma overwrites_trans: "overwrites S h h1 \<Longrightarrow> overwrites T h1 h2 \<Longrightarrow> overwrites (S \<union> T) h h2"
  by (simp add: overwrites_def)

lemma overwrites_mono: "overwrites S h h' \<Longrightarrow> S \<subseteq> T \<Longrightarrow> overwrites T h h'"
  by (auto simp: overwrites_def)

lemma overwrites_none: "overwrites S h h' \<Longrightarrow> blocks h' a = None \<longleftrightarrow> blocks h a = None"
  unfolding overwrites_def by (metis map_option_is_None)

lemma overwrites_ok: "overwrites S h h' \<Longrightarrow> heap_ok h' \<longleftrightarrow> heap_ok h"
  by (auto simp: heap_ok_def overwrites_none) (simp_all add: overwrites_def)

lemma overwrites_owner:
  assumes "overwrites S h h'"
  shows "(\<exists>b. blocks h' a = Some b \<and> owner b = pool) \<longleftrightarrow> (\<exists>b. blocks h a = Some b \<and> owner b = pool)"
proof -
  have *: "(\<exists>b. g a = Some b \<and> owner b = pool) \<longleftrightarrow> map_option owner (g a) = Some pool" for g :: "addr \<Rightarrow> block option"
    by auto
  show ?thesis using assms unfolding * by (simp add: overwrites_def)
qed

lemma overwrites_load: "overwrites S h h' \<Longrightarrow> a \<notin> S \<Longrightarrow> load h' a = load h a"
  by (simp add: overwrites_def load_def)

lemma node_at_cong: "load h' a = load h a \<Longrightarrow> node_at h' a = node_at h a"
  by (simp add: node_at_def)

section \<open>What a node write does\<close>

text \<open>The members a write starts from.\<close>

definition writable :: "heap \<Rightarrow> addr \<Rightarrow> addr \<times> addr \<times> addr \<Rightarrow> bool" where
  "writable h p x \<longleftrightarrow> node_at h p = Some x \<or> load h p = Some (C_raw sizeof_list) \<and> x = (0, 0, 0)"

lemma set_node_writes:
  assumes "writable h p x"
  shows "\<exists>h'. set_node h p f = Some h' \<and> node_at h' = (node_at h)(p \<mapsto> f x) \<and> overwrites {p} h h'"
proof -
  obtain n q d where fx: "f x = (n, q, d)" by (cases "f x")
  have "set_node h p f = Some (store h p (C_node n q d)) \<and> blocks h p \<noteq> None"
    using assms fx by (auto simp: writable_def set_node_def node_at_def load_def
        split: option.splits content.splits)
  moreover from this have "node_at (store h p (C_node n q d)) = (node_at h)(p \<mapsto> f x)"
    by (auto simp: node_at_def fun_eq_iff fx)
  ultimately show ?thesis using overwrites_store by blast
qed

lemma writableI: "node_at h p = Some x \<Longrightarrow> writable h p x"
  by (simp add: writable_def)

lemma init_list_head_node:
  assumes "load h p = Some (C_raw sizeof_list)"
  shows "\<exists>h'. init_list_head p h = Some h' \<and> node_at h' = (node_at h)(p \<mapsto> (p, p, 0)) \<and> overwrites {p} h h'"
proof -
  have "writable h p (0, 0, 0)" using assms by (simp add: writable_def)
  from set_node_writes [OF this, of "\<lambda>(n, q, d). (p, q, d)"] obtain h1 where
    h1: "set_next h p p = Some h1" "node_at h1 = (node_at h)(p \<mapsto> (p, 0, 0))" "overwrites {p} h h1"
    unfolding set_next_def by auto
  from set_node_writes [of h1 p "(p, 0, 0)" "\<lambda>(n, q, d). (n, p, d)"] h1(2) obtain h2 where
    h2: "set_prev h1 p p = Some h2" "node_at h2 = (node_at h1)(p \<mapsto> (p, p, 0))" "overwrites {p} h1 h2"
    unfolding set_prev_def by (auto simp: writable_def)
  show ?thesis using h1 h2 overwrites_trans [OF h1(3) h2(3)]
    by (auto simp: init_list_head_def)
qed

section \<open>Representation of a sequence\<close>

definition linked :: "heap \<Rightarrow> addr \<Rightarrow> addr \<Rightarrow> bool" where
  "linked h a b \<longleftrightarrow> get_next h a = Some b \<and> get_prev h b = Some a"

fun chain :: "heap \<Rightarrow> addr \<Rightarrow> addr list \<Rightarrow> addr \<Rightarrow> bool" where
  "chain h a [] e = linked h a e"
| "chain h a (x # xs) e = (linked h a x \<and> chain h x xs e)"

definition list_at :: "heap \<Rightarrow> addr \<Rightarrow> addr list \<Rightarrow> bool" where
  "list_at h head ps \<longleftrightarrow> chain h head ps head \<and> distinct (head # ps)"

lemma chain_snoc: "chain h a (xs @ [y]) e \<longleftrightarrow> chain h a xs y \<and> linked h y e"
  by (induction xs arbitrary: a) auto

lemma chain_cong:
  assumes "\<And>p. p \<in> set (a # xs) \<Longrightarrow> get_next h' p = get_next h p"
    and "\<And>p. p \<in> set (xs @ [e]) \<Longrightarrow> get_prev h' p = get_prev h p"
  shows "chain h' a xs e \<longleftrightarrow> chain h a xs e"
  using assms by (induction xs arbitrary: a) (auto simp: linked_def)

lemma chain_nodes: "chain h a xs e \<Longrightarrow> p \<in> set (a # xs @ [e]) \<Longrightarrow> node_at h p \<noteq> None"
  by (induction xs arbitrary: a) (auto simp: linked_def get_next_def get_prev_def)

lemma list_at_nodes: "list_at h head ps \<Longrightarrow> p \<in> set (head # ps) \<Longrightarrow> node_at h p \<noteq> None"
  using chain_nodes by (auto simp: list_at_def)

text \<open>A list depends on its own nodes only.\<close>

lemma list_at_frame:
  "(\<And>p. p \<in> set (head # ps) \<Longrightarrow> node_at h' p = node_at h p) \<Longrightarrow> list_at h' head ps \<longleftrightarrow> list_at h head ps"
  unfolding list_at_def by (subst chain_cong [of head ps h' h]) (auto simp: get_next_def get_prev_def)

lemma list_at_init: "node_at h p = Some (p, p, d) \<Longrightarrow> list_at h p []"
  by (simp add: list_at_def linked_def get_next_def get_prev_def)

lemma i_list_add_writes:
  assumes new: "writable h new x" and p: "node_at h prev = Some (next, pp, dp)"
    and n: "node_at h next = Some (nn, prev, dn)" and ne: "new \<noteq> prev" "new \<noteq> next"
  shows "\<exists>h'. i_list_add new prev next h = Some h' \<and> overwrites {new, prev, next} h h' \<and>
    node_at h' = (if prev = next
      then (node_at h)(new \<mapsto> (next, prev, snd (snd x)), next \<mapsto> (new, new, dp))
      else (node_at h)(new \<mapsto> (next, prev, snd (snd x)), prev \<mapsto> (new, pp, dp), next \<mapsto> (nn, new, dn)))"
proof -
  from set_node_writes [OF new, of "\<lambda>(n, q, d). (next, q, d)"] obtain h1 where
    h1: "set_next h new next = Some h1" "node_at h1 = (node_at h)(new \<mapsto> (next, fst (snd x), snd (snd x)))"
      "overwrites {new} h h1"
    unfolding set_next_def by (auto simp: split_beta)
  have "writable h1 prev (next, pp, dp)" using h1(2) p ne by (auto simp: writable_def)
  from set_node_writes [OF this, of "\<lambda>(n, q, d). (new, q, d)"] obtain h2 where
    h2: "set_next h1 prev new = Some h2" "node_at h2 = (node_at h1)(prev \<mapsto> (new, pp, dp))" "overwrites {prev} h1 h2"
    unfolding set_next_def by auto
  have q: "get_prev h2 next = Some prev"
    using h1(2) h2(2) n p ne by (auto simp: get_prev_def)
  have "writable h2 new (next, fst (snd x), snd (snd x))" using h1(2) h2(2) ne by (auto simp: writable_def)
  from set_node_writes [OF this, of "\<lambda>(n, q, d). (n, prev, d)"] obtain h3 where
    h3: "set_prev h2 new prev = Some h3" "node_at h3 = (node_at h2)(new \<mapsto> (next, prev, snd (snd x)))"
      "overwrites {new} h2 h3"
    unfolding set_prev_def by (auto simp: split_beta)
  define y where "y = (if prev = next then (new, pp, dp) else (nn, prev, dn))"
  have "writable h3 next y" using h1(2) h2(2) h3(2) n ne by (auto simp: writable_def y_def)
  from set_node_writes [OF this, of "\<lambda>(n, q, d). (n, new, d)"] obtain h4 where
    h4: "set_prev h3 next new = Some h4" "node_at h4 = (node_at h3)(next \<mapsto> (\<lambda>(n, q, d). (n, new, d)) y)"
      "overwrites {next} h3 h4"
    unfolding set_prev_def by auto
  have "overwrites {new, prev, next} h h4"
    using overwrites_trans [OF overwrites_trans [OF overwrites_trans [OF h1(3) h2(3)] h3(3)] h4(3)]
    by (rule overwrites_mono) auto
  moreover have "i_list_add new prev next h = Some h4"
    using h1(1) h2(1) h3(1) h4(1) q p by (simp add: i_list_add_def get_next_def)
  ultimately show ?thesis
    using h1(2) h2(2) h3(2) h4(2) ne by (auto simp: y_def fun_eq_iff)
qed

lemma list_add_tail_snoc:
  assumes l: "list_at h head ps" and new: "load h new = Some (C_raw sizeof_list)"
  shows "\<exists>h'. list_add_tail new head h = Some h' \<and> list_at h' head (ps @ [new]) \<and>
    overwrites (set (new # head # ps)) h h' \<and>
    (\<forall>p \<in> set (head # ps). get_data h' p = get_data h p) \<and>
    (\<forall>p. p \<notin> set (new # head # ps) \<longrightarrow> node_at h' p = node_at h p)"
proof -
  have fresh: "new \<notin> set (head # ps)" using list_at_nodes [OF l, of new] new by (auto simp: node_at_def)
  have w: "writable h new (0, 0, 0)" using new by (simp add: writable_def)
  show ?thesis
  proof (cases ps rule: rev_cases)
    case Nil
    then obtain dp where "node_at h head = Some (head, head, dp)"
      using l by (auto simp: list_at_def linked_def get_next_def get_prev_def)
    from i_list_add_writes [OF w this this] fresh Nil obtain h' where
      h': "i_list_add new head head h = Some h'" "overwrites {new, head} h h'"
        "node_at h' = (node_at h)(new \<mapsto> (head, head, 0), head \<mapsto> (new, new, dp))" by auto
    show ?thesis
      using h' Nil fresh \<open>node_at h head = _\<close>
      by (auto simp: list_add_tail_def get_prev_def list_at_def linked_def get_next_def get_data_def)
  next
    case (snoc qs y)
    have ch: "chain h head qs y" "linked h y head" and dis: "distinct (head # qs @ [y])"
      using l snoc by (auto simp: list_at_def chain_snoc)
    obtain pp dp nn dn where y: "node_at h y = Some (head, pp, dp)" and hd: "node_at h head = Some (nn, y, dn)"
      using ch(2) by (auto simp: linked_def get_next_def get_prev_def)
    from i_list_add_writes [OF w y hd] fresh snoc dis obtain h' where
      h': "i_list_add new y head h = Some h'" "overwrites {new, y, head} h h'"
        "node_at h' = (node_at h)(new \<mapsto> (head, y, 0), y \<mapsto> (new, pp, dp), head \<mapsto> (nn, new, dn))" by auto
    have "chain h' head qs y"
      using ch(1) dis fresh snoc y hd h'(3)
      by (subst chain_cong [of head qs h' h]) (auto simp: get_next_def get_prev_def)
    moreover have "linked h' y new" "linked h' new head"
      using h'(3) fresh snoc dis by (auto simp: linked_def get_next_def get_prev_def)
    ultimately have "list_at h' head (ps @ [new])"
      using fresh snoc dis chain_snoc [of h' head "qs @ [y]" new head]
      by (auto simp: list_at_def chain_snoc)
    moreover have "overwrites (set (new # head # ps)) h h'"
      using h'(2) by (rule overwrites_mono) (use snoc in auto)
    ultimately show ?thesis
      using h' hd y fresh snoc by (auto simp: list_add_tail_def get_prev_def get_data_def)
  qed
qed

lemma list_add_head_cons:
  assumes l: "list_at h head ps" and new: "load h new = Some (C_raw sizeof_list)"
  shows "\<exists>h'. list_add_head new head h = Some h' \<and> list_at h' head (new # ps) \<and>
    overwrites (set (new # head # ps)) h h' \<and>
    (\<forall>p \<in> set (head # ps). get_data h' p = get_data h p)"
proof -
  have fresh: "new \<notin> set (head # ps)" using list_at_nodes [OF l, of new] new by (auto simp: node_at_def)
  have w: "writable h new (0, 0, 0)" using new by (simp add: writable_def)
  show ?thesis
  proof (cases ps)
    case Nil
    then obtain dp where "node_at h head = Some (head, head, dp)"
      using l by (auto simp: list_at_def linked_def get_next_def get_prev_def)
    from i_list_add_writes [OF w this this] fresh Nil obtain h' where
      h': "i_list_add new head head h = Some h'" "overwrites {new, head} h h'"
        "node_at h' = (node_at h)(new \<mapsto> (head, head, 0), head \<mapsto> (new, new, dp))" by auto
    show ?thesis
      using h' Nil fresh \<open>node_at h head = _\<close>
      by (auto simp: list_add_head_def get_prev_def list_at_def linked_def get_next_def get_data_def)
  next
    case (Cons y qs)
    have ch: "chain h y qs head" "linked h head y" and dis: "distinct (head # y # qs)"
      using l Cons by (auto simp: list_at_def)
    obtain pp dp nn dn where hd: "node_at h head = Some (y, pp, dp)" and y: "node_at h y = Some (nn, head, dn)"
      using ch(2) by (auto simp: linked_def get_next_def get_prev_def)
    from i_list_add_writes [OF w hd y] fresh Cons dis obtain h' where
      h': "i_list_add new head y h = Some h'" "overwrites {new, head, y} h h'"
        "node_at h' = (node_at h)(new \<mapsto> (y, head, 0), head \<mapsto> (new, pp, dp), y \<mapsto> (nn, new, dn))" by auto
    have "chain h' y qs head"
      using ch(1) dis fresh Cons y hd h'(3)
      by (subst chain_cong [of y qs h' h]) (auto simp: get_next_def get_prev_def)
    moreover have "linked h' head new" "linked h' new y"
      using h'(3) fresh Cons dis by (auto simp: linked_def get_next_def get_prev_def)
    ultimately have "list_at h' head (new # ps)" using fresh Cons dis by (auto simp: list_at_def)
    moreover have "overwrites (set (new # head # ps)) h h'"
      using h'(2) by (rule overwrites_mono) (use Cons in auto)
    ultimately show ?thesis
      using h' hd y fresh Cons by (auto simp: list_add_head_def get_next_def get_data_def)
  qed
qed

section \<open>Lists of rows\<close>

text \<open>A row of a list: its node, the block of its object, the object.\<close>

type_synonym entry = "addr \<times> addr \<times> sorm_object"

definition first_node :: "addr \<Rightarrow> entry list \<Rightarrow> addr" where
  "first_node head es = (case es of [] \<Rightarrow> head | e # es' \<Rightarrow> fst e)"

definition entry_at :: "nat option \<Rightarrow> heap \<Rightarrow> entry \<Rightarrow> bool" where
  "entry_at pool h = (\<lambda>(p, d, obj). get_data h p = Some d \<and> load h d = Some (C_objects [obj]) \<and>
     object_ok pool h obj)"

text \<open>The blocks of a row, in a list without repetition, and those of a whole list.\<close>

definition entry_foot :: "entry \<Rightarrow> addr list" where
  "entry_foot = (\<lambda>(p, d, obj). p # d # sorted_list_of_set (owned obj))"

definition list_foot :: "addr \<Rightarrow> entry list \<Rightarrow> addr list" where
  "list_foot head es = (if head = 0 then [] else head # concat (map entry_foot es))"

definition owns :: "nat option \<Rightarrow> heap \<Rightarrow> addr \<Rightarrow> bool" where
  "owns pool h a \<longleftrightarrow> (\<exists>b. blocks h a = Some b \<and> owner b = pool)"

definition rows_at :: "nat option \<Rightarrow> heap \<Rightarrow> addr \<Rightarrow> entry list \<Rightarrow> bool" where
  "rows_at pool h head es \<longleftrightarrow> list_at h head (map fst es) \<and> (\<forall>e \<in> set es. entry_at pool h e)"

lemma finite_owned [simp]: "finite (owned obj)"
  by (auto simp: owned_def owned_cell_def split: member.splits)

lemma set_entry_foot [simp]: "set (entry_foot (p, d, obj)) = {p, d} \<union> owned obj"
  by (simp add: entry_foot_def)

lemma distinct_entry_foot [simp]:
  "distinct (entry_foot (p, d, obj)) \<longleftrightarrow> p \<noteq> d \<and> p \<notin> owned obj \<and> d \<notin> owned obj"
  by (auto simp: entry_foot_def)

lemma object_ok_frame:
  assumes "\<And>a. a \<in> owned obj \<Longrightarrow> owns pool h' a \<longleftrightarrow> owns pool h a"
  shows "object_ok pool h' obj \<longleftrightarrow> object_ok pool h obj"
  using assms by (auto simp: object_ok_def owns_def)

lemma node_at_blocks: "blocks h' a = blocks h a \<Longrightarrow> node_at h' a = node_at h a"
  by (simp add: node_at_def load_def)

lemma entry_at_frame:
  assumes "\<And>a. a \<in> set (entry_foot e) \<Longrightarrow> blocks h' a = blocks h a"
  shows "entry_at pool h' e \<longleftrightarrow> entry_at pool h e"
proof -
  obtain p d obj where e: "e = (p, d, obj)" by (cases e)
  show ?thesis using assms
    by (auto simp: e entry_at_def get_data_def node_at_def load_def object_ok_def)
qed

text \<open>Walking from a node to the end of the list.\<close>

fun walk :: "heap \<Rightarrow> addr \<Rightarrow> entry list \<Rightarrow> bool" where
  "walk h head [] = (get_next h head \<noteq> None)"
| "walk h head (e # es) = (get_next h (fst e) = Some (first_node head es) \<and> walk h head es)"

lemma chain_walk: "chain h a (map fst es) head \<Longrightarrow> get_next h head \<noteq> None \<Longrightarrow>
    get_next h a = Some (first_node head es) \<and> walk h head es"
  by (induction es arbitrary: a) (auto simp: linked_def first_node_def)

lemma list_at_walk: "list_at h head (map fst es) \<Longrightarrow> get_next h head = Some (first_node head es) \<and> walk h head es"
  using chain_walk [of h head es head] by (cases es) (auto simp: list_at_def linked_def)

lemma walk_next: "walk h head es \<Longrightarrow> \<exists>s. get_next h (first_node head es) = Some s"
  by (cases es) (auto simp: first_node_def)

lemma walk_frame:
  assumes "\<And>a. a \<in> set (head # map fst es) \<Longrightarrow> blocks h' a = blocks h a"
  shows "walk h' head es \<longleftrightarrow> walk h head es"
proof -
  have "get_next h' a = get_next h a" if "a \<in> set (head # map fst es)" for a
    using node_at_blocks [OF assms [OF that]] by (simp add: get_next_def)
  then show ?thesis by (induction es) auto
qed

lemma free_block:
  assumes "allocator_ok al" and "heap_ok h" and "owns (pool_of al) h p"
  shows "\<exists>h'. i_free al p h = Some h' \<and> heap_ok h' \<and> blocks h' = (blocks h)(p := None)"
  using assms alloc_contract.fre_owned [of "i_malloc al" "i_free al" "i_strdup al" "pool_of al" h p]
  by (auto simp: allocator_ok_def owns_def)

definition list_freed :: "entry list \<Rightarrow> addr set" where
  "list_freed es = (\<Union>(p, d, obj) \<in> set es. {p} \<union> owned obj)"

lemma list_freed_simps [simp]:
  "list_freed [] = {}" "list_freed ((p, d, obj) # es) = {p} \<union> owned obj \<union> list_freed es"
  by (simp_all add: list_freed_def)

lemma list_free_loop_frees:
  assumes "allocator_ok al" and "heap_ok h" and "walk h head es" and "\<forall>e \<in> set es. entry_at (pool_of al) h e"
    and "distinct (head # concat (map entry_foot es))"
    and "\<forall>a \<in> set (concat (map entry_foot es)). owns (pool_of al) h a"
    and "get_next h (first_node head es) = Some s"
  shows "\<exists>h'. list_free_loop al (Some (sorm_free_ptr al)) head (first_node head es) s h = Some h' \<and>
    heap_ok h' \<and> blocks h' = (\<lambda>a. if a \<in> list_freed es then None else blocks h a)"
  using assms(2-)
proof (induction es arbitrary: h s)
  case Nil
  then show ?case by (subst list_free_loop.simps) (simp add: first_node_def)
next
  case (Cons e es)
  obtain p d obj where e: "e = (p, d, obj)" by (cases e)
  have ent: "get_data h p = Some d" "load h d = Some (C_objects [obj])" "object_ok (pool_of al) h obj"
    using Cons.prems(3) by (auto simp: e entry_at_def)
  have s: "s = first_node head es" using Cons.prems(2,6) by (simp add: first_node_def e)
  have p0: "p \<noteq> head" "d \<noteq> 0"
    using Cons.prems(4) ent(2) Cons.prems(1) by (auto simp: e entry_foot_def heap_ok_def load_def)
  obtain h1 where h1: "sorm_free al (Some obj) h = Some h1" "heap_ok h1"
    "blocks h1 = (\<lambda>a. if a \<in> owned obj then None else blocks h a)"
    using sorm_free_owned [OF assms(1) ent(3) Cons.prems(1)] by auto
  have "owns (pool_of al) h1 p" using Cons.prems(4,5) h1(3) by (auto simp: e owns_def)
  from free_block [OF assms(1) h1(2) this] obtain h2 where
    h2: "i_free al p h1 = Some h2" "heap_ok h2" "blocks h2 = (blocks h1)(p := None)" by auto
  have same: "blocks h2 a = blocks h a" if "a \<notin> {p} \<union> owned obj" for a using that h1(3) h2(3) by auto
  have out: "a \<notin> {p} \<union> owned obj" if "a \<in> set (head # concat (map entry_foot es))" for a
    using that Cons.prems(4) by (auto simp: e)
  have nodes: "set (map fst es) \<subseteq> set (concat (map entry_foot es))" by (force simp: entry_foot_def)
  have w: "walk h2 head es"
  proof (rule walk_frame [THEN iffD2])
    show "walk h head es" using Cons.prems(2) by simp
    fix a assume "a \<in> set (head # map fst es)"
    then have "a \<in> set (head # concat (map entry_foot es))" using nodes by auto
    then show "blocks h2 a = blocks h a" by (intro same out)
  qed
  then obtain s' where s': "get_next h2 (first_node head es) = Some s'" using walk_next by blast
  have ents: "\<forall>e \<in> set es. entry_at (pool_of al) h2 e"
  proof
    fix e' assume "e' \<in> set es"
    then have sub: "set (entry_foot e') \<subseteq> set (head # concat (map entry_foot es))" by auto
    have "entry_at (pool_of al) h2 e' \<longleftrightarrow> entry_at (pool_of al) h e'"
      by (intro entry_at_frame same out subsetD [OF sub])
    with Cons.prems(3) \<open>e' \<in> set es\<close> show "entry_at (pool_of al) h2 e'" by simp
  qed
  have ow: "\<forall>a \<in> set (concat (map entry_foot es)). owns (pool_of al) h2 a"
    using Cons.prems(5) out same by (simp add: owns_def)
  from Cons.IH [OF h2(2) w ents _ ow s'] Cons.prems(4) obtain h' where
    h': "list_free_loop al (Some (sorm_free_ptr al)) head (first_node head es) s' h2 = Some h'" "heap_ok h'"
      "blocks h' = (\<lambda>a. if a \<in> list_freed es then None else blocks h2 a)"
    by auto
  have "list_free_loop al (Some (sorm_free_ptr al)) head p s h = Some h'"
    using p0 ent h1 h2 h' s s' by (subst list_free_loop.simps) (simp add: sorm_free_ptr_def object_at_def)
  moreover have "blocks h' = (\<lambda>a. if a \<in> list_freed (e # es) then None else blocks h a)"
    using h'(3) h2(3) h1(3) by (auto simp: fun_eq_iff e)
  ultimately show ?case using h'(2) by (auto simp: e first_node_def)
qed


text \<open>A list the caller holds: \<open>NULL\<close>, or a head that represents the rows, in memory of its own.\<close>

definition list_ok :: "nat option \<Rightarrow> heap \<Rightarrow> addr \<Rightarrow> entry list \<Rightarrow> bool" where
  "list_ok pool h head es \<longleftrightarrow>
     (if head = 0 then es = []
      else rows_at pool h head es \<and> distinct (list_foot head es) \<and> (\<forall>a \<in> set (list_foot head es). owns pool h a))"

lemma list_ok_frame:
  assumes "\<And>a. a \<in> set (list_foot head es) \<Longrightarrow> blocks h' a = blocks h a"
  shows "list_ok pool h' head es \<longleftrightarrow> list_ok pool h head es"
proof (cases "head = 0")
  case False
  have sub: "set (entry_foot e) \<subseteq> set (list_foot head es)" if "e \<in> set es" for e
    using that False by (auto simp: list_foot_def)
  have nodes: "set (head # map fst es) \<subseteq> set (list_foot head es)"
    using False by (force simp: list_foot_def entry_foot_def)
  have "list_at h' head (map fst es) \<longleftrightarrow> list_at h head (map fst es)"
    by (intro list_at_frame node_at_blocks assms subsetD [OF nodes])
  moreover have "entry_at pool h' e \<longleftrightarrow> entry_at pool h e" if "e \<in> set es" for e
    by (intro entry_at_frame assms subsetD [OF sub [OF that]])
  moreover have "owns pool h' a \<longleftrightarrow> owns pool h a" if "a \<in> set (list_foot head es)" for a
    using assms [OF that] by (simp add: owns_def)
  ultimately show ?thesis by (simp add: list_ok_def rows_at_def)
qed (simp add: list_ok_def)

definition entry_data :: "entry list \<Rightarrow> addr set" where
  "entry_data es = (\<lambda>(p, d, obj). d) ` set es"

lemma list_freed_foot:
  "distinct (concat (map entry_foot es)) \<Longrightarrow> list_freed es = set (concat (map entry_foot es)) - entry_data es"
proof (induction es)
  case (Cons e es)
  obtain p d obj where e: "e = (p, d, obj)" by (cases e)
  have sub: "entry_data es \<subseteq> set (concat (map entry_foot es))"
    by (auto simp: entry_data_def entry_foot_def)
  have "entry_data (e # es) = insert d (entry_data es)" by (simp add: entry_data_def e)
  with Cons sub show ?case unfolding e by auto
qed (simp add: entry_data_def)

text \<open>
  \<open>sorm_list_free\<close> returns; it frees the head, the nodes and what the rows own, and leaves the blocks
  of the row objects allocated.
\<close>

lemma sorm_list_free_frees:
  assumes al: "allocator_ok al" and h: "heap_ok h" and ok: "list_ok (pool_of al) h head es"
  shows "\<exists>h'. sorm_list_free al head h = Some h' \<and> heap_ok h' \<and>
    blocks h' = (\<lambda>a. if a \<in> set (list_foot head es) - entry_data es then None else blocks h a)"
proof (cases "head = 0")
  case True
  then show ?thesis using h by (auto simp: sorm_list_free_def i_list_free_def list_foot_def)
next
  case False
  then have r: "rows_at (pool_of al) h head es" and d: "distinct (head # concat (map entry_foot es))"
    and o: "\<forall>a \<in> set (head # concat (map entry_foot es)). owns (pool_of al) h a"
    using ok by (auto simp: list_ok_def list_foot_def)
  have w: "get_next h head = Some (first_node head es)" "walk h head es"
    using list_at_walk [of h head es] r by (auto simp: rows_at_def)
  obtain s where s: "get_next h (first_node head es) = Some s" using walk_next [OF w(2)] by auto
  have e: "\<forall>e \<in> set es. entry_at (pool_of al) h e" using r by (simp add: rows_at_def)
  obtain h1 where h1: "list_free_loop al (Some (sorm_free_ptr al)) head (first_node head es) s h = Some h1"
    "heap_ok h1" "blocks h1 = (\<lambda>a. if a \<in> list_freed es then None else blocks h a)"
    using list_free_loop_frees [OF al h w(2) e d _ s] o by auto
  have nf: "head \<notin> list_freed es" "head \<notin> entry_data es"
    using d by (auto simp: list_freed_foot entry_data_def entry_foot_def)
  have "owns (pool_of al) h1 head" using o h1(3) nf by (simp add: owns_def)
  from free_block [OF al h1(2) this] obtain h2 where
    h2: "i_free al head h1 = Some h2" "heap_ok h2" "blocks h2 = (blocks h1)(head := None)" by auto
  have "sorm_list_free al head h = Some h2"
    using False w(1) s h1(1) h2(1) by (simp add: sorm_list_free_def i_list_free_def)
  moreover have "blocks h2 = (\<lambda>a. if a \<in> set (list_foot head es) - entry_data es then None else blocks h a)"
    using False h2(3) h1(3) nf d by (auto simp: fun_eq_iff list_foot_def list_freed_foot)
  ultimately show ?thesis using h2(2) by auto
qed

section \<open>Moving a list into an array\<close>

lemma set_object_eq:
  assumes "load h R = Some (C_objects os)" and "i < length os"
  shows "\<exists>h'. set_object h R i obj = Some h' \<and> load h' R = Some (C_objects (os[i := obj])) \<and> overwrites {R} h h'"
proof -
  have "blocks h R \<noteq> None" using assms(1) by (auto simp: load_def)
  then show ?thesis using assms overwrites_store [of R h "C_objects (os[i := obj])"] by (auto simp: set_object_def)
qed

lemma list_cpy_loop_moves:
  assumes "allocator_ok al" and "heap_ok h" and "walk h head es" and "\<forall>e \<in> set es. entry_at (pool_of al) h e"
    and "distinct (R # head # concat (map entry_foot es))"
    and "\<forall>a \<in> set (concat (map entry_foot es)). owns (pool_of al) h a"
    and "get_next h (first_node head es) = Some s"
    and "load h R = Some (C_objects os)" and "i + length es \<le> length os"
  shows "\<exists>h'. list_cpy_loop al R head (first_node head es) s i h = Some (i + length es, h') \<and> heap_ok h' \<and>
    load h' R = Some (C_objects (take i os @ map (snd \<circ> snd) es @ drop (i + length es) os)) \<and>
    map_option owner (blocks h' R) = map_option owner (blocks h R) \<and>
    (\<forall>a. a \<noteq> R \<longrightarrow> blocks h' a = (if a \<in> set (map fst es) \<union> entry_data es then None else blocks h a))"
  using assms(2-)
proof (induction es arbitrary: h s i os)
  case Nil
  then show ?case by (subst list_cpy_loop.simps) (auto simp: first_node_def entry_data_def)
next
  case (Cons e es)
  obtain p d obj where e: "e = (p, d, obj)" by (cases e)
  have ent: "get_data h p = Some d" "load h d = Some (C_objects [obj])"
    using Cons.prems(3) by (auto simp: e entry_at_def)
  have s: "s = first_node head es" using Cons.prems(2,6) by (simp add: first_node_def e)
  have dis: "p \<noteq> head" "p \<noteq> d" "R \<noteq> p" "R \<noteq> d" using Cons.prems(4) by (auto simp: e)
  obtain h1 where h1: "set_object h R i obj = Some h1" "load h1 R = Some (C_objects (os[i := obj]))"
    "overwrites {R} h h1" using set_object_eq [OF Cons.prems(7), of i obj] Cons.prems(8) by auto
  have ok1: "heap_ok h1" using overwrites_ok [OF h1(3)] Cons.prems(1) by simp
  have b1: "blocks h1 a = blocks h a" if "a \<noteq> R" for a using h1(3) that by (simp add: overwrites_def)
  have "owns (pool_of al) h1 d" using Cons.prems(5) b1 dis by (auto simp: e owns_def)
  from free_block [OF assms(1) ok1 this] obtain h2 where
    h2: "i_free al d h1 = Some h2" "heap_ok h2" "blocks h2 = (blocks h1)(d := None)" by auto
  have "owns (pool_of al) h2 p" using Cons.prems(5) b1 dis h2(3) by (auto simp: e owns_def)
  from free_block [OF assms(1) h2(2) this] obtain h3 where
    h3: "i_free al p h2 = Some h3" "heap_ok h3" "blocks h3 = (blocks h2)(p := None)" by auto
  have same: "blocks h3 a = blocks h a" if "a \<notin> {p, d, R}" for a using that b1 h2(3) h3(3) by auto
  have out: "a \<notin> {p, d, R}" if "a \<in> set (head # concat (map entry_foot es))" for a
    using that Cons.prems(4) by (auto simp: e)
  have nodes: "set (head # map fst es) \<subseteq> set (head # concat (map entry_foot es))" by (force simp: entry_foot_def)
  have "walk h3 head es \<longleftrightarrow> walk h head es" by (intro walk_frame same out subsetD [OF nodes])
  then have w: "walk h3 head es" using Cons.prems(2) by simp
  then obtain s' where s': "get_next h3 (first_node head es) = Some s'" using walk_next by blast
  have ents: "\<forall>e \<in> set es. entry_at (pool_of al) h3 e"
  proof
    fix e' assume "e' \<in> set es"
    then have sub: "set (entry_foot e') \<subseteq> set (head # concat (map entry_foot es))" by auto
    have "entry_at (pool_of al) h3 e' \<longleftrightarrow> entry_at (pool_of al) h e'"
      by (intro entry_at_frame same out subsetD [OF sub])
    with Cons.prems(3) \<open>e' \<in> set es\<close> show "entry_at (pool_of al) h3 e'" by simp
  qed
  have ow: "\<forall>a \<in> set (concat (map entry_foot es)). owns (pool_of al) h3 a"
    using Cons.prems(5) out same by (simp add: owns_def)
  have R3: "load h3 R = Some (C_objects (os[i := obj]))" using h1(2) h2(3) h3(3) dis by (simp add: load_def)
  from Cons.IH [OF h3(2) w ents _ ow s' R3, of "Suc i"] Cons.prems(4,8) obtain h' where
    h': "list_cpy_loop al R head (first_node head es) s' (Suc i) h3 = Some (Suc i + length es, h')" "heap_ok h'"
      "load h' R = Some (C_objects (take (Suc i) (os[i := obj]) @ map (snd \<circ> snd) es @ drop (Suc i + length es) (os[i := obj])))"
      "map_option owner (blocks h' R) = map_option owner (blocks h3 R)"
      "\<forall>a. a \<noteq> R \<longrightarrow> blocks h' a = (if a \<in> set (map fst es) \<union> entry_data es then None else blocks h3 a)"
    by auto
  have "list_cpy_loop al R head p s i h = Some (Suc i + length es, h')"
    using dis ent h1 h2 h3 h' s s' by (subst list_cpy_loop.simps) (simp add: object_at_def)
  moreover have "take (Suc i) (os[i := obj]) = take i os @ [obj]"
    using Cons.prems(8) by (simp add: take_Suc_conv_app_nth)
  moreover have "map_option owner (blocks h3 R) = map_option owner (blocks h R)"
    using h1(3) h2(3) h3(3) dis by (simp add: overwrites_def)
  moreover have "blocks h' a = (if a \<in> set (map fst (e # es)) \<union> entry_data (e # es) then None else blocks h a)"
    if "a \<noteq> R" for a
    using h'(5) h3(3) h2(3) b1 that by (auto simp: e entry_data_def)
  ultimately show ?case using h' by (auto simp: e first_node_def)
qed

text \<open>
  \<open>__list_cpy_free\<close> of a list with \<open>n\<close> rows into an array of \<open>n\<close> objects: the array gets the objects
  in order, with all they own; head, nodes and the blocks of the objects are freed.
\<close>

lemma list_cpy_free_moves:
  assumes al: "allocator_ok al" and h: "heap_ok h" and ok: "list_ok (pool_of al) h head es" and "head \<noteq> 0"
    and R: "load h R = Some (C_objects os)" "length os = length es" "R \<noteq> 0" "R \<notin> set (list_foot head es)"
  shows "\<exists>h'. i_list_cpy_free al head (int (length es)) R h = Some h' \<and> heap_ok h' \<and>
    load h' R = Some (C_objects (map (snd \<circ> snd) es)) \<and>
    map_option owner (blocks h' R) = map_option owner (blocks h R) \<and>
    (\<forall>a. a \<noteq> R \<longrightarrow> blocks h' a =
       (if a \<in> insert head (set (map fst es) \<union> entry_data es) then None else blocks h a))"
proof -
  have r: "rows_at (pool_of al) h head es" and d: "distinct (R # head # concat (map entry_foot es))"
    and o: "\<forall>a \<in> set (head # concat (map entry_foot es)). owns (pool_of al) h a"
    using ok assms(4) R(4) by (auto simp: list_ok_def list_foot_def)
  have w: "get_next h head = Some (first_node head es)" "walk h head es"
    using list_at_walk [of h head es] r by (auto simp: rows_at_def)
  obtain s where s: "get_next h (first_node head es) = Some s" using walk_next [OF w(2)] by auto
  have e: "\<forall>e \<in> set es. entry_at (pool_of al) h e" using r by (simp add: rows_at_def)
  obtain h1 where h1: "list_cpy_loop al R head (first_node head es) s 0 h = Some (length es, h1)" "heap_ok h1"
    "load h1 R = Some (C_objects (map (snd \<circ> snd) es))" "map_option owner (blocks h1 R) = map_option owner (blocks h R)"
    "\<forall>a. a \<noteq> R \<longrightarrow> blocks h1 a = (if a \<in> set (map fst es) \<union> entry_data es then None else blocks h a)"
    using list_cpy_loop_moves [OF al h w(2) e d _ s R(1), of 0] o R(2) by auto
  have "set (map fst es) \<union> entry_data es \<subseteq> set (concat (map entry_foot es))"
    by (force simp: entry_data_def entry_foot_def)
  then have nf: "head \<notin> set (map fst es) \<union> entry_data es" "head \<noteq> R" using d by auto
  then have "owns (pool_of al) h1 head" using o h1(5) by (simp add: owns_def)
  from free_block [OF al h1(2) this] obtain h2 where
    h2: "i_free al head h1 = Some h2" "heap_ok h2" "blocks h2 = (blocks h1)(head := None)" by auto
  show ?thesis using h1 h2 nf w(1) s R(3) assms(4) by (auto simp: i_list_cpy_free_def load_def)
qed

section \<open>Properties\<close>

text \<open>
  C19: The circular list of \<^verbatim>\<open>sorm.h\<close> implements a sequence. A head block that \<open>INIT_LIST_HEAD\<close> has
  initialised represents the empty sequence; on a list that represents \<open>ps\<close>, \<open>list_add_tail\<close> of a new
  block gives one that represents \<open>ps\<close> followed by it, and \<open>list_add_head\<close> one that represents it followed
  by \<open>ps\<close>. The data pointers of the nodes stay, and no memory outside the list is written.
\<close>

theorem list_implements_sequence:
  assumes "list_at h head ps" and "load h new = Some (C_raw sizeof_list)"
  shows "(\<exists>h'. init_list_head new h = Some h' \<and> list_at h' new []) \<and>
    (\<exists>h'. list_add_tail new head h = Some h' \<and> list_at h' head (ps @ [new]) \<and>
      overwrites (set (new # head # ps)) h h' \<and> (\<forall>p \<in> set (head # ps). get_data h' p = get_data h p)) \<and>
    (\<exists>h'. list_add_head new head h = Some h' \<and> list_at h' head (new # ps) \<and>
      overwrites (set (new # head # ps)) h h' \<and> (\<forall>p \<in> set (head # ps). get_data h' p = get_data h p))"
proof -
  have "\<exists>h'. init_list_head new h = Some h' \<and> list_at h' new []"
    using init_list_head_node [OF assms(2)] list_at_init by fastforce
  then show ?thesis using list_add_tail_snoc [OF assms] list_add_head_cons [OF assms] by blast
qed

theorem list_implements_sequence_witness:
  "\<exists>h'. list_add_tail 3 1 \<lparr>blocks = [1 \<mapsto> \<lparr>owner = None, content = C_node 2 2 0\<rparr>, 2 \<mapsto> \<lparr>owner = None, content = C_node 1 1 9\<rparr>,
      3 \<mapsto> \<lparr>owner = None, content = C_raw sizeof_list\<rparr>], brk = 4, room = 0\<rparr> = Some h' \<and> list_at h' 1 [2, 3]"
proof -
  let ?h = "\<lparr>blocks = [1 \<mapsto> \<lparr>owner = None, content = C_node 2 2 0\<rparr>, 2 \<mapsto> \<lparr>owner = None, content = C_node 1 1 9\<rparr>,
      3 \<mapsto> \<lparr>owner = None, content = C_raw sizeof_list\<rparr>], brk = 4, room = 0\<rparr> :: heap"
  have "list_at ?h 1 [2]" by (simp add: list_at_def linked_def get_next_def get_prev_def node_at_def load_def)
  moreover have "load ?h 3 = Some (C_raw sizeof_list)" by (simp add: load_def)
  ultimately show ?thesis using list_implements_sequence [of ?h 1 "[2]" 3] by auto
qed

text \<open>
  Freeing a list of rows. \<open>sorm_list_free\<close> on a list that holds rows returns and frees the head, the
  nodes and everything the rows own; the blocks of the row objects themselves stay allocated, one for
  each row, and no other memory changes. (\<open>sorm_free\<close> frees what an object owns and never the object.)
\<close>

theorem list_free_leaves_objects:
  assumes "allocator_ok al" and "heap_ok h" and "list_ok (pool_of al) h head es"
  shows "\<exists>h'. sorm_list_free al head h = Some h' \<and> heap_ok h' \<and>
    (\<forall>(q, dd, obj) \<in> set es. blocks h' dd = blocks h dd \<and> load h' dd = Some (C_objects [obj])) \<and>
    (\<forall>a. a \<notin> entry_data es \<longrightarrow> blocks h' a = (if a \<in> set (list_foot head es) then None else blocks h a))"
proof -
  from sorm_list_free_frees [OF assms] obtain h' where
    h': "sorm_list_free al head h = Some h'" "heap_ok h'"
      "blocks h' = (\<lambda>a. if a \<in> set (list_foot head es) - entry_data es then None else blocks h a)" by blast
  have "blocks h' dd = blocks h dd \<and> load h' dd = Some (C_objects [obj])" if e: "(q, dd, obj) \<in> set es" for q dd obj
  proof -
    have "dd \<in> entry_data es" using e by (force simp: entry_data_def)
    moreover have "load h dd = Some (C_objects [obj])"
      using assms(3) e by (auto simp: list_ok_def rows_at_def entry_at_def split: if_splits)
    ultimately show ?thesis using h'(3) by (simp add: load_def)
  qed
  then show ?thesis using h' by auto
qed

theorem list_free_leaves_objects_witness:
  "\<exists>h'. sorm_list_free None 1 \<lparr>blocks = [1 \<mapsto> \<lparr>owner = None, content = C_node 2 2 0\<rparr>,
      2 \<mapsto> \<lparr>owner = None, content = C_node 1 1 3\<rparr>, 3 \<mapsto> \<lparr>owner = None, content = C_objects [new_object demo_table]\<rparr>],
      brk = 4, room = 0\<rparr> = Some h' \<and> blocks h' 1 = None \<and> blocks h' 2 = None \<and>
    load h' 3 = Some (C_objects [new_object demo_table])"
proof -
  let ?o = "new_object demo_table"
  let ?h = "\<lparr>blocks = [1 \<mapsto> \<lparr>owner = None, content = C_node 2 2 0\<rparr>, 2 \<mapsto> \<lparr>owner = None, content = C_node 1 1 3\<rparr>,
      3 \<mapsto> \<lparr>owner = None, content = C_objects [?o]\<rparr>], brk = 4, room = 0\<rparr> :: heap"
  have own: "owned ?o = {}" by (rule object_ok_new(2)) simp
  have foot: "list_foot 1 [(2, 3, ?o)] = [1, 2, 3]" by (simp add: list_foot_def entry_foot_def own)
  have hok: "heap_ok ?h" by (simp add: heap_ok_def)
  have at: "list_at ?h 1 [2]" by (simp add: list_at_def linked_def get_next_def get_prev_def node_at_def load_def)
  have ent: "entry_at None ?h (2, 3, ?o)"
    using object_ok_new(1) [OF wf_demo_table] by (simp add: entry_at_def get_data_def node_at_def load_def)
  have lok: "list_ok (pool_of None) ?h 1 [(2, 3, ?o)]"
    unfolding list_ok_def foot using at ent by (simp add: rows_at_def pool_of_def owns_def)
  from list_free_leaves_objects [OF allocator_ok_libc hok lok] show ?thesis
    unfolding foot by (auto simp: entry_data_def)
qed

end
