(* ===== verification/Sorm_Select.thy ===== *)
theory Sorm_Select
  imports Sorm_Columns Sorm_List Sorm_Stmt
begin

text \<open>
  Selecting rows (\<^verbatim>\<open>src/src/sorm.c\<close>, \<open>_select\<close>, its three cores and the functions of the interface): the
  text of the query, the parsing of the column list, the loop over SQLite's rows, and the rows
  handed to the caller as an array or as a list. Out parameters are results: \<open>rows_num\<close> and
  \<open>rows_of_tables\<close> come back with the error code.
\<close>

section \<open>The rows of one table\<close>

text \<open>\<open>(select_columns_of_tables[i].columns_num != 0) && (is_table_select[i] == 1)\<close>\<close>

definition table_selected :: "select_columns_t list \<Rightarrow> bool list \<Rightarrow> nat \<Rightarrow> bool option" where
  "table_selected select_columns_of_tables is_table_select i =
     do { sc \<leftarrow> nth_opt select_columns_of_tables (int i);
          if sel_columns_num sc \<noteq> 0 then nth_opt is_table_select (int i) else Some False }"

text \<open>\<open>_parse_select_result\<close> on the object number \<open>k\<close> of a block.\<close>

definition parse_row_at ::
  "'db sqlite3_api \<Rightarrow> sorm_allocator_t option \<Rightarrow> stmt \<Rightarrow> int list \<Rightarrow> 'db \<Rightarrow> addr \<Rightarrow> nat \<Rightarrow> heap \<Rightarrow>
   (sorm_error_t \<times> heap) option" where
  "parse_row_at api allocator stmt_handle indexes d p k h =
     do { row \<leftarrow> object_at h p k;
          (ret, row, h) \<leftarrow> i_parse_select_result api allocator stmt_handle indexes d row h;
          h \<leftarrow> set_object h p k row;
          Some (ret, h) }"

section \<open>Arrays\<close>

fun new_arrays ::
  "sorm_allocator_t option \<Rightarrow> sorm_table_descriptor_t list \<Rightarrow> bool list \<Rightarrow> select_columns_t list \<Rightarrow> int \<Rightarrow>
   nat list \<Rightarrow> addr list \<Rightarrow> heap \<Rightarrow> (sorm_error_t \<times> addr list \<times> heap) option" where
  "new_arrays allocator tables_desc sel sc max_rows_num [] rows h = Some (SORM_OK, rows, h)"
| "new_arrays allocator tables_desc sel sc max_rows_num (i # is) rows h =
     do { b \<leftarrow> table_selected sc sel i;
          if b
          then do { td \<leftarrow> nth_opt tables_desc (int i);
                    (p, h) \<leftarrow> sorm_new_array allocator (Some td) max_rows_num h;
                    let rows = rows[i := p];
                    if p = 0 then Some (SORM_NOMEM, rows, h)
                    else new_arrays allocator tables_desc sel sc max_rows_num is rows h }
          else new_arrays allocator tables_desc sel sc max_rows_num is rows h }"

text \<open>
  The body of the loop, \<open>for (i = 0; i < tables_num; i ++)\<close> over the tables that are read; \<open>add i p\<close>
  reads the row into what the table number \<open>i\<close> has at \<open>p\<close>.
\<close>

fun fill_rows ::
  "(nat \<Rightarrow> addr \<Rightarrow> heap \<Rightarrow> (sorm_error_t \<times> heap) option) \<Rightarrow> bool list \<Rightarrow> select_columns_t list \<Rightarrow> addr list \<Rightarrow>
   nat list \<Rightarrow> heap \<Rightarrow> (sorm_error_t \<times> heap) option" where
  "fill_rows add sel sc rows [] h = Some (SORM_OK, h)"
| "fill_rows add sel sc rows (i # is) h =
     do { b \<leftarrow> table_selected sc sel i;
          if b
          then do { p \<leftarrow> nth_opt rows (int i);
                    (ret, h) \<leftarrow> add i p h;
                    if ret \<noteq> SORM_OK then Some (ret, h) else fill_rows add sel sc rows is h }
          else fill_rows add sel sc rows is h }"

text \<open>Arrays: the object number \<open>rows_num\<close> of every table is filled.\<close>

definition fill_array ::
  "'db sqlite3_api \<Rightarrow> sorm_allocator_t option \<Rightarrow> stmt \<Rightarrow> select_columns_t list \<Rightarrow> nat \<Rightarrow> 'db \<Rightarrow> nat \<Rightarrow> addr \<Rightarrow>
   heap \<Rightarrow> (sorm_error_t \<times> heap) option" where
  "fill_array api allocator stmt_handle sc rows_num d i p h =
     do { x \<leftarrow> nth_opt sc (int i);
          parse_row_at api allocator stmt_handle (indexes_in_result x) d p rows_num h }"

definition fill_arrays ::
  "'db sqlite3_api \<Rightarrow> sorm_allocator_t option \<Rightarrow> stmt \<Rightarrow> nat \<Rightarrow> bool list \<Rightarrow> select_columns_t list \<Rightarrow>
   addr list \<Rightarrow> nat \<Rightarrow> 'db \<Rightarrow> heap \<Rightarrow> (sorm_error_t \<times> heap) option" where
  "fill_arrays api allocator stmt_handle tables_num sel sc rows rows_num d h =
     fill_rows (fill_array api allocator stmt_handle sc rows_num d) sel sc rows [0..<tables_num] h"

section \<open>Lists\<close>

fun new_lists ::
  "sorm_allocator_t option \<Rightarrow> bool list \<Rightarrow> select_columns_t list \<Rightarrow> nat list \<Rightarrow> addr list \<Rightarrow> heap \<Rightarrow>
   (sorm_error_t \<times> addr list \<times> heap) option" where
  "new_lists allocator sel sc [] rows h = Some (SORM_OK, rows, h)"
| "new_lists allocator sel sc (i # is) rows h =
     do { b \<leftarrow> table_selected sc sel i;
          if b
          then do { (p, h) \<leftarrow> i_malloc allocator sizeof_list h;
                    let rows = rows[i := p];
                    if p = 0 then Some (SORM_NOMEM, rows, h)
                    else do { h \<leftarrow> init_list_head p h; new_lists allocator sel sc is rows h } }
          else new_lists allocator sel sc is rows h }"

text \<open>One new entry at the end of the list of one table.\<close>

definition add_row ::
  "'db sqlite3_api \<Rightarrow> sorm_allocator_t option \<Rightarrow> stmt \<Rightarrow> sorm_table_descriptor_t \<Rightarrow> int list \<Rightarrow> addr \<Rightarrow> 'db \<Rightarrow>
   heap \<Rightarrow> (sorm_error_t \<times> heap) option" where
  "add_row api allocator stmt_handle td indexes head d h =
     do { (entry, h) \<leftarrow> i_malloc allocator sizeof_list h;
          if entry = 0 then Some (SORM_NOMEM, h)
          else do { h \<leftarrow> list_add_tail entry head h;
                    (p, h) \<leftarrow> sorm_new allocator (Some td) h;
                    h \<leftarrow> set_data h entry p;
                    if p = 0 then Some (SORM_NOMEM, h)
                    else parse_row_at api allocator stmt_handle indexes d p 0 h } }"

definition fill_list ::
  "'db sqlite3_api \<Rightarrow> sorm_allocator_t option \<Rightarrow> stmt \<Rightarrow> sorm_table_descriptor_t list \<Rightarrow> select_columns_t list \<Rightarrow>
   nat \<Rightarrow> 'db \<Rightarrow> nat \<Rightarrow> addr \<Rightarrow> heap \<Rightarrow> (sorm_error_t \<times> heap) option" where
  "fill_list api allocator stmt_handle tables_desc sc rows_num d i head h =
     do { td \<leftarrow> nth_opt tables_desc (int i);
          x \<leftarrow> nth_opt sc (int i);
          add_row api allocator stmt_handle td (indexes_in_result x) head d h }"

definition fill_lists ::
  "'db sqlite3_api \<Rightarrow> sorm_allocator_t option \<Rightarrow> stmt \<Rightarrow> sorm_table_descriptor_t list \<Rightarrow> bool list \<Rightarrow>
   select_columns_t list \<Rightarrow> addr list \<Rightarrow> nat \<Rightarrow> 'db \<Rightarrow> heap \<Rightarrow> (sorm_error_t \<times> heap) option" where
  "fill_lists api allocator stmt_handle tables_desc sel sc rows rows_num d h =
     fill_rows (fill_list api allocator stmt_handle tables_desc sc rows_num d) sel sc rows
       [0..<length tables_desc] h"

section \<open>The loops over the rows of SQLite\<close>

text \<open>
  \<open>while (*rows_num < max_rows_num)\<close>, with the body given: it gets the row number and reads the row
  of the database. The results are the error code so far, the last answer of \<open>_sqlite3_step\<close> and
  \<open>*rows_num\<close>.
\<close>

function some_loop ::
  "'db sqlite3_api \<Rightarrow> sorm_connection_t \<Rightarrow> stmt \<Rightarrow> (nat \<Rightarrow> 'db \<Rightarrow> heap \<Rightarrow> (sorm_error_t \<times> heap) option) \<Rightarrow>
   int \<Rightarrow> int \<Rightarrow> int \<Rightarrow> 'db world \<Rightarrow> (sorm_error_t \<times> int \<times> int \<times> 'db world) option" where
  "some_loop api conn stmt_handle body max_rows_num step_ret rows_num w =
     (if rows_num < max_rows_num
      then do { (step_ret, w) \<leftarrow> i_sqlite3_step api conn stmt_handle SORM_RWLOCK_READ w;
                if step_ret = SQLITE_ROW
                then do { (ret, h) \<leftarrow> body (nat rows_num) (db w) (hp w);
                          let w = w\<lparr>hp := h\<rparr>;
                          if ret \<noteq> SORM_OK then Some (ret, step_ret, rows_num, w)
                          else some_loop api conn stmt_handle body max_rows_num step_ret (rows_num + 1) w }
                else Some (SORM_OK, step_ret, rows_num, w) }
      else Some (SORM_OK, step_ret, rows_num, w))"
  by pat_completeness auto
termination
  by (relation "measure (\<lambda>(api, conn, st, body, m, s, n, w). nat (m - n))") auto

declare some_loop.simps [simp del]

text \<open>\<open>while (1)\<close>: it ends when SQLite does not answer with a row.\<close>

partial_function (option) all_loop ::
  "'db sqlite3_api \<Rightarrow> sorm_connection_t \<Rightarrow> stmt \<Rightarrow> (nat \<Rightarrow> 'db \<Rightarrow> heap \<Rightarrow> (sorm_error_t \<times> heap) option) \<Rightarrow>
   int \<Rightarrow> 'db world \<Rightarrow> (sorm_error_t \<times> int \<times> int \<times> 'db world) option" where
  "all_loop api conn stmt_handle body rows_num w =
     do { (step_ret, w) \<leftarrow> i_sqlite3_step api conn stmt_handle SORM_RWLOCK_READ w;
          if step_ret = SQLITE_ROW
          then do { (ret, h) \<leftarrow> body (nat rows_num) (db w) (hp w);
                    let w = w\<lparr>hp := h\<rparr>;
                    if ret \<noteq> SORM_OK then Some (ret, step_ret, rows_num, w)
                    else all_loop api conn stmt_handle body (rows_num + 1) w }
          else Some (SORM_OK, step_ret, rows_num, w) }"

section \<open>The cores\<close>

text \<open>\<open>RETURN:\<close> of a core: on an error, or without a row, everything the core made is given back.\<close>

fun free_rows :: "(addr \<Rightarrow> heap \<Rightarrow> heap option) \<Rightarrow> addr list \<Rightarrow> heap \<Rightarrow> heap option" where
  "free_rows release [] h = Some h"
| "free_rows release (p # ps) h = do { h \<leftarrow> release p h; free_rows release ps h }"

definition core_return ::
  "(addr \<Rightarrow> heap \<Rightarrow> heap option) \<Rightarrow> sorm_error_t \<Rightarrow> int \<Rightarrow> addr list \<Rightarrow> 'db world \<Rightarrow>
   (sorm_error_t \<times> int \<times> addr list \<times> 'db world) option" where
  "core_return release ret_val rows_num rows w =
     (if ret_val \<noteq> SORM_OK \<or> rows_num = 0
      then do { h \<leftarrow> free_rows release rows (hp w);
                Some (ret_val, rows_num, replicate (length rows) 0, w\<lparr>hp := h\<rparr>) }
      else Some (ret_val, rows_num, rows, w))"

type_synonym 'db select_core =
  "'db sqlite3_api \<Rightarrow> sorm_connection_t \<Rightarrow> sorm_allocator_t option \<Rightarrow> stmt \<Rightarrow> sorm_table_descriptor_t list \<Rightarrow>
   bool list \<Rightarrow> select_columns_t list \<Rightarrow> int \<Rightarrow> int \<Rightarrow> addr list \<Rightarrow> 'db world \<Rightarrow>
   (sorm_error_t \<times> int \<times> addr list \<times> 'db world) option"

definition i_select_some_array_core :: "'db select_core" where
  "i_select_some_array_core api conn allocator stmt_handle tables_desc sel sc max_rows_num rows_num rows w =
     (if stmt_handle = 0 then None
      else let rows = replicate (length rows) 0 in
      if max_rows_num = 0 then Some (SORM_OK, 0, rows, w)
      else do {
        (ret_val, rows, h) \<leftarrow>
          new_arrays allocator tables_desc sel sc max_rows_num [0..<length tables_desc] rows (hp w);
        let w = w\<lparr>hp := h\<rparr>;
        if ret_val \<noteq> SORM_OK then core_return (i_free allocator) ret_val rows_num rows w
        else do {
          (ret_val, step_ret, rows_num, w) \<leftarrow> some_loop api conn stmt_handle
             (fill_arrays api allocator stmt_handle (length tables_desc) sel sc rows)
             max_rows_num SQLITE_DONE rows_num w;
          let ret_val = (if ret_val \<noteq> SORM_OK then ret_val
                         else if step_ret \<noteq> SQLITE_DONE \<and> step_ret \<noteq> SQLITE_ROW then SORM_DB_ERROR
                         else SORM_OK);
          core_return (i_free allocator) ret_val rows_num rows w } })"

definition i_select_some_list_core :: "'db select_core" where
  "i_select_some_list_core api conn allocator stmt_handle tables_desc sel sc max_rows_num rows_num rows w =
     (if stmt_handle = 0 then None
      else if max_rows_num = 0 then Some (SORM_OK, 0, rows, w)
      else do {
        (ret_val, rows, h) \<leftarrow>
          new_lists allocator sel sc [0..<length tables_desc] (replicate (length rows) 0) (hp w);
        let w = w\<lparr>hp := h\<rparr>;
        if ret_val \<noteq> SORM_OK then core_return (sorm_list_free allocator) ret_val rows_num rows w
        else do {
          (ret_val, step_ret, rows_num, w) \<leftarrow> some_loop api conn stmt_handle
             (fill_lists api allocator stmt_handle tables_desc sel sc rows)
             max_rows_num SQLITE_DONE rows_num w;
          let ret_val = (if ret_val \<noteq> SORM_OK then ret_val
                         else if step_ret \<noteq> SQLITE_DONE \<and> step_ret \<noteq> SQLITE_ROW then SORM_DB_ERROR
                         else SORM_OK);
          core_return (sorm_list_free allocator) ret_val rows_num rows w } })"

definition i_select_all_list_core :: "'db select_core" where
  "i_select_all_list_core api conn allocator stmt_handle tables_desc sel sc max_rows_num rows_num rows w =
     (if stmt_handle = 0 then None
      else do {
        (ret_val, rows, h) \<leftarrow>
          new_lists allocator sel sc [0..<length tables_desc] (replicate (length rows) 0) (hp w);
        let w = w\<lparr>hp := h\<rparr>;
        if ret_val \<noteq> SORM_OK then core_return (sorm_list_free allocator) ret_val rows_num rows w
        else do {
          (ret_val, step_ret, rows_num, w) \<leftarrow> all_loop api conn stmt_handle
             (fill_lists api allocator stmt_handle tables_desc sel sc rows)
             rows_num w;
          let ret_val = (if ret_val \<noteq> SORM_OK then ret_val
                         else if step_ret \<noteq> SQLITE_DONE then SORM_DB_ERROR
                         else SORM_OK);
          core_return (sorm_list_free allocator) ret_val rows_num rows w } })"

section \<open>\<open>_select\<close>\<close>

text \<open>\<open>sizeof(select_columns_t)\<close> and \<open>sizeof(int)\<close>.\<close>

definition sizeof_select_columns :: nat where "sizeof_select_columns = 16"

fun malloc_indexes :: "sorm_table_descriptor_t list \<Rightarrow> heap \<Rightarrow> (sorm_error_t \<times> addr list \<times> heap) option" where
  "malloc_indexes [] h = Some (SORM_OK, [], h)"
| "malloc_indexes (td # tds) h =
     do { (p, h) \<leftarrow> i_malloc None (size_t (4 * columns_num td)) h;
          if p = 0 then Some (SORM_NOMEM, 0 # replicate (length tds) 0, h)
          else do { (ret, ps, h) \<leftarrow> malloc_indexes tds h; Some (ret, p # ps, h) } }"

definition join_str :: "sorm_join_t \<Rightarrow> string option" where
  "join_str join = (case join of
     SORM_INNER_JOIN \<Rightarrow> Some ''INNER JOIN'' | SORM_LEFT_JOIN \<Rightarrow> Some ''LEFT JOIN'' | _ \<Rightarrow> None)"

text \<open>The text of the query; a join type that is not one of the two ends in \<open>assert(0)\<close>.\<close>

definition select_text ::
  "sorm_table_descriptor_t list \<Rightarrow> string \<Rightarrow> string \<times> string \<Rightarrow> sorm_join_t \<Rightarrow> string option \<Rightarrow>
   (sorm_error_t \<times> sqlbuf) option" where
  "select_text tables_desc columns_name tables_column_name join filter_arg =
     unless_error (i_construct_select_stmt (t_name (tables_desc ! 0)) columns_name)
       (\<lambda>e. (e, sql_stmt_init)) (\<lambda>sql. unless_error
          (if length tables_desc > 1
           then do { js \<leftarrow> join_str join;
                     stmt_printf sql ('' '' @ js @ '' '' @ t_name (tables_desc ! 1) @ '' ON '' @
                       fst tables_column_name @ ''='' @ snd tables_column_name) }
           else Some (SORM_OK, sql))
          (\<lambda>e. (e, sql_stmt_init)) (\<lambda>sql. i_construct_filter_stmt sql filter_arg))"

text \<open>\<open>RETURN:\<close> of \<open>_select\<close>.\<close>

definition select_return ::
  "addr list \<Rightarrow> addr \<Rightarrow> sorm_error_t \<Rightarrow> int \<Rightarrow> addr list \<Rightarrow> 'db world \<Rightarrow>
   (sorm_error_t \<times> int option \<times> addr list \<times> 'db world) option" where
  "select_return indexes select_columns ret_val rows_num rows w =
     do { h \<leftarrow> (if select_columns \<noteq> 0
                then do { h \<leftarrow> free_rows (\<lambda>p h. if p \<noteq> 0 then i_free None p h else Some h) indexes (hp w);
                          i_free None select_columns h }
                else Some (hp w));
          Some (if ret_val = SORM_OK \<and> rows_num = 0 then SORM_NOEXIST else ret_val,
                Some rows_num, rows, w\<lparr>hp := h\<rparr>) }"

text \<open>From the text of the query to the finalized statement.\<close>

definition select_run ::
  "'db select_core \<Rightarrow> 'db sqlite3_api \<Rightarrow> sorm_connection_t \<Rightarrow> sorm_allocator_t option \<Rightarrow> string \<Rightarrow>
   sorm_table_descriptor_t list \<Rightarrow> bool list \<Rightarrow> string \<Rightarrow> int \<Rightarrow> addr list \<Rightarrow> 'db world \<Rightarrow>
   (sorm_error_t \<times> int \<times> addr list \<times> 'db world) option" where
  "select_run select_core api conn allocator columns_name tables_desc sel sql max_rows_num rows w =
     (let (ret, stmt_handle, w) = i_sqlite3_prepare api sql w in
      if ret \<noteq> SQLITE_OK then Some (SORM_DB_ERROR, 0, rows, w)
      else do {
        (ret, sc, h) \<leftarrow> i_columns_name_to_select_columns tables_desc columns_name (hp w);
        let w = w\<lparr>hp := h\<rparr>;
        (ret_val, rows_num, rows, w) \<leftarrow>
          (if ret \<noteq> SORM_OK then Some (ret, 0, rows, w)
           else select_core api conn allocator stmt_handle tables_desc sel sc max_rows_num 0 rows w);
        let (ret_val, w) = db_finalize api stmt_handle ret_val w;
        Some (ret_val, rows_num, rows, w) })"

definition i_select ::
  "'db select_core \<Rightarrow> 'db sqlite3_api \<Rightarrow> sorm_connection_t option \<Rightarrow> sorm_allocator_t option \<Rightarrow>
   string option \<Rightarrow> sorm_table_descriptor_t option list \<Rightarrow> bool list \<Rightarrow> string \<times> string \<Rightarrow> sorm_join_t \<Rightarrow>
   string option \<Rightarrow> int option \<Rightarrow> addr list \<Rightarrow> 'db world \<Rightarrow>
   (sorm_error_t \<times> int option \<times> addr list \<times> 'db world) option" where
  "i_select select_core api conn allocator columns_name tables_desc sel tables_column_name join filter_arg
     rows_num rows w =
     (if tables_desc = [] then None
      else case (conn, columns_name, rows_num) of
        (None, _, _) \<Rightarrow> Some (SORM_ARG_NULL, rows_num, rows, w)
      | (Some conn, None, _) \<Rightarrow> Some (SORM_ARG_NULL, rows_num, rows, w)
      | (Some conn, Some columns_name, _) \<Rightarrow>
      if columns_name = [] then Some (SORM_COLUMNS_NAME_EMPTY, rows_num, rows, w)
      else case rows_num of
        None \<Rightarrow> Some (SORM_ARG_NULL, rows_num, rows, w)
      | Some max_rows_num \<Rightarrow>
      if filter_arg = Some [] then Some (SORM_FILTER_EMPTY, rows_num, rows, w)
      else do {
        (p, h) \<leftarrow> i_malloc None (sizeof_select_columns * length tables_desc) (hp w);
        if p = 0 then select_return [] 0 SORM_NOMEM max_rows_num rows (w\<lparr>hp := h\<rparr>)
        else do {
          tables_desc \<leftarrow> those tables_desc;
          (ret, ps, h) \<leftarrow> malloc_indexes tables_desc h;
          let w = w\<lparr>hp := h\<rparr>;
          if ret \<noteq> SORM_OK then select_return ps p ret max_rows_num rows w
          else do {
            (ret, sql) \<leftarrow> select_text tables_desc columns_name tables_column_name join filter_arg;
            if ret \<noteq> SORM_OK then select_return ps p ret 0 rows w
            else do {
              (ret_val, rows_num, rows, w) \<leftarrow> select_run select_core api conn allocator columns_name
                 tables_desc sel (cstr (fst sql)) max_rows_num rows w;
              select_return ps p ret_val rows_num rows w } } } })"

section \<open>The interface\<close>

text \<open>
  A pointer that receives rows is a \<open>bool\<close> (\<open>NULL\<close> or not) among the arguments and an address among
  the results; the address is \<open>0\<close> when there is nothing to receive it, and also where a
  function returns before it has written the pointer.
\<close>

definition select_by ::
  "'db select_core \<Rightarrow> 'db sqlite3_api \<Rightarrow> sorm_connection_t option \<Rightarrow> sorm_allocator_t option \<Rightarrow>
   sorm_table_descriptor_t option \<Rightarrow> string option \<Rightarrow> string option \<Rightarrow> int option \<Rightarrow> bool \<Rightarrow> 'db world \<Rightarrow>
   (sorm_error_t \<times> int option \<times> addr \<times> 'db world) option" where
  "select_by select_core api conn allocator table_desc columns_name filter_arg rows_num rows_p w =
     do { (ret, rows_num, rows, w) \<leftarrow> i_select select_core api conn allocator columns_name [table_desc]
            [rows_p] ([], []) SORM_INNER_JOIN filter_arg rows_num [0] w;
          Some (ret, rows_num, if rows_p then rows ! 0 else 0, w) }"

definition sorm_select_some_array_by ::
  "'db sqlite3_api \<Rightarrow> sorm_connection_t option \<Rightarrow> sorm_allocator_t option \<Rightarrow>
   sorm_table_descriptor_t option \<Rightarrow> string option \<Rightarrow> string option \<Rightarrow> int option \<Rightarrow> bool \<Rightarrow> 'db world \<Rightarrow>
   (sorm_error_t \<times> int option \<times> addr \<times> 'db world) option" where
  "sorm_select_some_array_by = select_by i_select_some_array_core"

definition sorm_select_some_list_by ::
  "'db sqlite3_api \<Rightarrow> sorm_connection_t option \<Rightarrow> sorm_allocator_t option \<Rightarrow>
   sorm_table_descriptor_t option \<Rightarrow> string option \<Rightarrow> string option \<Rightarrow> int option \<Rightarrow> bool \<Rightarrow> 'db world \<Rightarrow>
   (sorm_error_t \<times> int option \<times> addr \<times> 'db world) option" where
  "sorm_select_some_list_by = select_by i_select_some_list_core"

definition sorm_select_all_list_by ::
  "'db sqlite3_api \<Rightarrow> sorm_connection_t option \<Rightarrow> sorm_allocator_t option \<Rightarrow>
   sorm_table_descriptor_t option \<Rightarrow> string option \<Rightarrow> string option \<Rightarrow> int option \<Rightarrow> bool \<Rightarrow> 'db world \<Rightarrow>
   (sorm_error_t \<times> int option \<times> addr \<times> 'db world) option" where
  "sorm_select_all_list_by = select_by i_select_all_list_core"

definition sorm_select_one_by_column ::
  "'db sqlite3_api \<Rightarrow> sorm_connection_t option \<Rightarrow> sorm_allocator_t option \<Rightarrow>
   sorm_table_descriptor_t option \<Rightarrow> string option \<Rightarrow> int \<Rightarrow> value_arg option \<Rightarrow> bool \<Rightarrow> 'db world \<Rightarrow>
   (sorm_error_t \<times> addr \<times> 'db world) option" where
  "sorm_select_one_by_column api conn allocator table_desc columns_name column_index column_value get_row w =
     (case column_value of
        None \<Rightarrow> Some (SORM_ARG_NULL, 0, w)
      | Some v \<Rightarrow>
          do { (ret, filter_buf) \<leftarrow> i_construct_column_filter (hp w) table_desc column_index (Some v);
               if ret \<noteq> SORM_OK then Some (ret, 0, w)
               else do { (ret, n, p, w) \<leftarrow> sorm_select_some_array_by api conn allocator table_desc columns_name
                           (Some (cstr filter_buf)) (Some 1) get_row w;
                         Some (ret, p, w) } })"

definition sorm_select_all_array_by ::
  "'db sqlite3_api \<Rightarrow> sorm_connection_t option \<Rightarrow> sorm_allocator_t option \<Rightarrow>
   sorm_table_descriptor_t option \<Rightarrow> string option \<Rightarrow> string option \<Rightarrow> int option \<Rightarrow> bool \<Rightarrow> 'db world \<Rightarrow>
   (sorm_error_t \<times> int option \<times> addr \<times> 'db world) option" where
  "sorm_select_all_array_by api conn allocator table_desc columns_name filter_arg n get_row w =
     do { (ret, n, row_head, w) \<leftarrow>
            sorm_select_all_list_by api conn allocator table_desc columns_name filter_arg n get_row w;
          if ret \<noteq> SORM_OK then Some (ret, n, 0, w)
          else do {
            k \<leftarrow> n;
            if k = 0 then Some (SORM_NOEXIST, n, 0, w)
            else if get_row
            then do { (p, h) \<leftarrow> sorm_new_array allocator table_desc k (hp w);
                      if p = 0
                      then do { h \<leftarrow> sorm_list_free allocator row_head h;
                                Some (SORM_NOMEM, n, 0, w\<lparr>hp := h\<rparr>) }
                      else do { h \<leftarrow> i_list_cpy_free allocator row_head k p h;
                                Some (SORM_OK, n, p, w\<lparr>hp := h\<rparr>) } }
            else Some (SORM_OK, n, 0, w) } }"

subsection \<open>Joins\<close>

definition select_by_join ::
  "'db select_core \<Rightarrow> 'db sqlite3_api \<Rightarrow> sorm_connection_t option \<Rightarrow> sorm_allocator_t option \<Rightarrow>
   string option \<Rightarrow> sorm_table_descriptor_t option \<Rightarrow> string \<Rightarrow> sorm_table_descriptor_t option \<Rightarrow> string \<Rightarrow>
   sorm_join_t \<Rightarrow> string option \<Rightarrow> int option \<Rightarrow> bool \<Rightarrow> bool \<Rightarrow> 'db world \<Rightarrow>
   (sorm_error_t \<times> int option \<times> addr \<times> addr \<times> 'db world) option" where
  "select_by_join select_core api conn allocator columns_name table1_desc table1_column_name table2_desc
     table2_column_name join filter_arg rows_num rows1_p rows2_p w =
     do { (ret, rows_num, rows, w) \<leftarrow> i_select select_core api conn allocator columns_name
            [table1_desc, table2_desc] [rows1_p, rows2_p] (table1_column_name, table2_column_name) join
            filter_arg rows_num [0, 0] w;
          Some (ret, rows_num, if rows1_p then rows ! 0 else 0, if rows2_p then rows ! 1 else 0, w) }"

definition sorm_select_some_array_by_join ::
  "'db sqlite3_api \<Rightarrow> sorm_connection_t option \<Rightarrow> sorm_allocator_t option \<Rightarrow>
   string option \<Rightarrow> sorm_table_descriptor_t option \<Rightarrow> string \<Rightarrow> sorm_table_descriptor_t option \<Rightarrow> string \<Rightarrow>
   sorm_join_t \<Rightarrow> string option \<Rightarrow> int option \<Rightarrow> bool \<Rightarrow> bool \<Rightarrow> 'db world \<Rightarrow>
   (sorm_error_t \<times> int option \<times> addr \<times> addr \<times> 'db world) option" where
  "sorm_select_some_array_by_join = select_by_join i_select_some_array_core"

definition sorm_select_some_list_by_join ::
  "'db sqlite3_api \<Rightarrow> sorm_connection_t option \<Rightarrow> sorm_allocator_t option \<Rightarrow>
   string option \<Rightarrow> sorm_table_descriptor_t option \<Rightarrow> string \<Rightarrow> sorm_table_descriptor_t option \<Rightarrow> string \<Rightarrow>
   sorm_join_t \<Rightarrow> string option \<Rightarrow> int option \<Rightarrow> bool \<Rightarrow> bool \<Rightarrow> 'db world \<Rightarrow>
   (sorm_error_t \<times> int option \<times> addr \<times> addr \<times> 'db world) option" where
  "sorm_select_some_list_by_join = select_by_join i_select_some_list_core"

definition sorm_select_all_list_by_join ::
  "'db sqlite3_api \<Rightarrow> sorm_connection_t option \<Rightarrow> sorm_allocator_t option \<Rightarrow>
   string option \<Rightarrow> sorm_table_descriptor_t option \<Rightarrow> string \<Rightarrow> sorm_table_descriptor_t option \<Rightarrow> string \<Rightarrow>
   sorm_join_t \<Rightarrow> string option \<Rightarrow> int option \<Rightarrow> bool \<Rightarrow> bool \<Rightarrow> 'db world \<Rightarrow>
   (sorm_error_t \<times> int option \<times> addr \<times> addr \<times> 'db world) option" where
  "sorm_select_all_list_by_join = select_by_join i_select_all_list_core"

text \<open>One table of \<open>sorm_select_all_array_by_join\<close>: the list becomes an array.\<close>

definition list_to_array ::
  "sorm_allocator_t option \<Rightarrow> sorm_table_descriptor_t option \<Rightarrow> bool \<Rightarrow> addr \<Rightarrow> int \<Rightarrow> heap \<Rightarrow>
   (sorm_error_t \<times> addr \<times> heap) option" where
  "list_to_array allocator table_desc rows_p row_head rows_num h =
     (if rows_p \<and> row_head \<noteq> 0
      then do { (p, h) \<leftarrow> sorm_new_array allocator table_desc rows_num h;
                if p = 0 then Some (SORM_NOMEM, 0, h)
                else do { h \<leftarrow> i_list_cpy_free allocator row_head rows_num p h; Some (SORM_OK, p, h) } }
      else Some (SORM_OK, 0, h))"

definition sorm_select_all_array_by_join ::
  "'db sqlite3_api \<Rightarrow> sorm_connection_t option \<Rightarrow> sorm_allocator_t option \<Rightarrow>
   string option \<Rightarrow> sorm_table_descriptor_t option \<Rightarrow> string \<Rightarrow> sorm_table_descriptor_t option \<Rightarrow> string \<Rightarrow>
   sorm_join_t \<Rightarrow> string option \<Rightarrow> int option \<Rightarrow> bool \<Rightarrow> bool \<Rightarrow> 'db world \<Rightarrow>
   (sorm_error_t \<times> int option \<times> addr \<times> addr \<times> 'db world) option" where
  "sorm_select_all_array_by_join api conn allocator columns_name table1_desc table1_column_name table2_desc
     table2_column_name join filter_arg rows_num rows1_p rows2_p w =
     do { (ret, rows_num, head1, head2, w) \<leftarrow> sorm_select_all_list_by_join api conn allocator columns_name
            table1_desc table1_column_name table2_desc table2_column_name join filter_arg rows_num
            rows1_p rows2_p w;
          if ret \<noteq> SORM_OK then Some (ret, rows_num, 0, 0, w)
          else do {
            n \<leftarrow> rows_num;
            (ret, p1, h) \<leftarrow> list_to_array allocator table1_desc rows1_p head1 n (hp w);
            if ret \<noteq> SORM_OK then Some (ret, rows_num, 0, 0, w\<lparr>hp := h\<rparr>)
            else do {
              (ret, p2, h) \<leftarrow> list_to_array allocator table2_desc rows2_p head2 n h;
              Some (ret, rows_num, p1, if ret \<noteq> SORM_OK then 0 else p2, w\<lparr>hp := h\<rparr>) } } }"

end
