(* ===== verification/Sorm_Fetch.thy ===== *)
theory Sorm_Fetch
  imports Sorm_Select
begin

text \<open>
  What a \<open>SELECT\<close> gives. The reference is \<open>fetch\<close>, the sequence of database states in which SQLite
  answers \<open>SQLITE_ROW\<close>; the loops of \<^verbatim>\<open>src/src/sorm.c\<close> are shown to read exactly these rows, in order,
  into whatever keeps the rows of a table. That is the locale \<open>row_container\<close>: lists and arrays are
  its two instances, and the loops over tables and rows are verified once.
\<close>

section \<open>The rows of a statement\<close>

definition step_call_db :: "'db sqlite3_api \<Rightarrow> stmt \<Rightarrow> 'db \<Rightarrow> int \<times> unit \<times> 'db" where
  "step_call_db api st d = (let (ret, d) = sqlite3_step api st d in (ret, (), d))"

text \<open>\<open>_sqlite3_step\<close> as the database sees it: the answer and the state after the busy answers.\<close>

definition step_db :: "'db sqlite3_api \<Rightarrow> stmt \<Rightarrow> 'db \<Rightarrow> int \<times> 'db" where
  "step_db api st d = (let (ret, u, d) = busy_retry (step_call_db api st) 0 d in (ret, d))"

text \<open>
  At most \<open>n\<close> rows: the states of the rows, and the last answer (\<open>SQLITE_ROW\<close> when \<open>n\<close> rows were
  there).
\<close>

fun fetch :: "'db sqlite3_api \<Rightarrow> stmt \<Rightarrow> nat \<Rightarrow> 'db \<Rightarrow> 'db list \<times> int" where
  "fetch api st 0 d = ([], SQLITE_ROW)"
| "fetch api st (Suc n) d =
     (let (r, d') = step_db api st d in
      if r = SQLITE_ROW then (let (ds, r') = fetch api st n d' in (d' # ds, r')) else ([], r))"

lemma fetch_length: "fetch api st n d = (ds, r) \<Longrightarrow> length ds \<le> n \<and> (r = SQLITE_ROW \<longrightarrow> length ds = n)"
  by (induction n arbitrary: d ds) (auto simp: Let_def split: prod.splits if_splits)

text \<open>Repeating a call while busy changes the database as repeating its database part does.\<close>

lemma busy_retry_db:
  "(\<And>w r x w'. f w = (r, x, w') \<Longrightarrow> g (db w) = (r, x, db w')) \<Longrightarrow>
   busy_retry f n w = (r, x, w') \<Longrightarrow> busy_retry g n (db w) = (r, x, db w')"
proof (induction f n w arbitrary: r x w' rule: busy_retry.induct)
  case (1 f n w)
  obtain r1 x1 w1 where q: "f w = (r1, x1, w1)" by (metis prod_cases3)
  note p = 1(2) [OF q]
  show ?case
  proof (cases "r1 = SQLITE_BUSY \<and> n + 1 < BUSY_RETRY_TIME")
    case True
    then have "busy_retry f (n + 1) w1 = (r, x, w')" using 1(3) q by (subst (asm) busy_retry.simps) (simp add: Let_def)
    then have "busy_retry g (n + 1) (db w1) = (r, x, db w')"
      using 1(1) [OF q [symmetric] HOL.refl HOL.refl HOL.refl True 1(2)] by blast
    then show ?thesis using True p by (subst busy_retry.simps) (simp add: Let_def)
  next
    case False
    then have "r = r1" "x = x1" "w' = w1" using 1(3) q by (subst (asm) busy_retry.simps; auto simp: Let_def)+
    then show ?thesis using False p by (subst busy_retry.simps) (auto simp: Let_def)
  qed
qed

lemma step_call_sim: "sq_step api st w = (r, x, w') \<Longrightarrow> step_call_db api st (db w) = (r, x, db w')"
  by (auto simp: sq_step_def step_call_db_def split: prod.splits)

lemma lock_db: "i_lock conn fl w = Some w' \<Longrightarrow> db w' = db w" "i_unlock conn w = Some w' \<Longrightarrow> db w' = db w"
  by (auto simp: i_lock_def i_unlock_def pthread_rwlock_rdlock_def pthread_rwlock_wrlock_def
      pthread_rwlock_unlock_def bind_Some_iff split: if_splits rwlock_state.splits)

lemma step_is_step_db:
  assumes "i_sqlite3_step api conn st fl w = Some (ret, w')"
  shows "step_db api st (db w) = (ret, db w')"
proof -
  from assms obtain w1 where
    1: "(if transaction_num conn = 0 then i_lock conn fl w else Some w) = Some w1"
    by (auto simp: i_sqlite3_step_def bind_Some_iff)
  obtain r u w2 where b: "busy_retry (sq_step api st) 0 w1 = (r, u, w2)" by (metis prod_cases3)
  from assms 1 b have 2: "busy_retry (sq_step api st) 0 w1 = (ret, u, w2)" and
    3: "(if transaction_num conn = 0 then i_unlock conn w2 else Some w2) = Some w'"
    by (auto simp: i_sqlite3_step_def Let_def bind_Some_iff)
  have "db w1 = db w" "db w' = db w2" using 1 3 by (auto split: if_splits dest: lock_db)
  with busy_retry_db [where g = "step_call_db api st", OF step_call_sim 2] show ?thesis by (simp add: step_db_def)
qed

text \<open>Calls that only run the statement \<open>st\<close>, with their locks.\<close>

definition only_steps :: "stmt \<Rightarrow> call list \<Rightarrow> bool" where
  "only_steps st cs \<longleftrightarrow> (\<forall>c \<in> set cs. c = Call_lock \<or> c = Call_unlock \<or> (\<exists>r. c = Call_step st r))"

lemma only_steps_simps [simp]:
  "only_steps st []" "only_steps st (cs @ cs') \<longleftrightarrow> only_steps st cs \<and> only_steps st cs'"
  by (auto simp: only_steps_def)

lemma step_run_only: "step_run st r cs \<Longrightarrow> only_steps st (step_events conn cs)"
  by (auto simp: step_run_def step_events_def lock_events_def only_steps_def)

text \<open>One step of a loop: the state, the lock for the next step, the calls.\<close>

lemma step_fetches:
  assumes "transaction_num conn = 0 \<longrightarrow> lock_ready conn w"
  shows "\<exists>ret w' cs. i_sqlite3_step api conn st fl w = Some (ret, w') \<and> step_db api st (db w) = (ret, db w') \<and>
    hp w' = hp w \<and> same_locks w w' \<and> (transaction_num conn = 0 \<longrightarrow> lock_ready conn w') \<and>
    calls w' = calls w @ cs \<and> only_steps st cs"
  using step_returns [OF assms, of api st fl] step_is_step_db step_run_only by blast

section \<open>Containers of rows\<close>

text \<open>
  The tables that are read have a container each; \<open>c\<close> is what the container of table \<open>i\<close> at \<open>p\<close>
  holds. \<open>add k d i p\<close> reads the row of state \<open>d\<close>, the \<open>k\<close>-th, into it; \<open>filled i c ds\<close> says that
  exactly the rows of the states \<open>ds\<close> have been read, \<open>fits i d\<close> that the row of \<open>d\<close> can be stored, and
  \<open>lim\<close> bounds the number of rows.
\<close>

locale row_container =
  fixes ok :: "heap \<Rightarrow> nat \<Rightarrow> addr \<Rightarrow> 'c \<Rightarrow> bool"
    and foot :: "addr \<Rightarrow> 'c \<Rightarrow> addr set"
    and add :: "nat \<Rightarrow> 'db \<Rightarrow> nat \<Rightarrow> addr \<Rightarrow> heap \<Rightarrow> (sorm_error_t \<times> heap) option"
    and filled :: "'c \<Rightarrow> 'db list \<Rightarrow> bool"
    and fits :: "nat \<Rightarrow> 'db \<Rightarrow> bool"
    and lim :: "nat \<Rightarrow> bool"
  assumes ok_frame: "ok h i p c \<Longrightarrow> (\<And>a. a \<in> foot p c \<Longrightarrow> blocks h' a = blocks h a) \<Longrightarrow> ok h' i p c"
    and ok_alloc: "ok h i p c \<Longrightarrow> a \<in> foot p c \<Longrightarrow> blocks h a \<noteq> None"
    and add_ok: "heap_ok h \<Longrightarrow> ok h i p c \<Longrightarrow> filled c ds \<Longrightarrow> lim (length ds) \<Longrightarrow>
      \<exists>ret h' c'. add (length ds) d i p h = Some (ret, h') \<and> heap_ok h' \<and> ok h' i p c' \<and>
        foot p c \<subseteq> foot p c' \<and> (\<forall>a \<in> foot p c' - foot p c. blocks h a = None) \<and>
        (\<forall>a. a \<notin> foot p c' \<longrightarrow> blocks h' a = blocks h a) \<and> (ret = SORM_OK \<longrightarrow> filled c' (ds @ [d])) \<and>
        (fits i d \<longrightarrow> ret = SORM_OK)"
begin

definition tables_ok :: "nat set \<Rightarrow> heap \<Rightarrow> heap \<Rightarrow> addr list \<Rightarrow> (nat \<Rightarrow> 'c) \<Rightarrow> bool" where
  "tables_ok tables h0 h rows cs \<longleftrightarrow> heap_ok h \<and> (\<forall>i \<in> tables. ok h i (rows ! i) (cs i)) \<and>
     (\<forall>i \<in> tables. \<forall>j \<in> tables. i \<noteq> j \<longrightarrow> foot (rows ! i) (cs i) \<inter> foot (rows ! j) (cs j) = {}) \<and>
     (\<forall>a. blocks h0 a = (if \<exists>i \<in> tables. a \<in> foot (rows ! i) (cs i) then None else blocks h a))"

lemma tables_ok_add:
  assumes t: "tables_ok tables h0 h rows cs" and i: "i \<in> tables" and f: "filled (cs i) ds" and l: "lim (length ds)"
  shows "\<exists>ret h' c'. add (length ds) d i (rows ! i) h = Some (ret, h') \<and> tables_ok tables h0 h' rows (cs(i := c')) \<and>
    (ret = SORM_OK \<longrightarrow> filled c' (ds @ [d])) \<and> (fits i d \<longrightarrow> ret = SORM_OK)"
proof -
  let ?p = "\<lambda>j. rows ! j"
  have h: "heap_ok h" and ok: "\<And>j. j \<in> tables \<Longrightarrow> ok h j (?p j) (cs j)"
    and dis: "\<And>j k. j \<in> tables \<Longrightarrow> k \<in> tables \<Longrightarrow> j \<noteq> k \<Longrightarrow> foot (?p j) (cs j) \<inter> foot (?p k) (cs k) = {}"
    and h0: "\<And>a. blocks h0 a = (if \<exists>i \<in> tables. a \<in> foot (?p i) (cs i) then None else blocks h a)"
    using t by (auto simp: tables_ok_def)
  from add_ok [OF h ok [OF i] f l] obtain ret h' c' where
    run: "add (length ds) d i (?p i) h = Some (ret, h')" "heap_ok h'" "ok h' i (?p i) c'"
      "ret = SORM_OK \<longrightarrow> filled c' (ds @ [d])" "fits i d \<longrightarrow> ret = SORM_OK" and
    sub: "foot (?p i) (cs i) \<subseteq> foot (?p i) c'" and
    new: "\<And>a. a \<in> foot (?p i) c' \<Longrightarrow> a \<notin> foot (?p i) (cs i) \<Longrightarrow> blocks h a = None" and
    same: "\<And>a. a \<notin> foot (?p i) c' \<Longrightarrow> blocks h' a = blocks h a" by blast
  have apart: "foot (?p i) c' \<inter> foot (?p j) (cs j) = {}" if "j \<in> tables" "j \<noteq> i" for j
    using dis [OF i that(1)] that ok_alloc [OF ok [OF that(1)]] new by blast
  have "ok h' j (?p j) (cs j)" if "j \<in> tables" "j \<noteq> i" for j
    using ok_frame [OF ok [OF that(1)], of h'] apart [OF that] same by blast
  moreover have "blocks h0 a = (if \<exists>j \<in> tables. a \<in> foot (?p j) ((cs(i := c')) j) then None else blocks h' a)" for a
  proof (cases "a \<in> foot (?p i) c'")
    case True
    then have "blocks h0 a = None" using h0 [of a] new [of a] i by auto
    then show ?thesis using True i by auto
  next
    case False
    then show ?thesis using h0 [of a] same [of a] sub i by (auto split: if_splits)
  qed
  ultimately have "tables_ok tables h0 h' rows (cs(i := c'))"
    using run(2,3) apart dis by (auto simp: tables_ok_def)
  then show ?thesis using run by blast
qed

lemma tables_ok_insert:
  assumes t: "tables_ok tables h0 h rows cs" and i: "i \<notin> tables" "i < length rows"
    and p: "ok h' i p (cs i)" "heap_ok h'" and new: "\<And>a. a \<in> foot p (cs i) \<Longrightarrow> blocks h a = None"
    and same: "\<And>a. a \<notin> foot p (cs i) \<Longrightarrow> blocks h' a = blocks h a"
  shows "tables_ok (insert i tables) h0 h' (rows[i := p]) cs"
proof -
  have old: "ok h j (rows ! j) (cs j)" if "j \<in> tables" for j using t that by (simp add: tables_ok_def)
  have apart: "foot p (cs i) \<inter> foot (rows ! j) (cs j) = {}" if "j \<in> tables" for j
    using new ok_alloc [OF old [OF that]] by blast
  have "ok h' j (rows ! j) (cs j)" if "j \<in> tables" for j
    using ok_frame [OF old [OF that], of h'] apart [OF that] same by blast
  moreover have "rows[i := p] ! j = (if j = i then p else rows ! j)" for j using i(2) by simp
  moreover have "blocks h0 a = (if a \<in> foot p (cs i) \<or> (\<exists>j \<in> tables. a \<in> foot (rows ! j) (cs j)) then None else blocks h' a)" for a
    using t new [of a] same [of a] by (auto simp: tables_ok_def)
  ultimately show ?thesis
    using t i(1) p apart unfolding tables_ok_def by (auto simp: Int_commute)
qed

lemma fill_rows_ok:
  assumes "tables_ok tables h0 h rows cs" and "\<And>i. i \<in> set is \<Longrightarrow> table_selected sc sel i = Some (i \<in> tables)"
    and "distinct is" and "set is \<subseteq> {..< length rows}"
    and "\<And>i. i \<in> set is \<inter> tables \<Longrightarrow> filled (cs i) ds" and "lim (length ds)"
  shows "\<exists>ret h' cs'. fill_rows (add (length ds) d) sel sc rows is h = Some (ret, h') \<and> tables_ok tables h0 h' rows cs' \<and>
    (\<forall>i. i \<notin> set is \<longrightarrow> cs' i = cs i) \<and> (ret = SORM_OK \<longrightarrow> (\<forall>i \<in> set is \<inter> tables. filled (cs' i) (ds @ [d]))) \<and>
    ((\<forall>i \<in> set is \<inter> tables. fits i d) \<longrightarrow> ret = SORM_OK)"
  using assms
proof (induction "is" arbitrary: h cs)
  case Nil
  then show ?case by auto
next
  case (Cons i js)
  have sel: "table_selected sc sel i = Some (i \<in> tables)" and p: "nth_opt rows (int i) = Some (rows ! i)"
    using Cons.prems by (auto simp: nth_opt_def)
  show ?case
  proof (cases "i \<in> tables")
    case False
    from Cons.IH [OF Cons.prems(1)] Cons.prems(2-6) obtain ret h' cs' where
      "fill_rows (add (length ds) d) sel sc rows js h = Some (ret, h')" "tables_ok tables h0 h' rows cs'"
      "\<forall>i. i \<notin> set js \<longrightarrow> cs' i = cs i" "ret = SORM_OK \<longrightarrow> (\<forall>i \<in> set js \<inter> tables. filled (cs' i) (ds @ [d]))"
      "(\<forall>i \<in> set js \<inter> tables. fits i d) \<longrightarrow> ret = SORM_OK"
      by auto
    then show ?thesis using False sel by (intro exI [of _ ret] exI [of _ h'] exI [of _ cs']) auto
  next
    case True
    from tables_ok_add [OF Cons.prems(1) True _ Cons.prems(6), of d] Cons.prems(5) True obtain r h1 c1 where
      a: "add (length ds) d i (rows ! i) h = Some (r, h1)" "tables_ok tables h0 h1 rows (cs(i := c1))"
        "r = SORM_OK \<longrightarrow> filled c1 (ds @ [d])" "fits i d \<longrightarrow> r = SORM_OK" by auto
    show ?thesis
    proof (cases "r = SORM_OK")
      case False
      define cs1 where "cs1 = cs(i := c1)"
      have "tables_ok tables h0 h1 rows cs1" "\<forall>j. j \<noteq> i \<longrightarrow> cs1 j = cs j" using a(2) by (simp_all add: cs1_def)
      then show ?thesis using False a sel p True
        by (intro exI [of _ r] exI [of _ h1] exI [of _ cs1]) simp
    next
      case ok: True
      have "\<And>j. j \<in> set js \<inter> tables \<Longrightarrow> filled ((cs(i := c1)) j) ds" using Cons.prems(3,5) by auto
      from Cons.IH [OF a(2) _ _ _ this Cons.prems(6)] Cons.prems(2-4) obtain ret h' cs' where
        "fill_rows (add (length ds) d) sel sc rows js h1 = Some (ret, h')" "tables_ok tables h0 h' rows cs'"
        "\<forall>j. j \<notin> set js \<longrightarrow> cs' j = (cs(i := c1)) j"
        "ret = SORM_OK \<longrightarrow> (\<forall>i \<in> set js \<inter> tables. filled (cs' i) (ds @ [d]))"
        "(\<forall>i \<in> set js \<inter> tables. fits i d) \<longrightarrow> ret = SORM_OK" by auto
      then show ?thesis using a ok sel p True Cons.prems(3)
        by (intro exI [of _ ret] exI [of _ h'] exI [of _ cs']) auto
    qed
  qed
qed

end

text \<open>The bounded loop reads the rows of \<open>fetch\<close>, in order, unless a row cannot be stored.\<close>

context row_container
begin

lemma some_loop_ok:
  assumes body: "\<And>k d h. body k d h = fill_rows (add k d) sel sc rows [0..<length rows] h"
    and sel: "\<And>i. i < length rows \<Longrightarrow> table_selected sc sel i = Some (i \<in> tables)" and sub: "tables \<subseteq> {..< length rows}"
    and lim: "\<And>k. int k < m \<Longrightarrow> lim k"
    and "tables_ok tables h0 (hp w) rows cs" and "\<forall>i \<in> tables. filled (cs i) ds0"
    and "transaction_num conn = 0 \<longrightarrow> lock_ready conn w"
    and "fetch api st (nat (m - int (length ds0))) (db w) = (ds, r)"
  shows "\<exists>ret step n w' cs' es. some_loop api conn st body m s0 (int (length ds0)) w = Some (ret, step, n, w') \<and>
    same_locks w w' \<and> tables_ok tables h0 (hp w') rows cs' \<and> calls w' = calls w @ es \<and> only_steps st es \<and>
    (ret = SORM_OK \<longrightarrow> n = int (length ds0 + length ds) \<and> (\<forall>i \<in> tables. filled (cs' i) (ds0 @ ds)) \<and>
       step = (if int (length ds0) < m then r else s0)) \<and>
    ((\<forall>d \<in> set ds. \<forall>i \<in> tables. fits i d) \<longrightarrow> ret = SORM_OK)"
  using assms(5-)
proof (induction "nat (m - int (length ds0))" arbitrary: w cs ds0 ds s0)
  case 0
  then show ?case by (subst some_loop.simps) auto
next
  case (Suc n)
  have lt: "int (length ds0) < m" using Suc.hyps(2) by linarith
  obtain r1 w1 es1 where st: "i_sqlite3_step api conn st SORM_RWLOCK_READ w = Some (r1, w1)"
    "step_db api st (db w) = (r1, db w1)" "hp w1 = hp w" "same_locks w w1"
    "transaction_num conn = 0 \<longrightarrow> lock_ready conn w1" "calls w1 = calls w @ es1" "only_steps st es1"
    using step_fetches [OF Suc.prems(3), of api st SORM_RWLOCK_READ] by blast
  show ?case
  proof (cases "r1 = SQLITE_ROW")
    case False
    then have "ds = []" "r = r1" using Suc.prems(4) st(2) Suc.hyps(2) [symmetric] by auto
    with False lt st Suc.prems(1,2) show ?thesis
      by (intro exI [of _ SORM_OK] exI [of _ r1] exI [of _ "int (length ds0)"] exI [of _ w1] exI [of _ cs] exI [of _ es1])
        (subst some_loop.simps, simp)
  next
    case True
    obtain ds' where f: "fetch api st n (db w1) = (ds', r)" "ds = db w1 # ds'"
      using Suc.prems(4) st(2) Suc.hyps(2) [symmetric] True by (auto simp: Let_def split: prod.splits)
    have t1: "tables_ok tables h0 (hp w1) rows cs" using Suc.prems(1) st(3) by simp
    have fl: "\<And>i. i \<in> set [0..<length rows] \<inter> tables \<Longrightarrow> filled (cs i) ds0" using Suc.prems(2) by simp
    have sub': "set [0..<length rows] \<subseteq> {..<length rows}" by auto
    from fill_rows_ok [OF t1 _ _ sub' fl lim [OF lt], of sc sel "db w1"] sel obtain ret h1 cs1 where
      b: "body (length ds0) (db w1) (hp w1) = Some (ret, h1)" "tables_ok tables h0 h1 rows cs1"
        "ret = SORM_OK \<longrightarrow> (\<forall>i \<in> set [0..<length rows] \<inter> tables. filled (cs1 i) (ds0 @ [db w1]))"
        "(\<forall>i \<in> set [0..<length rows] \<inter> tables. fits i (db w1)) \<longrightarrow> ret = SORM_OK"
      unfolding body by auto
    let ?w = "w1\<lparr>hp := h1\<rparr>"
    show ?thesis
    proof (cases "ret = SORM_OK")
      case False
      then have "\<not> (\<forall>d \<in> set ds. \<forall>i \<in> tables. fits i d)" using b(4) f(2) by auto
      with False True lt st b show ?thesis
        by (intro exI [of _ ret] exI [of _ r1] exI [of _ "int (length ds0)"] exI [of _ ?w] exI [of _ cs1] exI [of _ es1])
          (subst some_loop.simps, simp add: same_locks_def)
    next
      case ok: True
      have n: "n = nat (m - int (length (ds0 @ [db w1])))" using Suc.hyps(2) by simp
      have fl1: "\<forall>i \<in> tables. filled (cs1 i) (ds0 @ [db w1])" using b(3) ok sub by auto
      have rdy: "transaction_num conn = 0 \<longrightarrow> lock_ready conn ?w" using st(5) by (simp add: lock_ready_def)
      have f': "fetch api st (nat (m - int (length (ds0 @ [db w1])))) (db ?w) = (ds', r)" using f(1) n by simp
      have t2: "tables_ok tables h0 (hp ?w) rows cs1" using b(2) by simp
      from Suc.hyps(1) [OF n t2 fl1 rdy f', of SQLITE_ROW] obtain ret' step' n' w' cs' es where
        rec: "some_loop api conn st body m SQLITE_ROW (int (length (ds0 @ [db w1]))) ?w = Some (ret', step', n', w')"
          "same_locks ?w w'" "tables_ok tables h0 (hp w') rows cs'" "calls w' = calls ?w @ es" "only_steps st es"
          "ret' = SORM_OK \<longrightarrow> n' = int (length (ds0 @ [db w1]) + length ds') \<and>
             (\<forall>i \<in> tables. filled (cs' i) ((ds0 @ [db w1]) @ ds')) \<and>
             step' = (if int (length (ds0 @ [db w1])) < m then r else SQLITE_ROW)"
          "(\<forall>d \<in> set ds'. \<forall>i \<in> tables. fits i d) \<longrightarrow> ret' = SORM_OK" by blast
      have last: "\<not> int (length (ds0 @ [db w1])) < m \<Longrightarrow> r = SQLITE_ROW" using f(1) n by simp
      have "some_loop api conn st body m s0 (int (length ds0)) w = Some (ret', step', n', w')"
        using lt st(1) True b(1) ok rec(1) by (subst some_loop.simps) (simp add: add.commute)
      moreover have "same_locks w w'"
        using same_locks_trans [OF st(4), of w'] rec(2) by (simp add: same_locks_def)
      ultimately show ?thesis
        using rec(3-) st(6,7) f(2) lt last
        by (intro exI [of _ ret'] exI [of _ step'] exI [of _ n'] exI [of _ w'] exI [of _ cs'] exI [of _ "es1 @ es"])
          auto
    qed
  qed
qed

text \<open>So does the loop without a bound, and it ends when SQLite's rows do.\<close>

lemma all_loop_ok:
  assumes body: "\<And>k d h. body k d h = fill_rows (add k d) sel sc rows [0..<length rows] h"
    and sel: "\<And>i. i < length rows \<Longrightarrow> table_selected sc sel i = Some (i \<in> tables)" and sub: "tables \<subseteq> {..< length rows}"
    and lim: "\<And>k. lim k"
    and "tables_ok tables h0 (hp w) rows cs" and "\<forall>i \<in> tables. filled (cs i) ds0"
    and "transaction_num conn = 0 \<longrightarrow> lock_ready conn w"
    and "fetch api st n (db w) = (ds, r)" and "r \<noteq> SQLITE_ROW"
  shows "\<exists>ret step k w' cs' es. all_loop api conn st body (int (length ds0)) w = Some (ret, step, k, w') \<and>
    same_locks w w' \<and> tables_ok tables h0 (hp w') rows cs' \<and> calls w' = calls w @ es \<and> only_steps st es \<and>
    (ret = SORM_OK \<longrightarrow> k = int (length ds0 + length ds) \<and> (\<forall>i \<in> tables. filled (cs' i) (ds0 @ ds)) \<and> step = r) \<and>
    ((\<forall>d \<in> set ds. \<forall>i \<in> tables. fits i d) \<longrightarrow> ret = SORM_OK)"
  using assms(5-)
proof (induction n arbitrary: w cs ds0 ds)
  case 0
  then show ?case by simp
next
  case (Suc n)
  obtain r1 w1 es1 where st: "i_sqlite3_step api conn st SORM_RWLOCK_READ w = Some (r1, w1)"
    "step_db api st (db w) = (r1, db w1)" "hp w1 = hp w" "same_locks w w1"
    "transaction_num conn = 0 \<longrightarrow> lock_ready conn w1" "calls w1 = calls w @ es1" "only_steps st es1"
    using step_fetches [OF Suc.prems(3), of api st SORM_RWLOCK_READ] by blast
  show ?case
  proof (cases "r1 = SQLITE_ROW")
    case False
    then have "ds = []" "r = r1" using Suc.prems(4) st(2) by auto
    with False st Suc.prems(1,2) show ?thesis
      by (intro exI [of _ SORM_OK] exI [of _ r1] exI [of _ "int (length ds0)"] exI [of _ w1] exI [of _ cs] exI [of _ es1])
        (subst all_loop.simps, simp)
  next
    case True
    obtain ds' where f: "fetch api st n (db w1) = (ds', r)" "ds = db w1 # ds'"
      using Suc.prems(4) st(2) True by (auto simp: Let_def split: prod.splits)
    have t1: "tables_ok tables h0 (hp w1) rows cs" using Suc.prems(1) st(3) by simp
    have fl: "\<And>i. i \<in> set [0..<length rows] \<inter> tables \<Longrightarrow> filled (cs i) ds0" using Suc.prems(2) by simp
    have sub': "set [0..<length rows] \<subseteq> {..<length rows}" by auto
    from fill_rows_ok [OF t1 _ _ sub' fl lim, of sc sel "db w1"] sel obtain ret h1 cs1 where
      b: "body (length ds0) (db w1) (hp w1) = Some (ret, h1)" "tables_ok tables h0 h1 rows cs1"
        "ret = SORM_OK \<longrightarrow> (\<forall>i \<in> set [0..<length rows] \<inter> tables. filled (cs1 i) (ds0 @ [db w1]))"
        "(\<forall>i \<in> set [0..<length rows] \<inter> tables. fits i (db w1)) \<longrightarrow> ret = SORM_OK"
      unfolding body by auto
    let ?w = "w1\<lparr>hp := h1\<rparr>"
    show ?thesis
    proof (cases "ret = SORM_OK")
      case False
      then have "\<not> (\<forall>d \<in> set ds. \<forall>i \<in> tables. fits i d)" using b(4) f(2) by auto
      with False True st b show ?thesis
        by (intro exI [of _ ret] exI [of _ r1] exI [of _ "int (length ds0)"] exI [of _ ?w] exI [of _ cs1] exI [of _ es1])
          (subst all_loop.simps, simp add: same_locks_def)
    next
      case ok: True
      have fl1: "\<forall>i \<in> tables. filled (cs1 i) (ds0 @ [db w1])" using b(3) ok sub by auto
      have rdy: "transaction_num conn = 0 \<longrightarrow> lock_ready conn ?w" using st(5) by (simp add: lock_ready_def)
      have f': "fetch api st n (db ?w) = (ds', r)" using f(1) by simp
      have t2: "tables_ok tables h0 (hp ?w) rows cs1" using b(2) by simp
      from Suc.IH [OF t2 fl1 rdy f' Suc.prems(5)] obtain ret' step' n' w' cs' es where
        rec: "all_loop api conn st body (int (length (ds0 @ [db w1]))) ?w = Some (ret', step', n', w')"
          "same_locks ?w w'" "tables_ok tables h0 (hp w') rows cs'" "calls w' = calls ?w @ es" "only_steps st es"
          "ret' = SORM_OK \<longrightarrow> n' = int (length (ds0 @ [db w1]) + length ds') \<and>
             (\<forall>i \<in> tables. filled (cs' i) ((ds0 @ [db w1]) @ ds')) \<and> step' = r"
          "(\<forall>d \<in> set ds'. \<forall>i \<in> tables. fits i d) \<longrightarrow> ret' = SORM_OK" by blast
      have "all_loop api conn st body (int (length ds0)) w = Some (ret', step', n', w')"
        using st(1) True b(1) ok rec(1) by (subst all_loop.simps) (simp add: add.commute)
      moreover have "same_locks w w'"
        using same_locks_trans [OF st(4), of w'] rec(2) by (simp add: same_locks_def)
      ultimately show ?thesis
        using rec(3-) st(6,7) f(2)
        by (intro exI [of _ ret'] exI [of _ step'] exI [of _ n'] exI [of _ w'] exI [of _ cs'] exI [of _ "es1 @ es"])
          auto
    qed
  qed
qed

end

section \<open>Lists keep rows\<close>

text \<open>What reading rows of a table relies on, all of it fixed before the loop.\<close>

definition readable ::
  "'db sqlite3_api \<Rightarrow> sorm_allocator_t option \<Rightarrow> sorm_table_descriptor_t \<Rightarrow> int list \<Rightarrow> bool" where
  "readable api al td xs \<longleftrightarrow> allocator_ok al \<and> memory_lasts al \<and> columns_consistent api \<and> wf_table td \<and>
     0 < t_size td \<and> t_size td < 2 ^ 31 \<and> length xs = length (columns td)"

lemma sorm_new_returns:
  assumes "allocator_ok al" and "memory_lasts al" and "heap_ok h" and "0 < t_size td" and "t_size td < 2 ^ 31"
  shows "\<exists>p h'. sorm_new al (Some td) h = Some (p, h') \<and> p \<noteq> 0 \<and> blocks h p = None \<and> heap_ok h' \<and>
    blocks h' = (blocks h)(p \<mapsto> \<lparr>owner = pool_of al, content = C_objects [new_object td]\<rparr>)"
proof -
  let ?n = "size_t (int (t_size td) * 1)"
  have n: "0 < ?n" using assms(4,5) by simp
  obtain p h1 where p: "i_malloc al ?n h = Some (p, h1)" using memory_lasts_malloc [OF assms(2,3)] by blast
  from alloc_contract.mal_fresh [OF assms(1) [unfolded allocator_ok_def] assms(3) n p]
  have f: "p \<noteq> 0" "blocks h p = None" "heap_ok h1"
    "blocks h1 = (blocks h)(p \<mapsto> \<lparr>owner = pool_of al, content = C_raw ?n\<rparr>)" by auto
  let ?h = "store h1 p (C_objects [new_object td])"
  have "heap_ok ?h" using overwrites_ok [OF overwrites_store] f(3) by blast
  moreover have "blocks ?h = (blocks h)(p \<mapsto> \<lparr>owner = pool_of al, content = C_objects [new_object td]\<rparr>)"
    using f(4) by (auto simp: store_def fun_eq_iff)
  ultimately show ?thesis using p f
    by (simp add: sorm_new_def sorm_new_array_def del: size_t_def)
qed

lemma list_at_cong:
  "(\<And>p. p \<in> set (head # ps) \<Longrightarrow> get_next h' p = get_next h p \<and> get_prev h' p = get_prev h p) \<Longrightarrow>
   list_at h' head ps \<longleftrightarrow> list_at h head ps"
  unfolding list_at_def by (subst chain_cong [of head ps h' h]) auto

lemma row_holds_frame:
  assumes wf: "wf_object obj" and hold: "row_holds api st xs d h obj"
    and same: "\<And>a. a \<in> owned obj \<Longrightarrow> blocks h' a = blocks h a"
  shows "row_holds api st xs d h' obj"
proof -
  have "column_bind_value obj (int i) h' = column_bind_value obj (int i) h" if "i < length (columns (desc obj))" for i
    using hold by (intro bind_value_frame wf_object_has [OF wf that] same) (auto simp: row_holds_def)
  then show ?thesis using hold by (simp add: row_holds_def column_holds_def)
qed

text \<open>The object of a row and what it owns lie apart from the nodes.\<close>

lemma list_foot_apart:
  assumes "distinct (list_foot head es)" and "head \<noteq> 0" and "(q, dd, obj) \<in> set es" and "a = dd \<or> a \<in> owned obj"
  shows "a \<in> set (list_foot head es) \<and> a \<notin> set (head # map fst es)"
proof -
  obtain as bs where es: "es = as @ (q, dd, obj) # bs" using assms(3) by (meson split_list)
  have "fst ` set as \<union> fst ` set bs \<subseteq> set (concat (map entry_foot as)) \<union> set (concat (map entry_foot bs))"
    by (force simp: entry_foot_def)
  moreover have "a \<notin> set (concat (map entry_foot as)) \<union> set (concat (map entry_foot bs))" "a \<noteq> q" "a \<noteq> head"
    using assms(1,2,4) by (auto simp: es list_foot_def)
  ultimately have "a \<notin> set (head # map fst es)" by (auto simp: es)
  then show ?thesis using assms(2,4) by (auto simp: es list_foot_def)
qed

text \<open>\<open>_parse_select_result\<close> into the object number \<open>k\<close> of a block that is still new.\<close>

lemma parse_row_at_ok:
  assumes rd: "readable api al td xs" and st: "st \<noteq> 0" and h: "heap_ok h"
    and p: "load h p = Some (C_objects os)" "k < length os" "os ! k = new_object td"
  shows "\<exists>ret obj h1 h'. parse_row_at api al st xs d p k h = Some (ret, h') \<and> heap_ok h' \<and> desc obj = td \<and>
    row_ok (pool_of al) h h1 obj \<and> overwrites {p} h1 h' \<and> load h' p = Some (C_objects (os[k := obj])) \<and>
    p \<notin> owned obj \<and> (ret = SORM_OK \<longrightarrow> row_holds api st xs d h' obj) \<and>
    (row_fits api st td xs d \<longrightarrow> ret = SORM_OK)"
proof -
  have r: "allocator_ok al" "memory_lasts al" "columns_consistent api" "wf_table td" "length xs = length (columns td)"
    using rd by (auto simp: readable_def)
  from parse_new_object [OF r(1-3) st r(4) h r(5), of d] obtain ret obj h1 where
    run: "i_parse_select_result api al st xs d (new_object td) h = Some (ret, obj, h1)" and
    row: "row_ok (pool_of al) h h1 obj" "desc obj = td" "ret = SORM_OK \<longrightarrow> row_holds api st xs d h1 obj"
      "row_fits api st td xs d \<longrightarrow> ret = SORM_OK" by blast
  have b: "blocks h a = (if a \<in> owned obj then None else blocks h1 a)" for a using row(1) by (simp add: row_ok_def)
  have pn: "p \<notin> owned obj" using b [of p] p(1) by (auto simp: load_def)
  then have p1: "load h1 p = Some (C_objects os)" using b [of p] p(1) by (simp add: load_def)
  from set_object_eq [OF p1 p(2), of obj] obtain h' where
    h': "set_object h1 p k obj = Some h'" "load h' p = Some (C_objects (os[k := obj]))" "overwrites {p} h1 h'" by auto
  have "heap_ok h'" using overwrites_ok [OF h'(3)] row(1) by (simp add: row_ok_def)
  moreover have "row_holds api st xs d h' obj" if "row_holds api st xs d h1 obj"
  proof (rule row_holds_frame [OF _ that])
    show "wf_object obj" using row(1) by (simp add: row_ok_def object_ok_def)
    show "blocks h' a = blocks h1 a" if "a \<in> owned obj" for a using that pn h'(3) by (auto simp: overwrites_def)
  qed
  ultimately show ?thesis using run row h' pn p
    by (intro exI [of _ ret] exI [of _ obj] exI [of _ h1] exI [of _ h']) (simp add: parse_row_at_def object_at_def)
qed

text \<open>A list whose sequence of nodes has grown by one node at the end, with the memory of one more row.\<close>

lemma list_ok_snoc:
  assumes ok: "list_ok pool h head es" and head: "head \<noteq> 0"
    and at: "list_at h' head (map fst es @ [p])" and data: "\<And>q. q \<in> set (map fst es) \<Longrightarrow> get_data h' q = get_data h q"
    and new: "entry_at pool h' (p, dd, obj)" "distinct (entry_foot (p, dd, obj))"
      "\<And>a. a \<in> set (entry_foot (p, dd, obj)) \<Longrightarrow> blocks h a = None \<and> owns pool h' a"
    and nodes: "\<And>a. a \<in> set (head # map fst es) \<Longrightarrow> owns pool h' a"
    and keep: "\<And>a. a \<in> set (list_foot head es) \<Longrightarrow> a \<notin> set (head # map fst es) \<Longrightarrow> blocks h' a = blocks h a"
  shows "list_ok pool h' head (es @ [(p, dd, obj)])"
proof -
  have dis: "distinct (list_foot head es)" and ent: "\<forall>e \<in> set es. entry_at pool h e"
    and own: "\<And>a. a \<in> set (list_foot head es) \<Longrightarrow> owns pool h a"
    using ok head by (auto simp: list_ok_def rows_at_def)
  have own': "owns pool h' a" if "a \<in> set (list_foot head es)" for a
    using own [OF that] nodes [of a] keep [OF that] by (cases "a \<in> set (head # map fst es)") (auto simp: owns_def)
  have "entry_at pool h' e" if e: "e \<in> set es" for e
  proof -
    obtain pe de oe where ee: "e = (pe, de, oe)" by (cases e)
    have old: "get_data h pe = Some de" "load h de = Some (C_objects [oe])" "object_ok pool h oe"
      using ent e by (auto simp: ee entry_at_def)
    have fe: "set (entry_foot e) \<subseteq> set (list_foot head es)" using e head by (auto simp: list_foot_def)
    have no: "de \<notin> set (head # map fst es)" using list_foot_apart [OF dis head, of pe de oe] e by (simp add: ee)
    have "blocks h' de = blocks h de" by (rule keep) (use fe no in \<open>auto simp: ee\<close>)
    then have "load h' de = load h de" by (simp add: load_def)
    moreover have "get_data h' pe = get_data h pe" using e by (intro data) (force simp: ee)
    moreover have "object_ok pool h' oe"
      by (rule object_ok_frame [THEN iffD2, OF _ old(3)]) (use fe own own' in \<open>auto simp: ee\<close>)
    ultimately show ?thesis using old by (simp add: ee entry_at_def)
  qed
  moreover have "set (entry_foot (p, dd, obj)) \<inter> set (list_foot head es) = {}"
    using new(3) own by (fastforce simp: owns_def)
  then have "distinct (list_foot head (es @ [(p, dd, obj)]))"
    using dis head new(2) by (auto simp: list_foot_def)
  moreover have "owns pool h' a" if "a \<in> set (list_foot head (es @ [(p, dd, obj)]))" for a
    using that own' [of a] new(3) [of a] head by (auto simp: list_foot_def)
  ultimately show ?thesis using head at new(1) by (auto simp: list_ok_def rows_at_def)
qed

text \<open>A new node at the end of the list, with a new object.\<close>

lemma new_entry_ok:
  assumes al: "allocator_ok al" "memory_lasts al" and sz: "0 < t_size td" "t_size td < 2 ^ 31" and td: "wf_table td"
    and h: "heap_ok h" and ok: "list_ok (pool_of al) h head es" and head: "head \<noteq> 0"
  shows "\<exists>p h1 h2 dd h3 h4. i_malloc al sizeof_list h = Some (p, h1) \<and> p \<noteq> 0 \<and> list_add_tail p head h1 = Some h2 \<and>
    sorm_new al (Some td) h2 = Some (dd, h3) \<and> dd \<noteq> 0 \<and> set_data h3 p dd = Some h4 \<and> heap_ok h4 \<and>
    list_ok (pool_of al) h4 head (es @ [(p, dd, new_object td)]) \<and> blocks h p = None \<and> blocks h dd = None \<and>
    (\<forall>a. a \<notin> set (head # map fst es) \<union> {p, dd} \<longrightarrow> blocks h4 a = blocks h a)"
proof -
  let ?pool = "pool_of al" and ?ps = "map fst es" and ?o = "new_object td"
  have at: "list_at h head ?ps" and own: "\<And>a. a \<in> set (list_foot head es) \<Longrightarrow> owns ?pool h a"
    using ok head by (auto simp: list_ok_def rows_at_def)
  have nodes: "set (head # ?ps) \<subseteq> set (list_foot head es)"
    using head by (force simp: list_foot_def entry_foot_def)
  obtain p h1 where p: "i_malloc al sizeof_list h = Some (p, h1)" using memory_lasts_malloc [OF al(2) h] by blast
  have f1: "p \<noteq> 0" "blocks h p = None" "heap_ok h1"
    "blocks h1 = (blocks h)(p \<mapsto> \<lparr>owner = ?pool, content = C_raw sizeof_list\<rparr>)"
    using alloc_contract.mal_fresh [OF al(1) [unfolded allocator_ok_def] h _ p] by (auto simp: sizeof_list_def)
  have pf: "p \<notin> set (list_foot head es)" using own [of p] f1(2) by (auto simp: owns_def)
  have b1: "blocks h1 a = blocks h a" if "a \<in> set (head # ?ps)" for a using f1(4) that nodes pf by auto
  have "list_at h1 head ?ps" by (rule list_at_frame [THEN iffD2, OF node_at_blocks at]) (rule b1)
  moreover have "load h1 p = Some (C_raw sizeof_list)" using f1(4) by (simp add: load_def)
  ultimately obtain h2 where f2: "list_add_tail p head h1 = Some h2" "list_at h2 head (?ps @ [p])"
      "overwrites (set (p # head # ?ps)) h1 h2" "\<forall>q \<in> set (head # ?ps). get_data h2 q = get_data h1 q"
    using list_add_tail_snoc by blast
  have ok2: "heap_ok h2" using overwrites_ok [OF f2(3)] f1(3) by simp
  from sorm_new_returns [OF al ok2 sz] obtain dd h3 where
    f3: "sorm_new al (Some td) h2 = Some (dd, h3)" "dd \<noteq> 0" "blocks h2 dd = None" "heap_ok h3"
      "blocks h3 = (blocks h2)(dd \<mapsto> \<lparr>owner = ?pool, content = C_objects [?o]\<rparr>)" by blast
  have d1: "blocks h1 dd = None" using overwrites_none [OF f2(3)] f3(3) by simp
  then have dp: "dd \<noteq> p" and dh: "blocks h dd = None" using f1(4) by (auto split: if_splits)
  have df: "dd \<notin> set (list_foot head es)" using own [of dd] dh by (auto simp: owns_def)
  have n3: "node_at h3 a = node_at h2 a" if "a \<in> set (head # ?ps @ [p])" for a
    using that nodes df dp f3(5) by (intro node_at_blocks) auto
  obtain n q x where np: "node_at h3 p = Some (n, q, x)" using list_at_nodes [OF f2(2), of p] n3 [of p] by auto
  then have np2: "node_at h2 p = Some (n, q, x)" using n3 [of p] by simp
  from set_node_writes [OF writableI [OF np], of "\<lambda>(n, q, x). (n, q, dd)"] obtain h4 where
    f4: "set_data h3 p dd = Some h4" "node_at h4 = (node_at h3)(p \<mapsto> (n, q, dd))" "overwrites {p} h3 h4"
    unfolding set_data_def by auto
  have ok4: "heap_ok h4" using overwrites_ok [OF f4(3)] f3(4) by simp
  have same: "blocks h4 a = blocks h a" if "a \<notin> set (head # ?ps) \<union> {p, dd}" for a
    using that f4(3) f3(5) f2(3) f1(4) by (auto simp: overwrites_def)
  have ow: "owns ?pool h4 a \<longleftrightarrow> a = dd \<or> a = p \<or> owns ?pool h a" for a
  proof -
    have "owns ?pool h4 a \<longleftrightarrow> owns ?pool h3 a" "owns ?pool h2 a \<longleftrightarrow> owns ?pool h1 a"
      unfolding owns_def by (rule overwrites_owner [OF f4(3)], rule overwrites_owner [OF f2(3)])
    then show ?thesis using f3(5) f1(4) by (auto simp: owns_def)
  qed
  have "list_ok ?pool h4 head (es @ [(p, dd, ?o)])"
  proof (rule list_ok_snoc [OF ok head])
    show "list_at h4 head (?ps @ [p])"
    proof (rule list_at_cong [THEN iffD2, OF _ f2(2)])
      show "get_next h4 a = get_next h2 a \<and> get_prev h4 a = get_prev h2 a" if "a \<in> set (head # ?ps @ [p])" for a
        using n3 [OF that] f4(2) np2 by (cases "a = p") (simp_all add: get_next_def get_prev_def)
    qed
    show "get_data h4 a = get_data h a" if "a \<in> set ?ps" for a
    proof -
      have "a \<noteq> p" using that nodes pf by auto
      then have "get_data h4 a = get_data h1 a" using that n3 [of a] f4(2) f2(4) by (auto simp: get_data_def)
      then show ?thesis using node_at_blocks [OF b1 [of a]] that by (simp add: get_data_def)
    qed
    have "load h4 dd = Some (C_objects [?o])" using overwrites_load [OF f4(3), of dd] dp f3(5) by (simp add: load_def)
    then show "entry_at ?pool h4 (p, dd, ?o)"
      using f4(2) object_ok_new(1) [OF td] by (simp add: entry_at_def get_data_def)
    show "blocks h a = None \<and> owns ?pool h4 a" if "a \<in> set (entry_foot (p, dd, ?o))" for a
      using that f1(2) dh ow object_ok_new(2) [OF td] by auto
    show "blocks h4 a = blocks h a" if "a \<in> set (list_foot head es)" "a \<notin> set (head # ?ps)" for a
      by (rule same) (use that pf df in auto)
  qed (use dp ow own nodes object_ok_new(2) [OF td] in auto)
  then show ?thesis using p f1(1,2) f2(1) f3(1,2) f4(1) ok4 same dh by blast
qed

text \<open>The object of the last row is filled, with memory of its own.\<close>

lemma list_ok_filled:
  assumes ok: "list_ok pool h head (es @ [(p, dd, new)])" and head: "head \<noteq> 0" and new: "owned new = {}"
    and row: "row_ok pool h h1 obj" and wr: "overwrites {dd} h1 h'" and ld: "load h' dd = Some (C_objects [obj])"
  shows "list_ok pool h' head (es @ [(p, dd, obj)])"
proof -
  let ?F = "set (list_foot head (es @ [(p, dd, new)]))"
  have rows: "list_at h head (map fst es @ [p])" "\<forall>e \<in> set (es @ [(p, dd, new)]). entry_at pool h e"
    and dis: "distinct (list_foot head (es @ [(p, dd, new)]))" and own: "\<And>a. a \<in> ?F \<Longrightarrow> owns pool h a"
    using ok head by (auto simp: list_ok_def rows_at_def)
  have b: "blocks h a = (if a \<in> owned obj then None else blocks h1 a)" for a using row by (simp add: row_ok_def)
  have apart: "a \<notin> owned obj" if "a \<in> ?F" for a using own [OF that] b [of a] by (auto simp: owns_def)
  have same: "blocks h' a = blocks h a" if "a \<in> ?F" "a \<noteq> dd" for a
    using b [of a] apart [OF that(1)] wr that(2) by (simp add: overwrites_def)
  have sub: "set (list_foot head es) \<subseteq> ?F - {dd, p}" "{p, dd} \<subseteq> ?F" "p \<noteq> dd" "head \<noteq> dd" "p \<noteq> head"
    using dis head new by (auto simp: list_foot_def)
  have nodes: "set (head # map fst es) \<subseteq> set (list_foot head es)"
    using head by (force simp: list_foot_def entry_foot_def)
  have node': "node_at h' a = node_at h a" if "a \<in> set (head # map fst es @ [p])" for a
  proof (rule node_at_blocks [OF same])
    show "a \<in> ?F" "a \<noteq> dd" using that nodes sub by auto
  qed
  have "list_at h' head (map fst es @ [p])" by (rule list_at_frame [THEN iffD2, OF node' rows(1)])
  moreover have "entry_at pool h' e" if "e \<in> set es" for e
  proof -
    have "set (entry_foot e) \<subseteq> set (list_foot head es)" using that head by (auto simp: list_foot_def)
    then have "entry_at pool h' e \<longleftrightarrow> entry_at pool h e" using sub by (intro entry_at_frame same) auto
    then show ?thesis using rows(2) that by simp
  qed
  moreover have ow: "owns pool h' a \<longleftrightarrow> owns pool h1 a" for a unfolding owns_def by (rule overwrites_owner [OF wr])
  have "object_ok pool h' obj"
    by (rule object_ok_frame [THEN iffD2]) (use ow row in \<open>auto simp: row_ok_def\<close>)
  then have "entry_at pool h' (p, dd, obj)"
    using rows(2) node' [of p] ld by (simp add: entry_at_def get_data_def)
  moreover have "distinct (list_foot head (es @ [(p, dd, obj)]))"
    using dis head new apart sub by (auto simp: list_foot_def)
  moreover have "owns pool h' a" if "a \<in> set (list_foot head (es @ [(p, dd, obj)]))" for a
  proof -
    have "a \<in> owned obj \<or> a \<in> ?F" using that head by (auto simp: list_foot_def)
    then consider "a \<in> owned obj" | "a \<in> ?F" by blast
    then show ?thesis
      using ow own [of a] row apart [of a] b [of a] by cases (auto simp: row_ok_def object_ok_def owns_def)
  qed
  ultimately show ?thesis using head by (auto simp: list_ok_def rows_at_def)
qed

lemma add_row_ok:
  assumes rd: "readable api al td xs" and st: "st \<noteq> 0" and h: "heap_ok h" and ok: "list_ok (pool_of al) h head es" and head: "head \<noteq> 0"
  shows "\<exists>ret h' p dd obj. add_row api al st td xs head d h = Some (ret, h') \<and> heap_ok h' \<and> desc obj = td \<and>
    list_ok (pool_of al) h' head (es @ [(p, dd, obj)]) \<and> (ret = SORM_OK \<longrightarrow> row_holds api st xs d h' obj) \<and>
    (row_fits api st td xs d \<longrightarrow> ret = SORM_OK) \<and>
    (\<forall>a \<in> set (entry_foot (p, dd, obj)). blocks h a = None) \<and>
    (\<forall>a. a \<notin> set (head # map fst es) \<union> set (entry_foot (p, dd, obj)) \<longrightarrow> blocks h' a = blocks h a)"
proof -
  have r: "allocator_ok al" "memory_lasts al" "0 < t_size td" "t_size td < 2 ^ 31" "wf_table td"
    using rd by (auto simp: readable_def)
  from new_entry_ok [OF r h ok head] obtain p h1 h2 dd h3 h4 where
    n: "i_malloc al sizeof_list h = Some (p, h1)" "p \<noteq> 0" "list_add_tail p head h1 = Some h2"
      "sorm_new al (Some td) h2 = Some (dd, h3)" "dd \<noteq> 0" "set_data h3 p dd = Some h4" "heap_ok h4"
      "list_ok (pool_of al) h4 head (es @ [(p, dd, new_object td)])" "blocks h p = None" "blocks h dd = None"
      "\<forall>a. a \<notin> set (head # map fst es) \<union> {p, dd} \<longrightarrow> blocks h4 a = blocks h a" by blast
  have ld: "load h4 dd = Some (C_objects [new_object td])"
    using n(8) head by (simp add: list_ok_def rows_at_def entry_at_def)
  from parse_row_at_ok [OF rd st n(7) ld, of 0 d] obtain ret obj h5 h' where
    f: "parse_row_at api al st xs d dd 0 h4 = Some (ret, h')" "heap_ok h'" "desc obj = td"
      "row_ok (pool_of al) h4 h5 obj" "overwrites {dd} h5 h'" "load h' dd = Some (C_objects [obj])" "dd \<notin> owned obj"
      "ret = SORM_OK \<longrightarrow> row_holds api st xs d h' obj" "row_fits api st td xs d \<longrightarrow> ret = SORM_OK" by auto
  have ok': "list_ok (pool_of al) h' head (es @ [(p, dd, obj)])"
    by (rule list_ok_filled [OF n(8) head object_ok_new(2) [OF r(5)] f(4,5,6)])
  have b: "blocks h4 a = (if a \<in> owned obj then None else blocks h5 a)" for a using f(4) by (simp add: row_ok_def)
  have own: "blocks h4 a \<noteq> None" if "a \<in> set (list_foot head (es @ [(p, dd, new_object td)]))" for a
    using n(8) head that by (auto simp: list_ok_def owns_def)
  have "blocks h a = None" if "a \<in> owned obj" for a
  proof -
    have "a \<notin> set (head # map fst es) \<union> {p, dd}"
      using own [of a] b [of a] that head by (force simp: list_foot_def entry_foot_def)
    then show ?thesis using n(11) b [of a] that by simp
  qed
  moreover have "blocks h' a = blocks h a" if "a \<notin> set (head # map fst es) \<union> set (entry_foot (p, dd, obj))" for a
    using that n(11) b [of a] f(5) by (simp add: overwrites_def)
  moreover have "add_row api al st td xs head d h = Some (ret, h')" using n f(1) by (simp add: add_row_def)
  ultimately show ?thesis using f(2,3,8,9) ok' n(9,10) by auto
qed

text \<open>The list of one table: every row read so far has its database state, a row that could not be stored has none.\<close>

definition list_holds ::
  "'db sqlite3_api \<Rightarrow> sorm_allocator_t option \<Rightarrow> stmt \<Rightarrow> sorm_table_descriptor_t \<Rightarrow> int list \<Rightarrow> heap \<Rightarrow> addr \<Rightarrow>
   (entry \<times> 'db option) list \<Rightarrow> bool" where
  "list_holds api al st td xs h p c \<longleftrightarrow> readable api al td xs \<and> st \<noteq> 0 \<and> p \<noteq> 0 \<and> list_ok (pool_of al) h p (map fst c) \<and>
     (\<forall>((q, dd, obj), x) \<in> set c. desc obj = td \<and> (\<forall>d. x = Some d \<longrightarrow> row_holds api st xs d h obj))"

definition table_list ::
  "'db sqlite3_api \<Rightarrow> sorm_allocator_t option \<Rightarrow> stmt \<Rightarrow> sorm_table_descriptor_t list \<Rightarrow> select_columns_t list \<Rightarrow>
   heap \<Rightarrow> nat \<Rightarrow> addr \<Rightarrow> (entry \<times> 'db option) list \<Rightarrow> bool" where
  "table_list api al st tds sc h i p c \<longleftrightarrow> i < length tds \<and> i < length sc \<and>
     list_holds api al st (tds ! i) (indexes_in_result (sc ! i)) h p c"

definition rows_foot :: "addr \<Rightarrow> (entry \<times> 'db option) list \<Rightarrow> addr set" where
  "rows_foot p c = set (list_foot p (map fst c))"

definition rows_filled :: "('x \<times> 'db option) list \<Rightarrow> 'db list \<Rightarrow> bool" where
  "rows_filled c ds \<longleftrightarrow> map snd c = map Some ds"

lemma list_ok_object: "list_ok pool h p es \<Longrightarrow> (q, dd, obj) \<in> set es \<Longrightarrow> wf_object obj"
  by (auto simp: list_ok_def rows_at_def entry_at_def object_ok_def split: if_splits)

lemma list_holds_frame:
  assumes hold: "list_holds api al st td xs h p c" and same: "\<And>a. a \<in> rows_foot p c \<Longrightarrow> blocks h' a = blocks h a"
  shows "list_holds api al st td xs h' p c"
proof -
  have ok: "list_ok (pool_of al) h p (map fst c)" and p: "p \<noteq> 0" using hold by (auto simp: list_holds_def)
  have "row_holds api st xs d h' obj" if c: "((q, dd, obj), Some d) \<in> set c" for q dd obj d
  proof (rule row_holds_frame)
    have m: "(q, dd, obj) \<in> set (map fst c)" using c by force
    show "wf_object obj" using list_ok_object [OF ok m] .
    show "row_holds api st xs d h obj" using hold c by (auto simp: list_holds_def)
    show "blocks h' a = blocks h a" if "a \<in> owned obj" for a
      by (rule same) (use m that p in \<open>force simp: rows_foot_def list_foot_def\<close>)
  qed
  moreover have "list_ok (pool_of al) h' p (map fst c)"
    using ok same by (subst list_ok_frame [where h = h]) (auto simp: rows_foot_def)
  ultimately show ?thesis using hold unfolding list_holds_def by fast
qed

lemma list_holds_add:
  assumes hold: "list_holds api al st td xs h p c" and h: "heap_ok h"
  shows "\<exists>ret h' e. add_row api al st td xs p d h = Some (ret, h') \<and> heap_ok h' \<and>
    list_holds api al st td xs h' p (c @ [(e, if ret = SORM_OK then Some d else None)]) \<and>
    (row_fits api st td xs d \<longrightarrow> ret = SORM_OK) \<and> (\<forall>a \<in> set (entry_foot e). blocks h a = None) \<and>
    (\<forall>a. a \<notin> rows_foot p c \<union> set (entry_foot e) \<longrightarrow> blocks h' a = blocks h a)"
proof -
  have r: "readable api al td xs" "p \<noteq> 0" "list_ok (pool_of al) h p (map fst c)" and st: "st \<noteq> 0"
    using hold by (auto simp: list_holds_def)
  from add_row_ok [OF r(1) st h r(3,2), of d] obtain ret h' q dd obj where
    a: "add_row api al st td xs p d h = Some (ret, h')" "heap_ok h'" "desc obj = td"
      "list_ok (pool_of al) h' p (map fst c @ [(q, dd, obj)])" "ret = SORM_OK \<longrightarrow> row_holds api st xs d h' obj"
      "\<forall>a \<in> set (entry_foot (q, dd, obj)). blocks h a = None"
      "\<And>a. a \<notin> set (p # map fst (map fst c)) \<union> set (entry_foot (q, dd, obj)) \<Longrightarrow> blocks h' a = blocks h a"
      "row_fits api st td xs d \<longrightarrow> ret = SORM_OK" by auto
  have dis: "distinct (list_foot p (map fst c))" and own: "\<And>a. a \<in> rows_foot p c \<Longrightarrow> blocks h a \<noteq> None"
    using r by (auto simp: list_ok_def rows_foot_def owns_def)
  have "row_holds api st xs d' h' o'" if c: "((q', dd', o'), Some d') \<in> set c" for q' dd' o' d'
  proof (rule row_holds_frame)
    have m: "(q', dd', o') \<in> set (map fst c)" using c by force
    show "wf_object o'" using list_ok_object [OF r(3) m] .
    show "row_holds api st xs d' h o'" using hold c by (auto simp: list_holds_def)
    show "blocks h' a = blocks h a" if "a \<in> owned o'" for a
      using list_foot_apart [OF dis r(2) m] that a(6) own [of a]
      by (intro a(7)) (auto simp: rows_foot_def)
  qed
  then have "list_holds api al st td xs h' p (c @ [((q, dd, obj), if ret = SORM_OK then Some d else None)])"
    using hold r a(3,4,5) by (fastforce simp: list_holds_def)
  moreover have "blocks h' a = blocks h a" if "a \<notin> rows_foot p c \<union> set (entry_foot (q, dd, obj))" for a
    by (rule a(7)) (use that r(2) in \<open>force simp: rows_foot_def list_foot_def entry_foot_def\<close>)
  ultimately show ?thesis using a(1,2,6,8) by blast
qed

interpretation lists: row_container "table_list api al st tds sc" rows_foot "fill_list api al st tds sc" rows_filled
  "\<lambda>i. row_fits api st (tds ! i) (indexes_in_result (sc ! i))" "\<lambda>k. True" for api al st tds sc
proof (unfold_locales, goal_cases)
  case (1 h i p c h')
  then show ?case using list_holds_frame [of api al st _ _ h p c h'] by (auto simp: table_list_def)
next
  case (2 h i p c a)
  then have "owns (pool_of al) h a"
    by (auto simp: table_list_def list_holds_def list_ok_def rows_foot_def)
  then show ?case by (auto simp: owns_def)
next
  case (3 h i p c ds d)
  let ?td = "tds ! i" and ?xs = "indexes_in_result (sc ! i)"
  have i: "i < length tds" "i < length sc" and hold: "list_holds api al st ?td ?xs h p c"
    using 3(2) by (auto simp: table_list_def)
  from list_holds_add [OF hold 3(1), of d] obtain ret h' e where
    a: "add_row api al st ?td ?xs p d h = Some (ret, h')" "heap_ok h'"
      "list_holds api al st ?td ?xs h' p (c @ [(e, if ret = SORM_OK then Some d else None)])"
      "\<forall>a \<in> set (entry_foot e). blocks h a = None"
      "\<forall>a. a \<notin> rows_foot p c \<union> set (entry_foot e) \<longrightarrow> blocks h' a = blocks h a"
      "row_fits api st ?td ?xs d \<longrightarrow> ret = SORM_OK" by auto
  have foot: "rows_foot p (c @ [(e, x)]) = rows_foot p c \<union> set (entry_foot e)" for x
    using hold by (auto simp: rows_foot_def list_foot_def list_holds_def)
  have "fill_list api al st tds sc (length ds) d i p h = Some (ret, h')"
    using a(1) i by (simp add: fill_list_def nth_opt_def)
  then show ?case using a i 3(3) foot
    by (intro exI [of _ ret] exI [of _ h'] exI [of _ "c @ [(e, if ret = SORM_OK then Some d else None)]"])
      (auto simp: table_list_def rows_filled_def)
qed

end
