(* ===== verification/Sorm_Core.thy ===== *)
theory Sorm_Core
  imports Sorm_Fetch
begin

text \<open>
  What the three cores of \<open>_select\<close> (\<^verbatim>\<open>src/src/sorm.c\<close>) share: they make a container for each table that
  is read, run a loop over the rows, and give everything back after an error or without a row.
  Proved once, in \<open>row_container\<close>.
\<close>

section \<open>The tables that are read\<close>

definition read_tables :: "select_columns_t list \<Rightarrow> bool list \<Rightarrow> nat set" where
  "read_tables sc sel = {i. i < length sc \<and> sel_columns_num (sc ! i) \<noteq> 0 \<and> sel ! i}"

lemma table_selected_eq:
  "length sel = length sc \<Longrightarrow> i < length sc \<Longrightarrow> table_selected sc sel i = Some (i \<in> read_tables sc sel)"
  by (auto simp: table_selected_def read_tables_def nth_opt_def)

section \<open>Making the containers\<close>

fun make_rows ::
  "(nat \<Rightarrow> heap \<Rightarrow> (addr \<times> heap) option) \<Rightarrow> bool list \<Rightarrow> select_columns_t list \<Rightarrow> nat list \<Rightarrow> addr list \<Rightarrow> heap \<Rightarrow>
   (sorm_error_t \<times> addr list \<times> heap) option" where
  "make_rows mk sel sc [] rows h = Some (SORM_OK, rows, h)"
| "make_rows mk sel sc (i # is) rows h =
     do { b \<leftarrow> table_selected sc sel i;
          if b
          then do { (p, h) \<leftarrow> mk i h;
                    if p = 0 then Some (SORM_NOMEM, rows[i := p], h) else make_rows mk sel sc is (rows[i := p]) h }
          else make_rows mk sel sc is rows h }"

context row_container
begin

definition makes :: "'c \<Rightarrow> nat \<Rightarrow> (heap \<Rightarrow> (addr \<times> heap) option) \<Rightarrow> bool" where
  "makes c i mk \<longleftrightarrow> (\<forall>h. heap_ok h \<longrightarrow> (\<exists>p h'. mk h = Some (p, h') \<and> p \<noteq> 0 \<and> heap_ok h' \<and> ok h' i p c \<and>
     (\<forall>a \<in> foot p c. blocks h a = None) \<and> (\<forall>a. a \<notin> foot p c \<longrightarrow> blocks h' a = blocks h a)))"

lemma make_rows_ok:
  assumes "tables_ok T h0 h rows (\<lambda>i. c)"
    and "\<And>i. i \<in> set is \<Longrightarrow> table_selected sc sel i = Some (i \<in> S)" and "distinct is"
    and "set is \<inter> T = {}" and "set is \<subseteq> {..< length rows}" and "\<And>i. i \<in> S \<Longrightarrow> makes c i (mk i)"
  shows "\<exists>rows' h'. make_rows mk sel sc is rows h = Some (SORM_OK, rows', h') \<and> length rows' = length rows \<and>
    tables_ok (T \<union> (set is \<inter> S)) h0 h' rows' (\<lambda>i. c) \<and> (\<forall>i. i \<notin> set is \<inter> S \<longrightarrow> rows' ! i = rows ! i)"
  using assms
proof (induction "is" arbitrary: T rows h)
  case Nil
  then show ?case by auto
next
  case (Cons i js)
  have sel: "table_selected sc sel i = Some (i \<in> S)" using Cons.prems(2) by simp
  show ?case
  proof (cases "i \<in> S")
    case False
    then have T: "T \<union> (set (i # js) \<inter> S) = T \<union> (set js \<inter> S)" by auto
    from Cons.IH [OF Cons.prems(1)] Cons.prems(2-6) False sel show ?thesis unfolding T by auto
  next
    case True
    let ?T = "insert i T"
    have hok: "heap_ok h" using Cons.prems(1) by (simp add: tables_ok_def)
    from Cons.prems(6) [OF True] hok obtain p h2 where
      n: "mk i h = Some (p, h2)" "p \<noteq> 0" "heap_ok h2" "ok h2 i p c" "\<forall>a \<in> foot p c. blocks h a = None"
        "\<forall>a. a \<notin> foot p c \<longrightarrow> blocks h2 a = blocks h a" unfolding makes_def by blast
    have r: "rows[i := p] ! j = (if j = i then p else rows ! j)" for j using Cons.prems(5) by auto
    have "tables_ok ?T h0 h2 (rows[i := p]) (\<lambda>i. c)"
      by (rule tables_ok_insert [OF Cons.prems(1)]) (use Cons.prems(4,5) n in auto)
    from Cons.IH [OF this] Cons.prems(2-6) obtain rows' h' where
      rec: "make_rows mk sel sc js (rows[i := p]) h2 = Some (SORM_OK, rows', h')" "length rows' = length rows"
        "tables_ok (?T \<union> (set js \<inter> S)) h0 h' rows' (\<lambda>i. c)"
        "\<forall>j. j \<notin> set js \<inter> S \<longrightarrow> rows' ! j = rows[i := p] ! j" by auto
    have T: "T \<union> (set (i # js) \<inter> S) = ?T \<union> (set js \<inter> S)" using True by auto
    show ?thesis unfolding T using rec n(1,2) sel True r
      by (intro exI [of _ rows'] exI [of _ h']) auto
  qed
qed

end

section \<open>The setting\<close>

text \<open>The setting of a core: as many column positions and flags as tables, all of them usable.\<close>

definition core_setting ::
  "'db sqlite3_api \<Rightarrow> sorm_allocator_t option \<Rightarrow> sorm_table_descriptor_t list \<Rightarrow> bool list \<Rightarrow> select_columns_t list \<Rightarrow> bool" where
  "core_setting api al tds sel sc \<longleftrightarrow> allocator_ok al \<and> memory_lasts al \<and>
     length sel = length tds \<and> length sc = length tds \<and>
     (\<forall>i < length tds. readable api al (tds ! i) (indexes_in_result (sc ! i)))"

section \<open>The run of a core\<close>

text \<open>
  A core that read the rows \<open>ds\<close>: it returns with the locks as before, the only calls are steps of the
  statement, and it succeeds when SQLite did (\<open>ok\<close>) and every row can be stored.
\<close>

definition core_run ::
  "(heap \<Rightarrow> sorm_error_t \<Rightarrow> int \<Rightarrow> addr list \<Rightarrow> heap \<Rightarrow> bool) \<Rightarrow> stmt \<Rightarrow> bool \<Rightarrow> bool \<Rightarrow> 'db world \<Rightarrow>
   (sorm_error_t \<times> int \<times> addr list \<times> 'db world) option \<Rightarrow> bool" where
  "core_run result st ok fit w out \<longleftrightarrow> (\<exists>ret n rows w' es. out = Some (ret, n, rows, w') \<and> same_locks w w' \<and>
     calls w' = calls w @ es \<and> only_steps st es \<and> heap_ok (hp w') \<and> (ret = SORM_OK \<longrightarrow> ok) \<and> (ok \<and> fit \<longrightarrow> ret = SORM_OK) \<and>
     result (hp w) ret n rows (hp w'))"

definition rows_fit ::
  "'db sqlite3_api \<Rightarrow> stmt \<Rightarrow> sorm_table_descriptor_t list \<Rightarrow> select_columns_t list \<Rightarrow> nat set \<Rightarrow> 'db list \<Rightarrow> bool" where
  "rows_fit api st tds sc S ds \<longleftrightarrow>
     (\<forall>d \<in> set ds. \<forall>i \<in> S. row_fits api st (tds ! i) (indexes_in_result (sc ! i)) d)"

text \<open>What the cores share: \<open>create\<close> makes what keeps the rows, \<open>loop\<close> reads them, \<open>bad\<close> is an answer of SQLite that is an error.\<close>

definition core_body ::
  "(heap \<Rightarrow> (sorm_error_t \<times> addr list \<times> heap) option) \<Rightarrow>
   (addr list \<Rightarrow> 'db world \<Rightarrow> (sorm_error_t \<times> int \<times> int \<times> 'db world) option) \<Rightarrow> (int \<Rightarrow> bool) \<Rightarrow>
   (addr \<Rightarrow> heap \<Rightarrow> heap option) \<Rightarrow> 'db world \<Rightarrow> (sorm_error_t \<times> int \<times> addr list \<times> 'db world) option" where
  "core_body create loop bad release w =
     do { (ret_val, rows, h) \<leftarrow> create (hp w);
          if ret_val \<noteq> SORM_OK then core_return release ret_val 0 rows (w\<lparr>hp := h\<rparr>)
          else do { (ret_val, step_ret, rows_num, w) \<leftarrow> loop rows (w\<lparr>hp := h\<rparr>);
                    core_return release
                      (if ret_val \<noteq> SORM_OK then ret_val else if bad step_ret then SORM_DB_ERROR else SORM_OK)
                      rows_num rows w } }"

lemma core_bodies:
  "st \<noteq> 0 \<Longrightarrow> m \<noteq> 0 \<Longrightarrow> length rows = length tds \<Longrightarrow>
   i_select_some_array_core api conn al st tds sel sc m 0 rows w =
     core_body (new_arrays al tds sel sc m [0..<length tds] (replicate (length tds) 0))
       (\<lambda>rows. some_loop api conn st (fill_arrays api al st (length tds) sel sc rows) m SQLITE_DONE 0)
       (\<lambda>r. r \<noteq> SQLITE_DONE \<and> r \<noteq> SQLITE_ROW) (i_free al) w"
  "st \<noteq> 0 \<Longrightarrow> m \<noteq> 0 \<Longrightarrow> length rows = length tds \<Longrightarrow>
   i_select_some_list_core api conn al st tds sel sc m 0 rows w =
     core_body (new_lists al sel sc [0..<length tds] (replicate (length tds) 0))
       (\<lambda>rows. some_loop api conn st (fill_lists api al st tds sel sc rows) m SQLITE_DONE 0)
       (\<lambda>r. r \<noteq> SQLITE_DONE \<and> r \<noteq> SQLITE_ROW) (sorm_list_free al) w"
  "st \<noteq> 0 \<Longrightarrow> length rows = length tds \<Longrightarrow>
   i_select_all_list_core api conn al st tds sel sc m 0 rows w =
     core_body (new_lists al sel sc [0..<length tds] (replicate (length tds) 0))
       (\<lambda>rows. all_loop api conn st (fill_lists api al st tds sel sc rows) 0)
       (\<lambda>r. r \<noteq> SQLITE_DONE) (sorm_list_free al) w"
  unfolding i_select_some_array_core_def i_select_some_list_core_def i_select_all_list_core_def core_body_def Let_def
  by simp_all


context row_container
begin

lemma make_core:
  assumes len: "length sel = N" "length sc = N" and h: "heap_ok h" and mk: "\<And>i. i < N \<Longrightarrow> makes c i (mk i)"
  shows "\<exists>rows h'. make_rows mk sel sc [0..<N] (replicate N 0) h = Some (SORM_OK, rows, h') \<and>
    length rows = N \<and> tables_ok (read_tables sc sel) h h' rows (\<lambda>i. c) \<and>
    (\<forall>i < length rows. i \<notin> read_tables sc sel \<longrightarrow> rows ! i = 0)"
proof -
  let ?S = "read_tables sc sel" and ?z = "replicate N (0 :: addr)"
  have t0: "tables_ok {} h h ?z (\<lambda>i. c)" using h by (simp add: tables_ok_def)
  have sel: "table_selected sc sel i = Some (i \<in> ?S)" if "i \<in> set [0..<N]" for i
    using table_selected_eq [of sel sc i] len that by simp
  have use: "makes c i (mk i)" if "i \<in> ?S" for i using that len mk by (simp add: read_tables_def)
  have js: "distinct [0..<N]" "set [0..<N] \<inter> {} = {}" "set [0..<N] \<subseteq> {..< length ?z}" by auto
  from make_rows_ok [OF t0 sel js use] obtain rows h' where
    n: "make_rows mk sel sc [0..<N] ?z h = Some (SORM_OK, rows, h')" "length rows = length ?z"
      "tables_ok ({} \<union> (set [0..<N] \<inter> ?S)) h h' rows (\<lambda>i. c)"
      "\<forall>i. i \<notin> set [0..<N] \<inter> ?S \<longrightarrow> rows ! i = ?z ! i" by blast
  have S: "{} \<union> (set [0..<N] \<inter> ?S) = ?S" using len by (auto simp: read_tables_def)
  have "rows ! i = 0" if "i < length rows" "i \<notin> ?S" for i using n(2,4) that by simp
  then show ?thesis using n(1-3) unfolding S by auto
qed

text \<open>The body of a core: its containers, its loop, its return.\<close>

lemma core_body_ok:
  assumes len: "length sel = N" "length sc = N" and h: "heap_ok (hp (w :: 'w world))" and mk: "\<And>i. i < N \<Longrightarrow> makes c i (mk i)"
    and loop: "\<And>rows h1. length rows = N \<Longrightarrow> tables_ok (read_tables sc sel) (hp w) h1 rows (\<lambda>i. c) \<Longrightarrow>
      \<exists>ret step k w1 cs es. loop rows (w\<lparr>hp := h1\<rparr>) = Some (ret, step, k, w1) \<and> same_locks (w\<lparr>hp := h1\<rparr>) w1 \<and>
        tables_ok (read_tables sc sel) (hp w) (hp w1) rows cs \<and> calls w1 = calls w @ es \<and> only_steps st es \<and>
        (ret = SORM_OK \<longrightarrow> k = int (length ds) \<and> (\<forall>i \<in> read_tables sc sel. filled (cs i) ds) \<and> (bad step \<longleftrightarrow> \<not> good)) \<and>
        (fit \<longrightarrow> ret = SORM_OK)"
    and rel: "\<And>ret n rows (w1 :: 'w world) cs. tables_ok (read_tables sc sel) (hp w) (hp w1) rows cs \<Longrightarrow> length rows = N \<Longrightarrow>
      (\<And>i. i < length rows \<Longrightarrow> i \<notin> read_tables sc sel \<Longrightarrow> rows ! i = 0) \<Longrightarrow>
      ret = SORM_OK \<longrightarrow> n = int (length ds) \<and> (\<forall>i \<in> read_tables sc sel. filled (cs i) ds) \<Longrightarrow>
      \<exists>rows' h'. core_return release ret n rows w1 = Some (ret, n, rows', w1\<lparr>hp := h'\<rparr>) \<and> heap_ok h' \<and>
        result (hp w) ret n rows' h'"
  shows "core_run result st good fit w (core_body (make_rows mk sel sc [0..<N] (replicate N 0)) loop bad release w)"
proof -
  let ?S = "read_tables sc sel"
  from make_core [OF len h mk] obtain rows h1 where
    n: "make_rows mk sel sc [0..<N] (replicate N 0) (hp w) = Some (SORM_OK, rows, h1)"
      "length rows = N" "tables_ok ?S (hp w) h1 rows (\<lambda>i. c)"
      "\<forall>i < length rows. i \<notin> ?S \<longrightarrow> rows ! i = 0" by blast
  from loop [OF n(2,3)] obtain ret step k w1 cs es where
    l: "loop rows (w\<lparr>hp := h1\<rparr>) = Some (ret, step, k, w1)" "same_locks (w\<lparr>hp := h1\<rparr>) w1"
      "tables_ok ?S (hp w) (hp w1) rows cs" "calls w1 = calls w @ es" "only_steps st es"
      "ret = SORM_OK \<longrightarrow> k = int (length ds) \<and> (\<forall>i \<in> ?S. filled (cs i) ds) \<and> (bad step \<longleftrightarrow> \<not> good)"
      "fit \<longrightarrow> ret = SORM_OK" by blast
  define ret' where "ret' = (if ret \<noteq> SORM_OK then ret else if bad step then SORM_DB_ERROR else SORM_OK)"
  have fl: "ret' = SORM_OK \<longrightarrow> k = int (length ds) \<and> (\<forall>i \<in> ?S. filled (cs i) ds)"
    using l(6) by (auto simp: ret'_def split: if_splits)
  from rel [OF l(3) n(2) _ fl] n(4) obtain rows' h' where
    c: "core_return release ret' k rows w1 = Some (ret', k, rows', w1\<lparr>hp := h'\<rparr>)" "heap_ok h'"
      "result (hp w) ret' k rows' h'" by blast
  have "ret' = SORM_OK \<longrightarrow> good" "good \<and> fit \<longrightarrow> ret' = SORM_OK"
    using l(6,7) by (auto simp: ret'_def split: if_splits)
  then show ?thesis unfolding core_run_def using l(1,2,4,5) c n(1)
    by (intro exI [of _ ret'] exI [of _ k] exI [of _ rows'] exI [of _ "w1\<lparr>hp := h'\<rparr>"] exI [of _ es])
      (simp add: same_locks_def ret'_def core_body_def)
qed

end

end
