(* ===== verification/Sorm_Select_List.thy ===== *)
theory Sorm_Select_List
  imports Sorm_Core
begin

text \<open>
  The cores of \<open>_select\<close> that give lists (\<^verbatim>\<open>src/src/sorm.c\<close>): with a list per table that is read, the
  loops of \<open>Sorm_Fetch\<close> put exactly the rows of \<open>fetch\<close> into the lists, and on an error or without a
  row they give the lists back.
\<close>

section \<open>The empty lists\<close>

lemma rows_foot_Nil [simp]: "rows_foot p [] = (if p = 0 then {} else {p})"
  by (simp add: rows_foot_def list_foot_def)

lemma new_head_ok:
  assumes rd: "readable api al td xs" and st: "st \<noteq> 0" and h: "heap_ok h"
  shows "\<exists>p h1 h'. i_malloc al sizeof_list h = Some (p, h1) \<and> p \<noteq> 0 \<and> init_list_head p h1 = Some h' \<and> heap_ok h' \<and>
    list_holds api al st td xs h' p [] \<and> blocks h p = None \<and> (\<forall>a. a \<noteq> p \<longrightarrow> blocks h' a = blocks h a)"
proof -
  have al: "allocator_ok al" "memory_lasts al" using rd by (auto simp: readable_def)
  obtain p h1 where p: "i_malloc al sizeof_list h = Some (p, h1)" using memory_lasts_malloc [OF al(2) h] by blast
  have f: "p \<noteq> 0" "blocks h p = None" "heap_ok h1"
    "blocks h1 = (blocks h)(p \<mapsto> \<lparr>owner = pool_of al, content = C_raw sizeof_list\<rparr>)"
    using alloc_contract.mal_fresh [OF al(1) [unfolded allocator_ok_def] h _ p] by (auto simp: sizeof_list_def)
  then have "load h1 p = Some (C_raw sizeof_list)" by (simp add: load_def)
  from init_list_head_node [OF this] obtain h' where
    h': "init_list_head p h1 = Some h'" "node_at h' = (node_at h1)(p \<mapsto> (p, p, 0))" "overwrites {p} h1 h'" by blast
  have "owns (pool_of al) h' p \<longleftrightarrow> owns (pool_of al) h1 p" unfolding owns_def by (rule overwrites_owner [OF h'(3)])
  then have "list_holds api al st td xs h' p []"
    using rd st f list_at_init [of h' p 0] h'(2)
    by (simp add: list_holds_def list_ok_def rows_at_def list_foot_def owns_def)
  moreover have "heap_ok h'" using overwrites_ok [OF h'(3)] f(3) by simp
  moreover have "blocks h' a = blocks h a" if "a \<noteq> p" for a using h'(3) f(4) that by (simp add: overwrites_def)
  ultimately show ?thesis using p f h'(1) by blast
qed

definition new_head :: "sorm_allocator_t option \<Rightarrow> heap \<Rightarrow> (addr \<times> heap) option" where
  "new_head al h = do { (p, h) \<leftarrow> i_malloc al sizeof_list h;
                        if p = 0 then Some (0, h) else do { h \<leftarrow> init_list_head p h; Some (p, h) } }"

lemma new_lists_make: "new_lists al sel sc is rows h = make_rows (\<lambda>i. new_head al) sel sc is rows h"
proof (induction "is" arbitrary: rows h)
  case (Cons i js)
  show ?case
  proof (cases "table_selected sc sel i = Some True")
    case True
    then show ?thesis using Cons
      by (auto simp: new_head_def Let_def split: bind_splits)
  next
    case False
    then show ?thesis using Cons by (cases "table_selected sc sel i") auto
  qed
qed simp

lemma new_head_makes:
  assumes "core_setting api al tds sel sc" and "st \<noteq> 0" and "i < length tds"
  shows "lists.makes api al st tds sc [] i (new_head al)"
  unfolding lists.makes_def
proof (intro allI impI)
  fix h assume h: "heap_ok h"
  have "readable api al (tds ! i) (indexes_in_result (sc ! i))" using assms by (simp add: core_setting_def)
  from new_head_ok [OF this assms(2) h] assms show "\<exists>p h'. new_head al h = Some (p, h') \<and> p \<noteq> 0 \<and> heap_ok h' \<and>
      table_list api al st tds sc h' i p [] \<and> (\<forall>a \<in> rows_foot p []. blocks h a = None) \<and>
      (\<forall>a. a \<notin> rows_foot p [] \<longrightarrow> blocks h' a = blocks h a)"
    by (fastforce simp: new_head_def table_list_def core_setting_def)
qed

section \<open>Giving the lists back\<close>

text \<open>All that may be left is objects of rows.\<close>

definition objects_left :: "nat option \<Rightarrow> heap \<Rightarrow> heap \<Rightarrow> bool" where
  "objects_left pool h0 h \<longleftrightarrow> heap_ok h \<and> (\<forall>a. blocks h a = blocks h0 a \<or>
     blocks h0 a = None \<and> (\<exists>obj. blocks h a = Some \<lparr>owner = pool, content = C_objects [obj]\<rparr>))"

lemma free_lists_ok:
  assumes al: "allocator_ok al" and "heap_ok h" and "\<And>i. i \<in> set is \<Longrightarrow> list_ok (pool_of al) h (rows ! i) (es i)"
    and "\<And>i j. i \<in> set is \<Longrightarrow> j \<in> set is \<Longrightarrow> i \<noteq> j \<Longrightarrow>
      set (list_foot (rows ! i) (es i)) \<inter> set (list_foot (rows ! j) (es j)) = {}" and "distinct is"
  shows "\<exists>h'. free_rows (sorm_list_free al) (map ((!) rows) is) h = Some h' \<and> heap_ok h' \<and>
    blocks h' = (\<lambda>a. if \<exists>i \<in> set is. a \<in> set (list_foot (rows ! i) (es i)) - entry_data (es i) then None else blocks h a)"
  using assms(2-)
proof (induction "is" arbitrary: h)
  case (Cons i js)
  from sorm_list_free_frees [OF al Cons.prems(1) Cons.prems(2) [of i]] obtain h1 where
    h1: "sorm_list_free al (rows ! i) h = Some h1" "heap_ok h1"
      "blocks h1 = (\<lambda>a. if a \<in> set (list_foot (rows ! i) (es i)) - entry_data (es i) then None else blocks h a)" by auto
  have "list_ok (pool_of al) h1 (rows ! j) (es j)" if "j \<in> set js" for j
  proof -
    have ne: "set (list_foot (rows ! i) (es i)) \<inter> set (list_foot (rows ! j) (es j)) = {}"
      using Cons.prems(3) [of i j] Cons.prems(4) that by auto
    have "list_ok (pool_of al) h1 (rows ! j) (es j) \<longleftrightarrow> list_ok (pool_of al) h (rows ! j) (es j)"
      by (rule list_ok_frame) (use ne h1(3) in auto)
    then show ?thesis using Cons.prems(2) [of j] that by simp
  qed
  from Cons.IH [OF h1(2) this] Cons.prems(3,4) obtain h2 where
    h2: "free_rows (sorm_list_free al) (map ((!) rows) js) h1 = Some h2" "heap_ok h2"
      "blocks h2 = (\<lambda>a. if \<exists>i \<in> set js. a \<in> set (list_foot (rows ! i) (es i)) - entry_data (es i) then None else blocks h1 a)"
    by auto
  show ?case using h1 h2 by (intro exI [of _ h2]) (auto simp: fun_eq_iff)
qed simp

lemma list_ok_data:
  assumes ok: "list_ok pool h p es" and a: "a \<in> entry_data es"
  shows "\<exists>obj. blocks h a = Some \<lparr>owner = pool, content = C_objects [obj]\<rparr>"
proof -
  obtain q obj where e: "(q, a, obj) \<in> set es" using a by (auto simp: entry_data_def)
  then have p: "p \<noteq> 0" using ok by (auto simp: list_ok_def split: if_splits)
  then have "a \<in> set (list_foot p es)" using e by (force simp: list_foot_def)
  with p ok e have "load h a = Some (C_objects [obj])" "owns pool h a"
    by (auto simp: list_ok_def rows_at_def entry_at_def)
  then obtain b where "blocks h a = Some b" "content b = C_objects [obj]" "owner b = pool"
    by (auto simp: load_def owns_def)
  then show ?thesis by (cases b) auto
qed

lemma tables_ok_released:
  assumes al: "allocator_ok al" and t: "lists.tables_ok api al st tds sc S h0 h rows cs" and sub: "S \<subseteq> {..< length rows}"
    and out: "\<And>i. i < length rows \<Longrightarrow> i \<notin> S \<Longrightarrow> rows ! i = 0"
  shows "\<exists>h'. free_rows (sorm_list_free al) rows h = Some h' \<and> objects_left (pool_of al) h0 h' \<and>
    ((\<forall>i \<in> S. cs i = []) \<longrightarrow> blocks h' = blocks h0)"
proof -
  let ?es = "\<lambda>i. if i \<in> S then map fst (cs i) else []" and ?is = "[0..<length rows]"
  let ?F = "\<lambda>i. set (list_foot (rows ! i) (?es i))"
  have ok: "list_ok (pool_of al) h (rows ! i) (?es i)" if "i \<in> set ?is" for i
    using t that out by (auto simp: lists.tables_ok_def table_list_def list_holds_def list_ok_def)
  have F: "?F i = (if i \<in> S then rows_foot (rows ! i) (cs i) else {})" if "i \<in> set ?is" for i
    using out that by (simp add: rows_foot_def list_foot_def)
  have dis: "?F i \<inter> ?F j = {}" if "i \<in> set ?is" "j \<in> set ?is" "i \<noteq> j" for i j
    using t that F by (auto simp: lists.tables_ok_def)
  have hok: "heap_ok h" using t by (simp add: lists.tables_ok_def)
  from free_lists_ok [OF al hok, of ?is rows ?es, OF ok dis] obtain h' where
    h': "free_rows (sorm_list_free al) rows h = Some h'" "heap_ok h'"
      "blocks h' = (\<lambda>a. if \<exists>i \<in> set ?is. a \<in> ?F i - entry_data (?es i) then None else blocks h a)"
    unfolding map_nth by auto
  have h0: "blocks h0 a = (if \<exists>i \<in> set ?is. a \<in> ?F i then None else blocks h a)" for a
    using t F sub by (auto simp: lists.tables_ok_def subset_iff)
  have data: "\<exists>obj. blocks h a = Some \<lparr>owner = pool_of al, content = C_objects [obj]\<rparr>"
    if "i \<in> set ?is" "a \<in> entry_data (?es i)" for a i using list_ok_data [OF ok [OF that(1)] that(2)] .
  have left: "blocks h' a = blocks h0 a \<or>
      blocks h0 a = None \<and> (\<exists>obj. blocks h' a = Some \<lparr>owner = pool_of al, content = C_objects [obj]\<rparr>)" for a
  proof (cases "\<exists>i \<in> set ?is. a \<in> ?F i - entry_data (?es i)")
    case True
    then have "blocks h' a = None" unfolding h'(3) by (rule if_P)
    moreover have "blocks h0 a = None" unfolding h0 using True by (intro if_P) blast
    ultimately show ?thesis by (intro disjI1) (rule trans, assumption, rule sym)
  next
    case False
    then have h'a: "blocks h' a = blocks h a" unfolding h'(3) by (rule if_not_P)
    show ?thesis
    proof (cases "\<exists>i \<in> set ?is. a \<in> ?F i")
      case True
      then obtain i where i: "i \<in> set ?is" "a \<in> entry_data (?es i)" using False by blast
      have "blocks h0 a = None" unfolding h0 using True by (rule if_P)
      with data [OF i] show ?thesis unfolding h'a by (intro disjI2 conjI)
    next
      case False
      then have "blocks h0 a = blocks h a" unfolding h0 by (rule if_not_P)
      then show ?thesis unfolding h'a by (intro disjI1) (rule sym)
    qed
  qed
  have "objects_left (pool_of al) h0 h'" using left h'(2) by (simp add: objects_left_def)
  moreover have "blocks h' = blocks h0" if "\<forall>i \<in> S. cs i = []"
  proof -
    have e: "entry_data (?es i) = {}" for i using that by (simp add: entry_data_def)
    show ?thesis by (rule ext) (simp only: h'(3) h0 e Diff_empty)
  qed
  ultimately show ?thesis using h'(1) by blast
qed


section \<open>The cores\<close>

text \<open>
  What a core leaves: after \<open>SORM_OK\<close> with rows, the lists of the tables that are read hold exactly
  the rows of \<open>ds\<close>, in memory of their own, and the other pointers are \<open>NULL\<close>; otherwise all pointers
  are \<open>NULL\<close>, and of what was allocated at most objects of rows are left, after an error.
\<close>

definition lists_given ::
  "'db sqlite3_api \<Rightarrow> sorm_allocator_t option \<Rightarrow> stmt \<Rightarrow> sorm_table_descriptor_t list \<Rightarrow> select_columns_t list \<Rightarrow>
   nat set \<Rightarrow> heap \<Rightarrow> heap \<Rightarrow> addr list \<Rightarrow> 'db list \<Rightarrow> bool" where
  "lists_given api al st tds sc S h0 h rows ds \<longleftrightarrow>
     (\<exists>cs. lists.tables_ok api al st tds sc S h0 h rows cs \<and> (\<forall>i \<in> S. rows_filled (cs i) ds)) \<and>
     (\<forall>i < length rows. i \<notin> S \<longrightarrow> rows ! i = 0)"

definition lists_result ::
  "'db sqlite3_api \<Rightarrow> sorm_allocator_t option \<Rightarrow> stmt \<Rightarrow> sorm_table_descriptor_t list \<Rightarrow> select_columns_t list \<Rightarrow>
   nat set \<Rightarrow> 'db list \<Rightarrow> heap \<Rightarrow> sorm_error_t \<Rightarrow> int \<Rightarrow> addr list \<Rightarrow> heap \<Rightarrow> bool" where
  "lists_result api al st tds sc S ds h0 ret n rows h \<longleftrightarrow> length rows = length tds \<and>
     (ret = SORM_OK \<longrightarrow> n = int (length ds)) \<and>
     (if ret = SORM_OK \<and> n \<noteq> 0 then lists_given api al st tds sc S h0 h rows ds
      else rows = replicate (length tds) 0 \<and> objects_left (pool_of al) h0 h \<and>
        (ret = SORM_OK \<longrightarrow> blocks h = blocks h0))"

lemma core_return_lists:
  assumes al: "allocator_ok al" and t: "lists.tables_ok api al st tds sc S h0 (hp w) rows cs"
    and sub: "S \<subseteq> {..< length rows}" and out: "\<And>i. i < length rows \<Longrightarrow> i \<notin> S \<Longrightarrow> rows ! i = 0"
    and len: "length rows = length tds" and fl: "ret = SORM_OK \<longrightarrow> n = int (length ds) \<and> (\<forall>i \<in> S. rows_filled (cs i) ds)"
  shows "\<exists>rows' h'. core_return (sorm_list_free al) ret n rows w = Some (ret, n, rows', w\<lparr>hp := h'\<rparr>) \<and> heap_ok h' \<and>
    lists_result api al st tds sc S ds h0 ret n rows' h'"
proof (cases "ret \<noteq> SORM_OK \<or> n = 0")
  case True
  obtain h' where h': "free_rows (sorm_list_free al) rows (hp w) = Some h'" "objects_left (pool_of al) h0 h'"
      "(\<forall>i \<in> S. cs i = []) \<longrightarrow> blocks h' = blocks h0"
    using tables_ok_released [OF al t sub out] by blast
  have "blocks h' = blocks h0" if "ret = SORM_OK"
  proof -
    have "ds = []" using True fl that by simp
    then show ?thesis using h'(3) fl that by (simp add: rows_filled_def)
  qed
  then show ?thesis using True len fl h'
    by (auto simp: core_return_def lists_result_def objects_left_def)
next
  case False
  then have "lists_result api al st tds sc S ds h0 ret n rows (hp w)" "heap_ok (hp w)"
    using t fl out len by (auto simp: lists_result_def lists_given_def lists.tables_ok_def)
  then show ?thesis using False by (intro exI [of _ rows] exI [of _ "hp w"]) (simp add: core_return_def)
qed

lemma list_core_ok:
  assumes set: "core_setting api al tds sel sc" and st: "st \<noteq> 0" and h: "heap_ok (hp w)"
    and loop: "\<And>rows h1. length rows = length tds \<Longrightarrow> lists.tables_ok api al st tds sc (read_tables sc sel) (hp w) h1 rows (\<lambda>i. []) \<Longrightarrow>
      \<exists>ret step k w1 cs es. loop rows (w\<lparr>hp := h1\<rparr>) = Some (ret, step, k, w1) \<and> same_locks (w\<lparr>hp := h1\<rparr>) w1 \<and>
        lists.tables_ok api al st tds sc (read_tables sc sel) (hp w) (hp w1) rows cs \<and>
        calls w1 = calls w @ es \<and> only_steps st es \<and>
        (ret = SORM_OK \<longrightarrow> k = int (length ds) \<and> (\<forall>i \<in> read_tables sc sel. rows_filled (cs i) ds) \<and> (bad step \<longleftrightarrow> \<not> ok)) \<and>
        (rows_fit api st tds sc (read_tables sc sel) ds \<longrightarrow> ret = SORM_OK)"
  shows "core_run (lists_result api al st tds sc (read_tables sc sel) ds) st ok
    (rows_fit api st tds sc (read_tables sc sel) ds) w
    (core_body (new_lists al sel sc [0..<length tds] (replicate (length tds) 0)) loop bad (sorm_list_free al) w)"
  unfolding new_lists_make [abs_def]
proof (rule lists.core_body_ok [OF _ _ h new_head_makes [OF set st] loop])
  have al: "allocator_ok al" "length sel = length tds" "length sc = length tds" using set by (auto simp: core_setting_def)
  show "length sel = length tds" "length sc = length tds" using al by auto
  show "\<exists>rows' h'. core_return (sorm_list_free al) ret n rows w1 = Some (ret, n, rows', w1\<lparr>hp := h'\<rparr>) \<and> heap_ok h' \<and>
      lists_result api al st tds sc (read_tables sc sel) ds (hp w) ret n rows' h'"
    if "lists.tables_ok api al st tds sc (read_tables sc sel) (hp w) (hp w1) rows cs" "length rows = length tds"
      "\<And>i. i < length rows \<Longrightarrow> i \<notin> read_tables sc sel \<Longrightarrow> rows ! i = 0"
      "ret = SORM_OK \<longrightarrow> n = int (length ds) \<and> (\<forall>i \<in> read_tables sc sel. rows_filled (cs i) ds)" for ret n rows w1 cs
    using core_return_lists [OF al(1) that(1) _ that(3) that(2) that(4)] al that(2) by (auto simp: read_tables_def)
qed

text \<open>What the loops need of the lists.\<close>

lemma list_loop_setting:
  assumes "core_setting api al tds sel sc" and "length rows = length tds"
  shows "\<And>k d h. fill_lists api al st tds sel sc rows k d h
      = fill_rows (fill_list api al st tds sc k d) sel sc rows [0..<length rows] h"
    and "\<And>i. i < length rows \<Longrightarrow> table_selected sc sel i = Some (i \<in> read_tables sc sel)"
    and "read_tables sc sel \<subseteq> {..< length rows}"
  using assms table_selected_eq [of sel sc]
  by (auto simp: fill_lists_def core_setting_def read_tables_def)

text \<open>At most \<open>max_rows_num\<close> rows, as lists.\<close>

lemma some_list_core_ok:
  assumes st: "st \<noteq> 0" and set: "core_setting api al tds sel sc" and h: "heap_ok (hp w)"
    and rdy: "transaction_num conn = 0 \<longrightarrow> lock_ready conn w" and f: "fetch api st (nat m) (db w) = (ds, r)"
  shows "core_run (lists_result api al st tds sc (read_tables sc sel) ds) st (r = SQLITE_DONE \<or> r = SQLITE_ROW)
    (rows_fit api st tds sc (read_tables sc sel) ds) w
    (i_select_some_list_core api conn al st tds sel sc m 0 (replicate (length tds) 0) w)"
proof (cases "m = 0")
  case True
  then have "ds = []" "r = SQLITE_ROW" using f by auto
  then show ?thesis using True st h unfolding core_run_def
    by (intro exI [of _ SORM_OK] exI [of _ 0] exI [of _ "replicate (length tds) 0"] exI [of _ w] exI [of _ "[]"])
      (simp add: i_select_some_list_core_def lists_result_def objects_left_def)
next
  case False
  have len: "length (replicate (length tds) (0 :: addr)) = length tds" by simp
  show ?thesis unfolding core_bodies(2) [OF st False len]
  proof (rule list_core_ok [OF set st h], goal_cases)
    case (1 rows h1)
    let ?w = "w\<lparr>hp := h1\<rparr>"
    have t: "lists.tables_ok api al st tds sc (read_tables sc sel) (hp w) (hp ?w) rows (\<lambda>i. [])" using 1(2) by simp
    have fl0: "\<forall>i \<in> read_tables sc sel. rows_filled ((\<lambda>i. []) i) []" by (simp add: rows_filled_def)
    have rdy': "transaction_num conn = 0 \<longrightarrow> lock_ready conn ?w" using rdy by (simp add: lock_ready_def)
    have f': "fetch api st (nat (m - int (length []))) (db ?w) = (ds, r)" using f by simp
    have neg: "r = SQLITE_ROW" if "\<not> 0 < m" using that f by simp
    from lists.some_loop_ok [OF list_loop_setting [OF set 1(1)] _ t fl0 rdy' f', of SQLITE_DONE] neg
    show ?case by (fastforce simp: rows_fit_def)
  qed
qed

text \<open>All rows, as lists: when SQLite's rows end, the loop does.\<close>

lemma all_list_core_ok:
  assumes st: "st \<noteq> 0" and set: "core_setting api al tds sel sc" and h: "heap_ok (hp w)"
    and rdy: "transaction_num conn = 0 \<longrightarrow> lock_ready conn w" and f: "fetch api st N (db w) = (ds, r)" "r \<noteq> SQLITE_ROW"
  shows "core_run (lists_result api al st tds sc (read_tables sc sel) ds) st (r = SQLITE_DONE)
    (rows_fit api st tds sc (read_tables sc sel) ds) w
    (i_select_all_list_core api conn al st tds sel sc m 0 (replicate (length tds) 0) w)"
proof -
  have len: "length (replicate (length tds) (0 :: addr)) = length tds" by simp
  show ?thesis unfolding core_bodies(3) [OF st len]
  proof (rule list_core_ok [OF set st h], goal_cases)
    case (1 rows h1)
    let ?w = "w\<lparr>hp := h1\<rparr>"
    have t: "lists.tables_ok api al st tds sc (read_tables sc sel) (hp w) (hp ?w) rows (\<lambda>i. [])" using 1(2) by simp
    have fl0: "\<forall>i \<in> read_tables sc sel. rows_filled ((\<lambda>i. []) i) []" by (simp add: rows_filled_def)
    have rdy': "transaction_num conn = 0 \<longrightarrow> lock_ready conn ?w" using rdy by (simp add: lock_ready_def)
    have f': "fetch api st N (db ?w) = (ds, r)" using f by simp
    from lists.all_loop_ok [OF list_loop_setting [OF set 1(1)] _ t fl0 rdy' f' f(2)]
    show ?case by (fastforce simp: rows_fit_def)
  qed
qed

end
