(* ===== verification/Sorm_Query.thy ===== *)
theory Sorm_Query
  imports Sorm_Select_List
begin

text \<open>
  \<open>_select\<close> as a whole (\<^verbatim>\<open>src/src/sorm.c\<close>): the text of the query against a reference, the memory it takes
  for itself and gives back, the calls it makes, and the rows its core hands over. The three cores
  have one contract, the locale \<open>query_core\<close>; \<open>_select\<close> is verified once, for any core that keeps it.
\<close>

section \<open>The text of the query\<close>

definition select_sql ::
  "sorm_table_descriptor_t list \<Rightarrow> string \<Rightarrow> string \<times> string \<Rightarrow> sorm_join_t \<Rightarrow> string option \<Rightarrow> string" where
  "select_sql tds cols names join filter_arg =
     ''SELECT '' @ cols @ '' FROM '' @ t_name (tds ! 0) @
     (if 1 < length tds
      then '' '' @ the (join_str join) @ '' '' @ t_name (tds ! 1) @ '' ON '' @ fst names @ ''='' @ snd names else []) @
     (case filter_arg of None \<Rightarrow> [] | Some f \<Rightarrow> '' WHERE '' @ f)"

definition join_text :: "sorm_table_descriptor_t list \<Rightarrow> string \<times> string \<Rightarrow> sorm_join_t \<Rightarrow> string" where
  "join_text tds names join = (if 1 < length tds
      then '' '' @ the (join_str join) @ '' '' @ t_name (tds ! 1) @ '' ON '' @ fst names @ ''='' @ snd names else [])"

definition filter_text :: "string option \<Rightarrow> string" where
  "filter_text filter_arg = (case filter_arg of None \<Rightarrow> [] | Some f \<Rightarrow> '' WHERE '' @ f)"

lemma select_sql_parts: "select_sql tds cols names join filter_arg =
    ((''SELECT '' @ cols @ '' FROM '' @ t_name (tds ! 0)) @ join_text tds names join) @ filter_text filter_arg"
  by (simp add: select_sql_def join_text_def filter_text_def)

lemma prints_filter: "length s \<le> 1023 \<Longrightarrow> prints (i_construct_filter_stmt (sql_at s) f) s (filter_text f)"
  using prints_at [of s] prints_nothing [of s]
  by (simp add: i_construct_filter_stmt_def filter_text_def split: option.split)

lemma prints_join:
  "length s \<le> 1023 \<Longrightarrow> 1 < length tds \<longrightarrow> join_str join \<noteq> None \<Longrightarrow>
   prints (if 1 < length tds
           then do { js \<leftarrow> join_str join;
                     stmt_printf (sql_at s) ('' '' @ js @ '' '' @ t_name (tds ! 1) @ '' ON '' @ fst names @ ''='' @ snd names) }
           else Some (SORM_OK, sql_at s)) s (join_text tds names join)"
  unfolding join_text_def using prints_at [of s] prints_nothing [of s] by (cases "1 < length tds") auto

text \<open>The text is the reference, when it fits.\<close>

lemma select_text_eq:
  assumes "1 < length tds \<longrightarrow> join_str join \<noteq> None"
  shows "if length (select_sql tds cols names join filter_arg) \<le> 1023
    then select_text tds cols names join filter_arg = Some (SORM_OK, sql_at (select_sql tds cols names join filter_arg))
    else \<exists>q. select_text tds cols names join filter_arg = Some (SORM_TOO_LONG, q)"
proof -
  define s where "s = ''SELECT '' @ cols @ '' FROM '' @ t_name (tds ! 0)"
  let ?j = "join_text tds names join" and ?f = "filter_text filter_arg"
  have 1: "prints (i_construct_select_stmt (t_name (tds ! 0)) cols) [] s"
    unfolding i_construct_select_stmt_def s_def by (rule prints_init)
  have sql: "select_sql tds cols names join filter_arg = (s @ ?j) @ ?f" by (simp only: select_sql_parts s_def)
  have tx: "select_text tds cols names join filter_arg =
      (if length s \<le> 1023 then if length (s @ ?j) \<le> 1023 then i_construct_filter_stmt (sql_at (s @ ?j)) filter_arg
         else Some (SORM_TOO_LONG, sql_stmt_init) else Some (SORM_TOO_LONG, sql_stmt_init))"
  proof (cases "length s \<le> 1023")
    case True
    then show ?thesis unfolding select_text_def unless_error_prints [OF 1] append_Nil
      unless_error_prints [OF prints_join [OF True assms]] by simp
  next
    case False
    then show ?thesis unfolding select_text_def unless_error_prints [OF 1] append_Nil by simp
  qed
  show ?thesis
  proof (cases "length (s @ ?j) \<le> 1023")
    case True
    then show ?thesis using prints_filter [OF True, of filter_arg] unfolding sql tx prints_def by (auto simp: add.assoc split: if_splits)
  next
    case False
    then show ?thesis unfolding sql tx by simp
  qed
qed

section \<open>The statement of the query\<close>

definition prepare_db :: "'db sqlite3_api \<Rightarrow> string \<Rightarrow> 'db \<Rightarrow> int \<times> stmt \<times> 'db" where
  "prepare_db api sql d = busy_retry (sqlite3_prepare api (take (nat SQL_STMT_MAX_LEN) sql)) 0 d"

lemma prepare_is_prepare_db:
  "i_sqlite3_prepare api sql w = (ret, st, w') \<Longrightarrow> prepare_db api sql (db w) = (ret, st, db w')"
  unfolding i_sqlite3_prepare_def prepare_db_def
  by (rule busy_retry_db [where f = "sq_prepare api sql"])
    (auto simp: sq_prepare_def Let_def split: prod.splits)

section \<open>The memory of \<open>_select\<close>\<close>

definition indexes_size :: "sorm_table_descriptor_t list \<Rightarrow> nat" where
  "indexes_size tds = (\<Sum>td \<leftarrow> tds. 4 * length (columns td))"

text \<open>The tables a query can be made on.\<close>

definition table_usable :: "sorm_table_descriptor_t \<Rightarrow> bool" where
  "table_usable td \<longleftrightarrow> wf_table td \<and> columns td \<noteq> [] \<and> length (columns td) < 2 ^ 31 \<and> 0 < t_size td \<and> t_size td < 2 ^ 31"

lemma libc_block:
  assumes "n \<le> room h" and "heap_ok h" and "0 < n"
  shows "\<exists>p h'. i_malloc None n h = Some (p, h') \<and> p \<noteq> 0 \<and> blocks h p = None \<and> heap_ok h' \<and> room h' = room h - n \<and>
    owns None h' p \<and> (\<forall>a. a \<noteq> p \<longrightarrow> blocks h' a = blocks h a)"
proof -
  obtain p h' where m: "i_malloc None n h = Some (p, h')" using i_malloc_room [OF assms(1,2)] by blast
  have "room h' = room h - n" using m malloc_room [OF assms(1,2)] assms(3) by (auto simp: i_malloc_def)
  with libc.mal_fresh [OF assms(2,3) m] m show ?thesis by (auto simp: owns_def pool_of_def)
qed

lemma malloc_indexes_ok:
  "\<forall>td \<in> set tds. table_usable td \<Longrightarrow> heap_ok h \<Longrightarrow> indexes_size tds \<le> room h \<Longrightarrow>
   \<exists>ps h'. malloc_indexes tds h = Some (SORM_OK, ps, h') \<and> heap_ok h' \<and> room h' = room h - indexes_size tds \<and>
     distinct ps \<and> (\<forall>p \<in> set ps. p \<noteq> 0 \<and> blocks h p = None \<and> owns None h' p) \<and>
     (\<forall>a. a \<notin> set ps \<longrightarrow> blocks h' a = blocks h a)"
proof (induction tds arbitrary: h)
  case (Cons td tds)
  have td: "table_usable td" using Cons.prems(1) by simp
  have n: "size_t (4 * columns_num td) = 4 * length (columns td)" "0 < 4 * length (columns td)"
    using td by (simp_all add: table_usable_def wf_table_columns_num)
  from libc_block [OF _ Cons.prems(2) n(2)] Cons.prems(3) obtain p h1 where
    p: "i_malloc None (size_t (4 * columns_num td)) h = Some (p, h1)" "p \<noteq> 0" "blocks h p = None" "heap_ok h1"
      "room h1 = room h - 4 * length (columns td)" "owns None h1 p" "\<forall>a. a \<noteq> p \<longrightarrow> blocks h1 a = blocks h a"
    unfolding n(1) by (auto simp: indexes_size_def)
  have "indexes_size tds \<le> room h1" using p(5) Cons.prems(3) by (simp add: indexes_size_def)
  from Cons.IH [OF _ p(4) this] Cons.prems(1) obtain ps h' where
    r: "malloc_indexes tds h1 = Some (SORM_OK, ps, h')" "heap_ok h'" "room h' = room h1 - indexes_size tds"
      "distinct ps" "\<forall>q \<in> set ps. q \<noteq> 0 \<and> blocks h1 q = None \<and> owns None h' q"
      "\<forall>a. a \<notin> set ps \<longrightarrow> blocks h' a = blocks h1 a" by auto
  have pn: "p \<notin> set ps" using r(5) p(6) by (auto simp: owns_def)
  have "blocks h q = None" if "q \<in> set ps" for q using that r(5) p(7) pn by metis
  moreover have "owns None h' p" using p(6) r(6) pn by (simp add: owns_def)
  ultimately show ?case using p r pn
    by (intro exI [of _ "p # ps"] exI [of _ h']) (auto simp: indexes_size_def simp del: size_t_def)
qed (simp add: indexes_size_def)

lemma free_rows_libc:
  "heap_ok h \<Longrightarrow> distinct ps \<Longrightarrow> \<forall>p \<in> set ps. p \<noteq> 0 \<and> owns None h p \<Longrightarrow>
   \<exists>h'. free_rows (\<lambda>p h. if p \<noteq> 0 then i_free None p h else Some h) ps h = Some h' \<and> heap_ok h' \<and>
     (\<forall>a. blocks h' a = (if a \<in> set ps then None else blocks h a))"
proof (induction ps arbitrary: h)
  case (Cons p ps)
  have "owns (pool_of None) h p" using Cons.prems(3) by (simp add: pool_of_def)
  from free_block [OF allocator_ok_libc Cons.prems(1) this] obtain h1 where
    h1: "i_free None p h = Some h1" "heap_ok h1" "blocks h1 = (blocks h)(p := None)" by auto
  have "\<forall>q \<in> set ps. q \<noteq> 0 \<and> owns None h1 q" using Cons.prems(2,3) h1(3) by (auto simp: owns_def)
  from Cons.IH [OF h1(2) _ this] Cons.prems(2) h1 Cons.prems(3) show ?case by auto
qed simp

section \<open>The contract of a core\<close>

text \<open>
  What \<open>_select\<close> relies on: a core returns, and what it leaves (\<open>result\<close>) depends on the memory it did
  not find allocated only. \<open>reads\<close> says which rows a core reads and whether SQLite ended well.
\<close>

locale query_core =
  fixes core :: "'db select_core"
    and api :: "'db sqlite3_api" and al :: "sorm_allocator_t option"
    and enough :: "sorm_table_descriptor_t list \<Rightarrow> int \<Rightarrow> bool"
    and reads :: "stmt \<Rightarrow> int \<Rightarrow> 'db \<Rightarrow> 'db list \<Rightarrow> bool \<Rightarrow> bool"
    and result :: "stmt \<Rightarrow> sorm_table_descriptor_t list \<Rightarrow> select_columns_t list \<Rightarrow> nat set \<Rightarrow> int \<Rightarrow> 'db list \<Rightarrow>
      heap \<Rightarrow> sorm_error_t \<Rightarrow> int \<Rightarrow> addr list \<Rightarrow> heap \<Rightarrow> bool"
  assumes core_returns: "st \<noteq> 0 \<Longrightarrow> core_setting api al tds sel sc \<Longrightarrow> heap_ok (hp w) \<Longrightarrow>
      transaction_num conn = 0 \<longrightarrow> lock_ready conn w \<Longrightarrow> enough tds m \<Longrightarrow> reads st m (db w) ds ok \<Longrightarrow>
      core_run (result st tds sc (read_tables sc sel) m ds) st ok (rows_fit api st tds sc (read_tables sc sel) ds) w
        (core api conn al st tds sel sc m 0 (replicate (length tds) 0) w)"
    and result_frame: "result st tds sc S m ds h0 ret n rows h \<Longrightarrow> heap_ok h' \<Longrightarrow> (\<And>a. a \<in> B \<Longrightarrow> blocks h0 a \<noteq> None) \<Longrightarrow>
      (\<And>a. blocks h0' a = (if a \<in> B then None else blocks h0 a)) \<Longrightarrow>
      (\<And>a. blocks h' a = (if a \<in> B then None else blocks h a)) \<Longrightarrow> result st tds sc S m ds h0' ret n rows h'"
    and result_keeps: "result st tds sc S m ds h0 ret n rows h \<Longrightarrow> blocks h0 a \<noteq> None \<Longrightarrow> blocks h a = blocks h0 a"

text \<open>What the caller of \<open>_select\<close> sees of a query with the result columns \<open>R\<close>.\<close>

definition queried ::
  "(select_columns_t list \<Rightarrow> heap \<Rightarrow> sorm_error_t \<Rightarrow> int \<Rightarrow> addr list \<Rightarrow> heap \<Rightarrow> bool) \<Rightarrow> (select_columns_t list \<Rightarrow> bool) \<Rightarrow>
   sorm_table_descriptor_t list \<Rightarrow> (nat \<times> nat) list \<Rightarrow> string \<Rightarrow> stmt \<Rightarrow> bool \<Rightarrow> 'db world \<Rightarrow>
   sorm_error_t \<Rightarrow> int \<Rightarrow> int \<Rightarrow> addr list \<Rightarrow> 'db world \<Rightarrow> bool" where
  "queried result fit tds R sql st ok w ret0 f n rows w' \<longleftrightarrow>
     (\<exists>sc ps es fs. selection_ok tds R (sc, int (length R)) \<and> same_locks w w' \<and> calls w' = calls w @ ps @ es @ fs \<and>
        prepare_run sql SQLITE_OK st ps \<and> only_steps st es \<and> finalize_run st f fs \<and> heap_ok (hp w') \<and>
        (ret0 = SORM_OK \<longrightarrow> ok) \<and> (ok \<and> fit sc \<longrightarrow> ret0 = SORM_OK) \<and> result sc (hp w) ret0 n rows (hp w'))"

text \<open>What a query relies on, the names of known columns apart.\<close>

definition query_ready ::
  "'db sqlite3_api \<Rightarrow> sorm_allocator_t option \<Rightarrow> sorm_table_descriptor_t list \<Rightarrow> string \<Rightarrow> heap \<Rightarrow> bool" where
  "query_ready api al tds cols h \<longleftrightarrow> allocator_ok al \<and> memory_lasts al \<and> columns_consistent api \<and> tds \<noteq> [] \<and>
     (\<forall>td \<in> set tds. table_usable td) \<and> cols \<noteq> [] \<and> no_nul cols \<and> (\<forall>n \<in> set (split_names cols). \<not> list_all blank n) \<and>
     heap_ok h \<and> 16 * length tds + indexes_size tds + length cols + 1 \<le> room h"

lemma core_setting_selection:
  assumes "query_ready api al tds cols h" and "selection_ok tds R (sc, r)" and "length sel = length tds"
  shows "core_setting api al tds sel sc"
  using assms by (auto simp: core_setting_def query_ready_def selection_ok_def readable_def table_usable_def)

context query_core
begin

lemma select_run_ok:
  assumes rdy: "query_ready api al tds cols h0" and h: "heap_ok (hp w)" and rm: "length cols + 1 \<le> room (hp w)"
    and sel: "length sel = length tds" and R: "result_columns tds cols = Some R"
    and lock: "transaction_num conn = 0 \<longrightarrow> lock_ready conn w" and en: "enough tds m"
    and prep: "prepare_db api sql (db w) = (SQLITE_OK, st, d1)" "st \<noteq> 0" and rd: "reads st m d1 ds ok"
  shows "\<exists>ret0 f n rows w'. select_run core api conn al cols tds sel sql m (replicate (length tds) 0) w
      = Some (if f \<noteq> SQLITE_OK then SORM_DB_ERROR else ret0, n, rows, w') \<and>
    queried (\<lambda>sc. result st tds sc (read_tables sc sel) m ds) (\<lambda>sc. rows_fit api st tds sc (read_tables sc sel) ds)
      tds R sql st ok w ret0 f n rows w'"
proof -
  have q: "\<And>td. td \<in> set tds \<Longrightarrow> wf_table td" "no_nul cols" "\<forall>n \<in> set (split_names cols). \<not> list_all blank n"
    using rdy by (auto simp: query_ready_def table_usable_def)
  obtain r st' w1 where p: "i_sqlite3_prepare api sql w = (r, st', w1)" by (metis prod_cases3)
  then have r: "r = SQLITE_OK" "st' = st" "db w1 = d1" using prepare_is_prepare_db [OF p] prep(1) by auto
  from prepare_returns [OF p] r obtain ps where
    w1: "hp w1 = hp w" "sems w1 = sems w" "rwlocks w1 = rwlocks w" "calls w1 = calls w @ ps" "prepare_run sql SQLITE_OK st ps"
    by auto
  from columns_parsed [where tds = tds, OF q h rm] R w1(1) obtain sc h2 where
    c: "i_columns_name_to_select_columns tds cols (hp w1) = Some (SORM_OK, sc, h2)" "heap_ok h2"
      "blocks h2 = blocks (hp w)" "selection_ok tds R (sc, int (length R))" by auto
  let ?w2 = "w1\<lparr>hp := h2\<rparr>"
  have lock2: "transaction_num conn = 0 \<longrightarrow> lock_ready conn ?w2" using lock w1 by (simp add: lock_ready_def)
  have "heap_ok (hp ?w2)" "reads st m (db ?w2) ds ok" using c(2) rd r(3) by simp_all
  from core_returns [OF prep(2) core_setting_selection [OF rdy c(4) sel] this(1) lock2 en this(2)]
  obtain ret0 n rows w3 es where
    k: "core api conn al st tds sel sc m 0 (replicate (length tds) 0) ?w2 = Some (ret0, n, rows, w3)"
      "same_locks ?w2 w3" "calls w3 = calls ?w2 @ es" "only_steps st es" "heap_ok (hp w3)" "ret0 = SORM_OK \<longrightarrow> ok"
      "ok \<and> rows_fit api st tds sc (read_tables sc sel) ds \<longrightarrow> ret0 = SORM_OK"
      "result st tds sc (read_tables sc sel) m ds (hp ?w2) ret0 n rows (hp w3)"
    unfolding core_run_def by blast
  obtain ret w4 where d: "db_finalize api st ret0 w3 = (ret, w4)" by fastforce
  from db_finalize_returns [OF d] obtain f fs where
    z: "ret = (if f \<noteq> SQLITE_OK then SORM_DB_ERROR else ret0)" "hp w4 = hp w3" "sems w4 = sems w3" "rwlocks w4 = rwlocks w3"
      "calls w4 = calls w3 @ fs" "finalize_run st f fs" by blast
  have "result st tds sc (read_tables sc sel) m ds (hp w) ret0 n rows (hp w4)"
    by (rule result_frame [OF k(8), where B = "{}"]) (use c(3) k(5) z(2) in simp_all)
  then have "queried (\<lambda>sc. result st tds sc (read_tables sc sel) m ds)
      (\<lambda>sc. rows_fit api st tds sc (read_tables sc sel) ds) tds R sql st ok w ret0 f n rows w4"
    unfolding queried_def using w1 k(2-7) z(2-6) c(4)
    by (intro exI [of _ sc] exI [of _ ps] exI [of _ es] exI [of _ fs]) (auto simp: same_locks_def)
  moreover have "select_run core api conn al cols tds sel sql m (replicate (length tds) 0) w = Some (ret, n, rows, w4)"
    using p r c(1) k(1) d by (simp add: select_run_def)
  ultimately show ?thesis using z(1) by blast
qed

end

text \<open>The memory \<open>_select\<close> takes for itself.\<close>

definition tds_room :: "sorm_table_descriptor_t list \<Rightarrow> string \<Rightarrow> heap \<Rightarrow> bool" where
  "tds_room tds cols h \<longleftrightarrow> 16 * length tds + indexes_size tds + length cols + 1 \<le> room h"

lemma blocks_allocated:
  assumes "tds \<noteq> []" and "\<forall>td \<in> set tds. table_usable td" and "heap_ok h" and rm: "tds_room tds cols h"
  shows "\<exists>p h1 ps h2. i_malloc None (sizeof_select_columns * length tds) h = Some (p, h1) \<and>
    malloc_indexes tds h1 = Some (SORM_OK, ps, h2) \<and> heap_ok h2 \<and> length cols + 1 \<le> room h2 \<and> distinct (p # ps) \<and>
    (\<forall>a \<in> set (p # ps). a \<noteq> 0 \<and> owns None h2 a) \<and>
    (\<forall>a. blocks h a = (if a \<in> set (p # ps) then None else blocks h2 a))"
proof -
  from libc_block [OF _ assms(3), of "sizeof_select_columns * length tds"] assms(1) rm obtain p h1 where
    p: "i_malloc None (sizeof_select_columns * length tds) h = Some (p, h1)" "p \<noteq> 0" "blocks h p = None"
      "heap_ok h1" "room h1 = room h - 16 * length tds" "owns None h1 p" "\<forall>a. a \<noteq> p \<longrightarrow> blocks h1 a = blocks h a"
    by (auto simp: sizeof_select_columns_def tds_room_def)
  have "indexes_size tds \<le> room h1" using rm p(5) unfolding tds_room_def by linarith
  from malloc_indexes_ok [OF assms(2) p(4) this] obtain ps h2 where
    m: "malloc_indexes tds h1 = Some (SORM_OK, ps, h2)" "heap_ok h2" "room h2 = room h1 - indexes_size tds" "distinct ps"
      "\<forall>p \<in> set ps. p \<noteq> 0 \<and> blocks h1 p = None \<and> owns None h2 p" "\<forall>a. a \<notin> set ps \<longrightarrow> blocks h2 a = blocks h1 a" by blast
  have pn: "p \<notin> set ps" using m(5) p(6) by (auto simp: owns_def)
  have "\<forall>a \<in> set (p # ps). a \<noteq> 0 \<and> owns None h2 a" using p(2,6) m(5,6) pn by (auto simp: owns_def)
  moreover have "blocks h a = (if a \<in> set (p # ps) then None else blocks h2 a)" for a
    using p(3,7) m(5,6) pn by (cases "a = p") auto
  moreover have "length cols + 1 \<le> room h2" "distinct (p # ps)"
    using rm p(5) m(3,4) pn unfolding tds_room_def by (linarith, simp)
  ultimately show ?thesis using p(1) m(1,2) by blast
qed

lemma select_allocates:
  assumes "query_ready api al tds cols h"
  shows "\<exists>p h1 ps h2. i_malloc None (sizeof_select_columns * length tds) h = Some (p, h1) \<and>
    malloc_indexes tds h1 = Some (SORM_OK, ps, h2) \<and> heap_ok h2 \<and> length cols + 1 \<le> room h2 \<and> distinct (p # ps) \<and>
    (\<forall>a \<in> set (p # ps). a \<noteq> 0 \<and> owns None h2 a) \<and>
    (\<forall>a. blocks h a = (if a \<in> set (p # ps) then None else blocks h2 a))"
  by (rule blocks_allocated) (use assms in \<open>auto simp: query_ready_def tds_room_def\<close>)

lemma those_map_Some [simp]: "those (map Some xs) = Some xs"
  by (induction xs) simp_all

text \<open>The return of \<open>_select\<close> gives its own memory back and nothing else.\<close>

lemma select_return_ok:
  assumes "heap_ok (hp w)" and "distinct (p # ps)" and "\<forall>a \<in> set (p # ps). a \<noteq> 0 \<and> owns None (hp w) a"
  shows "\<exists>h'. select_return ps p ret n rows w
      = Some (if ret = SORM_OK \<and> n = 0 then SORM_NOEXIST else ret, Some n, rows, w\<lparr>hp := h'\<rparr>) \<and> heap_ok h' \<and>
    (\<forall>a. blocks h' a = (if a \<in> set (p # ps) then None else blocks (hp w) a))"
proof -
  from free_rows_libc [OF assms(1), of ps] assms(2,3) obtain h1 where
    h1: "free_rows (\<lambda>p h. if p \<noteq> 0 then i_free None p h else Some h) ps (hp w) = Some h1" "heap_ok h1"
      "\<forall>a. blocks h1 a = (if a \<in> set ps then None else blocks (hp w) a)" by auto
  have "owns (pool_of None) h1 p" using assms(2,3) h1(3) by (simp add: owns_def pool_of_def)
  from free_block [OF allocator_ok_libc h1(2) this] h1 assms(3) show ?thesis by (auto simp: select_return_def)
qed

context query_core
begin

lemma select_ok:
  assumes rdy: "query_ready api al tds cols (hp w)"
    and sel: "length sel = length tds" and R: "result_columns tds cols = Some R"
    and lock: "transaction_num conn = 0 \<longrightarrow> lock_ready conn w" and en: "enough tds m"
    and jn: "1 < length tds \<longrightarrow> join_str join \<noteq> None" and flt: "filter_arg \<noteq> Some []"
    and sql: "sql = select_sql tds cols names join filter_arg" "length sql \<le> 1023" "no_nul sql"
    and prep: "prepare_db api sql (db w) = (SQLITE_OK, st, d1)" "st \<noteq> 0" and rd: "reads st m d1 ds ok"
  shows "\<exists>ret0 f n rows w'. i_select core api (Some conn) al (Some cols) (map Some tds) sel names join filter_arg
      (Some m) (replicate (length tds) 0) w
      = Some (if f \<noteq> SQLITE_OK then SORM_DB_ERROR else if ret0 = SORM_OK \<and> n = 0 then SORM_NOEXIST else ret0, Some n, rows, w') \<and>
    queried (\<lambda>sc. result st tds sc (read_tables sc sel) m ds) (\<lambda>sc. rows_fit api st tds sc (read_tables sc sel) ds)
      tds R sql st ok w ret0 f n rows w'"
proof -
  let ?fit = "\<lambda>sc. rows_fit api st tds sc (read_tables sc sel) ds"
  have q: "tds \<noteq> []" "cols \<noteq> []" using rdy by (auto simp: query_ready_def)
  from select_allocates [OF rdy] obtain p h1 ps h2 where
    m: "i_malloc None (sizeof_select_columns * length tds) (hp w) = Some (p, h1)" "malloc_indexes tds h1 = Some (SORM_OK, ps, h2)"
      "heap_ok h2" "length cols + 1 \<le> room h2" "distinct (p # ps)" and
    own: "\<forall>a \<in> set (p # ps). a \<noteq> 0 \<and> owns None h2 a" and
    b0: "\<And>a. blocks (hp w) a = (if a \<in> set (p # ps) then None else blocks h2 a)" by blast
  let ?w = "w\<lparr>hp := h2\<rparr>" and ?B = "set (p # ps)"
  have tx: "select_text tds cols names join filter_arg = Some (SORM_OK, sql_at sql)"
    using select_text_eq [OF jn, of cols names filter_arg] sql(1,2) by simp
  have w: "transaction_num conn = 0 \<longrightarrow> lock_ready conn ?w" "heap_ok (hp ?w)" "length cols + 1 \<le> room (hp ?w)"
    "prepare_db api sql (db ?w) = (SQLITE_OK, st, d1)"
    using lock m(3,4) prep(1) by (simp_all add: lock_ready_def)
  from select_run_ok [OF rdy w(2,3) sel R w(1) en w(4) prep(2) rd] obtain ret0 f n rows w3 where
    r: "select_run core api conn al cols tds sel sql m (replicate (length tds) 0) ?w
        = Some (if f \<noteq> SQLITE_OK then SORM_DB_ERROR else ret0, n, rows, w3)"
      "queried (\<lambda>sc. result st tds sc (read_tables sc sel) m ds) ?fit tds R sql st ok ?w ret0 f n rows w3"
    by blast
  from r(2) obtain sc ps' es fs where
    u: "selection_ok tds R (sc, int (length R))" "same_locks ?w w3" "calls w3 = calls ?w @ ps' @ es @ fs"
      "prepare_run sql SQLITE_OK st ps'" "only_steps st es" "finalize_run st f fs" "heap_ok (hp w3)"
      "ret0 = SORM_OK \<longrightarrow> ok" "ok \<and> ?fit sc \<longrightarrow> ret0 = SORM_OK"
      "result st tds sc (read_tables sc sel) m ds (hp ?w) ret0 n rows (hp w3)" unfolding queried_def by blast
  have keep: "blocks (hp w3) a = blocks h2 a" if "a \<in> ?B" for a
    using result_keeps [OF u(10), of a] own that by (auto simp: owns_def)
  have "\<forall>a \<in> ?B. a \<noteq> 0 \<and> owns None (hp w3) a" using own keep by (simp add: owns_def)
  with m(5) obtain h' where
    z: "select_return ps p (if f \<noteq> SQLITE_OK then SORM_DB_ERROR else ret0) n rows w3
        = Some (if (if f \<noteq> SQLITE_OK then SORM_DB_ERROR else ret0) = SORM_OK \<and> n = 0 then SORM_NOEXIST
            else if f \<noteq> SQLITE_OK then SORM_DB_ERROR else ret0, Some n, rows, w3\<lparr>hp := h'\<rparr>)" "heap_ok h'"
      "\<forall>a. blocks h' a = (if a \<in> ?B then None else blocks (hp w3) a)" using select_return_ok [OF u(7)] by blast
  have "result st tds sc (read_tables sc sel) m ds (hp w) ret0 n rows h'"
  proof (rule result_frame [OF u(10) z(2)])
    show "blocks (hp ?w) a \<noteq> None" if "a \<in> ?B" for a using own that by (auto simp: owns_def)
    show "blocks (hp w) a = (if a \<in> ?B then None else blocks (hp ?w) a)" for a using b0 by simp
    show "blocks h' a = (if a \<in> ?B then None else blocks (hp w3) a)" for a using z(3) by simp
  qed
  then have "queried (\<lambda>sc. result st tds sc (read_tables sc sel) m ds) ?fit tds R sql st ok w ret0 f n rows (w3\<lparr>hp := h'\<rparr>)"
    unfolding queried_def using u(1-6,8,9) z(2)
    by (intro exI [of _ sc] exI [of _ ps'] exI [of _ es] exI [of _ fs]) (simp add: same_locks_def)
  moreover have "i_select core api (Some conn) al (Some cols) (map Some tds) sel names join filter_arg
      (Some m) (replicate (length tds) 0) w
      = Some (if f \<noteq> SQLITE_OK then SORM_DB_ERROR else if ret0 = SORM_OK \<and> n = 0 then SORM_NOEXIST else ret0, Some n, rows, w3\<lparr>hp := h'\<rparr>)"
    using q flt own m(1,2) tx r(1) z(1) cstr_sql_at [OF sql(3)] by (simp add: i_select_def)
  ultimately show ?thesis by blast
qed

end

section \<open>The list cores keep the contract\<close>

context row_container
begin

text \<open>Memory that was there before the containers can go without a change to them.\<close>

lemma tables_ok_drop:
  assumes t: "tables_ok tables h0 h rows cs" and h': "heap_ok h'" and B: "\<And>a. a \<in> B \<Longrightarrow> blocks h0 a \<noteq> None"
    and b0: "\<And>a. blocks h0' a = (if a \<in> B then None else blocks h0 a)"
    and b: "\<And>a. blocks h' a = (if a \<in> B then None else blocks h a)"
  shows "tables_ok tables h0' h' rows cs"
proof -
  have h0: "blocks h0 a = (if \<exists>i \<in> tables. a \<in> foot (rows ! i) (cs i) then None else blocks h a)" for a
    using t by (simp add: tables_ok_def)
  have nb: "a \<notin> B" if "i \<in> tables" "a \<in> foot (rows ! i) (cs i)" for a i
  proof -
    have "blocks h0 a = None" unfolding h0 by (rule if_P) (use that in blast)
    then show ?thesis using B by blast
  qed
  have "ok h' i (rows ! i) (cs i)" if "i \<in> tables" for i
    using t that ok_frame [of h i "rows ! i" "cs i" h'] nb [OF that] b by (simp add: tables_ok_def)
  moreover have "blocks h0' a = (if \<exists>i \<in> tables. a \<in> foot (rows ! i) (cs i) then None else blocks h' a)" for a
    unfolding b0 b h0 using nb by (auto split: if_splits)
  ultimately show ?thesis using t h' by (simp add: tables_ok_def)
qed

lemma tables_ok_keeps: "tables_ok tables h0 h rows cs \<Longrightarrow> blocks h0 a \<noteq> None \<Longrightarrow> blocks h a = blocks h0 a"
  unfolding tables_ok_def by (metis (mono_tags, lifting))

end

lemma lists_result_frame:
  assumes r: "lists_result api al st tds sc S ds h0 ret n rows h" and h': "heap_ok h'"
    and B: "\<And>a. a \<in> B \<Longrightarrow> blocks h0 a \<noteq> None"
    and b0: "\<And>a. blocks h0' a = (if a \<in> B then None else blocks h0 a)"
    and b: "\<And>a. blocks h' a = (if a \<in> B then None else blocks h a)"
  shows "lists_result api al st tds sc S ds h0' ret n rows h'"
proof -
  have "lists_given api al st tds sc S h0' h' rows ds" if "lists_given api al st tds sc S h0 h rows ds"
    using that lists.tables_ok_drop [OF _ h' B b0 b] unfolding lists_given_def by blast
  moreover have "objects_left (pool_of al) h0' h'" if "objects_left (pool_of al) h0 h"
    using that h' b0 b unfolding objects_left_def by simp
  moreover have "blocks h' = blocks h0'" if "blocks h = blocks h0" using that b0 b by auto
  ultimately show ?thesis using r unfolding lists_result_def by (cases "ret = SORM_OK \<and> n \<noteq> 0") auto
qed

lemma lists_result_keeps:
  assumes "lists_result api al st tds sc S ds h0 ret n rows h" and "blocks h0 a \<noteq> None"
  shows "blocks h a = blocks h0 a"
proof (cases "ret = SORM_OK \<and> n \<noteq> 0")
  case True
  then show ?thesis using assms lists.tables_ok_keeps [OF _ assms(2)]
    unfolding lists_result_def lists_given_def by auto
next
  case False
  then have "objects_left (pool_of al) h0 h" using assms(1) by (simp only: lists_result_def if_False)
  then show ?thesis using assms(2) unfolding objects_left_def by metis
qed

text \<open>The rows the two list cores read, and whether SQLite ended well.\<close>

definition all_rows :: "'db sqlite3_api \<Rightarrow> stmt \<Rightarrow> int \<Rightarrow> 'db \<Rightarrow> 'db list \<Rightarrow> bool \<Rightarrow> bool" where
  "all_rows api st m d ds ok \<longleftrightarrow> (\<exists>N r. fetch api st N d = (ds, r) \<and> r \<noteq> SQLITE_ROW \<and> ok = (r = SQLITE_DONE))"

definition some_rows :: "'db sqlite3_api \<Rightarrow> stmt \<Rightarrow> int \<Rightarrow> 'db \<Rightarrow> 'db list \<Rightarrow> bool \<Rightarrow> bool" where
  "some_rows api st m d ds ok \<longleftrightarrow> (\<exists>r. fetch api st (nat m) d = (ds, r) \<and> ok = (r = SQLITE_DONE \<or> r = SQLITE_ROW))"

interpretation all_list: query_core i_select_all_list_core api al "\<lambda>tds m. True" "all_rows api"
  "\<lambda>st tds sc S m. lists_result api al st tds sc S" for api al
proof (unfold_locales, goal_cases)
  case (1 st tds sel sc w conn m ds ok)
  then show ?case using all_list_core_ok [OF 1(1-4)] by (auto simp: all_rows_def)
next
  case (2 st tds sc S m ds h0 ret n rows h h' B h0')
  then show ?case by (rule lists_result_frame)
next
  case 3
  then show ?case by (rule lists_result_keeps)
qed

interpretation some_list: query_core i_select_some_list_core api al "\<lambda>tds m. True" "some_rows api"
  "\<lambda>st tds sc S m. lists_result api al st tds sc S" for api al
proof (unfold_locales, goal_cases)
  case (1 st tds sel sc w conn m ds ok)
  then show ?case using some_list_core_ok [OF 1(1-4)] by (auto simp: some_rows_def)
next
  case (2 st tds sc S m ds h0 ret n rows h h' B h0')
  then show ?case by (rule lists_result_frame)
next
  case 3
  then show ?case by (rule lists_result_keeps)
qed

section \<open>Errors\<close>

text \<open>
  C28: A query that is not run. When the text is longer than 1023 characters \<open>_select\<close> returns
  \<open>SORM_TOO_LONG\<close> without a call to SQLite; when SQLite does not accept it, \<open>SORM_DB_ERROR\<close>, and there is
  nothing to finalize. Either way the row count is \<open>0\<close>, no row pointer is set, and all memory taken on
  the way is given back. The text has no length limit below that: it is the \<open>SELECT\<close> with the columns,
  tables, join condition and filter of the arguments.
\<close>

theorem select_not_run:
  assumes "query_ready api al tds cols (hp w)" and "1 < length tds \<longrightarrow> join_str join \<noteq> None" and "filter_arg \<noteq> Some []"
    and "sql = select_sql tds cols names join filter_arg" and "no_nul sql"
    and "prepare_db api sql (db w) = (r, st, d1)" and "length sql \<le> 1023 \<longrightarrow> r \<noteq> SQLITE_OK"
  shows "\<exists>w' cs. i_select core api (Some conn) al (Some cols) (map Some tds) sel names join filter_arg (Some m) rows w
      = Some (if length sql \<le> 1023 then SORM_DB_ERROR else SORM_TOO_LONG, Some 0, rows, w') \<and>
    after_calls_mem w cs w' \<and> (if length sql \<le> 1023 then prepare_run sql r st cs else cs = [])"
proof -
  have q: "tds \<noteq> []" "cols \<noteq> []" using assms(1) by (auto simp: query_ready_def)
  from select_allocates [OF assms(1)] obtain p h1 ps h2 where
    m: "i_malloc None (sizeof_select_columns * length tds) (hp w) = Some (p, h1)" "malloc_indexes tds h1 = Some (SORM_OK, ps, h2)"
      "heap_ok h2" "distinct (p # ps)" and own: "\<forall>a \<in> set (p # ps). a \<noteq> 0 \<and> owns None h2 a" and
    b0: "\<And>a. blocks (hp w) a = (if a \<in> set (p # ps) then None else blocks h2 a)" by blast
  have ret: "\<exists>h'. select_return ps p e 0 rows w1 = Some (e, Some 0, rows, w1\<lparr>hp := h'\<rparr>) \<and> heap_ok h' \<and>
      blocks h' = blocks (hp w)" if e: "hp w1 = h2" "e \<noteq> SORM_OK" for e and w1 :: "'a world"
  proof -
    have "heap_ok (hp w1)" "\<forall>a \<in> set (p # ps). a \<noteq> 0 \<and> owns None (hp w1) a" using m(3) own e(1) by auto
    from select_return_ok [OF this(1) m(4) this(2), of e 0 rows] obtain h' where
      "select_return ps p e 0 rows w1 = Some (e, Some 0, rows, w1\<lparr>hp := h'\<rparr>)" "heap_ok h'"
      "\<forall>a. blocks h' a = (if a \<in> set (p # ps) then None else blocks (hp w1) a)" using e(2) by auto
    moreover from this(3) have "blocks h' = blocks (hp w)" using b0 e(1) by (intro ext) simp
    ultimately show ?thesis by blast
  qed
  note run = i_select_def q assms(3) m(1,2) own
  show ?thesis
  proof (cases "length sql \<le> 1023")
    case True
    obtain r' st' w1 where p: "i_sqlite3_prepare api sql (w\<lparr>hp := h2\<rparr>) = (r', st', w1)" by (metis prod_cases3)
    then have r: "r' = r" "st' = st" "r \<noteq> SQLITE_OK"
      using prepare_is_prepare_db [OF p] assms(6,7) True by auto
    from prepare_returns [OF p] obtain cs where
      w1: "hp w1 = h2" "sems w1 = sems w" "rwlocks w1 = rwlocks w" "calls w1 = calls w @ cs" "prepare_run sql r' st' cs" by auto
    obtain h' where h': "select_return ps p SORM_DB_ERROR 0 rows w1 = Some (SORM_DB_ERROR, Some 0, rows, w1\<lparr>hp := h'\<rparr>)"
      "heap_ok h'" "blocks h' = blocks (hp w)" using ret [OF w1(1), of SORM_DB_ERROR] by auto
    have tx: "select_text tds cols names join filter_arg = Some (SORM_OK, sql_at sql)"
      using select_text_eq [OF assms(2), of cols names filter_arg] assms(4) True by simp
    have "i_select core api (Some conn) al (Some cols) (map Some tds) sel names join filter_arg (Some m) rows w
        = Some (SORM_DB_ERROR, Some 0, rows, w1\<lparr>hp := h'\<rparr>)"
      using tx p r h'(1) by (simp add: run select_run_def cstr_sql_at [OF assms(5)])
    then show ?thesis using True w1 h'(2,3) r
      by (intro exI [of _ "w1\<lparr>hp := h'\<rparr>"] exI [of _ cs]) (simp add: after_calls_mem_def same_locks_def)
  next
    case False
    obtain h' where h': "select_return ps p SORM_TOO_LONG 0 rows (w\<lparr>hp := h2\<rparr>)
        = Some (SORM_TOO_LONG, Some 0, rows, w\<lparr>hp := h'\<rparr>)" "heap_ok h'" "blocks h' = blocks (hp w)"
      using ret [of "w\<lparr>hp := h2\<rparr>" SORM_TOO_LONG] by auto
    obtain b where tx: "select_text tds cols names join filter_arg = Some (SORM_TOO_LONG, b)"
      using select_text_eq [OF assms(2), of cols names filter_arg] assms(4) False by auto
    then have "i_select core api (Some conn) al (Some cols) (map Some tds) sel names join filter_arg (Some m) rows w
        = Some (SORM_TOO_LONG, Some 0, rows, w\<lparr>hp := h'\<rparr>)"
      using h'(1) by (simp add: run)
    then show ?thesis using False h'(2,3)
      by (intro exI [of _ "w\<lparr>hp := h'\<rparr>"] exI [of _ "[]"]) (simp add: after_calls_mem_def same_locks_def)
  qed
qed

theorem select_not_run_witness:
  "\<exists>w' cs. i_select i_select_all_list_core script_api (Some sem_conn) (Some arena) (Some ''*'') [Some demo_table] [True]
      ([], []) SORM_INNER_JOIN None (Some 0) [0] (start_world [1]) = Some (SORM_DB_ERROR, Some 0, [0], w') \<and>
    prepare_run ''SELECT * FROM device'' 1 1 cs"
proof -
  have cons: "columns_consistent script_api" by (simp add: columns_consistent_def script_api_def)
  have sp: "split_names ''*'' = [''*'']" by code_simp
  have rdy: "query_ready script_api (Some arena) [demo_table] ''*'' (hp (start_world [1]))"
    by (auto simp: query_ready_def arena_ok arena_lasts cons table_usable_def indexes_size_def sp
        start_world_def heap_ok_def blank_def no_nul_def) (simp_all add: demo_table_def)
  have sql: "''SELECT * FROM device'' = select_sql [demo_table] ''*'' ([], []) SORM_INNER_JOIN None"
    by (simp add: select_sql_def demo_table_def)
  have "prepare_db script_api ''SELECT * FROM device'' (db (start_world [1])) = (1, 1, [])"
    unfolding prepare_db_def by (subst busy_retry.simps) (simp add: script_api_def answer_def sqlite_codes start_world_def)
  from select_not_run [OF rdy _ _ sql _ this] show ?thesis by (fastforce simp: no_nul_def sqlite_codes)
qed

end
