(* ===== verification/Sorm_Query_List.thy ===== *)
theory Sorm_Query_List
  imports Sorm_Query
begin

text \<open>
  The functions that select rows into lists (\<^verbatim>\<open>src/src/sorm.c\<close>, \<open>sorm_select_all_list_by\<close>,
  \<open>sorm_select_some_list_by\<close> and the joins): what the caller gets.
\<close>

section \<open>The list of one table\<close>

text \<open>
  The list at \<open>p\<close> holds exactly the rows of the states \<open>ds\<close>, in order; all of it is memory of its own,
  \<open>foot\<close>.
\<close>

definition rows_listed ::
  "'db sqlite3_api \<Rightarrow> sorm_allocator_t option \<Rightarrow> stmt \<Rightarrow> sorm_table_descriptor_t \<Rightarrow> int list \<Rightarrow> heap \<Rightarrow> addr \<Rightarrow>
   'db list \<Rightarrow> addr set \<Rightarrow> bool" where
  "rows_listed api al st td xs h p ds foot \<longleftrightarrow> p \<noteq> 0 \<and> (\<exists>es. list_ok (pool_of al) h p es \<and> foot = set (list_foot p es) \<and>
     list_all2 (\<lambda>(q, dd, obj) d. desc obj = td \<and> row_holds api st xs d h obj) es ds)"

text \<open>The positions of the columns of table number \<open>t\<close> in a result with the columns \<open>R\<close>.\<close>

definition positions :: "(nat \<times> nat) list \<Rightarrow> nat \<Rightarrow> sorm_table_descriptor_t \<Rightarrow> int list \<Rightarrow> bool" where
  "positions R t td xs \<longleftrightarrow> length xs = length (columns td) \<and> (\<forall>c < length xs. position_ok R (t, c) (xs ! c))"

lemma positions_selection:
  "selection_ok tds R (sc, r) \<Longrightarrow> t < length tds \<Longrightarrow> positions R t (tds ! t) (indexes_in_result (sc ! t))"
  by (auto simp: positions_def selection_ok_def)

lemma rows_filled_all2:
  "rows_filled c ds \<Longrightarrow> (\<And>x d. (x, Some d) \<in> set c \<Longrightarrow> P x d) \<Longrightarrow> list_all2 P (map fst c) ds"
  by (induction c arbitrary: ds) (auto simp: rows_filled_def)

lemma list_holds_listed:
  assumes "list_holds api al st td xs h p c" and "rows_filled c ds"
  shows "rows_listed api al st td xs h p ds (rows_foot p c)"
  unfolding rows_listed_def rows_foot_def
proof (intro conjI exI [of _ "map fst c"])
  show "list_all2 (\<lambda>(q, dd, obj) d. desc obj = td \<and> row_holds api st xs d h obj) (map fst c) ds"
    by (rule rows_filled_all2 [OF assms(2)]) (use assms(1) in \<open>fastforce simp: list_holds_def\<close>)
qed (use assms(1) in \<open>auto simp: list_holds_def\<close>)

text \<open>The lists of all tables that are read.\<close>

lemma lists_given_listed:
  assumes "lists_given api al st tds sc S h0 h rows ds"
  shows "\<exists>foot. (\<forall>i \<in> S. rows_listed api al st (tds ! i) (indexes_in_result (sc ! i)) h (rows ! i) ds (foot i)) \<and>
    (\<forall>i \<in> S. \<forall>j \<in> S. i \<noteq> j \<longrightarrow> foot i \<inter> foot j = {}) \<and>
    (\<forall>a. blocks h0 a = (if \<exists>i \<in> S. a \<in> foot i then None else blocks h a))"
proof -
  from assms obtain cs where t: "lists.tables_ok api al st tds sc S h0 h rows cs" "\<forall>i \<in> S. rows_filled (cs i) ds"
    unfolding lists_given_def by blast
  have "rows_listed api al st (tds ! i) (indexes_in_result (sc ! i)) h (rows ! i) ds (rows_foot (rows ! i) (cs i))"
    if "i \<in> S" for i
    by (rule list_holds_listed) (use t that in \<open>auto simp: lists.tables_ok_def table_list_def\<close>)
  then show ?thesis using t(1) by (intro exI [of _ "\<lambda>i. rows_foot (rows ! i) (cs i)"]) (simp add: lists.tables_ok_def)
qed

lemma read_tables_iff:
  assumes "selection_ok tds R (sc, r)" and "i < length tds"
  shows "i \<in> read_tables sc sel \<longleftrightarrow> sel ! i \<and> (\<exists>c. (i, c) \<in> set R)"
proof -
  have "finite {c. (i, c) \<in> set R}" by (rule finite_subset [of _ "snd ` set R"]) force+
  then show ?thesis using assms by (auto simp: read_tables_def selection_ok_def card_gt_0_iff)
qed

lemma read_only_table:
  assumes "selection_ok [td] R (sc, r)" and "R \<noteq> []"
  shows "read_tables sc [True] = {0}"
proof -
  obtain t c where tc: "(t, c) \<in> set R" using assms(2) by (cases R) auto
  then have "t = 0" using assms(1) all_columns_iff [of t c "[td]"] by (auto simp: selection_ok_def)
  then show ?thesis
    using read_tables_iff [OF assms(1), of 0 "[True]"] tc assms(1) by (auto simp: read_tables_def selection_ok_def)
qed

text \<open>What is said of a query on one table, with the code \<open>ret0\<close> of its core and the answer \<open>f\<close> to \<open>sqlite3_finalize\<close>.\<close>

definition list_query ::
  "'db sqlite3_api \<Rightarrow> sorm_allocator_t option \<Rightarrow> stmt \<Rightarrow> sorm_table_descriptor_t \<Rightarrow> int list \<Rightarrow> 'db list \<Rightarrow> bool \<Rightarrow>
   'db world \<Rightarrow> sorm_error_t \<Rightarrow> int \<Rightarrow> addr \<Rightarrow> 'db world \<Rightarrow> bool" where
  "list_query api al st td xs ds ok w ret0 n p w' \<longleftrightarrow> (ret0 = SORM_OK \<longrightarrow> ok \<and> n = int (length ds)) \<and>
     (ok \<and> (\<forall>d \<in> set ds. row_fits api st td xs d) \<longrightarrow> ret0 = SORM_OK) \<and>
     (if ret0 = SORM_OK \<and> ds \<noteq> []
      then \<exists>foot. rows_listed api al st td xs (hp w') p ds foot \<and>
        (\<forall>a. blocks (hp w) a = (if a \<in> foot then None else blocks (hp w') a))
      else p = 0 \<and> objects_left (pool_of al) (hp w) (hp w') \<and> (ret0 = SORM_OK \<longrightarrow> blocks (hp w') = blocks (hp w)))"

lemma queried_list:
  assumes q: "queried (\<lambda>sc. lists_result api al st [td] sc (read_tables sc [True]) ds)
      (\<lambda>sc. rows_fit api st [td] sc (read_tables sc [True]) ds) [td] R sql st ok w ret0 f n rows w'" and R: "R \<noteq> []"
  shows "\<exists>xs ps es fs. positions R 0 td xs \<and> same_locks w w' \<and> calls w' = calls w @ ps @ es @ fs \<and>
    prepare_run sql SQLITE_OK st ps \<and> only_steps st es \<and> finalize_run st f fs \<and> heap_ok (hp w') \<and>
    list_query api al st td xs ds ok w ret0 n (rows ! 0) w'"
proof -
  from q obtain sc ps es fs where
    u: "selection_ok [td] R (sc, int (length R))" "same_locks w w'" "calls w' = calls w @ ps @ es @ fs"
      "prepare_run sql SQLITE_OK st ps" "only_steps st es" "finalize_run st f fs" "heap_ok (hp w')"
      "ret0 = SORM_OK \<longrightarrow> ok" "ok \<and> rows_fit api st [td] sc (read_tables sc [True]) ds \<longrightarrow> ret0 = SORM_OK"
      "lists_result api al st [td] sc (read_tables sc [True]) ds (hp w) ret0 n rows (hp w')"
    unfolding queried_def by blast
  have S: "read_tables sc [True] = {0}" by (rule read_only_table [OF u(1) R])
  let ?xs = "indexes_in_result (sc ! 0)"
  have fit: "rows_fit api st [td] sc (read_tables sc [True]) ds \<longleftrightarrow> (\<forall>d \<in> set ds. row_fits api st td ?xs d)"
    by (simp add: rows_fit_def S)
  have "list_query api al st td ?xs ds ok w ret0 n (rows ! 0) w'"
  proof (cases "ret0 = SORM_OK \<and> ds \<noteq> []")
    case True
    then have "lists_given api al st [td] sc {0} (hp w) (hp w') rows ds" using u(10) by (simp add: lists_result_def S)
    from lists_given_listed [OF this] obtain foot where
      "rows_listed api al st td ?xs (hp w') (rows ! 0) ds (foot 0)"
      "\<forall>a. blocks (hp w) a = (if a \<in> foot 0 then None else blocks (hp w') a)" by auto
    then show ?thesis using True u(8,10) unfolding list_query_def lists_result_def by auto
  next
    case False
    then have "rows ! 0 = 0" "objects_left (pool_of al) (hp w) (hp w')" "ret0 = SORM_OK \<longrightarrow> blocks (hp w') = blocks (hp w)"
      "ret0 = SORM_OK \<longrightarrow> n = int (length ds)" using u(10) by (auto simp: lists_result_def)
    with u(8) u(9) [unfolded fit] show ?thesis unfolding list_query_def if_not_P [OF False] by blast
  qed
  with u(2-7) positions_selection [OF u(1), of 0] show ?thesis
    by (intro exI [of _ ?xs] exI [of _ ps] exI [of _ es] exI [of _ fs]) simp
qed

section \<open>The lists of several tables\<close>

definition tables_read :: "sorm_table_descriptor_t list \<Rightarrow> bool list \<Rightarrow> (nat \<times> nat) list \<Rightarrow> nat set" where
  "tables_read tds sel R = {i. i < length tds \<and> sel ! i \<and> (\<exists>c. (i, c) \<in> set R)}"

text \<open>
  As \<open>list_query\<close>, for the tables that are asked for and have a column in the result: entry number \<open>k\<close>
  of each of their lists comes from row number \<open>k\<close> of the result.
\<close>

definition tables_query ::
  "'db sqlite3_api \<Rightarrow> sorm_allocator_t option \<Rightarrow> stmt \<Rightarrow> sorm_table_descriptor_t list \<Rightarrow> (nat \<Rightarrow> int list) \<Rightarrow> nat set \<Rightarrow>
   'db list \<Rightarrow> bool \<Rightarrow> 'db world \<Rightarrow> sorm_error_t \<Rightarrow> int \<Rightarrow> addr list \<Rightarrow> 'db world \<Rightarrow> bool" where
  "tables_query api al st tds xs S ds ok w ret0 n rows w' \<longleftrightarrow> length rows = length tds \<and>
     (ret0 = SORM_OK \<longrightarrow> ok \<and> n = int (length ds)) \<and>
     (ok \<and> (\<forall>d \<in> set ds. \<forall>i \<in> S. row_fits api st (tds ! i) (xs i) d) \<longrightarrow> ret0 = SORM_OK) \<and>
     (\<forall>i < length tds. i \<notin> S \<longrightarrow> rows ! i = 0) \<and>
     (if ret0 = SORM_OK \<and> ds \<noteq> []
      then \<exists>foot. (\<forall>i \<in> S. rows_listed api al st (tds ! i) (xs i) (hp w') (rows ! i) ds (foot i)) \<and>
        (\<forall>i \<in> S. \<forall>j \<in> S. i \<noteq> j \<longrightarrow> foot i \<inter> foot j = {}) \<and>
        (\<forall>a. blocks (hp w) a = (if \<exists>i \<in> S. a \<in> foot i then None else blocks (hp w') a))
      else (\<forall>i < length tds. rows ! i = 0) \<and> objects_left (pool_of al) (hp w) (hp w') \<and>
        (ret0 = SORM_OK \<longrightarrow> blocks (hp w') = blocks (hp w)))"

lemma queried_tables:
  assumes q: "queried (\<lambda>sc. lists_result api al st tds sc (read_tables sc sel) ds)
      (\<lambda>sc. rows_fit api st tds sc (read_tables sc sel) ds) tds R sql st ok w ret0 f n rows w'"
  shows "\<exists>xs ps es fs. (\<forall>i < length tds. positions R i (tds ! i) (xs i)) \<and> same_locks w w' \<and>
    calls w' = calls w @ ps @ es @ fs \<and> prepare_run sql SQLITE_OK st ps \<and> only_steps st es \<and> finalize_run st f fs \<and>
    heap_ok (hp w') \<and> tables_query api al st tds xs (tables_read tds sel R) ds ok w ret0 n rows w'"
proof -
  from q obtain sc ps es fs where
    u: "selection_ok tds R (sc, int (length R))" "same_locks w w'" "calls w' = calls w @ ps @ es @ fs"
      "prepare_run sql SQLITE_OK st ps" "only_steps st es" "finalize_run st f fs" "heap_ok (hp w')"
      "ret0 = SORM_OK \<longrightarrow> ok" "ok \<and> rows_fit api st tds sc (read_tables sc sel) ds \<longrightarrow> ret0 = SORM_OK"
      "lists_result api al st tds sc (read_tables sc sel) ds (hp w) ret0 n rows (hp w')"
    unfolding queried_def by blast
  let ?xs = "\<lambda>i. indexes_in_result (sc ! i)" and ?S = "tables_read tds sel R"
  have len: "length sc = length tds" using u(1) by (simp add: selection_ok_def)
  then have S: "read_tables sc sel = ?S"
    using read_tables_iff [OF u(1), of _ sel] by (auto simp: tables_read_def read_tables_def)
  have fit: "rows_fit api st tds sc (read_tables sc sel) ds \<longleftrightarrow> (\<forall>d \<in> set ds. \<forall>i \<in> ?S. row_fits api st (tds ! i) (?xs i) d)"
    unfolding S by (simp add: rows_fit_def)
  note res = u(10) [unfolded S]
  have len: "length rows = length tds" "ret0 = SORM_OK \<longrightarrow> n = int (length ds)" using res by (auto simp: lists_result_def)
  have "tables_query api al st tds ?xs ?S ds ok w ret0 n rows w'"
  proof (cases "ret0 = SORM_OK \<and> ds \<noteq> []")
    case True
    then have g: "lists_given api al st tds sc ?S (hp w) (hp w') rows ds" using res by (simp add: lists_result_def)
    then have "\<forall>i < length tds. i \<notin> ?S \<longrightarrow> rows ! i = 0" using len(1) by (simp add: lists_given_def)
    with lists_given_listed [OF g] u(8) u(9) [unfolded fit] len show ?thesis
      unfolding tables_query_def if_P [OF True] by blast
  next
    case False
    then have "\<forall>i < length tds. rows ! i = 0" "objects_left (pool_of al) (hp w) (hp w')"
      "ret0 = SORM_OK \<longrightarrow> blocks (hp w') = blocks (hp w)" using res by (auto simp: lists_result_def)
    with u(8) u(9) [unfolded fit] len show ?thesis unfolding tables_query_def if_not_P [OF False] by blast
  qed
  with u(2-7) positions_selection [OF u(1)] show ?thesis
    by (intro exI [of _ ?xs] exI [of _ ps] exI [of _ es] exI [of _ fs]) simp
qed

section \<open>Properties\<close>

text \<open>The code of a query: a failed \<open>sqlite3_finalize\<close> hides the code of the core, and no row is \<open>SORM_NOEXIST\<close>.\<close>

definition query_code :: "sorm_error_t \<Rightarrow> int \<Rightarrow> int \<Rightarrow> sorm_error_t" where
  "query_code ret0 f n = (if f \<noteq> SQLITE_OK then SORM_DB_ERROR else if ret0 = SORM_OK \<and> n = 0 then SORM_NOEXIST else ret0)"

lemma all_list_selected:
  assumes "query_ready api al [td] cols (hp w)" and "result_columns [td] cols = Some R" and "R \<noteq> []"
    and "transaction_num conn = 0 \<longrightarrow> lock_ready conn w" and "filter_arg \<noteq> Some []"
    and "sql = select_sql [td] cols ([], []) SORM_INNER_JOIN filter_arg" and "length sql \<le> 1023" and "no_nul sql"
    and "prepare_db api sql (db w) = (SQLITE_OK, st, d1)" and "st \<noteq> 0"
    and "fetch api st N d1 = (ds, r)" and "r \<noteq> SQLITE_ROW"
  shows "\<exists>ret0 f n p w' xs ps es fs.
    sorm_select_all_list_by api (Some conn) al (Some td) (Some cols) filter_arg (Some m) True w
      = Some (query_code ret0 f n, Some n, p, w') \<and> positions R 0 td xs \<and> same_locks w w' \<and>
    calls w' = calls w @ ps @ es @ fs \<and> prepare_run sql SQLITE_OK st ps \<and> only_steps st es \<and> finalize_run st f fs \<and>
    heap_ok (hp w') \<and> list_query api al st td xs ds (r = SQLITE_DONE) w ret0 n p w'"
proof -
  have "all_rows api st m d1 ds (r = SQLITE_DONE)" using assms(11,12) by (auto simp: all_rows_def)
  from all_list.select_ok [OF assms(1) _ assms(2,4) _ _ assms(5-10) this, of "[True]"]
  obtain ret0 f n rows w' where
    s: "i_select i_select_all_list_core api (Some conn) al (Some cols) [Some td] [True] ([], []) SORM_INNER_JOIN filter_arg
        (Some m) [0] w = Some (query_code ret0 f n, Some n, rows, w')"
      "queried (\<lambda>sc. lists_result api al st [td] sc (read_tables sc [True]) ds)
        (\<lambda>sc. rows_fit api st [td] sc (read_tables sc [True]) ds) [td] R sql st (r = SQLITE_DONE) w ret0 f n rows w'"
    by (auto simp: query_code_def)
  then show ?thesis using queried_list [OF s(2) assms(3)]
    by (fastforce simp: sorm_select_all_list_by_def select_by_def)
qed

text \<open>
  C1: Selecting all rows of a table into a list. For a usable table, a list of known columns, a query
  text that fits and an allocator that has memory: when SQLite accepts the query and its rows end,
  \<open>sorm_select_all_list_by\<close> returns. It prepares exactly the text \<open>SELECT columns FROM table WHERE
  filter\<close>, steps the statement and finalizes it, with the locks as before. When SQLite ended with
  \<open>SQLITE_DONE\<close> and every row can be stored, the core succeeds; then the list has exactly the rows of
  the result, in order, each column holding the value SQLite answered at its position, in memory
  that was not in use, and no other memory has changed. Without a row the pointer is \<open>NULL\<close>, the code
  \<open>SORM_NOEXIST\<close> and the memory as before; after an error the pointer is \<open>NULL\<close> and at most objects of
  rows are left.
\<close>

theorem select_all_list:
  assumes "query_ready api al [td] cols (hp w)" and "result_columns [td] cols = Some R" and "R \<noteq> []"
    and "transaction_num conn = 0 \<longrightarrow> lock_ready conn w" and "filter_arg \<noteq> Some []"
    and "sql = select_sql [td] cols ([], []) SORM_INNER_JOIN filter_arg" and "length sql \<le> 1023" and "no_nul sql"
    and "prepare_db api sql (db w) = (SQLITE_OK, st, d1)" and "st \<noteq> 0"
    and "fetch api st N d1 = (ds, r)" and "r \<noteq> SQLITE_ROW"
  shows "\<exists>ret0 f n p w' xs ps es fs.
    sorm_select_all_list_by api (Some conn) al (Some td) (Some cols) filter_arg (Some m) True w
      = Some (query_code ret0 f n, Some n, p, w') \<and> positions R 0 td xs \<and> same_locks w w' \<and>
    calls w' = calls w @ ps @ es @ fs \<and> prepare_run sql SQLITE_OK st ps \<and> only_steps st es \<and> finalize_run st f fs \<and>
    list_query api al st td xs ds (r = SQLITE_DONE) w ret0 n p w'"
  using all_list_selected [OF assms] by blast

text \<open>
  Selecting at most \<open>n\<close> rows into a list. As for all rows, with the first \<open>n\<close> rows of the result (all
  of them when there are fewer): \<open>sorm_select_some_list_by\<close> reads these and no more, also when SQLite
  has more rows or would never end.
\<close>

theorem select_some_list:
  assumes "query_ready api al [td] cols (hp w)" and "result_columns [td] cols = Some R" and "R \<noteq> []"
    and "transaction_num conn = 0 \<longrightarrow> lock_ready conn w" and "filter_arg \<noteq> Some []"
    and "sql = select_sql [td] cols ([], []) SORM_INNER_JOIN filter_arg" and "length sql \<le> 1023" and "no_nul sql"
    and "prepare_db api sql (db w) = (SQLITE_OK, st, d1)" and "st \<noteq> 0" and "fetch api st (nat m) d1 = (ds, r)"
  shows "\<exists>ret0 f n p w' xs ps es fs.
    sorm_select_some_list_by api (Some conn) al (Some td) (Some cols) filter_arg (Some m) True w
      = Some (query_code ret0 f n, Some n, p, w') \<and> positions R 0 td xs \<and> same_locks w w' \<and>
    calls w' = calls w @ ps @ es @ fs \<and> prepare_run sql SQLITE_OK st ps \<and> only_steps st es \<and> finalize_run st f fs \<and>
    length ds \<le> nat m \<and> list_query api al st td xs ds (r = SQLITE_DONE \<or> r = SQLITE_ROW) w ret0 n p w'"
proof -
  have "some_rows api st m d1 ds (r = SQLITE_DONE \<or> r = SQLITE_ROW)" using assms(11) by (auto simp: some_rows_def)
  from some_list.select_ok [OF assms(1) _ assms(2,4) _ _ assms(5-10) this, of "[True]"]
  obtain ret0 f n rows w' where
    s: "i_select i_select_some_list_core api (Some conn) al (Some cols) [Some td] [True] ([], []) SORM_INNER_JOIN filter_arg
        (Some m) [0] w = Some (query_code ret0 f n, Some n, rows, w')"
      "queried (\<lambda>sc. lists_result api al st [td] sc (read_tables sc [True]) ds)
        (\<lambda>sc. rows_fit api st [td] sc (read_tables sc [True]) ds) [td] R sql st (r = SQLITE_DONE \<or> r = SQLITE_ROW)
        w ret0 f n rows w'"
    by (auto simp: query_code_def)
  then show ?thesis using queried_list [OF s(2) assms(3)] fetch_length [OF assms(11)]
    by (fastforce simp: sorm_select_some_list_by_def select_by_def)
qed

text \<open>
  C9: Joins. On two tables \<open>sorm_select_all_list_by_join\<close> runs \<open>SELECT columns FROM table1 INNER JOIN (or
  LEFT JOIN) table2 ON column1=column2 WHERE filter\<close> and reads every row of the result into the lists of
  both tables: entry \<open>k\<close> of each list holds the table's columns of row \<open>k\<close>. A table that is not asked
  for, or none of whose columns is selected, has a \<open>NULL\<close> pointer; the lists share no memory.
\<close>

theorem select_all_list_join:
  assumes "query_ready api al [t1, t2] cols (hp w)" and "result_columns [t1, t2] cols = Some R"
    and "transaction_num conn = 0 \<longrightarrow> lock_ready conn w" and "join_str join \<noteq> None" and "filter_arg \<noteq> Some []"
    and "sql = select_sql [t1, t2] cols (c1, c2) join filter_arg" and "length sql \<le> 1023" and "no_nul sql"
    and "prepare_db api sql (db w) = (SQLITE_OK, st, d1)" and "st \<noteq> 0"
    and "fetch api st N d1 = (ds, r)" and "r \<noteq> SQLITE_ROW"
  shows "\<exists>ret0 f n p1 p2 w' xs ps es fs.
    sorm_select_all_list_by_join api (Some conn) al (Some cols) (Some t1) c1 (Some t2) c2 join filter_arg (Some m) b1 b2 w
      = Some (query_code ret0 f n, Some n, p1, p2, w') \<and>
    (\<forall>i < 2. positions R i ([t1, t2] ! i) (xs i)) \<and> same_locks w w' \<and>
    calls w' = calls w @ ps @ es @ fs \<and> prepare_run sql SQLITE_OK st ps \<and> only_steps st es \<and> finalize_run st f fs \<and>
    tables_query api al st [t1, t2] xs (tables_read [t1, t2] [b1, b2] R) ds (r = SQLITE_DONE) w ret0 n [p1, p2] w'"
proof -
  have rd: "all_rows api st m d1 ds (r = SQLITE_DONE)" using assms(11,12) by (auto simp: all_rows_def)
  have jn: "1 < length [t1, t2] \<longrightarrow> join_str join \<noteq> None" using assms(4) by simp
  from all_list.select_ok [OF assms(1) _ assms(2,3) _ jn assms(5-10) rd, of "[b1, b2]"]
  obtain ret0 f n rows w' where
    s: "i_select i_select_all_list_core api (Some conn) al (Some cols) [Some t1, Some t2] [b1, b2] (c1, c2) join filter_arg
        (Some m) [0, 0] w = Some (query_code ret0 f n, Some n, rows, w')"
      "queried (\<lambda>sc. lists_result api al st [t1, t2] sc (read_tables sc [b1, b2]) ds)
        (\<lambda>sc. rows_fit api st [t1, t2] sc (read_tables sc [b1, b2]) ds) [t1, t2] R sql st (r = SQLITE_DONE) w ret0 f n rows w'"
    by (auto simp: query_code_def numeral_2_eq_2)
  from queried_tables [OF s(2)] obtain xs ps es fs where
    t: "\<forall>i < 2. positions R i ([t1, t2] ! i) (xs i)" "same_locks w w'" "calls w' = calls w @ ps @ es @ fs"
      "prepare_run sql SQLITE_OK st ps" "only_steps st es" "finalize_run st f fs"
      "tables_query api al st [t1, t2] xs (tables_read [t1, t2] [b1, b2] R) ds (r = SQLITE_DONE) w ret0 n rows w'"
    by (auto simp: numeral_2_eq_2)
  then have "length rows = 2" and out: "\<forall>i < 2. i \<notin> tables_read [t1, t2] [b1, b2] R \<longrightarrow> rows ! i = 0"
    by (auto simp: tables_query_def numeral_2_eq_2)
  then have rows: "rows = [rows ! 0, rows ! 1]" by (auto simp: numeral_2_eq_2 length_Suc_conv)
  have "(if b1 then rows ! 0 else 0) = rows ! 0" "(if b2 then rows ! 1 else 0) = rows ! 1"
    using out by (auto simp: tables_read_def)
  then have "sorm_select_all_list_by_join api (Some conn) al (Some cols) (Some t1) c1 (Some t2) c2 join filter_arg (Some m) b1 b2 w
      = Some (query_code ret0 f n, Some n, rows ! 0, rows ! 1, w')"
    using s(1) by (simp add: sorm_select_all_list_by_join_def select_by_join_def)
  with t rows show ?thesis by metis
qed

section \<open>A concrete query\<close>

text \<open>Two rows of the table \<open>device\<close>, the state before the first row in front.\<close>

definition demo_rows :: "bind_value list list" where
  "demo_rows = [[], [Bind_int 5, Bind_text ''ab'', Bind_text ''left''], [Bind_int 6, Bind_text ''cd'', Bind_null]]"

lemma rows_step:
  "step_db rows_api st d = (if tl d = [] then SQLITE_DONE else SQLITE_ROW, tl d)"
  unfolding step_db_def by (subst busy_retry.simps) (simp add: step_call_db_def rows_api_def sqlite_codes)

lemma rows_prepare: "prepare_db rows_api sql d = (SQLITE_OK, 1, d)"
  unfolding prepare_db_def by (subst busy_retry.simps) (simp add: rows_api_def sqlite_codes)

lemma demo_fetch:
  "fetch rows_api 1 3 demo_rows = ([tl demo_rows, tl (tl demo_rows)], SQLITE_DONE)"
  "fetch rows_api 1 1 demo_rows = ([tl demo_rows], SQLITE_ROW)"
  by (simp_all add: numeral_3_eq_3 rows_step demo_rows_def sqlite_codes)

lemma demo_ready: "query_ready rows_api (Some arena) [demo_table] ''*'' (hp (start_world d))"
proof -
  have "split_names ''*'' = [''*'']" by code_simp
  then show ?thesis
    by (auto simp: query_ready_def arena_ok arena_lasts rows_api_consistent table_usable_def indexes_size_def
        start_world_def heap_ok_def blank_def no_nul_def) (simp_all add: demo_table_def)
qed

lemma demo_all_columns: "result_columns [demo_table] ''*'' = Some [(0, 0), (0, 1), (0, 2)]"
  by code_simp

lemma demo_fits:
  assumes "positions [(0, 0), (0, 1), (0, 2)] 0 demo_table xs" and "d = tl demo_rows \<or> d = tl (tl demo_rows)"
  shows "row_fits rows_api 1 demo_table xs d"
proof -
  have xs: "xs ! i = int i" if "i < 3" for i
  proof -
    have "position_ok [(0, 0), (0, 1), (0, 2)] (0, i) (xs ! i)" using assms(1) that by (simp add: positions_def)
    moreover have "(0, i) \<in> set [(0, 0), (0, 1), (0, 2)]" using that by auto
    ultimately obtain k where k: "k < 3" "xs ! i = int k" "[(0, 0), (0, 1), (0, 2)] ! k = (0 :: nat, i)"
      unfolding position_ok_def by auto
    then show ?thesis by (auto simp: less_Suc_eq numeral_3_eq_3)
  qed
  have ans: "column_answers rows_api 1 ri d (rows_value ri d)" for ri
    by (rule rows_api_answers [OF HOL.refl]) (use assms(2) in \<open>auto simp: rows_value_def demo_rows_def nth_Cons' split: list.splits\<close>)
  have "column_fits rows_api 1 (int i) d (columns demo_table ! i)" if "i < 3" for i
  proof (cases "rows_value (int i) d = Bind_null")
    case True
    then show ?thesis using ans [of "int i"] by (simp add: column_fits_def column_answers_def)
  next
    case False
    have "storable (columns demo_table ! i) (rows_value (int i) d)"
      using False that assms(2)
      by (auto simp: rows_value_def demo_rows_def less_Suc_eq numeral_3_eq_3 storable_def mem_legal_def too_long_def
          demo_column_def no_nul_def)
    then show ?thesis using ans [of "int i"] unfolding column_fits_def by blast
  qed
  then show ?thesis using xs by (simp add: row_fits_def numeral_3_eq_3)
qed

theorem select_all_list_witness:
  "\<exists>ret0 f n p w' xs ps es fs.
    sorm_select_all_list_by rows_api (Some sem_conn) (Some arena) (Some demo_table) (Some ''*'') None (Some 0) True
      (start_world demo_rows) = Some (query_code ret0 f n, Some n, p, w') \<and> ret0 = SORM_OK \<and> n = 2 \<and>
    calls w' = ps @ es @ fs \<and> prepare_run ''SELECT * FROM device'' SQLITE_OK 1 ps \<and>
    (\<exists>foot. rows_listed rows_api (Some arena) 1 demo_table xs (hp w') p [tl demo_rows, tl (tl demo_rows)] foot)"
proof -
  let ?w = "start_world demo_rows" and ?R = "[(0, 0), (0, 1), (0, 2)]"
  have sql: "''SELECT * FROM device'' = select_sql [demo_table] ''*'' ([], []) SORM_INNER_JOIN None"
    by (simp add: select_sql_def demo_table_def)
  have "prepare_db rows_api ''SELECT * FROM device'' (db ?w) = (SQLITE_OK, 1, demo_rows)"
    by (simp add: rows_prepare start_world_def)
  from select_all_list [OF demo_ready demo_all_columns _ _ _ sql _ _ this _ demo_fetch(1), where conn = sem_conn and m = 0]
  obtain ret0 f n p w' xs ps es fs where
    s: "sorm_select_all_list_by rows_api (Some sem_conn) (Some arena) (Some demo_table) (Some ''*'') None (Some 0) True ?w
        = Some (query_code ret0 f n, Some n, p, w')" "positions ?R 0 demo_table xs" "calls w' = ps @ es @ fs"
      "prepare_run ''SELECT * FROM device'' SQLITE_OK 1 ps"
      "list_query rows_api (Some arena) 1 demo_table xs [tl demo_rows, tl (tl demo_rows)] True ?w ret0 n p w'"
    by (auto simp: sqlite_codes no_nul_def)
  moreover have "\<forall>d \<in> set [tl demo_rows, tl (tl demo_rows)]. row_fits rows_api 1 demo_table xs d"
    using demo_fits [OF s(2)] by simp
  ultimately show ?thesis unfolding list_query_def by fastforce
qed

theorem select_some_list_witness:
  "\<exists>ret0 f n p w' xs. sorm_select_some_list_by rows_api (Some sem_conn) (Some arena) (Some demo_table) (Some ''*'') None
      (Some 1) True (start_world demo_rows) = Some (query_code ret0 f n, Some n, p, w') \<and> ret0 = SORM_OK \<and> n = 1 \<and>
    (\<exists>foot. rows_listed rows_api (Some arena) 1 demo_table xs (hp w') p [tl demo_rows] foot)"
proof -
  let ?w = "start_world demo_rows" and ?R = "[(0, 0), (0, 1), (0, 2)]"
  have sql: "''SELECT * FROM device'' = select_sql [demo_table] ''*'' ([], []) SORM_INNER_JOIN None"
    by (simp add: select_sql_def demo_table_def)
  have "prepare_db rows_api ''SELECT * FROM device'' (db ?w) = (SQLITE_OK, 1, demo_rows)"
    by (simp add: rows_prepare start_world_def)
  from select_some_list [OF demo_ready demo_all_columns _ _ _ sql _ _ this, where conn = sem_conn and m = 1 and r = SQLITE_ROW]
    demo_fetch(2)
  obtain ret0 f n p w' xs where
    s: "sorm_select_some_list_by rows_api (Some sem_conn) (Some arena) (Some demo_table) (Some ''*'') None (Some 1) True ?w
        = Some (query_code ret0 f n, Some n, p, w')" "positions ?R 0 demo_table xs"
      "list_query rows_api (Some arena) 1 demo_table xs [tl demo_rows] True ?w ret0 n p w'"
    by (auto simp: sqlite_codes no_nul_def)
  moreover have "\<forall>d \<in> set [tl demo_rows]. row_fits rows_api 1 demo_table xs d" using demo_fits [OF s(2)] by simp
  ultimately show ?thesis unfolding list_query_def by fastforce
qed

lemma join_fits:
  assumes "positions R i td xs" and "td = two_columns t a b" and "length R \<le> 4"
  shows "row_fits rows_api 1 td xs [[Bind_int 1, Bind_int 2, Bind_int 3, Bind_int 4]]"
  unfolding row_fits_def
proof (intro allI impI)
  let ?d = "[[Bind_int 1, Bind_int 2, Bind_int 3, Bind_int 4]]"
  fix c assume c: "c < length (columns td)" "xs ! c \<noteq> NO_INDEXES_IN_RESULT"
  then have "position_ok R (i, c) (xs ! c)" using assms(1) by (simp add: positions_def)
  then obtain k where k: "k < 4" "xs ! c = int k" using c(2) assms(3) by (auto simp: position_ok_def split: if_splits)
  then obtain v where v: "rows_value (int k) ?d = Bind_int v" by (auto simp: rows_value_def less_Suc_eq numeral_eq_Suc)
  have "column_answers rows_api 1 (int k) ?d (Bind_int v)" by (rule rows_api_answers [OF v]) simp
  moreover have "storable (columns td ! c) (Bind_int v)"
    using c(1) unfolding assms(2) by (auto simp: two_columns_def storable_def mem_legal_def too_long_def less_Suc_eq)
  ultimately show "column_fits rows_api 1 (xs ! c) ?d (columns td ! c)" unfolding column_fits_def k(2) by blast
qed

theorem select_all_list_join_witness:
  "\<exists>ret0 f n p1 p2 w' xs ps. sorm_select_all_list_by_join rows_api (Some sem_conn) (Some arena) (Some ''*'')
      (Some (two_columns ''t'' ''a'' ''b'')) ''t.a'' (Some (two_columns ''u'' ''c'' ''d'')) ''u.c'' SORM_LEFT_JOIN None (Some 0)
      True True (start_world [[], [Bind_int 1, Bind_int 2, Bind_int 3, Bind_int 4]])
      = Some (query_code ret0 f n, Some n, p1, p2, w') \<and> ret0 = SORM_OK \<and> n = 1 \<and>
    prepare_run ''SELECT * FROM t LEFT JOIN u ON t.a=u.c'' SQLITE_OK 1 ps \<and>
    (\<exists>foot. rows_listed rows_api (Some arena) 1 (two_columns ''u'' ''c'' ''d'') xs (hp w') p2
       [[[Bind_int 1, Bind_int 2, Bind_int 3, Bind_int 4]]] foot)"
proof -
  let ?d = "[[Bind_int 1, Bind_int 2, Bind_int 3, Bind_int 4]]"
  let ?w = "start_world ([] # ?d)" and ?R = "[(0, 0), (0, 1), (1, 0), (1, 1)]"
  let ?t = "two_columns ''t'' ''a'' ''b''" and ?u = "two_columns ''u'' ''c'' ''d''"
  have sp: "split_names ''*'' = [''*'']" by code_simp
  have rdy: "query_ready rows_api (Some arena) [?t, ?u] ''*'' (hp ?w)"
    by (auto simp: query_ready_def arena_ok arena_lasts rows_api_consistent table_usable_def indexes_size_def sp
        start_world_def heap_ok_def blank_def no_nul_def) (simp_all add: two_columns_def wf_table_def wf_column_def SORM_NO_PK_def)
  have R: "result_columns [?t, ?u] ''*'' = Some ?R" by code_simp
  have sql: "''SELECT * FROM t LEFT JOIN u ON t.a=u.c'' = select_sql [?t, ?u] ''*'' (''t.a'', ''u.c'') SORM_LEFT_JOIN None"
    by (simp add: select_sql_def two_columns_def join_str_def)
  have pr: "prepare_db rows_api ''SELECT * FROM t LEFT JOIN u ON t.a=u.c'' (db ?w) = (SQLITE_OK, 1, [] # ?d)"
    by (simp add: rows_prepare start_world_def)
  have f: "fetch rows_api 1 2 ([] # ?d) = ([?d], SQLITE_DONE)" by (simp add: numeral_2_eq_2 rows_step sqlite_codes)
  have S: "tables_read [?t, ?u] [True, True] ?R = {0, 1}"
    by (auto simp: tables_read_def less_Suc_eq)
  from select_all_list_join [OF rdy R _ _ _ sql _ _ pr _ f, where conn = sem_conn and m = 0 and ?b1.0 = True and ?b2.0 = True]
  obtain ret0 f n p1 p2 w' xs ps where
    s: "sorm_select_all_list_by_join rows_api (Some sem_conn) (Some arena) (Some ''*'') (Some ?t) ''t.a'' (Some ?u) ''u.c''
        SORM_LEFT_JOIN None (Some 0) True True ?w = Some (query_code ret0 f n, Some n, p1, p2, w')"
      "\<forall>i < 2. positions ?R i ([?t, ?u] ! i) (xs i)" "prepare_run ''SELECT * FROM t LEFT JOIN u ON t.a=u.c'' SQLITE_OK 1 ps"
      "tables_query rows_api (Some arena) 1 [?t, ?u] xs {0, 1} [?d] True ?w ret0 n [p1, p2] w'"
    unfolding S by (auto simp: sqlite_codes no_nul_def join_str_def)
  have "row_fits rows_api 1 ?t (xs 0) ?d" "row_fits rows_api 1 ?u (xs 1) ?d"
    using join_fits [OF s(2) [rule_format, of 0]] join_fits [OF s(2) [rule_format, of 1]] by simp_all
  then have ok: "ret0 = SORM_OK" using s(4) by (auto simp: tables_query_def)
  then have "n = 1" "\<exists>foot. rows_listed rows_api (Some arena) 1 ?u (xs 1) (hp w') p2 [?d] foot"
    using s(4) by (auto simp: tables_query_def)
  with ok s(1,3) show ?thesis by blast
qed

end
