(* ===== verification/Sorm_Array.thy ===== *)
theory Sorm_Array
  imports Sorm_Query_List
begin

text \<open>
  Rows in arrays (\<^verbatim>\<open>src/src/sorm.c\<close>): \<open>sorm_free_array\<close>, the array core of \<open>_select\<close> as the second instance of
  \<open>row_container\<close> and of \<open>query_core\<close>, and the move of a list into an array.
\<close>

section \<open>Arrays of objects\<close>

text \<open>An array the caller holds: every object keeps its invariant, and no two own the same memory.\<close>

definition apart :: "sorm_object list \<Rightarrow> bool" where
  "apart os \<longleftrightarrow> (\<forall>i < length os. \<forall>j < length os. i \<noteq> j \<longrightarrow> owned (os ! i) \<inter> owned (os ! j) = {})"

definition array_foot :: "addr \<Rightarrow> sorm_object list \<Rightarrow> addr set" where
  "array_foot p os = insert p (\<Union>obj \<in> set os. owned obj)"

definition array_ok :: "nat option \<Rightarrow> heap \<Rightarrow> addr \<Rightarrow> sorm_object list \<Rightarrow> bool" where
  "array_ok pool h p os \<longleftrightarrow> p \<noteq> 0 \<and> owns pool h p \<and> load h p = Some (C_objects os) \<and> apart os \<and>
     (\<forall>obj \<in> set os. object_ok pool h obj \<and> p \<notin> owned obj)"

lemma array_ok_frame:
  assumes "array_ok pool h p os" and "\<And>a. a \<in> array_foot p os \<Longrightarrow> blocks h' a = blocks h a"
  shows "array_ok pool h' p os"
proof -
  have "object_ok pool h' obj" if "obj \<in> set os" for obj
  proof -
    have "blocks h' a = blocks h a" if "a \<in> owned obj" for a
      by (rule assms(2)) (use \<open>obj \<in> set os\<close> that in \<open>auto simp: array_foot_def\<close>)
    then show ?thesis using assms(1) that by (simp add: array_ok_def object_ok_def)
  qed
  then show ?thesis using assms by (auto simp: array_ok_def array_foot_def owns_def load_def)
qed

lemma array_ok_owns: "array_ok pool h p os \<Longrightarrow> a \<in> array_foot p os \<Longrightarrow> owns pool h a"
  by (auto simp: array_ok_def array_foot_def object_ok_def owns_def)

lemma free_objects_frees:
  assumes al: "allocator_ok al" and ap: "apart os" and "heap_ok h" and "load h p = Some (C_objects os)"
    and "distinct js" and "set js \<subseteq> {..< length os}"
    and "\<And>i. i \<in> set js \<Longrightarrow> object_ok (pool_of al) h (os ! i) \<and> p \<notin> owned (os ! i)"
  shows "\<exists>h'. free_objects al p js h = Some h' \<and> heap_ok h' \<and>
    blocks h' = (\<lambda>a. if \<exists>i \<in> set js. a \<in> owned (os ! i) then None else blocks h a)"
  using assms(3-)
proof (induction js arbitrary: h)
  case (Cons i js)
  have i: "i < length os" using Cons.prems(4) by simp
  from sorm_free_owned [OF al] Cons.prems(1,5) obtain h1 where
    h1: "sorm_free al (Some (os ! i)) h = Some h1" "heap_ok h1"
      "blocks h1 = (\<lambda>a. if a \<in> owned (os ! i) then None else blocks h a)" by fastforce
  have ld: "load h1 p = Some (C_objects os)" using Cons.prems(2) Cons.prems(5) [of i] h1(3) by (simp add: load_def)
  have "object_ok (pool_of al) h1 (os ! j) \<and> p \<notin> owned (os ! j)" if "j \<in> set js" for j
  proof -
    have "owned (os ! i) \<inter> owned (os ! j) = {}" using ap i that Cons.prems(3,4) by (auto simp: apart_def)
    then show ?thesis using Cons.prems(5) [of j] that h1(3) by (auto simp: object_ok_def)
  qed
  from Cons.IH [OF h1(2) ld _ _ this] Cons.prems(3,4) obtain h' where
    "free_objects al p js h1 = Some h'" "heap_ok h'"
    "blocks h' = (\<lambda>a. if \<exists>i \<in> set js. a \<in> owned (os ! i) then None else blocks h1 a)" by auto
  then show ?case using h1 i Cons.prems(2) by (intro exI [of _ h']) (auto simp: fun_eq_iff)
qed simp

text \<open>\<open>sorm_free_array\<close> takes back the array and all that its objects own.\<close>

lemma sorm_free_array_frees:
  assumes al: "allocator_ok al" and h: "heap_ok h" and ok: "array_ok (pool_of al) h p os" and n: "n \<le> length os"
    and rest: "\<And>obj. obj \<in> set (drop n os) \<Longrightarrow> owned obj = {}"
  shows "\<exists>h'. sorm_free_array al p (int n) h = Some h' \<and> heap_ok h' \<and>
    blocks h' = (\<lambda>a. if a \<in> array_foot p os then None else blocks h a)"
proof -
  have o: "p \<noteq> 0" "owns (pool_of al) h p" "load h p = Some (C_objects os)" "apart os"
    "\<And>obj. obj \<in> set os \<Longrightarrow> object_ok (pool_of al) h obj \<and> p \<notin> owned obj" using ok by (auto simp: array_ok_def)
  have sub: "set [0..<n] \<subseteq> {..< length os}" using n by auto
  from free_objects_frees [OF al o(4) h o(3) _ sub] o(5) n obtain h1 where
    h1: "free_objects al p [0..<n] h = Some h1" "heap_ok h1"
      "blocks h1 = (\<lambda>a. if \<exists>i \<in> set [0..<n]. a \<in> owned (os ! i) then None else blocks h a)" by auto
  have "owns (pool_of al) h1 p" using o(2,5) h1(3) n by (auto simp: owns_def)
  from free_block [OF al h1(2) this] obtain h2 where
    h2: "i_free al p h1 = Some h2" "heap_ok h2" "blocks h2 = (blocks h1)(p := None)" by auto
  have "(\<Union>obj \<in> set os. owned obj) = (\<Union>i \<in> set [0..<n]. owned (os ! i))" (is "?l = ?r")
  proof
    show "?l \<subseteq> ?r"
    proof
      fix a assume "a \<in> ?l"
      then obtain i where i: "i < length os" "a \<in> owned (os ! i)" by (auto simp: in_set_conv_nth)
      have "i < n"
      proof (rule ccontr)
        assume "\<not> i < n"
        then have "os ! i \<in> set (drop n os)" using i(1) nth_mem [of "i - n" "drop n os"] by simp
        then show False using rest i(2) by blast
      qed
      then show "a \<in> ?r" using i(2) by auto
    qed
    show "?r \<subseteq> ?l" using n by force
  qed
  then have "blocks h2 = (\<lambda>a. if a \<in> array_foot p os then None else blocks h a)"
    using h2(3) h1(3) by (auto simp: fun_eq_iff array_foot_def)
  then show ?thesis using o(1) h1(1) h2 by (simp add: sorm_free_array_def)
qed

section \<open>Arrays keep rows\<close>

lemma sorm_new_array_returns:
  assumes "allocator_ok al" and "memory_lasts al" and "heap_ok h" and "0 < t_size td" and "t_size td < 2 ^ 31"
    and "0 < n" and "n < 2 ^ 31"
  shows "\<exists>p h'. sorm_new_array al (Some td) n h = Some (p, h') \<and> p \<noteq> 0 \<and> blocks h p = None \<and> heap_ok h' \<and>
    blocks h' = (blocks h)(p \<mapsto> \<lparr>owner = pool_of al, content = C_objects (replicate (nat n) (new_object td))\<rparr>)"
proof -
  let ?n = "size_t (int (t_size td) * n)"
  have "int (t_size td) * n < 2 ^ 31 * 2 ^ 31" using assms(4-7) by (intro mult_strict_mono) auto
  moreover have "(2 :: int) ^ 31 * 2 ^ 31 \<le> 2 ^ 64" by simp
  ultimately have "?n = nat (int (t_size td) * n)" using assms(4,6) by (intro size_t_nonneg) auto
  then have n: "0 < ?n" using assms(4,6) by simp
  obtain p h1 where p: "i_malloc al ?n h = Some (p, h1)" using memory_lasts_malloc [OF assms(2,3)] by blast
  from alloc_contract.mal_fresh [OF assms(1) [unfolded allocator_ok_def] assms(3) n p]
  have f: "p \<noteq> 0" "blocks h p = None" "heap_ok h1"
    "blocks h1 = (blocks h)(p \<mapsto> \<lparr>owner = pool_of al, content = C_raw ?n\<rparr>)" by auto
  let ?h = "store h1 p (C_objects (replicate (nat n) (new_object td)))"
  have "heap_ok ?h" using overwrites_ok [OF overwrites_store] f(3) by blast
  moreover have "blocks ?h = (blocks h)(p \<mapsto> \<lparr>owner = pool_of al, content = C_objects (replicate (nat n) (new_object td))\<rparr>)"
    using f(4) by (auto simp: store_def fun_eq_iff)
  ultimately show ?thesis using p f assms(6)
    by (simp add: sorm_new_array_def del: size_t_def)
qed

lemma array_ok_new:
  assumes "wf_table td" and "p \<noteq> 0" and "blocks h p = Some \<lparr>owner = pool, content = C_objects (replicate n (new_object td))\<rparr>"
  shows "array_ok pool h p (replicate n (new_object td))"
  using assms object_ok_new(1) [OF assms(1), of pool h] object_ok_new(2) [OF assms(1)]
  by (auto simp: array_ok_def apart_def owns_def load_def)

text \<open>
  The array of one table: the objects \<open>c\<close> read so far, with the database state of each row that was
  stored, and new objects after them.
\<close>

definition array_objects :: "sorm_table_descriptor_t \<Rightarrow> nat \<Rightarrow> (sorm_object \<times> 'db option) list \<Rightarrow> sorm_object list" where
  "array_objects td m c = map fst c @ replicate (m - length c) (new_object td)"

definition array_holds ::
  "'db sqlite3_api \<Rightarrow> sorm_allocator_t option \<Rightarrow> stmt \<Rightarrow> nat \<Rightarrow> sorm_table_descriptor_t \<Rightarrow> int list \<Rightarrow> heap \<Rightarrow> addr \<Rightarrow>
   (sorm_object \<times> 'db option) list \<Rightarrow> bool" where
  "array_holds api al st m td xs h p c \<longleftrightarrow> readable api al td xs \<and> st \<noteq> 0 \<and> length c \<le> m \<and>
     array_ok (pool_of al) h p (array_objects td m c) \<and>
     (\<forall>(obj, x) \<in> set c. desc obj = td \<and> (\<forall>d. x = Some d \<longrightarrow> row_holds api st xs d h obj))"

definition table_array ::
  "'db sqlite3_api \<Rightarrow> sorm_allocator_t option \<Rightarrow> stmt \<Rightarrow> nat \<Rightarrow> sorm_table_descriptor_t list \<Rightarrow> select_columns_t list \<Rightarrow>
   heap \<Rightarrow> nat \<Rightarrow> addr \<Rightarrow> (sorm_object \<times> 'db option) list \<Rightarrow> bool" where
  "table_array api al st m tds sc h i p c \<longleftrightarrow> i < length tds \<and> i < length sc \<and>
     array_holds api al st m (tds ! i) (indexes_in_result (sc ! i)) h p c"

definition objects_foot :: "addr \<Rightarrow> (sorm_object \<times> 'db option) list \<Rightarrow> addr set" where
  "objects_foot p c = array_foot p (map fst c)"

lemma array_foot_objects:
  "wf_table td \<Longrightarrow> array_foot p (array_objects td m c) = objects_foot p c"
  by (auto simp: array_foot_def objects_foot_def array_objects_def object_ok_new(2))

lemma array_holds_frame:
  assumes hold: "array_holds api al st m td xs h p c" and same: "\<And>a. a \<in> objects_foot p c \<Longrightarrow> blocks h' a = blocks h a"
  shows "array_holds api al st m td xs h' p c"
proof -
  have td: "wf_table td" using hold by (simp add: array_holds_def readable_def)
  have ok: "array_ok (pool_of al) h p (array_objects td m c)" using hold by (simp add: array_holds_def)
  have "array_ok (pool_of al) h' p (array_objects td m c)"
    by (rule array_ok_frame [OF ok]) (simp only: array_foot_objects [OF td] same)
  moreover have "row_holds api st xs d h' obj" if c: "(obj, Some d) \<in> set c" for obj d
  proof (rule row_holds_frame)
    have m: "obj \<in> set (array_objects td m c)" using c by (force simp: array_objects_def)
    then show "wf_object obj" using ok by (auto simp: array_ok_def object_ok_def)
    show "row_holds api st xs d h obj" using hold c by (auto simp: array_holds_def)
    show "blocks h' a = blocks h a" if "a \<in> owned obj" for a
      by (rule same) (use c that in \<open>force simp: objects_foot_def array_foot_def\<close>)
  qed
  ultimately show ?thesis using hold unfolding array_holds_def by fast
qed

text \<open>Filling the next object of an array.\<close>

lemma array_ok_filled:
  assumes ok: "array_ok pool h p os" and k: "k < length os" "owned (os ! k) = {}"
    and row: "row_ok pool h h1 obj" and wr: "overwrites {p} h1 h'" and ld: "load h' p = Some (C_objects (os[k := obj]))"
    and pn: "p \<notin> owned obj"
  shows "array_ok pool h' p (os[k := obj])"
proof -
  have b: "blocks h a = (if a \<in> owned obj then None else blocks h1 a)" for a using row by (simp add: row_ok_def)
  have apart': "owned obj \<inter> owned o' = {}" if "o' \<in> set os" for o'
  proof -
    have "blocks h a \<noteq> None" if "a \<in> owned o'" for a
      using ok that \<open>o' \<in> set os\<close> unfolding array_ok_def object_ok_def by fastforce
    then show ?thesis using b by (metis disjoint_iff)
  qed
  have ow: "owns pool h' a \<longleftrightarrow> owns pool h1 a" for a unfolding owns_def by (rule overwrites_owner [OF wr])
  have old: "owns pool h' a" if "owns pool h a" for a
    using that b [of a] ow [of a] by (cases "a \<in> owned obj") (auto simp: owns_def)
  have "object_ok pool h' o'" if "o' \<in> set os" for o'
    using ok old that unfolding array_ok_def object_ok_def owns_def by blast
  moreover have "object_ok pool h' obj" using row ow unfolding row_ok_def object_ok_def owns_def by blast
  ultimately have "\<forall>o' \<in> set (os[k := obj]). object_ok pool h' o' \<and> p \<notin> owned o'"
    using ok pn set_update_subset_insert [of os k obj] unfolding array_ok_def by blast
  moreover have "apart (os[k := obj])"
    unfolding apart_def
  proof (intro allI impI)
    fix i j assume ij: "i < length (os[k := obj])" "j < length (os[k := obj])" "i \<noteq> j"
    then have "owned (os ! i) \<inter> owned (os ! j) = {}" using ok by (simp add: array_ok_def apart_def)
    then show "owned (os[k := obj] ! i) \<inter> owned (os[k := obj] ! j) = {}"
      using ij apart' [of "os ! i"] apart' [of "os ! j"] by (cases "i = k"; cases "j = k") (auto simp: Int_commute)
  qed
  ultimately show ?thesis using ok old ld by (simp add: array_ok_def)
qed

lemma array_holds_add:
  assumes hold: "array_holds api al st m td xs h p c" and h: "heap_ok h" and k: "length c < m"
  shows "\<exists>ret h' obj. parse_row_at api al st xs d p (length c) h = Some (ret, h') \<and> heap_ok h' \<and>
    array_holds api al st m td xs h' p (c @ [(obj, if ret = SORM_OK then Some d else None)]) \<and>
    (row_fits api st td xs d \<longrightarrow> ret = SORM_OK) \<and> (\<forall>a \<in> owned obj. blocks h a = None) \<and>
    (\<forall>a. a \<notin> insert p (owned obj) \<longrightarrow> blocks h' a = blocks h a)"
proof -
  let ?os = "array_objects td m c" and ?k = "length c"
  have rd: "readable api al td xs" and st: "st \<noteq> 0" and ok: "array_ok (pool_of al) h p ?os" using hold by (auto simp: array_holds_def)
  have td: "wf_table td" using rd by (simp add: readable_def)
  have os: "load h p = Some (C_objects ?os)" "?k < length ?os" "?os ! ?k = new_object td"
    using ok k by (auto simp: array_ok_def array_objects_def nth_append)
  from parse_row_at_ok [OF rd st h os, of d] obtain ret obj h1 h' where
    f: "parse_row_at api al st xs d p ?k h = Some (ret, h')" "heap_ok h'" "desc obj = td"
      "row_ok (pool_of al) h h1 obj" "overwrites {p} h1 h'" "load h' p = Some (C_objects (?os[?k := obj]))" "p \<notin> owned obj"
      "ret = SORM_OK \<longrightarrow> row_holds api st xs d h' obj" "row_fits api st td xs d \<longrightarrow> ret = SORM_OK" by blast
  have b: "blocks h a = (if a \<in> owned obj then None else blocks h1 a)" for a using f(4) by (simp add: row_ok_def)
  have same: "blocks h' a = blocks h a" if "a \<notin> insert p (owned obj)" for a
    using that b [of a] f(5) by (simp add: overwrites_def)
  have upd: "?os[?k := obj] = array_objects td m (c @ [(obj, x)])" for x
    using k by (simp add: array_objects_def list_update_append Suc_diff_Suc [symmetric])
  have "array_ok (pool_of al) h' p (?os[?k := obj])"
    by (rule array_ok_filled [OF ok os(2) _ f(4-7)]) (simp add: os(3) object_ok_new(2) [OF td])
  moreover have "row_holds api st xs d' h' o'" if c: "(o', Some d') \<in> set c" for o' d'
  proof (rule row_holds_frame)
    have m: "o' \<in> set ?os" using c by (force simp: array_objects_def)
    show "wf_object o'" using ok m by (auto simp: array_ok_def object_ok_def)
    show "row_holds api st xs d' h o'" using hold c by (auto simp: array_holds_def)
    show "blocks h' a = blocks h a" if "a \<in> owned o'" for a
    proof (rule same)
      have "owns (pool_of al) h a" using ok m that unfolding array_ok_def object_ok_def owns_def by blast
      then show "a \<notin> insert p (owned obj)" using b [of a] ok m that by (auto simp: owns_def array_ok_def)
    qed
  qed
  ultimately have "array_holds api al st m td xs h' p (c @ [(obj, if ret = SORM_OK then Some d else None)])"
    using hold k f(3,8) unfolding upd [of "if ret = SORM_OK then Some d else None"] array_holds_def
    by (auto split: if_splits)
  moreover have "\<forall>a \<in> owned obj. blocks h a = None" using b by simp
  ultimately show ?thesis using f(1,2,9) same by blast
qed

interpretation arrays: row_container "table_array api al st m tds sc" objects_foot "fill_array api al st sc" rows_filled
  "\<lambda>i. row_fits api st (tds ! i) (indexes_in_result (sc ! i))" "\<lambda>k. k < m" for api al st m tds sc
proof (unfold_locales, goal_cases)
  case (1 h i p c h')
  then show ?case using array_holds_frame [of api al st m _ _ h p c h'] by (auto simp: table_array_def)
next
  case (2 h i p c a)
  let ?td = "tds ! i"
  have td: "wf_table ?td" and ok: "array_ok (pool_of al) h p (array_objects ?td m c)"
    using 2(1) by (auto simp: table_array_def array_holds_def readable_def)
  have "owns (pool_of al) h a" by (rule array_ok_owns [OF ok]) (simp only: array_foot_objects [OF td] 2(2))
  then show ?case by (auto simp: owns_def)
next
  case (3 h i p c ds d)
  let ?td = "tds ! i" and ?xs = "indexes_in_result (sc ! i)"
  have i: "i < length tds" "i < length sc" and hold: "array_holds api al st m ?td ?xs h p c"
    using 3(2) by (auto simp: table_array_def)
  have len: "length c = length ds" using 3(3) by (auto simp: rows_filled_def dest: map_eq_imp_length_eq)
  from array_holds_add [OF hold 3(1), of d] 3(4) len obtain ret h' obj where
    a: "parse_row_at api al st ?xs d p (length ds) h = Some (ret, h')" "heap_ok h'"
      "array_holds api al st m ?td ?xs h' p (c @ [(obj, if ret = SORM_OK then Some d else None)])"
      "row_fits api st ?td ?xs d \<longrightarrow> ret = SORM_OK" "\<forall>a \<in> owned obj. blocks h a = None"
      "\<forall>a. a \<notin> insert p (owned obj) \<longrightarrow> blocks h' a = blocks h a" by auto
  have foot: "objects_foot p (c @ [(obj, x)]) = objects_foot p c \<union> owned obj" for x
    by (auto simp: objects_foot_def array_foot_def)
  have "fill_array api al st sc (length ds) d i p h = Some (ret, h')"
    using a(1) i by (simp add: fill_array_def nth_opt_def)
  moreover have "\<forall>a. a \<notin> objects_foot p c \<union> owned obj \<longrightarrow> blocks h' a = blocks h a"
    using a(6) by (auto simp: objects_foot_def array_foot_def)
  ultimately show ?case using a(2-5) i 3(3) foot
    by (intro exI [of _ ret] exI [of _ h'] exI [of _ "c @ [(obj, if ret = SORM_OK then Some d else None)]"])
      (auto simp: table_array_def rows_filled_def)
qed

section \<open>The array core\<close>

definition new_array_of ::
  "sorm_allocator_t option \<Rightarrow> sorm_table_descriptor_t list \<Rightarrow> int \<Rightarrow> nat \<Rightarrow> heap \<Rightarrow> (addr \<times> heap) option" where
  "new_array_of al tds m i h = do { td \<leftarrow> nth_opt tds (int i); sorm_new_array al (Some td) m h }"

lemma new_arrays_make: "new_arrays al tds sel sc m is rows h = make_rows (new_array_of al tds m) sel sc is rows h"
proof (induction "is" arbitrary: rows h)
  case (Cons i js)
  show ?case
  proof (cases "table_selected sc sel i = Some True")
    case True
    then show ?thesis using Cons by (auto simp: new_array_of_def Let_def split: bind_splits)
  next
    case False
    then show ?thesis using Cons by (cases "table_selected sc sel i") auto
  qed
qed simp

lemma objects_foot_Nil [simp]: "objects_foot p [] = {p}"
  by (simp add: objects_foot_def array_foot_def)

lemma new_array_makes:
  assumes set: "core_setting api al tds sel sc" and st: "st \<noteq> 0" and i: "i < length tds" and m: "0 < m" "m < 2 ^ 31"
  shows "arrays.makes api al st (nat m) tds sc [] i (new_array_of al tds m i)"
  unfolding arrays.makes_def
proof (intro allI impI)
  fix h assume h: "heap_ok h"
  let ?td = "tds ! i" and ?xs = "indexes_in_result (sc ! i)"
  have rd: "readable api al ?td ?xs" using set i by (simp add: core_setting_def)
  then have r: "allocator_ok al" "memory_lasts al" "0 < t_size ?td" "t_size ?td < 2 ^ 31" "wf_table ?td"
    by (auto simp: readable_def)
  from sorm_new_array_returns [OF r(1,2) h r(3,4) m] obtain p h' where
    p: "sorm_new_array al (Some ?td) m h = Some (p, h')" "p \<noteq> 0" "blocks h p = None" "heap_ok h'"
      "blocks h' = (blocks h)(p \<mapsto> \<lparr>owner = pool_of al, content = C_objects (replicate (nat m) (new_object ?td))\<rparr>)" by blast
  have "array_ok (pool_of al) h' p (replicate (nat m) (new_object ?td))"
    by (rule array_ok_new [OF r(5) p(2)]) (simp add: p(5))
  then have "table_array api al st (nat m) tds sc h' i p []"
    using rd i set st by (simp add: table_array_def array_holds_def array_objects_def core_setting_def)
  then show "\<exists>p h'. new_array_of al tds m i h = Some (p, h') \<and> p \<noteq> 0 \<and> heap_ok h' \<and>
      table_array api al st (nat m) tds sc h' i p [] \<and> (\<forall>a \<in> objects_foot p []. blocks h a = None) \<and>
      (\<forall>a. a \<notin> objects_foot p [] \<longrightarrow> blocks h' a = blocks h a)"
    using p i by (intro exI [of _ p] exI [of _ h']) (simp add: new_array_of_def nth_opt_def)
qed

text \<open>All that may be left after an error is memory of column values: \<open>_free\<close> takes the arrays only.\<close>

definition values_left :: "nat option \<Rightarrow> heap \<Rightarrow> heap \<Rightarrow> bool" where
  "values_left pool h0 h \<longleftrightarrow> heap_ok h \<and> (\<forall>a. blocks h a = blocks h0 a \<or> blocks h0 a = None \<and> owns pool h a)"

lemma free_arrays_ok:
  assumes al: "allocator_ok al" and "heap_ok h" and "distinct (filter (\<lambda>p. p \<noteq> 0) ps)"
    and "\<And>p. p \<in> set ps \<Longrightarrow> p \<noteq> 0 \<Longrightarrow> owns (pool_of al) h p"
  shows "\<exists>h'. free_rows (i_free al) ps h = Some h' \<and> heap_ok h' \<and>
    blocks h' = (\<lambda>a. if a \<in> set ps - {0} then None else blocks h a)"
  using assms(2-)
proof (induction ps arbitrary: h)
  case (Cons p ps)
  show ?case
  proof (cases "p = 0")
    case True
    have "i_free al 0 h = Some h" using al alloc_contract.fre_null unfolding allocator_ok_def by blast
    with Cons True show ?thesis by auto
  next
    case False
    from free_block [OF al Cons.prems(1), of p] Cons.prems(3) False obtain h1 where
      h1: "i_free al p h = Some h1" "heap_ok h1" "blocks h1 = (blocks h)(p := None)" by auto
    have "owns (pool_of al) h1 q" if "q \<in> set ps" "q \<noteq> 0" for q
      using Cons.prems(2) Cons.prems(3) [of q] that False h1(3) by (auto simp: owns_def)
    from Cons.IH [OF h1(2) _ this] Cons.prems(2) False obtain h' where
      "free_rows (i_free al) ps h1 = Some h'" "heap_ok h'"
      "blocks h' = (\<lambda>a. if a \<in> set ps - {0} then None else blocks h1 a)" by auto
    then show ?thesis using h1 False by (intro exI [of _ h']) (auto simp: fun_eq_iff)
  qed
qed simp

text \<open>What the array core leaves, as \<open>lists_result\<close>.\<close>

definition arrays_given ::
  "'db sqlite3_api \<Rightarrow> sorm_allocator_t option \<Rightarrow> stmt \<Rightarrow> nat \<Rightarrow> sorm_table_descriptor_t list \<Rightarrow> select_columns_t list \<Rightarrow>
   nat set \<Rightarrow> heap \<Rightarrow> heap \<Rightarrow> addr list \<Rightarrow> 'db list \<Rightarrow> bool" where
  "arrays_given api al st m tds sc S h0 h rows ds \<longleftrightarrow>
     (\<exists>cs. arrays.tables_ok api al st m tds sc S h0 h rows cs \<and> (\<forall>i \<in> S. rows_filled (cs i) ds)) \<and>
     (\<forall>i < length rows. i \<notin> S \<longrightarrow> rows ! i = 0)"

definition arrays_result ::
  "'db sqlite3_api \<Rightarrow> sorm_allocator_t option \<Rightarrow> stmt \<Rightarrow> nat \<Rightarrow> sorm_table_descriptor_t list \<Rightarrow> select_columns_t list \<Rightarrow>
   nat set \<Rightarrow> 'db list \<Rightarrow> heap \<Rightarrow> sorm_error_t \<Rightarrow> int \<Rightarrow> addr list \<Rightarrow> heap \<Rightarrow> bool" where
  "arrays_result api al st m tds sc S ds h0 ret n rows h \<longleftrightarrow> length rows = length tds \<and>
     (ret = SORM_OK \<longrightarrow> n = int (length ds)) \<and>
     (if ret = SORM_OK \<and> n \<noteq> 0 then arrays_given api al st m tds sc S h0 h rows ds
      else rows = replicate (length tds) 0 \<and> values_left (pool_of al) h0 h \<and>
        (ret = SORM_OK \<longrightarrow> blocks h = blocks h0))"

lemma arrays_distinct:
  assumes t: "arrays.tables_ok api al st m tds sc S h0 h rows cs"
    and out: "\<And>i. i < length rows \<Longrightarrow> i \<notin> S \<Longrightarrow> rows ! i = 0"
  shows "distinct (filter (\<lambda>p. p \<noteq> 0) rows)"
proof -
  have in_foot: "rows ! i \<in> objects_foot (rows ! i) (cs i)" for i by (simp add: objects_foot_def array_foot_def)
  have ne: "rows ! i \<noteq> rows ! j" if "i < length rows" "j < length rows" "i \<noteq> j" "rows ! i \<noteq> 0" for i j
  proof
    assume e: "rows ! i = rows ! j"
    then have "i \<in> S" "j \<in> S" using out that by metis+
    then have "objects_foot (rows ! i) (cs i) \<inter> objects_foot (rows ! j) (cs j) = {}"
      using t that(3) unfolding arrays.tables_ok_def by blast
    then show False using in_foot [of i] in_foot [of j] e by auto
  qed
  have "distinct (filter (\<lambda>p. p \<noteq> 0) ps)" if "\<And>i j. i < length ps \<Longrightarrow> j < length ps \<Longrightarrow> i \<noteq> j \<Longrightarrow> ps ! i \<noteq> 0 \<Longrightarrow> ps ! i \<noteq> ps ! j"
    for ps :: "addr list" using that
  proof (induction ps)
    case (Cons p ps)
    have "p \<notin> set ps" if p: "p \<noteq> 0"
    proof
      assume "p \<in> set ps"
      then obtain j where "j < length ps" "ps ! j = p" by (auto simp: in_set_conv_nth)
      then show False using Cons.prems [of 0 "Suc j"] p by simp
    qed
    moreover have "distinct (filter (\<lambda>p. p \<noteq> 0) ps)"
      by (rule Cons.IH) (use Cons.prems [of "Suc _" "Suc _"] in auto)
    ultimately show ?case by auto
  qed simp
  then show ?thesis using ne by blast
qed

lemma core_return_arrays:
  assumes al: "allocator_ok al" and t: "arrays.tables_ok api al st m tds sc S h0 (hp w) rows cs"
    and out: "\<And>i. i < length rows \<Longrightarrow> i \<notin> S \<Longrightarrow> rows ! i = 0" and sub: "S \<subseteq> {..< length rows}"
    and len: "length rows = length tds" and fl: "ret = SORM_OK \<longrightarrow> n = int (length ds) \<and> (\<forall>i \<in> S. rows_filled (cs i) ds)"
  shows "\<exists>rows' h'. core_return (i_free al) ret n rows w = Some (ret, n, rows', w\<lparr>hp := h'\<rparr>) \<and> heap_ok h' \<and>
    arrays_result api al st m tds sc S ds h0 ret n rows' h'"
proof (cases "ret \<noteq> SORM_OK \<or> n = 0")
  case True
  let ?F = "\<lambda>i. objects_foot (rows ! i) (cs i)"
  have tok: "table_array api al st m tds sc (hp w) i (rows ! i) (cs i)" if "i \<in> S" for i
    using t that by (simp add: arrays.tables_ok_def)
  have ow: "owns (pool_of al) (hp w) a" if "i \<in> S" "a \<in> ?F i" for i a
  proof -
    have td: "wf_table (tds ! i)" and ok: "array_ok (pool_of al) (hp w) (rows ! i) (array_objects (tds ! i) m (cs i))"
      using tok [OF that(1)] by (auto simp: table_array_def array_holds_def readable_def)
    show ?thesis by (rule array_ok_owns [OF ok]) (simp only: array_foot_objects [OF td] that(2))
  qed
  have rows: "p \<in> set rows \<and> p \<noteq> 0 \<longleftrightarrow> (\<exists>i \<in> S. p = rows ! i)" for p
  proof -
    have "rows ! i \<noteq> 0" if "i \<in> S" for i using tok [OF that] by (simp add: table_array_def array_holds_def array_ok_def)
    then show ?thesis using out sub by (force simp: in_set_conv_nth)
  qed
  have hok: "heap_ok (hp w)" using t by (simp add: arrays.tables_ok_def)
  have "owns (pool_of al) (hp w) p" if "p \<in> set rows" "p \<noteq> 0" for p
    using rows that ow by (metis objects_foot_def array_foot_def insertI1)
  from free_arrays_ok [OF al hok arrays_distinct [OF t out] this] obtain h' where
    h': "free_rows (i_free al) rows (hp w) = Some h'" "heap_ok h'"
      "blocks h' = (\<lambda>a. if a \<in> set rows - {0} then None else blocks (hp w) a)" by auto
  have b0: "blocks h0 a = (if \<exists>i \<in> S. a \<in> ?F i then None else blocks (hp w) a)" for a
    using t by (simp add: arrays.tables_ok_def)
  have "values_left (pool_of al) h0 h'" unfolding values_left_def
  proof (intro conjI h'(2) allI)
    fix a
    show "blocks h' a = blocks h0 a \<or> blocks h0 a = None \<and> owns (pool_of al) h' a"
    proof (cases "\<exists>i \<in> S. a \<in> ?F i")
      case True
      then have n: "blocks h0 a = None" unfolding b0 by (rule if_P)
      show ?thesis
      proof (cases "a \<in> set rows - {0}")
        case True
        then show ?thesis using n h'(3) by simp
      next
        case other: False
        then show ?thesis using n h'(3) ow True by (auto simp: owns_def)
      qed
    next
      case False
      then have "a \<notin> set rows - {0}" using rows by (auto simp: objects_foot_def array_foot_def)
      then have "blocks h' a = blocks (hp w) a" unfolding h'(3) by (rule if_not_P)
      moreover have "blocks h0 a = blocks (hp w) a" unfolding b0 using False by (rule if_not_P)
      ultimately show ?thesis by (intro disjI1) simp
    qed
  qed
  moreover have "blocks h' = blocks h0" if "ret = SORM_OK"
  proof -
    have "cs i = []" if "i \<in> S" for i using True fl \<open>ret = SORM_OK\<close> that by (simp add: rows_filled_def)
    then have "a \<in> set rows - {0} \<longleftrightarrow> (\<exists>i \<in> S. a \<in> ?F i)" for a
      using rows [of a] by (auto simp: objects_foot_def array_foot_def)
    then show ?thesis unfolding h'(3) using b0 by (intro ext) simp
  qed
  ultimately show ?thesis using True len fl h'(1,2)
    by (auto simp: core_return_def arrays_result_def)
next
  case False
  then have "arrays_result api al st m tds sc S ds h0 ret n rows (hp w)" "heap_ok (hp w)"
    using t fl out len by (auto simp: arrays_result_def arrays_given_def arrays.tables_ok_def)
  then show ?thesis using False by (intro exI [of _ rows] exI [of _ "hp w"]) (simp add: core_return_def)
qed

lemma some_array_core_ok:
  assumes st: "st \<noteq> 0" and set: "core_setting api al tds sel sc" and h: "heap_ok (hp w)"
    and rdy: "transaction_num conn = 0 \<longrightarrow> lock_ready conn w" and m: "0 \<le> m" "m < 2 ^ 31"
    and f: "fetch api st (nat m) (db w) = (ds, r)"
  shows "core_run (arrays_result api al st (nat m) tds sc (read_tables sc sel) ds) st (r = SQLITE_DONE \<or> r = SQLITE_ROW)
    (rows_fit api st tds sc (read_tables sc sel) ds) w
    (i_select_some_array_core api conn al st tds sel sc m 0 (replicate (length tds) 0) w)"
proof (cases "m = 0")
  case True
  then have "ds = []" "r = SQLITE_ROW" using f by auto
  then show ?thesis using True st h unfolding core_run_def
    by (intro exI [of _ SORM_OK] exI [of _ 0] exI [of _ "replicate (length tds) 0"] exI [of _ w] exI [of _ "[]"])
      (simp add: i_select_some_array_core_def arrays_result_def values_left_def)
next
  case False
  have pos: "0 < m" using False m(1) by simp
  have len: "length sel = length tds" "length sc = length tds" and al: "allocator_ok al"
    using set by (auto simp: core_setting_def)
  have lr: "length (replicate (length tds) (0 :: addr)) = length tds" by simp
  show ?thesis unfolding core_bodies(1) [OF st False lr] new_arrays_make [abs_def]
  proof (rule arrays.core_body_ok [where ds = ds, OF len h new_array_makes [OF set st _ pos m(2)]], goal_cases)
    case (2 rows h1)
    let ?w = "w\<lparr>hp := h1\<rparr>"
    have body: "\<And>k d h. fill_arrays api al st (length tds) sel sc rows k d h
        = fill_rows (fill_array api al st sc k d) sel sc rows [0..<length rows] h"
      using 2(1) by (simp add: fill_arrays_def)
    have sel: "table_selected sc sel i = Some (i \<in> read_tables sc sel)" if "i < length rows" for i
      using table_selected_eq [of sel sc i] len 2(1) that by simp
    have sub: "read_tables sc sel \<subseteq> {..< length rows}" using len 2(1) by (auto simp: read_tables_def)
    have lim: "k < nat m" if "int k < m" for k using that by simp
    have t: "arrays.tables_ok api al st (nat m) tds sc (read_tables sc sel) (hp w) (hp ?w) rows (\<lambda>i. [])" using 2(2) by simp
    have fl0: "\<forall>i \<in> read_tables sc sel. rows_filled ((\<lambda>i. []) i) []" by (simp add: rows_filled_def)
    have rdy': "transaction_num conn = 0 \<longrightarrow> lock_ready conn ?w" using rdy by (simp add: lock_ready_def)
    have f': "fetch api st (nat (m - int (length []))) (db ?w) = (ds, r)" using f by simp
    from arrays.some_loop_ok [OF body sel sub lim t fl0 rdy' f', of SQLITE_DONE] pos
    show ?case by (fastforce simp: rows_fit_def)
  next
    case (3 ret n rows w1 cs)
    then show ?case using core_return_arrays [OF al 3(1) 3(3) _ 3(2) 3(4)] len by (auto simp: read_tables_def)
  qed simp
qed

lemma arrays_result_frame:
  assumes r: "arrays_result api al st m tds sc S ds h0 ret n rows h" and h': "heap_ok h'"
    and B: "\<And>a. a \<in> B \<Longrightarrow> blocks h0 a \<noteq> None"
    and b0: "\<And>a. blocks h0' a = (if a \<in> B then None else blocks h0 a)"
    and b: "\<And>a. blocks h' a = (if a \<in> B then None else blocks h a)"
  shows "arrays_result api al st m tds sc S ds h0' ret n rows h'"
proof -
  have "arrays_given api al st m tds sc S h0' h' rows ds" if "arrays_given api al st m tds sc S h0 h rows ds"
    using that arrays.tables_ok_drop [OF _ h' B b0 b] unfolding arrays_given_def by blast
  moreover have "values_left (pool_of al) h0' h'" if "values_left (pool_of al) h0 h"
    using that h' b0 b unfolding values_left_def owns_def by simp
  moreover have "blocks h' = blocks h0'" if "blocks h = blocks h0" using that b0 b by auto
  ultimately show ?thesis using r unfolding arrays_result_def by (cases "ret = SORM_OK \<and> n \<noteq> 0") auto
qed

lemma arrays_result_keeps:
  assumes "arrays_result api al st m tds sc S ds h0 ret n rows h" and "blocks h0 a \<noteq> None"
  shows "blocks h a = blocks h0 a"
proof (cases "ret = SORM_OK \<and> n \<noteq> 0")
  case True
  then show ?thesis using assms arrays.tables_ok_keeps [OF _ assms(2)]
    unfolding arrays_result_def arrays_given_def by auto
next
  case False
  then have "values_left (pool_of al) h0 h" using assms(1) by (simp only: arrays_result_def if_False)
  then show ?thesis using assms(2) unfolding values_left_def by metis
qed

interpretation some_array: query_core i_select_some_array_core api al "\<lambda>tds m. 0 \<le> m \<and> m < 2 ^ 31" "some_rows api"
  "\<lambda>st tds sc S m. arrays_result api al st (nat m) tds sc S" for api al
proof (unfold_locales, goal_cases)
  case (1 st tds sel sc w conn m ds ok)
  then show ?case using some_array_core_ok [OF 1(1-4)] by (auto simp: some_rows_def)
next
  case (2 st tds sc S m ds h0 ret n rows h h' B h0')
  then show ?case by (rule arrays_result_frame)
next
  case 3
  then show ?case by (rule arrays_result_keeps)
qed

section \<open>The array of one table\<close>

text \<open>
  The array at \<open>p\<close> holds exactly the rows of the states \<open>ds\<close>, in order, in its first objects; the objects
  after them, up to \<open>m\<close>, are new.
\<close>

definition rows_in_array ::
  "'db sqlite3_api \<Rightarrow> sorm_allocator_t option \<Rightarrow> stmt \<Rightarrow> sorm_table_descriptor_t \<Rightarrow> int list \<Rightarrow> heap \<Rightarrow> addr \<Rightarrow> nat \<Rightarrow>
   'db list \<Rightarrow> addr set \<Rightarrow> bool" where
  "rows_in_array api al st td xs h p m ds foot \<longleftrightarrow> (\<exists>os. foot = array_foot p os \<and>
     array_ok (pool_of al) h p (os @ replicate (m - length os) (new_object td)) \<and>
     list_all2 (\<lambda>obj d. desc obj = td \<and> row_holds api st xs d h obj) os ds)"

lemma rows_in_array_freed:
  assumes al: "allocator_ok al" and td: "wf_table td" and h: "heap_ok h" and r: "rows_in_array api al st td xs h p m ds foot"
    and b: "\<And>a. blocks h0 a = (if a \<in> foot then None else blocks h a)"
  shows "\<exists>h'. sorm_free_array al p (int (length ds)) h = Some h' \<and> heap_ok h' \<and> blocks h' = blocks h0"
proof -
  from r obtain os where os: "foot = array_foot p os" "array_ok (pool_of al) h p (os @ replicate (m - length os) (new_object td))"
    "length os = length ds" unfolding rows_in_array_def by (auto dest: list_all2_lengthD)
  let ?os = "os @ replicate (m - length os) (new_object td)"
  have "array_foot p ?os = foot" using os(1) object_ok_new(2) [OF td] by (auto simp: array_foot_def)
  moreover have "owned obj = {}" if "obj \<in> set (drop (length ds) ?os)" for obj
    using that os(3) object_ok_new(2) [OF td] by auto
  ultimately obtain h' where "sorm_free_array al p (int (length ds)) h = Some h'" "heap_ok h'"
    "blocks h' = (\<lambda>a. if a \<in> foot then None else blocks h a)"
    using sorm_free_array_frees [OF al h os(2), of "length ds"] os(3) by auto
  then show ?thesis using b by auto
qed

lemma array_holds_rows:
  assumes "array_holds api al st m td xs h p c" and "rows_filled c ds"
  shows "rows_in_array api al st td xs h p m ds (objects_foot p c)"
  unfolding rows_in_array_def objects_foot_def
proof (intro exI [of _ "map fst c"] conjI)
  show "list_all2 (\<lambda>obj d. desc obj = td \<and> row_holds api st xs d h obj) (map fst c) ds"
    by (rule rows_filled_all2 [OF assms(2)]) (use assms(1) in \<open>fastforce simp: array_holds_def\<close>)
qed (use assms(1) in \<open>auto simp: array_holds_def array_objects_def\<close>)

section \<open>A list moved into an array\<close>

lemma owned_apart:
  assumes "distinct (list_foot head es)" and "head \<noteq> 0" and "(q, dd, obj) \<in> set es" and "a \<in> owned obj"
  shows "a \<notin> insert head (set (map fst es) \<union> entry_data es)"
proof -
  have 1: "a \<notin> set (head # map fst es)" using list_foot_apart [OF assms(1-3)] assms(4) by blast
  have "a \<notin> entry_data es"
  proof
    assume "a \<in> entry_data es"
    then obtain q' obj' where e: "(q', a, obj') \<in> set es" by (auto simp: entry_data_def)
    obtain i j where ij: "i < length es" "es ! i = (q, dd, obj)" "j < length es" "es ! j = (q', a, obj')"
      using assms(3) e by (meson in_set_conv_nth)
    have d: "distinct (concat (map entry_foot es))" using assms(1,2) by (simp add: list_foot_def)
    have "distinct (entry_foot (q, dd, obj))" using d assms(3) by (induction es) auto
    then have "i \<noteq> j" using ij assms(4) by auto
    then show False using distinct_concat_nth [OF d, of i j] ij assms(4) by auto
  qed
  with 1 show ?thesis by simp
qed

lemma entries_apart:
  assumes "distinct (list_foot head es)" and "head \<noteq> 0"
  shows "apart (map (snd \<circ> snd) es)"
  unfolding apart_def
proof (intro allI impI)
  fix i j assume ij: "i < length (map (snd \<circ> snd) es)" "j < length (map (snd \<circ> snd) es)" "i \<noteq> j"
  have "distinct (concat (map entry_foot es))" using assms by (simp add: list_foot_def)
  from distinct_concat_nth [OF this, of i j] ij have "set (entry_foot (es ! i)) \<inter> set (entry_foot (es ! j)) = {}" by simp
  then show "owned (map (snd \<circ> snd) es ! i) \<inter> owned (map (snd \<circ> snd) es ! j) = {}"
    using ij by (cases "es ! i"; cases "es ! j") auto
qed

lemma list_foot_parts:
  assumes "head \<noteq> 0"
  shows "set (list_foot head es) = insert head (set (map fst es) \<union> entry_data es) \<union> (\<Union>obj \<in> set (map (snd \<circ> snd) es). owned obj)"
proof -
  have "set (concat (map entry_foot es)) = set (map fst es) \<union> entry_data es \<union> (\<Union>obj \<in> set (map (snd \<circ> snd) es). owned obj)"
  proof (induction es)
    case (Cons e es)
    then show ?case by (cases e) (auto simp: entry_data_def)
  qed (simp add: entry_data_def)
  then show ?thesis using assms by (simp add: list_foot_def)
qed

text \<open>
  What \<open>sorm_select_all_array_by\<close> and its join do with a list: the array gets the rows, with the memory
  they own, and the list is gone.
\<close>

lemma list_becomes_array:
  assumes al: "allocator_ok al" "memory_lasts al" and h: "heap_ok h"
    and td: "wf_table td" "0 < t_size td" "t_size td < 2 ^ 31" and n: "ds \<noteq> []" "length ds < 2 ^ 31"
    and l: "rows_listed api al st td xs h head ds foot0" and b0: "\<And>a. blocks h0 a = (if a \<in> foot0 then None else blocks h a)"
  shows "\<exists>p h1 h' foot. sorm_new_array al (Some td) (int (length ds)) h = Some (p, h1) \<and> p \<noteq> 0 \<and> head \<noteq> 0 \<and>
    i_list_cpy_free al head (int (length ds)) p h1 = Some h' \<and> heap_ok h' \<and>
    rows_in_array api al st td xs h' p (length ds) ds foot \<and> (\<forall>a. blocks h0 a = (if a \<in> foot then None else blocks h' a))"
proof -
  from l obtain es where es: "head \<noteq> 0" "list_ok (pool_of al) h head es" "foot0 = set (list_foot head es)"
    "list_all2 (\<lambda>(q, dd, obj) d. desc obj = td \<and> row_holds api st xs d h obj) es ds"
    unfolding rows_listed_def by blast
  have len: "length es = length ds" using es(4) by (rule list_all2_lengthD)
  have dis: "distinct (list_foot head es)" and own: "\<And>a. a \<in> foot0 \<Longrightarrow> owns (pool_of al) h a"
    and ent: "\<And>e. e \<in> set es \<Longrightarrow> entry_at (pool_of al) h e" using es by (auto simp: list_ok_def rows_at_def)
  have "0 < int (length ds)" "int (length ds) < 2 ^ 31" using n by auto
  from sorm_new_array_returns [OF al h td(2,3) this] obtain p h1 where
    p: "sorm_new_array al (Some td) (int (length ds)) h = Some (p, h1)" "p \<noteq> 0" "blocks h p = None" "heap_ok h1"
      "blocks h1 = (blocks h)(p \<mapsto> \<lparr>owner = pool_of al, content = C_objects (replicate (length ds) (new_object td))\<rparr>)" by auto
  have pf: "p \<notin> foot0" using own [of p] p(3) by (auto simp: owns_def)
  have ok1: "list_ok (pool_of al) h1 head es"
    by (rule list_ok_frame [THEN iffD2, OF _ es(2)]) (use pf p(5) es(3) in auto)
  have ld: "load h1 p = Some (C_objects (replicate (length ds) (new_object td)))" by (simp add: load_def p(5))
  have pf': "p \<notin> set (list_foot head es)" using pf es(3) by simp
  let ?os = "map (snd \<circ> snd) es" and ?D = "insert head (set (map fst es) \<union> entry_data es)"
  obtain h' where h': "i_list_cpy_free al head (int (length es)) p h1 = Some h'" "heap_ok h'"
      "load h' p = Some (C_objects ?os)" "map_option owner (blocks h' p) = map_option owner (blocks h1 p)"
      "\<And>a. a \<noteq> p \<Longrightarrow> blocks h' a = (if a \<in> ?D then None else blocks h1 a)"
    using list_cpy_free_moves [OF al(1) p(4) ok1 es(1) ld _ p(2) pf'] len by (auto simp: length_replicate)
  have keep: "blocks h' a = blocks h a" "a \<noteq> p" "a \<in> foot0" if e: "(q, dd, obj) \<in> set es" "a \<in> owned obj" for a q dd obj
  proof -
    show f: "a \<in> foot0" using list_foot_apart [OF dis es(1) e(1)] e(2) es(3) by blast
    then show ap: "a \<noteq> p" using pf by auto
    show "blocks h' a = blocks h a" using h'(5) [OF ap] owned_apart [OF dis es(1) e] p(5) ap by simp
  qed
  have "array_ok (pool_of al) h' p ?os" unfolding array_ok_def
  proof (intro conjI ballI)
    show "owns (pool_of al) h' p" using h'(4) p(5) by (auto simp: owns_def)
    show "apart ?os" by (rule entries_apart [OF dis es(1)])
    fix obj assume "obj \<in> set ?os"
    then obtain q dd where e: "(q, dd, obj) \<in> set es" by auto
    then have "object_ok (pool_of al) h obj" using ent [OF e] by (simp add: entry_at_def)
    then show "object_ok (pool_of al) h' obj" using keep(1) [OF e] by (simp add: object_ok_def)
    show "p \<notin> owned obj" using keep(2) [OF e] by blast
  qed (use p(2) h'(3) in simp_all)
  moreover have "list_all2 (\<lambda>obj d. desc obj = td \<and> row_holds api st xs d h' obj) ?os ds"
    unfolding list_all2_map1
  proof (rule list.rel_mono_strong [OF es(4)])
    fix e d assume e: "e \<in> set es" "d \<in> set ds" and r: "(\<lambda>(q, dd, obj) d. desc obj = td \<and> row_holds api st xs d h obj) e d"
    obtain q dd obj where x: "e = (q, dd, obj)" by (cases e)
    have "row_holds api st xs d h' obj"
      by (rule row_holds_frame [of obj api st xs d h])
        (use ent [OF e(1)] r keep(1) e(1) in \<open>auto simp: x entry_at_def object_ok_def\<close>)
    then show "desc ((snd \<circ> snd) e) = td \<and> row_holds api st xs d h' ((snd \<circ> snd) e)" using r by (simp add: x)
  qed
  moreover have "blocks h0 a = (if a \<in> array_foot p ?os then None else blocks h' a)" for a
  proof (cases "a \<in> array_foot p ?os")
    case True
    then consider "a = p" | q dd obj where "(q, dd, obj) \<in> set es" "a \<in> owned obj" by (auto simp: array_foot_def)
    then have "blocks h0 a = None" using b0 [of a] pf p(3) keep(3) by cases auto
    then show ?thesis using True by simp
  next
    case False
    then have ap: "a \<noteq> p" by (simp add: array_foot_def)
    have "a \<in> foot0 \<longleftrightarrow> a \<in> ?D"
    proof -
      have "foot0 = ?D \<union> (\<Union>obj \<in> set ?os. owned obj)"
        using list_foot_parts [OF es(1)] es(3) by simp
      then show ?thesis using False by (auto simp: array_foot_def)
    qed
    then show ?thesis using False b0 [of a] h'(5) [OF ap] p(5) ap by simp
  qed
  ultimately have "rows_in_array api al st td xs h' p (length ds) ds (array_foot p ?os) \<and>
      (\<forall>a. blocks h0 a = (if a \<in> array_foot p ?os then None else blocks h' a))"
    using len unfolding rows_in_array_def by (intro conjI allI exI [of _ ?os]) simp_all
  then show ?thesis using p(1,2) es(1) h'(1,2) len by auto
qed

end
