(* ===== verification/Sorm_Query_Array.thy ===== *)
theory Sorm_Query_Array
  imports Sorm_Array
begin

text \<open>
  The functions that select rows into arrays (\<^verbatim>\<open>src/src/sorm.c\<close>, \<open>sorm_select_some_array_by\<close>,
  \<open>sorm_select_all_array_by\<close>, \<open>sorm_select_one_by_column\<close>): what the caller gets, and that
  \<open>sorm_free_array\<close> gives it back.
\<close>

section \<open>What is said of a query into an array\<close>

text \<open>
  The rows lie in the array, in memory that was not in use, and \<open>sorm_free_array\<close> with the number of
  rows takes back exactly what the query took.
\<close>

definition array_taken ::
  "'db sqlite3_api \<Rightarrow> sorm_allocator_t option \<Rightarrow> stmt \<Rightarrow> sorm_table_descriptor_t \<Rightarrow> int list \<Rightarrow> nat \<Rightarrow> 'db list \<Rightarrow>
   heap \<Rightarrow> addr \<Rightarrow> heap \<Rightarrow> bool" where
  "array_taken api al st td xs m ds h0 p h \<longleftrightarrow> (\<exists>foot h'. rows_in_array api al st td xs h p m ds foot \<and>
     (\<forall>a. blocks h0 a = (if a \<in> foot then None else blocks h a)) \<and>
     sorm_free_array al p (int (length ds)) h = Some h' \<and> heap_ok h' \<and> blocks h' = blocks h0)"

lemma array_takenI:
  assumes "allocator_ok al" and "wf_table td" and "heap_ok h" and "rows_in_array api al st td xs h p m ds foot"
    and "\<And>a. blocks h0 a = (if a \<in> foot then None else blocks h a)"
  shows "array_taken api al st td xs m ds h0 p h"
  using rows_in_array_freed [OF assms] assms(4,5) unfolding array_taken_def by blast

definition array_query ::
  "'db sqlite3_api \<Rightarrow> sorm_allocator_t option \<Rightarrow> stmt \<Rightarrow> sorm_table_descriptor_t \<Rightarrow> int list \<Rightarrow> nat \<Rightarrow> 'db list \<Rightarrow> bool \<Rightarrow>
   'db world \<Rightarrow> sorm_error_t \<Rightarrow> int \<Rightarrow> addr \<Rightarrow> 'db world \<Rightarrow> bool" where
  "array_query api al st td xs m ds ok w ret0 n p w' \<longleftrightarrow> (ret0 = SORM_OK \<longrightarrow> ok \<and> n = int (length ds)) \<and>
     (ok \<and> (\<forall>d \<in> set ds. row_fits api st td xs d) \<longrightarrow> ret0 = SORM_OK) \<and>
     (if ret0 = SORM_OK \<and> ds \<noteq> [] then array_taken api al st td xs m ds (hp w) p (hp w')
      else p = 0 \<and> values_left (pool_of al) (hp w) (hp w') \<and> (ret0 = SORM_OK \<longrightarrow> blocks (hp w') = blocks (hp w)))"

lemma queried_array:
  assumes q: "queried (\<lambda>sc. arrays_result api al st m [td] sc (read_tables sc [True]) ds)
      (\<lambda>sc. rows_fit api st [td] sc (read_tables sc [True]) ds) [td] R sql st ok w ret0 f n rows w'" and R: "R \<noteq> []"
    and al: "allocator_ok al" and td: "wf_table td"
  shows "\<exists>xs ps es fs. positions R 0 td xs \<and> same_locks w w' \<and> calls w' = calls w @ ps @ es @ fs \<and>
    prepare_run sql SQLITE_OK st ps \<and> only_steps st es \<and> finalize_run st f fs \<and>
    array_query api al st td xs m ds ok w ret0 n (rows ! 0) w'"
proof -
  from q obtain sc ps es fs where
    u: "selection_ok [td] R (sc, int (length R))" "same_locks w w'" "calls w' = calls w @ ps @ es @ fs"
      "prepare_run sql SQLITE_OK st ps" "only_steps st es" "finalize_run st f fs" "heap_ok (hp w')"
      "ret0 = SORM_OK \<longrightarrow> ok" "ok \<and> rows_fit api st [td] sc (read_tables sc [True]) ds \<longrightarrow> ret0 = SORM_OK"
      "arrays_result api al st m [td] sc (read_tables sc [True]) ds (hp w) ret0 n rows (hp w')"
    unfolding queried_def by blast
  let ?xs = "indexes_in_result (sc ! 0)"
  have S: "read_tables sc [True] = {0}" by (rule read_only_table [OF u(1) R])
  have fit: "rows_fit api st [td] sc (read_tables sc [True]) ds \<longleftrightarrow> (\<forall>d \<in> set ds. row_fits api st td ?xs d)"
    by (simp add: rows_fit_def S)
  note res = u(10) [unfolded S arrays_result_def]
  have "array_query api al st td ?xs m ds ok w ret0 n (rows ! 0) w'"
  proof (cases "ret0 = SORM_OK \<and> ds \<noteq> []")
    case True
    then have "arrays_given api al st m [td] sc {0} (hp w) (hp w') rows ds" and n: "n = int (length ds)" using res by auto
    then obtain cs where t: "arrays.tables_ok api al st m [td] sc {0} (hp w) (hp w') rows cs" "rows_filled (cs 0) ds"
      unfolding arrays_given_def by blast
    have "array_taken api al st td ?xs m ds (hp w) (rows ! 0) (hp w')"
    proof (rule array_takenI [OF al td u(7)])
      show "rows_in_array api al st td ?xs (hp w') (rows ! 0) m ds (objects_foot (rows ! 0) (cs 0))"
        by (rule array_holds_rows [OF _ t(2)]) (use t(1) in \<open>simp add: arrays.tables_ok_def table_array_def\<close>)
      show "blocks (hp w) a = (if a \<in> objects_foot (rows ! 0) (cs 0) then None else blocks (hp w') a)" for a
        using t(1) by (simp add: arrays.tables_ok_def)
    qed
    then show ?thesis using u(8) True n unfolding array_query_def if_P [OF True] by blast
  next
    case False
    then have "rows ! 0 = 0" "values_left (pool_of al) (hp w) (hp w')" "ret0 = SORM_OK \<longrightarrow> blocks (hp w') = blocks (hp w)"
      "ret0 = SORM_OK \<longrightarrow> n = int (length ds)" using res by auto
    with u(8) u(9) [unfolded fit] show ?thesis unfolding array_query_def if_not_P [OF False] by blast
  qed
  with u(2-6) positions_selection [OF u(1), of 0] show ?thesis
    by (intro exI [of _ ?xs] exI [of _ ps] exI [of _ es] exI [of _ fs]) simp
qed

text \<open>The query text of one table.\<close>

lemma some_array_selected:
  assumes "query_ready api al [td] cols (hp w)" and "result_columns [td] cols = Some R" and "R \<noteq> []"
    and "transaction_num conn = 0 \<longrightarrow> lock_ready conn w" and "0 \<le> m" and "m < 2 ^ 31" and "filter_arg \<noteq> Some []"
    and "sql = select_sql [td] cols ([], []) SORM_INNER_JOIN filter_arg" and "length sql \<le> 1023" and "no_nul sql"
    and "prepare_db api sql (db w) = (SQLITE_OK, st, d1)" and "st \<noteq> 0" and "fetch api st (nat m) d1 = (ds, r)"
  shows "\<exists>ret0 f n p w' xs ps es fs.
    sorm_select_some_array_by api (Some conn) al (Some td) (Some cols) filter_arg (Some m) True w
      = Some (query_code ret0 f n, Some n, p, w') \<and> positions R 0 td xs \<and> same_locks w w' \<and>
    calls w' = calls w @ ps @ es @ fs \<and> prepare_run sql SQLITE_OK st ps \<and> only_steps st es \<and> finalize_run st f fs \<and>
    length ds \<le> nat m \<and> array_query api al st td xs (nat m) ds (r = SQLITE_DONE \<or> r = SQLITE_ROW) w ret0 n p w'"
proof -
  have "some_rows api st m d1 ds (r = SQLITE_DONE \<or> r = SQLITE_ROW)" using assms(13) by (auto simp: some_rows_def)
  from some_array.select_ok [OF assms(1) _ assms(2,4) _ _ assms(7-12) this, of "[True]"] assms(5,6)
  obtain ret0 f n rows w' where
    s: "i_select i_select_some_array_core api (Some conn) al (Some cols) [Some td] [True] ([], []) SORM_INNER_JOIN filter_arg
        (Some m) [0] w = Some (query_code ret0 f n, Some n, rows, w')"
      "queried (\<lambda>sc. arrays_result api al st (nat m) [td] sc (read_tables sc [True]) ds)
        (\<lambda>sc. rows_fit api st [td] sc (read_tables sc [True]) ds) [td] R sql st (r = SQLITE_DONE \<or> r = SQLITE_ROW)
        w ret0 f n rows w'"
    by (auto simp: query_code_def)
  have "allocator_ok al" "wf_table td" using assms(1) by (auto simp: query_ready_def table_usable_def)
  from queried_array [OF s(2) assms(3) this] fetch_length [OF assms(13)] s(1) show ?thesis
    by (fastforce simp: sorm_select_some_array_by_def select_by_def)
qed

section \<open>Properties\<close>

text \<open>
  C10: Selecting at most \<open>n\<close> rows into an array. \<open>sorm_select_some_array_by\<close> reads the first \<open>n\<close> rows of the
  result of \<open>SELECT columns FROM table WHERE filter\<close> into an array of \<open>n\<close> objects; the objects after the
  last row are new. On success the rows are exactly those SQLite gave, in order, and \<open>sorm_free_array\<close>
  with the number of rows gives back all the memory the query took. Without a row the code is
  \<open>SORM_NOEXIST\<close>, the pointer \<open>NULL\<close> and the memory as before; after an error the pointer is \<open>NULL\<close> and at
  most memory of column values is left.
\<close>

theorem select_some_array:
  assumes "query_ready api al [td] cols (hp w)" and "result_columns [td] cols = Some R" and "R \<noteq> []"
    and "transaction_num conn = 0 \<longrightarrow> lock_ready conn w" and "0 \<le> m" and "m < 2 ^ 31" and "filter_arg \<noteq> Some []"
    and "sql = select_sql [td] cols ([], []) SORM_INNER_JOIN filter_arg" and "length sql \<le> 1023" and "no_nul sql"
    and "prepare_db api sql (db w) = (SQLITE_OK, st, d1)" and "st \<noteq> 0" and "fetch api st (nat m) d1 = (ds, r)"
  shows "\<exists>ret0 f n p w' xs ps es fs.
    sorm_select_some_array_by api (Some conn) al (Some td) (Some cols) filter_arg (Some m) True w
      = Some (query_code ret0 f n, Some n, p, w') \<and> positions R 0 td xs \<and> same_locks w w' \<and>
    calls w' = calls w @ ps @ es @ fs \<and> prepare_run sql SQLITE_OK st ps \<and> only_steps st es \<and> finalize_run st f fs \<and>
    length ds \<le> nat m \<and> array_query api al st td xs (nat m) ds (r = SQLITE_DONE \<or> r = SQLITE_ROW) w ret0 n p w'"
  using some_array_selected [OF assms] .

text \<open>
  C11: Selecting all rows into an array. \<open>sorm_select_all_array_by\<close> reads the whole result through a
  list. When it returns \<open>SORM_OK\<close>, the array has exactly as many objects as the result has rows, with
  their values in order, the list is gone, and \<open>sorm_free_array\<close> gives back everything. Any other code
  comes with a \<open>NULL\<close> pointer. It returns \<open>SORM_OK\<close> when there are rows, all can be stored, and SQLite
  ends with \<open>SQLITE_DONE\<close> and finalizes the statement.
\<close>

theorem select_all_array:
  assumes "query_ready api al [td] cols (hp w)" and "result_columns [td] cols = Some R" and "R \<noteq> []"
    and "transaction_num conn = 0 \<longrightarrow> lock_ready conn w" and "filter_arg \<noteq> Some []"
    and "sql = select_sql [td] cols ([], []) SORM_INNER_JOIN filter_arg" and "length sql \<le> 1023" and "no_nul sql"
    and "prepare_db api sql (db w) = (SQLITE_OK, st, d1)" and "st \<noteq> 0"
    and "fetch api st N d1 = (ds, r)" and "r \<noteq> SQLITE_ROW" and "length ds < 2 ^ 31"
  shows "\<exists>ret0 f n p w' xs ps es fs.
    sorm_select_all_array_by api (Some conn) al (Some td) (Some cols) filter_arg (Some m) True w
      = Some (query_code ret0 f n, Some n, p, w') \<and> positions R 0 td xs \<and> same_locks w w' \<and>
    calls w' = calls w @ ps @ es @ fs \<and> prepare_run sql SQLITE_OK st ps \<and> only_steps st es \<and> finalize_run st f fs \<and>
    (ret0 = SORM_OK \<longrightarrow> r = SQLITE_DONE \<and> n = int (length ds)) \<and>
    (r = SQLITE_DONE \<and> (\<forall>d \<in> set ds. row_fits api st td xs d) \<longrightarrow> ret0 = SORM_OK) \<and>
    (if query_code ret0 f n = SORM_OK then array_taken api al st td xs (length ds) ds (hp w) p (hp w') else p = 0)"
proof -
  from all_list_selected [OF assms(1-12)] obtain ret0 f n head w1 xs ps es fs where
    s: "sorm_select_all_list_by api (Some conn) al (Some td) (Some cols) filter_arg (Some m) True w
        = Some (query_code ret0 f n, Some n, head, w1)" "positions R 0 td xs" "same_locks w w1"
      "calls w1 = calls w @ ps @ es @ fs" "prepare_run sql SQLITE_OK st ps" "only_steps st es" "finalize_run st f fs"
      "heap_ok (hp w1)" "list_query api al st td xs ds (r = SQLITE_DONE) w ret0 n head w1" by blast
  note l = s(9) [unfolded list_query_def]
  show ?thesis
  proof (cases "query_code ret0 f n = SORM_OK")
    case False
    then have "sorm_select_all_array_by api (Some conn) al (Some td) (Some cols) filter_arg (Some m) True w
        = Some (query_code ret0 f n, Some n, 0, w1)" using s(1) by (simp add: sorm_select_all_array_by_def)
    with s(2-7) l False show ?thesis by (metis (no_types, lifting))
  next
    case True
    then have ok: "ret0 = SORM_OK" "n \<noteq> 0" by (auto simp: query_code_def split: if_splits)
    then have n: "n = int (length ds)" "ds \<noteq> []" using l by auto
    obtain foot where g: "rows_listed api al st td xs (hp w1) head ds foot"
      "\<And>a. blocks (hp w) a = (if a \<in> foot then None else blocks (hp w1) a)" using l ok(1) n(2) by auto
    have q: "allocator_ok al" "memory_lasts al" "wf_table td" "0 < t_size td" "t_size td < 2 ^ 31"
      using assms(1) by (auto simp: query_ready_def table_usable_def)
    from list_becomes_array [OF q(1,2) s(8) q(3-5) n(2) assms(13) g] obtain p h1 h' foot' where
      a: "sorm_new_array al (Some td) (int (length ds)) (hp w1) = Some (p, h1)" "p \<noteq> 0" "head \<noteq> 0"
        "i_list_cpy_free al head (int (length ds)) p h1 = Some h'" "heap_ok h'"
        "rows_in_array api al st td xs h' p (length ds) ds foot'"
        "\<And>a. blocks (hp w) a = (if a \<in> foot' then None else blocks h' a)" by blast
    have "sorm_select_all_array_by api (Some conn) al (Some td) (Some cols) filter_arg (Some m) True w
        = Some (query_code ret0 f n, Some n, p, w1\<lparr>hp := h'\<rparr>)"
      using s(1) True a(1,2,4) n ok by (simp add: sorm_select_all_array_by_def)
    moreover have "array_taken api al st td xs (length ds) ds (hp w) p (hp (w1\<lparr>hp := h'\<rparr>))"
      using array_takenI [OF q(1,3) a(5,6,7)] by simp
    then have "if query_code ret0 f n = SORM_OK then array_taken api al st td xs (length ds) ds (hp w) p (hp (w1\<lparr>hp := h'\<rparr>)) else p = 0"
      unfolding if_P [OF True] .
    moreover have "same_locks w (w1\<lparr>hp := h'\<rparr>)" "calls (w1\<lparr>hp := h'\<rparr>) = calls w @ ps @ es @ fs"
      using s(3,4) by (simp_all add: same_locks_def)
    moreover have "ret0 = SORM_OK \<longrightarrow> r = SQLITE_DONE \<and> n = int (length ds)"
      "r = SQLITE_DONE \<and> (\<forall>d \<in> set ds. row_fits api st td xs d) \<longrightarrow> ret0 = SORM_OK" using l by blast+
    ultimately show ?thesis using s(2,5-7) by blast
  qed
qed

text \<open>
  C12: Looking up one row by the value of a column. With a text that does not start with a quote,
  \<open>sorm_select_one_by_column\<close> asks for the rows whose column equals a string literal that SQL reads back
  as exactly this text, whatever quotes it contains, and reads at most one row: on success the object
  at the pointer holds the first row of the result, and without a row the code is \<open>SORM_NOEXIST\<close> and the
  memory as before.
\<close>

theorem select_one_by_text:
  assumes "query_ready api al [td] cols (hp w)" and "result_columns [td] cols = Some R" and "R \<noteq> []"
    and "transaction_num conn = 0 \<longrightarrow> lock_ready conn w"
    and "i < length (columns td)" and "c_type (columns td ! i) = SORM_TYPE_TEXT"
    and "load_str (hp w) v = Some s" and "s = [] \<or> hd s \<noteq> quote"
    and "sql = ''SELECT '' @ cols @ '' FROM '' @ t_name td @ '' WHERE '' @ c_name (columns td ! i) @ '' = '' @ [quote] @ lit"
    and "lit = escape s @ [quote]" and "length sql \<le> 1023"
    and "prepare_db api sql (db w) = (SQLITE_OK, st, d1)" and "st \<noteq> 0" and "fetch api st 1 d1 = (ds, r)"
  shows "\<exists>ret0 f n p w' xs ps es fs.
    sorm_select_one_by_column api (Some conn) al (Some td) (Some cols) (int i) (Some (V_mem v)) True w
      = Some (query_code ret0 f n, p, w') \<and> positions R 0 td xs \<and> same_locks w w' \<and>
    calls w' = calls w @ ps @ es @ fs \<and> prepare_run sql SQLITE_OK st ps \<and> only_steps st es \<and> finalize_run st f fs \<and>
    sql_literal lit = Some (s, []) \<and> length ds \<le> 1 \<and>
    array_query api al st td xs 1 ds (r = SQLITE_DONE \<or> r = SQLITE_ROW) w ret0 n p w'"
proof -
  let ?f = "c_name (columns td ! i) @ '' = '' @ [quote] @ escape s @ [quote]"
  have td: "wf_table td" and cols: "no_nul cols" using assms(1) by (auto simp: query_ready_def table_usable_def)
  have sql: "sql = select_sql [td] cols ([], []) SORM_INNER_JOIN (Some ?f)" using assms(9,10) by (simp add: select_sql_def)
  have nf: "no_nul ?f" using td assms(5) wf_table_column [OF td assms(5)] load_str_no_nul [OF assms(7)] no_nul_escape
    by (auto simp: wf_column_def)
  have ns: "no_nul sql" using nf cols td assms(9,10) by (auto simp: wf_table_def)
  have lf: "length ?f \<le> 1023" using assms(9-11) by simp
  have flt: "i_construct_column_filter (hp w) (Some td) (int i) (Some (V_mem v)) = Some (SORM_OK, buf_str 1024 ?f)"
    using column_filter_text [OF td assms(5-8) lf] .
  have fetch: "fetch api st (nat 1) d1 = (ds, r)" using assms(14) by simp
  have m: "(0 :: int) \<le> 1" "(1 :: int) < 2 ^ 31" "Some ?f \<noteq> Some []" by simp_all
  from some_array_selected [OF assms(1-4) m sql assms(11) ns assms(12,13) fetch] obtain ret0 f n p w' xs ps es fs where
    s: "sorm_select_some_array_by api (Some conn) al (Some td) (Some cols) (Some ?f) (Some 1) True w
        = Some (query_code ret0 f n, Some n, p, w')" "positions R 0 td xs" "same_locks w w'"
      "calls w' = calls w @ ps @ es @ fs" "prepare_run sql SQLITE_OK st ps" "only_steps st es" "finalize_run st f fs"
      "length ds \<le> nat 1" "array_query api al st td xs (nat 1) ds (r = SQLITE_DONE \<or> r = SQLITE_ROW) w ret0 n p w'" by blast
  have "sorm_select_one_by_column api (Some conn) al (Some td) (Some cols) (int i) (Some (V_mem v)) True w
      = Some (query_code ret0 f n, p, w')"
    using flt s(1) cstr_buf_str [OF nf, of 1024] by (simp add: sorm_select_one_by_column_def)
  moreover have "sql_literal lit = Some (s, [])" using sql_literal_escape [of "[]" s] assms(10) by simp
  moreover have "nat 1 = 1" by simp
  ultimately show ?thesis using s(2-9) by metis
qed

section \<open>Concrete queries\<close>

lemma demo_sql: "''SELECT * FROM device'' = select_sql [demo_table] ''*'' ([], []) SORM_INNER_JOIN None"
  by (simp add: select_sql_def demo_table_def)

lemma demo_side:
  "[(0 :: nat, 0 :: nat), (0, 1), (0, 2)] \<noteq> []" "transaction_num sem_conn = 0 \<longrightarrow> lock_ready sem_conn (start_world d)"
  "None \<noteq> Some ([] :: string)" "length ''SELECT * FROM device'' \<le> 1023" "no_nul ''SELECT * FROM device''"
  "(1 :: stmt) \<noteq> 0" "SQLITE_DONE \<noteq> SQLITE_ROW"
  by (simp_all add: no_nul_def sqlite_codes)

lemma demo_prepare: "prepare_db rows_api sql (db (start_world d)) = (SQLITE_OK, 1, d)"
  by (simp add: rows_prepare start_world_def)

theorem select_some_array_witness:
  "\<exists>ret0 f n p w' xs. sorm_select_some_array_by rows_api (Some sem_conn) (Some arena) (Some demo_table) (Some ''*'') None
      (Some 1) True (start_world demo_rows) = Some (query_code ret0 f n, Some n, p, w') \<and> ret0 = SORM_OK \<and> n = 1 \<and>
    array_taken rows_api (Some arena) 1 demo_table xs (nat 1) [tl demo_rows] (hp (start_world demo_rows)) p (hp w')"
proof -
  let ?w = "start_world demo_rows" and ?R = "[(0, 0), (0, 1), (0, 2)]"
  have m: "(0 :: int) \<le> 1" "(1 :: int) < 2 ^ 31" "fetch rows_api 1 (nat 1) demo_rows = ([tl demo_rows], SQLITE_ROW)"
    using demo_fetch(2) by simp_all
  from select_some_array [OF demo_ready demo_all_columns demo_side(1,2) m(1,2) demo_side(3) demo_sql demo_side(4,5)
      demo_prepare demo_side(6) m(3)]
  obtain ret0 f n p w' xs where
    s: "sorm_select_some_array_by rows_api (Some sem_conn) (Some arena) (Some demo_table) (Some ''*'') None (Some 1) True ?w
        = Some (query_code ret0 f n, Some n, p, w')" "positions ?R 0 demo_table xs"
      "array_query rows_api (Some arena) 1 demo_table xs (nat 1) [tl demo_rows]
        (SQLITE_ROW = SQLITE_DONE \<or> SQLITE_ROW = SQLITE_ROW) ?w ret0 n p w'" by blast
  have "\<forall>d \<in> set [tl demo_rows]. row_fits rows_api 1 demo_table xs d" using demo_fits [OF s(2)] by simp
  then have "ret0 = SORM_OK" using s(3) unfolding array_query_def by blast
  with s(1,3) show ?thesis unfolding array_query_def by fastforce
qed

theorem select_all_array_witness:
  "\<exists>ret0 f n p w' xs. sorm_select_all_array_by rows_api (Some sem_conn) (Some arena) (Some demo_table) (Some ''*'') None
      (Some 0) True (start_world demo_rows) = Some (query_code ret0 f n, Some n, p, w') \<and> ret0 = SORM_OK \<and> n = 2 \<and>
    (f = SQLITE_OK \<longrightarrow> array_taken rows_api (Some arena) 1 demo_table xs 2 [tl demo_rows, tl (tl demo_rows)]
       (hp (start_world demo_rows)) p (hp w'))"
proof -
  let ?w = "start_world demo_rows" and ?R = "[(0, 0), (0, 1), (0, 2)]" and ?ds = "[tl demo_rows, tl (tl demo_rows)]"
  have len: "length ?ds < 2 ^ 31" by simp
  from select_all_array [OF demo_ready demo_all_columns demo_side(1-3) demo_sql demo_side(4,5) demo_prepare demo_side(6)
      demo_fetch(1) demo_side(7) len, of 0]
  obtain ret0 f n p w' xs where
    s: "sorm_select_all_array_by rows_api (Some sem_conn) (Some arena) (Some demo_table) (Some ''*'') None (Some 0) True ?w
        = Some (query_code ret0 f n, Some n, p, w')" "positions ?R 0 demo_table xs"
      "ret0 = SORM_OK \<longrightarrow> n = int (length ?ds)" "(\<forall>d \<in> set ?ds. row_fits rows_api 1 demo_table xs d) \<longrightarrow> ret0 = SORM_OK"
      "if query_code ret0 f n = SORM_OK then array_taken rows_api (Some arena) 1 demo_table xs (length ?ds) ?ds (hp ?w) p (hp w')
       else p = 0" by blast
  have "\<forall>d \<in> set ?ds. row_fits rows_api 1 demo_table xs d" using demo_fits [OF s(2)] by simp
  then have r: "ret0 = SORM_OK" "n = 2" using s(3,4) by auto
  have len2: "length ?ds = 2" by simp
  have "f = SQLITE_OK \<longrightarrow> array_taken rows_api (Some arena) 1 demo_table xs 2 ?ds (hp ?w) p (hp w')"
    using s(5) r unfolding query_code_def len2 by auto
  with r s(1) show ?thesis by blast
qed

theorem select_one_by_text_witness:
  "\<exists>ret0 f n p w' xs ps. sorm_select_one_by_column rows_api (Some sem_conn) (Some arena) (Some demo_table) (Some ''*'') 1
      (Some (V_mem 1)) True (text_world demo_rows ''it's'') = Some (query_code ret0 f n, p, w') \<and> ret0 = SORM_OK \<and>
    prepare_run (''SELECT * FROM device WHERE uuid = '' @ [quote] @ ''it'' @ [quote, quote] @ ''s'' @ [quote]) SQLITE_OK 1 ps \<and>
    array_taken rows_api (Some arena) 1 demo_table xs 1 [tl demo_rows] (hp (text_world demo_rows ''it's'')) p (hp w')"
proof -
  let ?w = "text_world demo_rows ''it's''" and ?R = "[(0, 0), (0, 1), (0, 2)]"
  let ?lit = "''it'' @ [quote, quote] @ ''s'' @ [quote]"
  let ?sql = "''SELECT * FROM device WHERE uuid = '' @ [quote] @ ?lit"
  have rdy: "query_ready rows_api (Some arena) [demo_table] ''*'' (hp ?w)"
    using demo_ready [of demo_rows] unfolding query_ready_def by (simp add: room_start text_world_def heap_ok_def)
  have sql: "?sql = ''SELECT '' @ ''*'' @ '' FROM '' @ t_name demo_table @ '' WHERE '' @ c_name (columns demo_table ! 1) @
      '' = '' @ [quote] @ ?lit" by (simp add: demo_table_def demo_column_def)
  have lit: "?lit = escape ''it's'' @ [quote]" by simp
  have load: "load_str (hp ?w) 1 = Some ''it's''" by (rule text_world_simps) simp
  have pr: "prepare_db rows_api ?sql (db ?w) = (SQLITE_OK, 1, demo_rows)"
    by (simp add: rows_prepare text_world_def start_world_def)
  have c: "1 < length (columns demo_table)" "c_type (columns demo_table ! 1) = SORM_TYPE_TEXT" by (simp_all add: demo_column_def)
  have side: "transaction_num sem_conn = 0 \<longrightarrow> lock_ready sem_conn ?w" "''it's'' = [] \<or> hd ''it's'' \<noteq> quote"
    "length ?sql \<le> 1023" by simp_all
  from select_one_by_text [OF rdy demo_all_columns demo_side(1) side(1) c load side(2) sql lit side(3) pr demo_side(6) demo_fetch(2)]
  obtain ret0 f n p w' xs ps where
    s: "sorm_select_one_by_column rows_api (Some sem_conn) (Some arena) (Some demo_table) (Some ''*'') (int 1) (Some (V_mem 1)) True ?w
        = Some (query_code ret0 f n, p, w')" "positions ?R 0 demo_table xs" "prepare_run ?sql SQLITE_OK 1 ps"
      "array_query rows_api (Some arena) 1 demo_table xs 1 [tl demo_rows]
        (SQLITE_ROW = SQLITE_DONE \<or> SQLITE_ROW = SQLITE_ROW) ?w ret0 n p w'" by blast
  have "\<forall>d \<in> set [tl demo_rows]. row_fits rows_api 1 demo_table xs d" using demo_fits [OF s(2)] by simp
  then have "ret0 = SORM_OK" using s(4) unfolding array_query_def by blast
  with s(1,3,4) show ?thesis unfolding array_query_def by fastforce
qed

end
