(* ===== verification/Sorm_Iterator.thy ===== *)
theory Sorm_Iterator
  imports Sorm_Query_Array
begin

text \<open>
  The iterator over the rows of a query (\<^verbatim>\<open>src/src/sorm.c\<close>, \<open>_select_iterate_open\<close>, \<open>_select_iterate\<close>,
  \<open>sorm_select_iterate_close\<close> and the functions that call them): opening, the state machine of the calls
  until the rows end, and closing, with the memory each of them takes and gives back.
\<close>

section \<open>The iterator\<close>

text \<open>
  \<open>sorm_iterator_t\<close>. The descriptors and positions the pointers lead to are values, with the addresses of
  their blocks beside them; \<open>it_ptr\<close> is the address of the iterator itself. The connection is not
  copied: it is an argument of the functions, as it may change while the iterator is open.
\<close>

record sorm_iterator_t =
  it_ptr :: addr
  has_more :: int
  it_tables_desc :: "sorm_table_descriptor_t list"
  it_tables_ptr :: addr
  it_select_columns :: "select_columns_t list"
  it_select_ptr :: addr
  it_index_ptrs :: "addr list"
  it_stmt_handle :: stmt
  it_allocator :: "sorm_allocator_t option"

definition sizeof_iterator :: nat where "sizeof_iterator = 48"

section \<open>Opening\<close>

text \<open>\<open>RETURN:\<close> of \<open>_select_iterate_open\<close>, which only an error reaches.\<close>

definition iterate_fail :: "addr list \<Rightarrow> addr \<Rightarrow> addr \<Rightarrow> heap \<Rightarrow> heap option" where
  "iterate_fail indexes select_columns iterator h =
     do { h \<leftarrow> (if select_columns \<noteq> 0
                then do { h \<leftarrow> free_rows (\<lambda>p h. if p \<noteq> 0 then i_free None p h else Some h) indexes h;
                          i_free None select_columns h }
                else Some h);
          i_free None iterator h }"

text \<open>
  The results: the code, what \<open>*iterator_p\<close> was set to (\<open>None\<close> when it was not set), and the iterator at
  that address when it is open.
\<close>

definition i_select_iterate_open ::
  "'db sqlite3_api \<Rightarrow> sorm_connection_t option \<Rightarrow> sorm_allocator_t option \<Rightarrow> string option \<Rightarrow>
   sorm_table_descriptor_t option list \<Rightarrow> addr \<Rightarrow> sorm_join_t \<Rightarrow> string option \<Rightarrow> string \<times> string \<Rightarrow> 'db world \<Rightarrow>
   (sorm_error_t \<times> addr option \<times> sorm_iterator_t option \<times> 'db world) option" where
  "i_select_iterate_open api conn allocator columns_name tables_desc tables_ptr join filter_arg tables_column_name w =
     (case (conn, columns_name) of
        (None, _) \<Rightarrow> Some (SORM_ARG_NULL, None, None, w)
      | (_, None) \<Rightarrow> Some (SORM_ARG_NULL, None, None, w)
      | (Some conn, Some columns_name) \<Rightarrow>
      if columns_name = [] then Some (SORM_COLUMNS_NAME_EMPTY, None, None, w)
      else if filter_arg = Some [] then Some (SORM_FILTER_EMPTY, None, None, w)
      else do {
        (p, h) \<leftarrow> i_malloc None sizeof_iterator (hp w);
        if p = 0 then Some (SORM_NOMEM, None, None, w\<lparr>hp := h\<rparr>)
        else do {
          let fail = (\<lambda>ret_val indexes select_columns w.
             do { h \<leftarrow> iterate_fail indexes select_columns p (hp w);
                  Some (ret_val, Some p, None, w\<lparr>hp := h\<rparr>) });
          (q, h) \<leftarrow> i_malloc None (sizeof_select_columns * length tables_desc) h;
          if q = 0 then fail SORM_NOMEM [] 0 (w\<lparr>hp := h\<rparr>)
          else do {
            tables_desc \<leftarrow> those tables_desc;
            (ret, ps, h) \<leftarrow> malloc_indexes tables_desc h;
            let w = w\<lparr>hp := h\<rparr>;
            if ret \<noteq> SORM_OK then fail ret ps q w
            else do {
              (ret, sql) \<leftarrow> select_text tables_desc columns_name tables_column_name join filter_arg;
              if ret \<noteq> SORM_OK then fail ret ps q w
              else do {
                (ret, sc, h) \<leftarrow> i_columns_name_to_select_columns tables_desc columns_name (hp w);
                let w = w\<lparr>hp := h\<rparr>;
                if ret \<noteq> SORM_OK then fail ret ps q w
                else let (ret, stmt_handle, w) = i_sqlite3_prepare api (cstr (fst sql)) w in
                  if ret \<noteq> SQLITE_OK then fail SORM_DB_ERROR ps q w
                  else Some (SORM_OK, Some p,
                    Some \<lparr>it_ptr = p, has_more = 0, it_tables_desc = tables_desc, it_tables_ptr = tables_ptr,
                          it_select_columns = sc, it_select_ptr = q, it_index_ptrs = ps,
                          it_stmt_handle = stmt_handle, it_allocator = allocator\<rparr>, w) } } } } })"

definition sorm_select_iterate_by_join_open ::
  "'db sqlite3_api \<Rightarrow> sorm_connection_t option \<Rightarrow> sorm_allocator_t option \<Rightarrow> string option \<Rightarrow>
   sorm_table_descriptor_t option \<Rightarrow> string \<Rightarrow> sorm_table_descriptor_t option \<Rightarrow> string \<Rightarrow> sorm_join_t \<Rightarrow> string option \<Rightarrow>
   'db world \<Rightarrow> (sorm_error_t \<times> addr option \<times> sorm_iterator_t option \<times> 'db world) option" where
  "sorm_select_iterate_by_join_open api conn allocator columns_name table1_desc table1_column_name table2_desc
     table2_column_name join filter_arg w =
     do { (tables_desc, h) \<leftarrow> i_malloc allocator 16 (hp w);
          if tables_desc = 0 then None
          else do {
            (tables_column_name, h) \<leftarrow> i_malloc allocator 16 h;
            if tables_column_name = 0 then None
            else do {
              (ret, ip, it, w) \<leftarrow> i_select_iterate_open api conn allocator columns_name [table1_desc, table2_desc]
                 tables_desc join filter_arg (table1_column_name, table2_column_name) (w\<lparr>hp := h\<rparr>);
              h \<leftarrow> (if ret \<noteq> SORM_OK then i_free allocator tables_desc (hp w) else Some (hp w));
              h \<leftarrow> i_free allocator tables_column_name h;
              Some (ret, ip, it, w\<lparr>hp := h\<rparr>) } } }"

definition sorm_select_iterate_by_open ::
  "'db sqlite3_api \<Rightarrow> sorm_connection_t option \<Rightarrow> sorm_allocator_t option \<Rightarrow> sorm_table_descriptor_t option \<Rightarrow>
   string option \<Rightarrow> string option \<Rightarrow> 'db world \<Rightarrow>
   (sorm_error_t \<times> addr option \<times> sorm_iterator_t option \<times> 'db world) option" where
  "sorm_select_iterate_by_open api conn allocator table_desc columns_name filter_arg w =
     do { (tables_desc, h) \<leftarrow> i_malloc allocator 8 (hp w);
          if tables_desc = 0 then None
          else do {
            (ret, ip, it, w) \<leftarrow> i_select_iterate_open api conn allocator columns_name [table_desc] tables_desc
               SORM_INNER_JOIN filter_arg ([], []) (w\<lparr>hp := h\<rparr>);
            h \<leftarrow> (if ret \<noteq> SORM_OK then i_free allocator tables_desc (hp w) else Some (hp w));
            Some (ret, ip, it, w\<lparr>hp := h\<rparr>) } }"

section \<open>Iterating\<close>

text \<open>The tables of one row: a new object for each table that is read.\<close>

fun iterate_row ::
  "'db sqlite3_api \<Rightarrow> sorm_allocator_t option \<Rightarrow> stmt \<Rightarrow> sorm_table_descriptor_t list \<Rightarrow> select_columns_t list \<Rightarrow>
   bool list \<Rightarrow> 'db \<Rightarrow> nat list \<Rightarrow> addr list \<Rightarrow> heap \<Rightarrow> (sorm_error_t \<times> addr list \<times> heap) option" where
  "iterate_row api allocator stmt_handle tables_desc sc sel d [] rows h = Some (SORM_OK, rows, h)"
| "iterate_row api allocator stmt_handle tables_desc sc sel d (i # is) rows h =
     do { b \<leftarrow> table_selected sc sel i;
          if b
          then do { td \<leftarrow> nth_opt tables_desc (int i);
                    x \<leftarrow> nth_opt sc (int i);
                    (p, h) \<leftarrow> sorm_new allocator (Some td) h;
                    if p = 0 then None
                    else do { (ret, h) \<leftarrow> parse_row_at api allocator stmt_handle (indexes_in_result x) d p 0 h;
                              if ret \<noteq> SORM_OK then Some (ret, rows[i := p], h)
                              else iterate_row api allocator stmt_handle tables_desc sc sel d is (rows[i := p]) h } }
          else iterate_row api allocator stmt_handle tables_desc sc sel d is rows h }"

text \<open>The step takes the write lock.\<close>

definition i_select_iterate ::
  "'db sqlite3_api \<Rightarrow> sorm_connection_t \<Rightarrow> sorm_iterator_t option \<Rightarrow> bool list \<Rightarrow> addr list \<Rightarrow> 'db world \<Rightarrow>
   (sorm_error_t \<times> sorm_iterator_t option \<times> addr list \<times> 'db world) option" where
  "i_select_iterate api conn iterator is_table_select row_of_tables w =
     (case iterator of
        None \<Rightarrow> Some (SORM_ARG_NULL, None, row_of_tables, w)
      | Some it \<Rightarrow>
          if nth_opt row_of_tables 0 \<noteq> Some 0 then None
          else do {
            let it = it\<lparr>has_more := 0\<rparr>;
            (step_ret, w) \<leftarrow> i_sqlite3_step api conn (it_stmt_handle it) SORM_RWLOCK_WRITE w;
            if step_ret = SQLITE_ROW
            then do {
              let it = it\<lparr>has_more := 1\<rparr>;
              (ret, rows, h) \<leftarrow> iterate_row api (it_allocator it) (it_stmt_handle it) (it_tables_desc it)
                 (it_select_columns it) is_table_select (db w) [0..<length (it_tables_desc it)] row_of_tables (hp w);
              Some (ret, Some it, rows, w\<lparr>hp := h\<rparr>) }
            else Some (if step_ret \<noteq> SQLITE_DONE then SORM_DB_ERROR else SORM_OK, Some it, row_of_tables, w) })"

text \<open>As for the queries, a pointer that receives a row is a \<open>bool\<close> among the arguments.\<close>

definition sorm_select_iterate_by_join ::
  "'db sqlite3_api \<Rightarrow> sorm_connection_t \<Rightarrow> sorm_iterator_t option \<Rightarrow> bool \<Rightarrow> bool \<Rightarrow> 'db world \<Rightarrow>
   (sorm_error_t \<times> sorm_iterator_t option \<times> addr \<times> addr \<times> 'db world) option" where
  "sorm_select_iterate_by_join api conn iterator table1_row table2_row w =
     do { (ret, it, rows, w) \<leftarrow> i_select_iterate api conn iterator [table1_row, table2_row] [0, 0] w;
          Some (ret, it, if table1_row then rows ! 0 else 0, if table2_row then rows ! 1 else 0, w) }"

definition sorm_select_iterate_by ::
  "'db sqlite3_api \<Rightarrow> sorm_connection_t \<Rightarrow> sorm_iterator_t option \<Rightarrow> bool \<Rightarrow> 'db world \<Rightarrow>
   (sorm_error_t \<times> sorm_iterator_t option \<times> addr \<times> 'db world) option" where
  "sorm_select_iterate_by api conn iterator table_row w =
     do { (ret, it, rows, w) \<leftarrow> i_select_iterate api conn iterator [table_row] [0] w;
          Some (ret, it, if table_row then rows ! 0 else 0, w) }"

section \<open>Closing\<close>

text \<open>Everything is freed with the allocator of the iterator.\<close>

definition sorm_select_iterate_close ::
  "'db sqlite3_api \<Rightarrow> sorm_iterator_t option \<Rightarrow> 'db world \<Rightarrow> (sorm_error_t \<times> 'db world) option" where
  "sorm_select_iterate_close api iterator w =
     (case iterator of
        None \<Rightarrow> Some (SORM_ARG_NULL, w)
      | Some it \<Rightarrow>
          let (ret_val, w) = db_finalize api (it_stmt_handle it) SORM_OK w; allocator = it_allocator it in
          do { h \<leftarrow> (if it_select_ptr it \<noteq> 0
                     then do { h \<leftarrow> free_rows (\<lambda>p h. if p \<noteq> 0 then i_free allocator p h else Some h) (it_index_ptrs it) (hp w);
                               i_free allocator (it_select_ptr it) h }
                     else Some (hp w));
               h \<leftarrow> (if it_tables_ptr it \<noteq> 0 then i_free allocator (it_tables_ptr it) h else Some h);
               h \<leftarrow> i_free allocator (it_ptr it) h;
               Some (ret_val, w\<lparr>hp := h\<rparr>) })"

definition sorm_select_iterate_more :: "sorm_iterator_t \<Rightarrow> int" where
  "sorm_select_iterate_more iterator = has_more iterator"

section \<open>One call of the iterator\<close>

text \<open>An open iterator on one table, some of whose columns are selected.\<close>

definition iterator_on ::
  "'db sqlite3_api \<Rightarrow> sorm_iterator_t \<Rightarrow> sorm_table_descriptor_t \<Rightarrow> int list \<Rightarrow> bool" where
  "iterator_on api it td xs \<longleftrightarrow> it_stmt_handle it \<noteq> 0 \<and> it_tables_desc it = [td] \<and>
     (\<exists>n. it_select_columns it = [\<lparr>sel_columns_num = n, indexes_in_result = xs\<rparr>] \<and> n \<noteq> 0) \<and>
     readable api (it_allocator it) td xs"

lemma new_row_ok:
  assumes rd: "readable api al td xs" and st: "st \<noteq> 0" and h: "heap_ok h"
  shows "\<exists>p h1 ret h' obj. sorm_new al (Some td) h = Some (p, h1) \<and> p \<noteq> 0 \<and>
    parse_row_at api al st xs d p 0 h1 = Some (ret, h') \<and> heap_ok h' \<and> array_ok (pool_of al) h' p [obj] \<and> desc obj = td \<and>
    (ret = SORM_OK \<longrightarrow> row_holds api st xs d h' obj) \<and> (row_fits api st td xs d \<longrightarrow> ret = SORM_OK) \<and>
    (\<forall>a. blocks h a = (if a \<in> array_foot p [obj] then None else blocks h' a))"
proof -
  have r: "allocator_ok al" "memory_lasts al" "0 < t_size td" "t_size td < 2 ^ 31" "wf_table td"
    using rd by (auto simp: readable_def)
  from sorm_new_returns [OF r(1,2) h r(3,4)] obtain p h1 where
    p: "sorm_new al (Some td) h = Some (p, h1)" "p \<noteq> 0" "blocks h p = None" "heap_ok h1"
      "blocks h1 = (blocks h)(p \<mapsto> \<lparr>owner = pool_of al, content = C_objects [new_object td]\<rparr>)" by blast
  have ld: "load h1 p = Some (C_objects [new_object td])" by (simp add: load_def p(5))
  have ok1: "array_ok (pool_of al) h1 p [new_object td]" using array_ok_new [OF r(5) p(2), of h1 _ 1] p(5) by simp
  from parse_row_at_ok [OF rd st p(4) ld, of 0 d] obtain ret obj h2 h' where
    f: "parse_row_at api al st xs d p 0 h1 = Some (ret, h')" "heap_ok h'" "desc obj = td"
      "row_ok (pool_of al) h1 h2 obj" "overwrites {p} h2 h'" "load h' p = Some (C_objects ([new_object td][0 := obj]))"
      "p \<notin> owned obj" "ret = SORM_OK \<longrightarrow> row_holds api st xs d h' obj" "row_fits api st td xs d \<longrightarrow> ret = SORM_OK" by fastforce
  have "array_ok (pool_of al) h' p ([new_object td][0 := obj])"
    by (rule array_ok_filled [OF ok1 _ _ f(4-7)]) (simp_all add: object_ok_new(2) [OF r(5)])
  then have "array_ok (pool_of al) h' p [obj]" by simp
  moreover have "blocks h a = (if a \<in> array_foot p [obj] then None else blocks h' a)" for a
  proof -
    have "blocks h1 a = (if a \<in> owned obj then None else blocks h2 a)" using f(4) by (simp add: row_ok_def)
    moreover have "blocks h a = blocks h1 a" if "a \<noteq> p" using p(5) that by simp
    moreover have "blocks h2 a = blocks h' a" if "a \<noteq> p" using f(5) that by (simp add: overwrites_def)
    ultimately show ?thesis using p(3) by (cases "a = p") (simp_all add: array_foot_def)
  qed
  ultimately show ?thesis using p(1,2) f(1,2,3,8,9) by blast
qed

text \<open>What a call that answers with the row of \<open>d\<close> leaves at \<open>p\<close>: an object of its own that holds the row.\<close>

definition row_given ::
  "'db sqlite3_api \<Rightarrow> sorm_allocator_t option \<Rightarrow> stmt \<Rightarrow> sorm_table_descriptor_t \<Rightarrow> int list \<Rightarrow> 'db \<Rightarrow> heap \<Rightarrow> addr \<Rightarrow> bool" where
  "row_given api al st td xs d h p \<longleftrightarrow> (\<exists>obj. array_ok (pool_of al) h p [obj] \<and> desc obj = td \<and> row_holds api st xs d h obj)"

lemma row_given_frame:
  assumes "row_given api al st td xs d h p" and "\<And>a. blocks h a \<noteq> None \<Longrightarrow> blocks h' a = blocks h a"
  shows "row_given api al st td xs d h' p"
proof -
  from assms(1) obtain obj where obj: "array_ok (pool_of al) h p [obj]" "desc obj = td" "row_holds api st xs d h obj"
    unfolding row_given_def by blast
  have same: "blocks h' a = blocks h a" if "a \<in> array_foot p [obj]" for a
    using array_ok_owns [OF obj(1) that] by (intro assms(2)) (auto simp: owns_def)
  have "row_holds api st xs d h' obj"
    by (rule row_holds_frame [OF _ obj(3)]) (use obj(1) same in \<open>auto simp: array_ok_def object_ok_def array_foot_def\<close>)
  then show ?thesis unfolding row_given_def using array_ok_frame [OF obj(1) same] obj(2) by blast
qed

lemma iterate_once:
  assumes it: "iterator_on api it td xs" and h: "heap_ok (hp w)"
    and lock: "transaction_num conn = 0 \<longrightarrow> lock_ready conn w"
    and step: "step_db api (it_stmt_handle it) (db w) = (r, d)"
  shows "\<exists>ret p w' cs. sorm_select_iterate_by api conn (Some it) True w
      = Some (ret, Some (it\<lparr>has_more := if r = SQLITE_ROW then 1 else 0\<rparr>), p, w') \<and>
    db w' = d \<and> same_locks w w' \<and> (transaction_num conn = 0 \<longrightarrow> lock_ready conn w') \<and>
    calls w' = calls w @ cs \<and> only_steps (it_stmt_handle it) cs \<and> heap_ok (hp w') \<and>
    (\<forall>a. blocks (hp w) a \<noteq> None \<longrightarrow> blocks (hp w') a = blocks (hp w) a) \<and>
    (if r = SQLITE_ROW
     then p \<noteq> 0 \<and> (ret = SORM_OK \<longrightarrow> row_given api (it_allocator it) (it_stmt_handle it) td xs d (hp w') p) \<and>
       (row_fits api (it_stmt_handle it) td xs d \<longrightarrow> ret = SORM_OK)
     else p = 0 \<and> hp w' = hp w \<and> ret = (if r = SQLITE_DONE then SORM_OK else SORM_DB_ERROR))"
proof -
  let ?st = "it_stmt_handle it" and ?al = "it_allocator it"
  from step_fetches [OF lock, of api ?st SORM_RWLOCK_WRITE] step obtain w1 cs where
    s: "i_sqlite3_step api conn ?st SORM_RWLOCK_WRITE w = Some (r, w1)" "db w1 = d" "hp w1 = hp w" "same_locks w w1"
      "transaction_num conn = 0 \<longrightarrow> lock_ready conn w1" "calls w1 = calls w @ cs" "only_steps ?st cs" by auto
  show ?thesis
  proof (cases "r = SQLITE_ROW")
    case False
    then have "sorm_select_iterate_by api conn (Some it) True w
        = Some (if r = SQLITE_DONE then SORM_OK else SORM_DB_ERROR, Some (it\<lparr>has_more := 0\<rparr>), 0, w1)"
      using s(1) by (simp add: sorm_select_iterate_by_def i_select_iterate_def nth_opt_def)
    then show ?thesis using False s h by auto
  next
    case True
    from it obtain n where t: "it_tables_desc it = [td]" "it_select_columns it = [\<lparr>sel_columns_num = n, indexes_in_result = xs\<rparr>]"
      "n \<noteq> 0" and rd: "readable api ?al td xs" and st: "?st \<noteq> 0" by (auto simp: iterator_on_def)
    from new_row_ok [OF rd st h, of d] obtain p h1 ret h' obj where
      f: "sorm_new ?al (Some td) (hp w) = Some (p, h1)" "p \<noteq> 0" "parse_row_at api ?al ?st xs d p 0 h1 = Some (ret, h')"
        "heap_ok h'" "array_ok (pool_of ?al) h' p [obj]" "desc obj = td" "ret = SORM_OK \<longrightarrow> row_holds api ?st xs d h' obj"
        "row_fits api ?st td xs d \<longrightarrow> ret = SORM_OK"
        "\<forall>a. blocks (hp w) a = (if a \<in> array_foot p [obj] then None else blocks h' a)" by blast
    have "iterate_row api ?al ?st (it_tables_desc it) (it_select_columns it) [True] (db w1) [0..<length (it_tables_desc it)]
        [0] (hp w1) = Some (ret, [p], h')"
      using t f(1-3) s(2,3) by (simp add: table_selected_def nth_opt_def)
    then have run: "sorm_select_iterate_by api conn (Some it) True w = Some (ret, Some (it\<lparr>has_more := 1\<rparr>), p, w1\<lparr>hp := h'\<rparr>)"
      using True s(1) by (simp add: sorm_select_iterate_by_def i_select_iterate_def nth_opt_def del: iterate_row.simps upt.simps)
    have "ret = SORM_OK \<longrightarrow> row_given api ?al ?st td xs d h' p" using f(5-7) unfolding row_given_def by blast
    moreover have "\<forall>a. blocks (hp w) a \<noteq> None \<longrightarrow> blocks h' a = blocks (hp w) a"
    proof (intro allI impI)
      fix a assume "blocks (hp w) a \<noteq> None"
      then have "a \<notin> array_foot p [obj]" using f(9) by auto
      then show "blocks h' a = blocks (hp w) a" using f(9) by simp
    qed
    moreover have "same_locks w (w1\<lparr>hp := h'\<rparr>)" "lock_ready conn (w1\<lparr>hp := h'\<rparr>) \<longleftrightarrow> lock_ready conn w1"
      using s(4) by (simp_all add: same_locks_def lock_ready_def)
    ultimately show ?thesis using run True s(2,5-7) f(2,4,8)
      by (intro exI [of _ ret] exI [of _ p] exI [of _ "w1\<lparr>hp := h'\<rparr>"] exI [of _ cs]) simp
  qed
qed

section \<open>Calls until the rows end\<close>

text \<open>Calls that each returned \<open>SORM_OK\<close> with a row, the iterator saying that there was one.\<close>

inductive iterated ::
  "'db sqlite3_api \<Rightarrow> sorm_connection_t \<Rightarrow> sorm_iterator_t \<times> 'db world \<Rightarrow> addr list \<Rightarrow> sorm_iterator_t \<times> 'db world \<Rightarrow> bool"
  for api conn where
  no_call: "iterated api conn (it, w) [] (it, w)"
| call: "sorm_select_iterate_by api conn (Some it) True w = Some (SORM_OK, Some it', p, w') \<Longrightarrow>
     sorm_select_iterate_more it' = 1 \<Longrightarrow> iterated api conn (it', w') ps s \<Longrightarrow> iterated api conn (it, w) (p # ps) s"

lemma iterator_on_more [simp]: "iterator_on api (it\<lparr>has_more := m\<rparr>) td xs \<longleftrightarrow> iterator_on api it td xs"
  by (simp add: iterator_on_def)

lemma iterate_rows:
  assumes "iterator_on api it td xs" and "heap_ok (hp w)" and "transaction_num conn = 0 \<longrightarrow> lock_ready conn w"
    and "fetch api (it_stmt_handle it) N (db w) = (ds, r)" and "r \<noteq> SQLITE_ROW"
    and "\<forall>d \<in> set ds. row_fits api (it_stmt_handle it) td xs d"
  shows "\<exists>ps it' w' w'' cs. iterated api conn (it, w) ps (it', w') \<and>
    sorm_select_iterate_by api conn (Some it') True w'
      = Some (if r = SQLITE_DONE then SORM_OK else SORM_DB_ERROR, Some (it\<lparr>has_more := 0\<rparr>), 0, w'') \<and>
    list_all2 (\<lambda>p d. row_given api (it_allocator it) (it_stmt_handle it) td xs d (hp w'') p) ps ds \<and>
    (\<forall>a. blocks (hp w) a \<noteq> None \<longrightarrow> blocks (hp w'') a = blocks (hp w) a) \<and> heap_ok (hp w'') \<and> same_locks w w'' \<and>
    calls w'' = calls w @ cs \<and> only_steps (it_stmt_handle it) cs"
  using assms
proof (induction N arbitrary: it w ds)
  case 0
  then show ?case by simp
next
  case (Suc N)
  let ?st = "it_stmt_handle it"
  obtain r1 d1 where step: "step_db api ?st (db w) = (r1, d1)" by fastforce
  let ?it = "it\<lparr>has_more := if r1 = SQLITE_ROW then 1 else 0\<rparr>"
  from iterate_once [OF Suc.prems(1-3) step] obtain ret p w1 cs where
    o: "sorm_select_iterate_by api conn (Some it) True w = Some (ret, Some ?it, p, w1)" "db w1 = d1" "same_locks w w1"
      "transaction_num conn = 0 \<longrightarrow> lock_ready conn w1" "calls w1 = calls w @ cs" "only_steps ?st cs" "heap_ok (hp w1)"
      "\<forall>a. blocks (hp w) a \<noteq> None \<longrightarrow> blocks (hp w1) a = blocks (hp w) a" and
    c: "if r1 = SQLITE_ROW
       then p \<noteq> 0 \<and> (ret = SORM_OK \<longrightarrow> row_given api (it_allocator it) ?st td xs d1 (hp w1) p) \<and>
         (row_fits api ?st td xs d1 \<longrightarrow> ret = SORM_OK)
       else p = 0 \<and> hp w1 = hp w \<and> ret = (if r1 = SQLITE_DONE then SORM_OK else SORM_DB_ERROR)" by blast
  show ?case
  proof (cases "r1 = SQLITE_ROW")
    case False
    then have "ds = []" "r = r1" using Suc.prems(4) step by auto
    then show ?thesis using False o c no_call [of api conn it w]
      by (intro exI [of _ "[]"] exI [of _ it] exI [of _ w] exI [of _ w1] exI [of _ cs]) simp
  next
    case True
    obtain ds' where f: "fetch api ?st N d1 = (ds', r)" "ds = d1 # ds'"
      using Suc.prems(4) step True by (auto simp: Let_def split: prod.splits)
    have ok: "ret = SORM_OK" "row_given api (it_allocator it) ?st td xs d1 (hp w1) p"
      using c True Suc.prems(6) f(2) by auto
    have f1: "fetch api (it_stmt_handle ?it) N (db w1) = (ds', r)" "iterator_on api ?it td xs"
      "\<forall>d \<in> set ds'. row_fits api (it_stmt_handle ?it) td xs d"
      using f o(2) Suc.prems(1,6) by simp_all
    from Suc.IH [OF f1(2) o(7,4) f1(1) Suc.prems(5) f1(3)] obtain ps it' w' w'' cs' where
      rec: "iterated api conn (?it, w1) ps (it', w')"
        "sorm_select_iterate_by api conn (Some it') True w'
          = Some (if r = SQLITE_DONE then SORM_OK else SORM_DB_ERROR, Some (?it\<lparr>has_more := 0\<rparr>), 0, w'')"
        "list_all2 (\<lambda>p d. row_given api (it_allocator ?it) (it_stmt_handle ?it) td xs d (hp w'') p) ps ds'"
        "\<forall>a. blocks (hp w1) a \<noteq> None \<longrightarrow> blocks (hp w'') a = blocks (hp w1) a" "heap_ok (hp w'')" "same_locks w1 w''"
        "calls w'' = calls w1 @ cs'" "only_steps (it_stmt_handle ?it) cs'" by blast
    have "iterated api conn (it, w) (p # ps) (it', w')"
      by (rule call [OF o(1) [unfolded ok(1)] _ rec(1)]) (simp add: True sorm_select_iterate_more_def)
    moreover have "row_given api (it_allocator it) ?st td xs d1 (hp w'') p"
      by (rule row_given_frame [OF ok(2)]) (use rec(4) in blast)
    moreover have "\<forall>a. blocks (hp w) a \<noteq> None \<longrightarrow> blocks (hp w'') a = blocks (hp w) a"
      using o(8) rec(4) by (metis (no_types, lifting))
    ultimately show ?thesis using rec(2,3,5-8) o(3,5,6) f(2) same_locks_trans [OF o(3) rec(6)]
      by (intro exI [of _ "p # ps"] exI [of _ it'] exI [of _ w'] exI [of _ w''] exI [of _ "cs @ cs'"]) simp
  qed
qed

section \<open>Opening and closing\<close>

text \<open>The blocks of an open iterator: the array of its descriptors, itself, the selection and the positions.\<close>

definition iterator_blocks :: "sorm_iterator_t \<Rightarrow> addr list" where
  "iterator_blocks it = it_tables_ptr it # it_ptr it # it_select_ptr it # it_index_ptrs it"

text \<open>What an iterator owns: the array comes from its allocator, the rest from \<open>malloc\<close>.\<close>

definition iterator_owns :: "sorm_iterator_t \<Rightarrow> heap \<Rightarrow> bool" where
  "iterator_owns it h \<longleftrightarrow> distinct (iterator_blocks it) \<and> 0 \<notin> set (iterator_blocks it) \<and>
     owns (pool_of (it_allocator it)) h (it_tables_ptr it) \<and> (\<forall>a \<in> set (tl (iterator_blocks it)). owns None h a)"

text \<open>What opening an iterator on one table relies on; the last part is the memory of the C library.\<close>

definition iterate_ready ::
  "sorm_allocator_t option \<Rightarrow> sorm_table_descriptor_t \<Rightarrow> string \<Rightarrow> heap \<Rightarrow> addr \<Rightarrow> heap \<Rightarrow> bool" where
  "iterate_ready al td cols h t h1 \<longleftrightarrow> allocator_ok al \<and> table_usable td \<and> cols \<noteq> [] \<and> no_nul cols \<and>
     (\<forall>n \<in> set (split_names cols). \<not> list_all blank n) \<and> heap_ok h \<and> i_malloc al 8 h = Some (t, h1) \<and>
     64 + indexes_size [td] + length cols + 1 \<le> room h1"

lemma iterate_allocates:
  assumes "iterate_ready al td cols h t h1"
  shows "\<exists>p h2 q h3 ps h4. i_malloc None sizeof_iterator h1 = Some (p, h2) \<and>
    i_malloc None (sizeof_select_columns * length [td]) h2 = Some (q, h3) \<and> malloc_indexes [td] h3 = Some (SORM_OK, ps, h4) \<and>
    heap_ok h4 \<and> length cols + 1 \<le> room h4 \<and> distinct (t # p # q # ps) \<and> 0 \<notin> set (t # p # q # ps) \<and>
    owns (pool_of al) h4 t \<and> (\<forall>a \<in> set (p # q # ps). owns None h4 a) \<and>
    (\<forall>a. blocks h a = (if a \<in> set (t # p # q # ps) then None else blocks h4 a))"
proof -
  have r: "alloc_contract (i_malloc al) (i_free al) (i_strdup al) (pool_of al)" "\<forall>td \<in> set [td]. table_usable td" "heap_ok h"
    "i_malloc al 8 h = Some (t, h1)" "64 + indexes_size [td] + length cols + 1 \<le> room h1"
    using assms by (auto simp: iterate_ready_def allocator_ok_def)
  from alloc_contract.mal_fresh [OF r(1,3) _ r(4)] have
    t: "t \<noteq> 0" "blocks h t = None" "heap_ok h1" "blocks h1 = (blocks h)(t \<mapsto> \<lparr>owner = pool_of al, content = C_raw 8\<rparr>)" by auto
  from libc_block [OF _ t(3), of sizeof_iterator] r(5) obtain p h2 where
    p: "i_malloc None sizeof_iterator h1 = Some (p, h2)" "p \<noteq> 0" "blocks h1 p = None" "heap_ok h2"
      "room h2 = room h1 - 48" "owns None h2 p" "\<forall>a. a \<noteq> p \<longrightarrow> blocks h2 a = blocks h1 a" by (auto simp: sizeof_iterator_def)
  have "tds_room [td] cols h2" using p(5) r(5) by (simp add: tds_room_def)
  from blocks_allocated [OF _ r(2) p(4) this] obtain q h3 ps h4 where
    q: "i_malloc None (sizeof_select_columns * length [td]) h2 = Some (q, h3)" "malloc_indexes [td] h3 = Some (SORM_OK, ps, h4)"
      "heap_ok h4" "length cols + 1 \<le> room h4" "distinct (q # ps)" "\<forall>a \<in> set (q # ps). a \<noteq> 0 \<and> owns None h4 a"
      "\<forall>a. blocks h2 a = (if a \<in> set (q # ps) then None else blocks h4 a)" by blast
  have pq: "p \<notin> set (q # ps)" using q(7) p(6) by (auto simp: owns_def)
  have tp: "t \<noteq> p" using t(4) p(3) by auto
  then have t2: "blocks h2 t = Some \<lparr>owner = pool_of al, content = C_raw 8\<rparr>" using t(4) p(7) by simp
  then have tq: "t \<notin> set (q # ps)" using q(7) by (metis option.distinct(1))
  have "owns (pool_of al) h4 t" "owns None h4 p" using t2 p(6) q(7) tq pq by (simp_all add: owns_def split: if_splits)
  moreover have "blocks h a = (if a \<in> set (t # p # q # ps) then None else blocks h4 a)" for a
  proof (cases "a = t \<or> a = p")
    case True
    then show ?thesis using t(2,4) p(3) by (auto split: if_splits)
  next
    case False
    then have "blocks h a = blocks h2 a" using t(4) p(7) by simp
    then show ?thesis using q(7) False by simp
  qed
  ultimately show ?thesis using p(1,2) q(1-6) pq tp tq t(1) by (intro exI) auto
qed

text \<open>The failing return gives back the three kinds of blocks.\<close>

lemma iterate_fail_ok:
  assumes "heap_ok h" and "distinct (p # q # ps)" and "0 \<notin> set (p # q # ps)" and "\<forall>a \<in> set (p # q # ps). owns None h a"
  shows "\<exists>h'. iterate_fail ps q p h = Some h' \<and> heap_ok h' \<and>
    (\<forall>a. blocks h' a = (if a \<in> set (p # q # ps) then None else blocks h a))"
proof -
  have "\<forall>a \<in> set ps. a \<noteq> 0 \<and> owns None h a" using assms(3,4) by (auto intro!: gr0I)
  from free_rows_libc [OF assms(1) _ this] assms(2) obtain h1 where
    h1: "free_rows (\<lambda>p h. if p \<noteq> 0 then i_free None p h else Some h) ps h = Some h1" "heap_ok h1"
      "\<forall>a. blocks h1 a = (if a \<in> set ps then None else blocks h a)" by auto
  have "owns (pool_of None) h1 q" using assms(2,4) h1(3) by (simp add: owns_def pool_of_def)
  from free_block [OF allocator_ok_libc h1(2) this] obtain h2 where
    h2: "i_free None q h1 = Some h2" "heap_ok h2" "blocks h2 = (blocks h1)(q := None)" by blast
  have "owns (pool_of None) h2 p" using assms(2,4) h1(3) h2(3) by (simp add: owns_def pool_of_def)
  from free_block [OF allocator_ok_libc h2(2) this] obtain h3 where
    h3: "i_free None p h2 = Some h3" "heap_ok h3" "blocks h3 = (blocks h2)(p := None)" by blast
  have "iterate_fail ps q p h = Some h3" using h1(1) h2(1) h3(1) assms(3) by (simp add: iterate_fail_def)
  then show ?thesis using h3(2,3) h2(3) h1(3) by auto
qed

text \<open>Opening an iterator on one table, up to the answer of SQLite.\<close>

lemma open_ok:
  assumes rdy: "iterate_ready al td cols (hp w) t h1" and R: "result_columns [td] cols = Some R" and flt: "filter_arg \<noteq> Some []"
    and sql: "sql = select_sql [td] cols ([], []) SORM_INNER_JOIN filter_arg" "length sql \<le> 1023" "no_nul sql"
    and prep: "prepare_db api sql (db w) = (r, st, d1)"
  shows "\<exists>p w' cs. p \<noteq> 0 \<and> blocks (hp w) p = None \<and> db w' = d1 \<and> sems w' = sems w \<and> rwlocks w' = rwlocks w \<and> heap_ok (hp w') \<and> calls w' = calls w @ cs \<and> prepare_run sql r st cs \<and>
    (if r = SQLITE_OK
     then \<exists>it sc. sorm_select_iterate_by_open api (Some conn) al (Some td) (Some cols) filter_arg w
         = Some (SORM_OK, Some p, Some it, w') \<and> it_ptr it = p \<and> it_tables_desc it = [td] \<and> it_select_columns it = sc \<and>
         selection_ok [td] R (sc, int (length R)) \<and> it_stmt_handle it = st \<and> it_allocator it = al \<and> has_more it = 0 \<and>
         iterator_owns it (hp w') \<and> (\<forall>a. blocks (hp w) a = (if a \<in> set (iterator_blocks it) then None else blocks (hp w') a))
     else sorm_select_iterate_by_open api (Some conn) al (Some td) (Some cols) filter_arg w = Some (SORM_DB_ERROR, Some p, None, w') \<and>
       blocks (hp w') = blocks (hp w))"
proof -
  have q: "cols \<noteq> []" "no_nul cols" "\<forall>n \<in> set (split_names cols). \<not> list_all blank n" "\<And>t. t \<in> set [td] \<Longrightarrow> wf_table t"
    "i_malloc al 8 (hp w) = Some (t, h1)" "allocator_ok al" using rdy by (auto simp: iterate_ready_def table_usable_def)
  from iterate_allocates [OF rdy] obtain p h2 q' h3 ps h4 where
    m: "i_malloc None sizeof_iterator h1 = Some (p, h2)" "i_malloc None (sizeof_select_columns * length [td]) h2 = Some (q', h3)"
      "malloc_indexes [td] h3 = Some (SORM_OK, ps, h4)" "heap_ok h4" "length cols + 1 \<le> room h4" "distinct (t # p # q' # ps)"
      "0 \<notin> set (t # p # q' # ps)" "owns (pool_of al) h4 t" "\<forall>a \<in> set (p # q' # ps). owns None h4 a" and
    b0: "\<And>a. blocks (hp w) a = (if a \<in> set (t # p # q' # ps) then None else blocks h4 a)" by blast
  have pn: "blocks (hp w) p = None" unfolding b0 by simp
  have tx: "select_text [td] cols ([], []) SORM_INNER_JOIN filter_arg = Some (SORM_OK, sql_at sql)"
    using select_text_eq [of "[td]" SORM_INNER_JOIN cols "([], [])" filter_arg] sql(1,2) by simp
  from columns_parsed [where tds = "[td]", OF q(4,2,3) m(4,5)] R obtain sc h5 where
    c: "i_columns_name_to_select_columns [td] cols h4 = Some (SORM_OK, sc, h5)" "heap_ok h5" "blocks h5 = blocks h4"
      "selection_ok [td] R (sc, int (length R))" by auto
  obtain r' st' w1 where pr: "i_sqlite3_prepare api sql (w\<lparr>hp := h5\<rparr>) = (r', st', w1)" by (metis prod_cases3)
  then have r: "r' = r" "st' = st" "db w1 = d1" using prepare_is_prepare_db [OF pr] prep by auto
  from prepare_returns [OF pr] obtain cs where
    w1: "hp w1 = h5" "sems w1 = sems w" "rwlocks w1 = rwlocks w" "calls w1 = calls w @ cs" "prepare_run sql r st cs"
    unfolding r by auto
  have op: "i_select_iterate_open api (Some conn) al (Some cols) [Some td] t SORM_INNER_JOIN filter_arg ([], []) (w\<lparr>hp := h1\<rparr>)
      = (if r \<noteq> SQLITE_OK
         then do { h \<leftarrow> iterate_fail ps q' p h5; Some (SORM_DB_ERROR, Some p, None, w1\<lparr>hp := h\<rparr>) }
         else Some (SORM_OK, Some p, Some \<lparr>it_ptr = p, has_more = 0, it_tables_desc = [td], it_tables_ptr = t,
           it_select_columns = sc, it_select_ptr = q', it_index_ptrs = ps, it_stmt_handle = st, it_allocator = al\<rparr>, w1))"
    using q(1) flt m(1-3,7) tx c(1) pr r(1,2) w1(1) cstr_sql_at [OF sql(3)] by (simp add: i_select_iterate_open_def del: malloc_indexes.simps)
  show ?thesis
  proof (cases "r = SQLITE_OK")
    case True
    let ?it = "\<lparr>it_ptr = p, has_more = 0, it_tables_desc = [td], it_tables_ptr = t, it_select_columns = sc,
      it_select_ptr = q', it_index_ptrs = ps, it_stmt_handle = st, it_allocator = al\<rparr>"
    have "sorm_select_iterate_by_open api (Some conn) al (Some td) (Some cols) filter_arg w = Some (SORM_OK, Some p, Some ?it, w1)"
      using q(5) m(7) op True by (simp add: sorm_select_iterate_by_open_def)
    moreover have "iterator_owns ?it (hp w1)" using m(6-9) w1(1) c(3) by (simp add: iterator_owns_def iterator_blocks_def owns_def)
    moreover have "\<forall>a. blocks (hp w) a = (if a \<in> set (iterator_blocks ?it) then None else blocks (hp w1) a)"
      using b0 w1(1) c(3) by (simp add: iterator_blocks_def)
    ultimately show ?thesis using True pn m(7) r(3) w1 c(2,4)
      by (intro exI [of _ p] exI [of _ w1] exI [of _ cs]) auto
  next
    case False
    have "distinct (p # q' # ps)" "0 \<notin> set (p # q' # ps)" "\<forall>a \<in> set (p # q' # ps). owns None h5 a"
      using m(6,7,9) c(3) by (auto simp: owns_def)
    from iterate_fail_ok [OF c(2) this] obtain h6 where
      h6: "iterate_fail ps q' p h5 = Some h6" "heap_ok h6" "\<forall>a. blocks h6 a = (if a \<in> set (p # q' # ps) then None else blocks h5 a)"
      by blast
    have "owns (pool_of al) h6 t" using m(6,8) h6(3) c(3) by (simp add: owns_def)
    from free_block [OF q(6) h6(2) this] obtain h7 where
      h7: "i_free al t h6 = Some h7" "heap_ok h7" "blocks h7 = (blocks h6)(t := None)" by blast
    have "sorm_select_iterate_by_open api (Some conn) al (Some td) (Some cols) filter_arg w
        = Some (SORM_DB_ERROR, Some p, None, w1\<lparr>hp := h7\<rparr>)"
      using q(5) m(7) op False h6(1) h7(1) by (simp add: sorm_select_iterate_by_open_def)
    moreover have "blocks h7 = blocks (hp w)" using h7(3) h6(3) b0 c(3) by (intro ext) simp
    ultimately show ?thesis using False pn m(7) r(3) w1 h7(2)
      by (intro exI [of _ p] exI [of _ "w1\<lparr>hp := h7\<rparr>"] exI [of _ cs]) simp
  qed
qed

text \<open>Closing an iterator whose allocator is \<open>NULL\<close>.\<close>

lemma close_ok:
  assumes own: "iterator_owns it (hp w)" and al: "it_allocator it = None" and h: "heap_ok (hp w)"
  shows "\<exists>f w' fs. sorm_select_iterate_close api (Some it) w = Some (if f \<noteq> SQLITE_OK then SORM_DB_ERROR else SORM_OK, w') \<and>
    same_locks w w' \<and> calls w' = calls w @ fs \<and> finalize_run (it_stmt_handle it) f fs \<and> heap_ok (hp w') \<and>
    (\<forall>a. blocks (hp w') a = (if a \<in> set (iterator_blocks it) then None else blocks (hp w) a))"
proof -
  obtain t p q ps where it: "it_tables_ptr it = t" "it_ptr it = p" "it_select_ptr it = q" "it_index_ptrs it = ps" by blast
  have o: "distinct (t # p # q # ps)" "0 \<notin> set (t # p # q # ps)" "\<forall>a \<in> set (t # p # q # ps). owns None (hp w) a"
    using own al by (auto simp: iterator_owns_def iterator_blocks_def it pool_of_def)
  obtain ret w1 where d: "db_finalize api (it_stmt_handle it) SORM_OK w = (ret, w1)" by fastforce
  from db_finalize_returns [OF d] obtain f fs where
    z: "ret = (if f \<noteq> SQLITE_OK then SORM_DB_ERROR else SORM_OK)" "hp w1 = hp w" "sems w1 = sems w" "rwlocks w1 = rwlocks w"
      "calls w1 = calls w @ fs" "finalize_run (it_stmt_handle it) f fs" by blast
  have "distinct (t # q # ps)" "0 \<notin> set (t # q # ps)" "\<forall>a \<in> set (t # q # ps). owns None (hp w) a" using o by auto
  from iterate_fail_ok [OF h this] obtain h1 where
    h1: "iterate_fail ps q t (hp w) = Some h1" "heap_ok h1" "\<forall>a. blocks h1 a = (if a \<in> set (t # q # ps) then None else blocks (hp w) a)"
    by blast
  have "owns (pool_of None) h1 p" using o(1,3) h1(3) by (simp add: owns_def pool_of_def)
  from free_block [OF allocator_ok_libc h1(2) this] obtain h2 where
    h2: "i_free None p h1 = Some h2" "heap_ok h2" "blocks h2 = (blocks h1)(p := None)" by blast
  have "sorm_select_iterate_close api (Some it) w = Some (ret, w1\<lparr>hp := h2\<rparr>)"
    using d h1(1) h2(1) o(2) z(2) al it
    by (auto simp: sorm_select_iterate_close_def iterate_fail_def bind_eq_Some_conv split: if_splits)
  moreover have "blocks h2 a = (if a \<in> set (iterator_blocks it) then None else blocks (hp w) a)" for a
    using h2(3) h1(3) by (auto simp: iterator_blocks_def it)
  ultimately show ?thesis using z h2(2)
    by (intro exI [of _ f] exI [of _ "w1\<lparr>hp := h2\<rparr>"] exI [of _ fs]) (simp add: same_locks_def)
qed

lemma iterator_on_open:
  assumes "it_tables_desc it = [td]" and "selection_ok [td] R (it_select_columns it, r)" and "R \<noteq> []"
    and "readable api (it_allocator it) td (indexes_in_result (it_select_columns it ! 0))" and "it_stmt_handle it \<noteq> 0"
  shows "iterator_on api it td (indexes_in_result (it_select_columns it ! 0))"
proof -
  have "read_tables (it_select_columns it) [True] = {0}" by (rule read_only_table [OF assms(2,3)])
  then have n: "sel_columns_num (it_select_columns it ! 0) \<noteq> 0" by (auto simp: read_tables_def)
  obtain x where x: "it_select_columns it = [x]" using assms(2) by (auto simp: selection_ok_def length_Suc_conv)
  with n assms(1,4,5) show ?thesis by (cases x) (auto simp: iterator_on_def)
qed

text \<open>
  C8: Iterating to the end. \<open>sorm_select_iterate_by_open\<close> runs \<open>SELECT columns FROM table WHERE filter\<close> and
  gives an iterator; when every row fits its table, each call of \<open>sorm_select_iterate_by\<close> then returns
  \<open>SORM_OK\<close> with the next row of the result in an object of its own, and \<open>sorm_select_iterate_more\<close> says
  \<open>1\<close>, until the rows are used up: the next call returns no row, \<open>sorm_select_iterate_more\<close> says \<open>0\<close>, and
  the code tells whether SQLite was done or failed. The calls make no call to SQLite but steps of this
  statement, and leave the locks and the memory of others alone.
\<close>

theorem iterate_all:
  assumes "iterate_ready al td cols (hp w) t h1" and "memory_lasts al" and "columns_consistent api"
    and "result_columns [td] cols = Some R" and "R \<noteq> []" and "transaction_num conn = 0 \<longrightarrow> lock_ready conn w"
    and "filter_arg \<noteq> Some []" and "sql = select_sql [td] cols ([], []) SORM_INNER_JOIN filter_arg" and "length sql \<le> 1023"
    and "no_nul sql" and "prepare_db api sql (db w) = (SQLITE_OK, st, d1)" and "st \<noteq> 0" and "fetch api st N d1 = (ds, r)" and "r \<noteq> SQLITE_ROW"
  shows "\<exists>p it w1 ps xs. sorm_select_iterate_by_open api (Some conn) al (Some td) (Some cols) filter_arg w
      = Some (SORM_OK, Some p, Some it, w1) \<and> calls w1 = calls w @ ps \<and> prepare_run sql SQLITE_OK st ps \<and> positions R 0 td xs \<and>
    ((\<forall>d \<in> set ds. row_fits api st td xs d) \<longrightarrow>
     (\<exists>rows it' w' w'' cs. iterated api conn (it, w1) rows (it', w') \<and>
        sorm_select_iterate_by api conn (Some it') True w'
          = Some (if r = SQLITE_DONE then SORM_OK else SORM_DB_ERROR, Some (it\<lparr>has_more := 0\<rparr>), 0, w'') \<and>
        list_all2 (\<lambda>p d. row_given api al st td xs d (hp w'') p) rows ds \<and>
        (\<forall>a. blocks (hp w1) a \<noteq> None \<longrightarrow> blocks (hp w'') a = blocks (hp w1) a) \<and> same_locks w w'' \<and>
        calls w'' = calls w1 @ cs \<and> only_steps st cs))"
proof -
  from open_ok [OF assms(1,4,7-11), of conn] obtain p w1 ps it where
    o: "db w1 = d1" "sems w1 = sems w \<and> rwlocks w1 = rwlocks w" "heap_ok (hp w1)" "calls w1 = calls w @ ps" "prepare_run sql SQLITE_OK st ps"
      "sorm_select_iterate_by_open api (Some conn) al (Some td) (Some cols) filter_arg w = Some (SORM_OK, Some p, Some it, w1)"
      "it_tables_desc it = [td]" "selection_ok [td] R (it_select_columns it, int (length R))" "it_stmt_handle it = st"
      "it_allocator it = al" by auto
  let ?xs = "indexes_in_result (it_select_columns it ! 0)"
  have pos: "positions R 0 td ?xs" using positions_selection [OF o(8), of 0] by simp
  have "readable api (it_allocator it) td ?xs"
    using assms(1-3) pos o(10) by (auto simp: readable_def iterate_ready_def table_usable_def positions_def)
  from iterator_on_open [OF o(7,8) assms(5) this] assms(12) o(9) have on: "iterator_on api it td ?xs" by simp
  have lock: "transaction_num conn = 0 \<longrightarrow> lock_ready conn w1"
    using assms(6) o(2) by (simp add: lock_ready_def)
  have lk: "same_locks w w1" using o(2) by (simp add: same_locks_def)
  have f: "fetch api (it_stmt_handle it) N (db w1) = (ds, r)" using assms(13) o(1,9) by simp
  from iterate_rows [OF on o(3) lock f assms(14)] o(9,10) same_locks_trans [OF lk] have
    "(\<forall>d \<in> set ds. row_fits api st td ?xs d) \<longrightarrow>
     (\<exists>rows it' w' w'' cs. iterated api conn (it, w1) rows (it', w') \<and>
        sorm_select_iterate_by api conn (Some it') True w'
          = Some (if r = SQLITE_DONE then SORM_OK else SORM_DB_ERROR, Some (it\<lparr>has_more := 0\<rparr>), 0, w'') \<and>
        list_all2 (\<lambda>p d. row_given api al st td ?xs d (hp w'') p) rows ds \<and>
        (\<forall>a. blocks (hp w1) a \<noteq> None \<longrightarrow> blocks (hp w'') a = blocks (hp w1) a) \<and> same_locks w w'' \<and>
        calls w'' = calls w1 @ cs \<and> only_steps st cs)" by blast
  with o(4-6) pos show ?thesis by blast
qed

text \<open>
  C27: The life of an iterator without an allocator. What \<open>sorm_select_iterate_by_open\<close> allocates are
  the blocks of the iterator; closing it at any later time, when they are still there, finalizes the
  statement and gives back exactly these blocks. The code tells whether SQLite finalized the statement.
\<close>

theorem iterate_open_close:
  assumes "iterate_ready None td cols (hp w) t h1" and "result_columns [td] cols = Some R" and "filter_arg \<noteq> Some []"
    and "sql = select_sql [td] cols ([], []) SORM_INNER_JOIN filter_arg" and "length sql \<le> 1023" and "no_nul sql"
    and "prepare_db api sql (db w) = (SQLITE_OK, st, d1)"
  shows "\<exists>p it w1. sorm_select_iterate_by_open api (Some conn) None (Some td) (Some cols) filter_arg w
      = Some (SORM_OK, Some p, Some it, w1) \<and>
    (\<forall>a. blocks (hp w) a = (if a \<in> set (iterator_blocks it) then None else blocks (hp w1) a)) \<and>
    (\<forall>w2 m. heap_ok (hp w2) \<and> (\<forall>a \<in> set (iterator_blocks it). blocks (hp w2) a = blocks (hp w1) a) \<longrightarrow>
      (\<exists>f w3 fs. sorm_select_iterate_close api (Some (it\<lparr>has_more := m\<rparr>)) w2
          = Some (if f \<noteq> SQLITE_OK then SORM_DB_ERROR else SORM_OK, w3) \<and>
        same_locks w2 w3 \<and> calls w3 = calls w2 @ fs \<and> finalize_run st f fs \<and>
        (\<forall>a. blocks (hp w3) a = (if a \<in> set (iterator_blocks it) then None else blocks (hp w2) a))))"
proof -
  from open_ok [OF assms, of conn] obtain p w1 it where
    o: "sorm_select_iterate_by_open api (Some conn) None (Some td) (Some cols) filter_arg w = Some (SORM_OK, Some p, Some it, w1)"
      "it_stmt_handle it = st" "it_allocator it = None" "iterator_owns it (hp w1)"
      "\<forall>a. blocks (hp w) a = (if a \<in> set (iterator_blocks it) then None else blocks (hp w1) a)" by auto
  have "\<exists>f w3 fs. sorm_select_iterate_close api (Some (it\<lparr>has_more := m\<rparr>)) w2
      = Some (if f \<noteq> SQLITE_OK then SORM_DB_ERROR else SORM_OK, w3) \<and>
    same_locks w2 w3 \<and> calls w3 = calls w2 @ fs \<and> finalize_run st f fs \<and>
    (\<forall>a. blocks (hp w3) a = (if a \<in> set (iterator_blocks it) then None else blocks (hp w2) a))"
    if w2: "heap_ok (hp w2)" "\<forall>a \<in> set (iterator_blocks it). blocks (hp w2) a = blocks (hp w1) a" for w2 and m :: int
  proof -
    have "iterator_owns (it\<lparr>has_more := m\<rparr>) (hp w2)"
      using o(4) w2(2) by (auto simp: iterator_owns_def iterator_blocks_def owns_def)
    from close_ok [OF this _ w2(1), of api] o(2,3) show ?thesis by (fastforce simp: iterator_blocks_def)
  qed
  with o(1,5) show ?thesis by blast
qed

text \<open>
  A statement that SQLite refuses. \<open>sorm_select_iterate_by_open\<close> returns \<open>SORM_DB_ERROR\<close> and gives all
  memory back, but the caller's iterator pointer is left at the block just freed.
\<close>

theorem iterate_open_dangling:
  assumes "iterate_ready al td cols (hp w) t h1" and "result_columns [td] cols = Some R" and "filter_arg \<noteq> Some []"
    and "sql = select_sql [td] cols ([], []) SORM_INNER_JOIN filter_arg" and "length sql \<le> 1023" and "no_nul sql"
    and "prepare_db api sql (db w) = (r, st, d1)" and "r \<noteq> SQLITE_OK"
  shows "\<exists>p w'. sorm_select_iterate_by_open api (Some conn) al (Some td) (Some cols) filter_arg w
      = Some (SORM_DB_ERROR, Some p, None, w') \<and> blocks (hp w') = blocks (hp w) \<and> p \<noteq> 0 \<and> blocks (hp w') p = None"
proof -
  from open_ok [OF assms(1-7), of conn] assms(8) obtain p w' where
    o: "sorm_select_iterate_by_open api (Some conn) al (Some td) (Some cols) filter_arg w = Some (SORM_DB_ERROR, Some p, None, w')"
      "blocks (hp w') = blocks (hp w)" "p \<noteq> 0" "blocks (hp w) p = None" by auto
  then show ?thesis by auto
qed

text \<open>
  Closing with an allocator. The iterator and its positions come from \<open>malloc\<close>, but
  \<open>sorm_select_iterate_close\<close> hands them to the \<open>free\<close> of the iterator's allocator. With an allocator that
  only takes back its own blocks closing does not return.
\<close>

theorem iterate_close_wrong_allocator:
  assumes "iterator_owns it (hp w)" and "it_allocator it = Some a"
    and "\<And>h p b. blocks h p = Some b \<Longrightarrow> owner b \<noteq> Some (memory_pool a) \<Longrightarrow> p \<noteq> 0 \<Longrightarrow> i_free (Some a) p h = None"
  shows "sorm_select_iterate_close api (Some it) w = None"
proof -
  obtain ret w1 where d: "db_finalize api (it_stmt_handle it) SORM_OK w = (ret, w1)" by fastforce
  then have h: "hp w1 = hp w" using db_finalize_returns [OF d] by blast
  have nz: "p \<noteq> 0" if "p \<in> set (iterator_blocks it)" for p
    using assms(1) that by (cases "p = 0") (auto simp: iterator_owns_def)
  have no: "i_free (Some a) p (hp w1) = None" if "p \<in> set (tl (iterator_blocks it))" for p
  proof -
    have "owns None (hp w) p" using assms(1) that by (simp add: iterator_owns_def)
    moreover have "p \<noteq> 0" using nz that by (simp add: iterator_blocks_def)
    ultimately show ?thesis using assms(3) h by (auto simp: owns_def)
  qed
  show ?thesis
  proof (cases "it_index_ptrs it")
    case Nil
    then show ?thesis using d assms(2) no [of "it_select_ptr it"] nz [of "it_select_ptr it"]
      by (simp add: sorm_select_iterate_close_def iterator_blocks_def)
  next
    case (Cons p ps)
    then show ?thesis using d assms(2) no [of p] nz [of p] nz [of "it_select_ptr it"]
      by (simp add: sorm_select_iterate_close_def iterator_blocks_def)
  qed
qed

section \<open>A concrete iterator\<close>

lemma demo_iterate_ready:
  "\<exists>t h1. iterate_ready (Some arena) demo_table ''*'' (hp (start_world d)) t h1"
  "\<exists>t h1. iterate_ready None demo_table ''*'' (hp (start_world d)) t h1"
proof -
  have sp: "split_names ''*'' = [''*'']" by code_simp
  have td: "table_usable demo_table" using demo_ready [of "[]"] by (auto simp: query_ready_def)
  have sz: "indexes_size [demo_table] = 12" by (simp add: indexes_size_def demo_table_def)
  note defs = iterate_ready_def td sp sz blank_def no_nul_def start_world_def heap_ok_def i_malloc_def
  show "\<exists>t h1. iterate_ready (Some arena) demo_table ''*'' (hp (start_world d)) t h1"
    by (simp add: defs arena_ok) (simp add: arena_def arena_alloc_def)
  show "\<exists>t h1. iterate_ready None demo_table ''*'' (hp (start_world d)) t h1"
    by (simp add: defs allocator_ok_libc malloc_def)
qed

lemma demo_select: "''SELECT * FROM device'' = select_sql [demo_table] ''*'' ([], []) SORM_INNER_JOIN None"
  by (simp add: select_sql_def demo_table_def)

lemma demo_select_prepare:
  "prepare_db rows_api ''SELECT * FROM device'' (db (start_world demo_rows)) = (SQLITE_OK, 1, demo_rows)"
  by (simp add: rows_prepare start_world_def)

theorem iterate_all_witness:
  "\<exists>p it w1 xs rows it' w' w''. sorm_select_iterate_by_open rows_api (Some sem_conn) (Some arena) (Some demo_table) (Some ''*'')
      None (start_world demo_rows) = Some (SORM_OK, Some p, Some it, w1) \<and> iterated rows_api sem_conn (it, w1) rows (it', w') \<and>
    sorm_select_iterate_by rows_api sem_conn (Some it') True w' = Some (SORM_OK, Some (it\<lparr>has_more := 0\<rparr>), 0, w'') \<and>
    list_all2 (\<lambda>p d. row_given rows_api (Some arena) 1 demo_table xs d (hp w'') p) rows [tl demo_rows, tl (tl demo_rows)]"
proof -
  let ?w = "start_world demo_rows" and ?ds = "[tl demo_rows, tl (tl demo_rows)]"
  obtain t h1 where rdy: "iterate_ready (Some arena) demo_table ''*'' (hp ?w) t h1" using demo_iterate_ready(1) [of demo_rows] by blast
  have d: "SQLITE_DONE \<noteq> SQLITE_ROW" "[(0, 0), (0, 1), (0, 2)] \<noteq> ([] :: (nat \<times> nat) list)"
    "transaction_num sem_conn = 0 \<longrightarrow> lock_ready sem_conn ?w" "None \<noteq> Some ([] :: string)"
    "length ''SELECT * FROM device'' \<le> 1023" "no_nul ''SELECT * FROM device''" by (simp_all add: sqlite_codes no_nul_def)
  from iterate_all [OF rdy arena_lasts rows_api_consistent demo_all_columns d(2-4) demo_select d(5,6) demo_select_prepare one_neq_zero
      demo_fetch(1) d(1)]
  obtain p it w1 xs where
    o: "sorm_select_iterate_by_open rows_api (Some sem_conn) (Some arena) (Some demo_table) (Some ''*'') None ?w
        = Some (SORM_OK, Some p, Some it, w1)" "positions [(0, 0), (0, 1), (0, 2)] 0 demo_table xs" and
    s: "(\<forall>d \<in> set ?ds. row_fits rows_api 1 demo_table xs d) \<longrightarrow>
     (\<exists>rows it' w' w'' cs. iterated rows_api sem_conn (it, w1) rows (it', w') \<and>
        sorm_select_iterate_by rows_api sem_conn (Some it') True w'
          = Some (if SQLITE_DONE = SQLITE_DONE then SORM_OK else SORM_DB_ERROR, Some (it\<lparr>has_more := 0\<rparr>), 0, w'') \<and>
        list_all2 (\<lambda>p d. row_given rows_api (Some arena) 1 demo_table xs d (hp w'') p) rows ?ds \<and>
        (\<forall>a. blocks (hp w1) a \<noteq> None \<longrightarrow> blocks (hp w'') a = blocks (hp w1) a) \<and> same_locks ?w w'' \<and>
        calls w'' = calls w1 @ cs \<and> only_steps 1 cs)" by blast
  have "\<forall>d \<in> set ?ds. row_fits rows_api 1 demo_table xs d" using demo_fits [OF o(2)] by simp
  with o(1) s show ?thesis unfolding simp_thms(6) if_True by blast
qed

theorem iterate_open_close_witness:
  "\<exists>p it w1 ret w2. sorm_select_iterate_by_open rows_api (Some sem_conn) None (Some demo_table) (Some ''*'') None
      (start_world demo_rows) = Some (SORM_OK, Some p, Some it, w1) \<and>
    sorm_select_iterate_close rows_api (Some it) w1 = Some (ret, w2) \<and> blocks (hp w2) = Map.empty"
proof -
  let ?w = "start_world demo_rows"
  obtain t h1 where rdy: "iterate_ready None demo_table ''*'' (hp ?w) t h1" using demo_iterate_ready(2) [of demo_rows] by blast
  have emp: "blocks (hp ?w) = Map.empty" by (simp add: start_world_def)
  from iterate_open_close [OF rdy demo_all_columns _ demo_select _ _ demo_select_prepare, of sem_conn]
  obtain p it w1 where
    o: "sorm_select_iterate_by_open rows_api (Some sem_conn) None (Some demo_table) (Some ''*'') None ?w
        = Some (SORM_OK, Some p, Some it, w1)"
      "\<forall>a. blocks (hp ?w) a = (if a \<in> set (iterator_blocks it) then None else blocks (hp w1) a)" and
    s: "\<forall>w2 m. heap_ok (hp w2) \<and> (\<forall>a \<in> set (iterator_blocks it). blocks (hp w2) a = blocks (hp w1) a) \<longrightarrow>
      (\<exists>f w3 fs. sorm_select_iterate_close rows_api (Some (it\<lparr>has_more := m\<rparr>)) w2
          = Some (if f \<noteq> SQLITE_OK then SORM_DB_ERROR else SORM_OK, w3) \<and>
        same_locks w2 w3 \<and> calls w3 = calls w2 @ fs \<and> finalize_run 1 f fs \<and>
        (\<forall>a. blocks (hp w3) a = (if a \<in> set (iterator_blocks it) then None else blocks (hp w2) a)))"
    by (auto simp: no_nul_def)
  have "heap_ok (hp w1)"
    using open_ok [OF rdy demo_all_columns _ demo_select _ _ demo_select_prepare, of sem_conn] o(1) by (auto simp: no_nul_def)
  with s [rule_format, of w1 "has_more it"] obtain ret w3 where
    c: "sorm_select_iterate_close rows_api (Some it) w1 = Some (ret, w3)"
      "\<forall>a. blocks (hp w3) a = (if a \<in> set (iterator_blocks it) then None else blocks (hp w1) a)" by auto
  have "blocks (hp w3) = Map.empty" using c(2) o(2) emp by (intro ext) metis
  with o(1) c(1) show ?thesis by blast
qed

theorem iterate_open_dangling_witness:
  "\<exists>p w'. sorm_select_iterate_by_open script_api (Some sem_conn) (Some arena) (Some demo_table) (Some ''*'') None (start_world [1])
      = Some (SORM_DB_ERROR, Some p, None, w') \<and> p \<noteq> 0 \<and> blocks (hp w') p = None"
proof -
  obtain t h1 where rdy: "iterate_ready (Some arena) demo_table ''*'' (hp (start_world [1 :: int])) t h1"
    using demo_iterate_ready(1) [of "[1]"] by blast
  have "prepare_db script_api ''SELECT * FROM device'' (db (start_world [1])) = (1, 1, [])"
    unfolding prepare_db_def by (subst busy_retry.simps) (simp add: script_api_def answer_def sqlite_codes start_world_def)
  from iterate_open_dangling [OF rdy demo_all_columns _ demo_select _ _ this, of sem_conn] show ?thesis
    by (auto simp: no_nul_def sqlite_codes)
qed

theorem iterate_close_wrong_allocator_witness:
  "\<exists>p it w1. sorm_select_iterate_by_open rows_api (Some sem_conn) (Some arena) (Some demo_table) (Some ''*'') None
      (start_world demo_rows) = Some (SORM_OK, Some p, Some it, w1) \<and> sorm_select_iterate_close rows_api (Some it) w1 = None"
proof -
  let ?w = "start_world demo_rows"
  obtain t h1 where rdy: "iterate_ready (Some arena) demo_table ''*'' (hp ?w) t h1" using demo_iterate_ready(1) [of demo_rows] by blast
  from open_ok [OF rdy demo_all_columns _ demo_select _ _ demo_select_prepare, of sem_conn] obtain p it w1 where
    o: "sorm_select_iterate_by_open rows_api (Some sem_conn) (Some arena) (Some demo_table) (Some ''*'') None ?w
        = Some (SORM_OK, Some p, Some it, w1)" "it_allocator it = Some arena" "iterator_owns it (hp w1)"
    by (auto simp: no_nul_def)
  have "i_free (Some arena) p h = None" if "blocks h p = Some b" "owner b \<noteq> Some (memory_pool arena)" "p \<noteq> 0" for h p b
    using that by (simp add: i_free_def arena_def)
  then have "sorm_select_iterate_close rows_api (Some it) w1 = None" by (rule iterate_close_wrong_allocator [OF o(3,2)])
  with o(1) show ?thesis by blast
qed

end
