(* ===== verification/Sorm_Store.thy ===== *)
theory Sorm_Store
  imports Sorm_Query_List "HOL-Library.Multiset"
begin

text \<open>
  Saving and selecting together. The database a run of the library leaves is the one its recorded calls lead to; so what
  SQLite documents of an insert that went through can be stated on the calls, and what it documents of a query on the rows it
  gives. On a SQLite that keeps to this, an object that was saved is among the objects selected. A small database
  that keeps to it is given at the end.
\<close>

section \<open>Replaying calls\<close>

text \<open>The database after a call, if it gives this answer.\<close>

fun play :: "'db sqlite3_api \<Rightarrow> call \<Rightarrow> 'db \<Rightarrow> 'db option" where
  "play api (Call_open path ret) d = (case sqlite3_open api path d of (r, d') \<Rightarrow> if r = ret then Some d' else None)"
| "play api (Call_close ret) d = (case sqlite3_close api d of (r, d') \<Rightarrow> if r = ret then Some d' else None)"
| "play api (Call_prepare sql ret st) d =
     (case sqlite3_prepare api sql d of (r, s, d') \<Rightarrow> if r = ret \<and> s = st then Some d' else None)"
| "play api (Call_bind st i v ret) d = (case sqlite3_bind api st i v d of (r, d') \<Rightarrow> if r = ret then Some d' else None)"
| "play api (Call_step st ret) d = (case sqlite3_step api st d of (r, d') \<Rightarrow> if r = ret then Some d' else None)"
| "play api (Call_finalize st ret) d = (case sqlite3_finalize api st d of (r, d') \<Rightarrow> if r = ret then Some d' else None)"
| "play api Call_lock d = Some d"
| "play api Call_unlock d = Some d"

fun plays :: "'db sqlite3_api \<Rightarrow> call list \<Rightarrow> 'db \<Rightarrow> 'db option" where
  "plays api [] d = Some d"
| "plays api (c # cs) d = do { d \<leftarrow> play api c d; plays api cs d }"

lemma plays_one: "plays api [c] d = play api c d"
  by (cases "play api c d") (simp_all del: play.simps)

lemma plays_append: "plays api (cs @ ds) d = do { d \<leftarrow> plays api cs d; plays api ds d }"
  by (induction cs arbitrary: d) (auto split: Option.bind_splits)

text \<open>The calls a run has added lead to the database it has left.\<close>

definition traced :: "'db sqlite3_api \<Rightarrow> 'db world \<Rightarrow> 'db world \<Rightarrow> bool" where
  "traced api w w' \<longleftrightarrow> (\<exists>cs. calls w' = calls w @ cs \<and> plays api cs (db w) = Some (db w'))"

lemma traced_refl [simp]: "traced api w w"
  by (simp add: traced_def)

lemma traced_same [simp]: "db w' = db w \<Longrightarrow> calls w' = calls w \<Longrightarrow> traced api w w'"
  by (simp add: traced_def)

lemma traced_trans: "traced api u v \<Longrightarrow> traced api v w \<Longrightarrow> traced api u w"
  by (auto simp: traced_def plays_append)

lemma traced_calls: "traced api w w' \<Longrightarrow> calls w' = calls w @ cs \<Longrightarrow> plays api cs (db w) = Some (db w')"
  by (auto simp: traced_def)

text \<open>The functions that call SQLite.\<close>

lemma traced_sq:
  "sq_prepare api sql w = (ret, st, w') \<Longrightarrow> traced api w w'"
  "sq_bind api st' i v w = (ret, w') \<Longrightarrow> traced api w w'"
  "sq_step api st' w = (ret, u, w') \<Longrightarrow> traced api w w'"
  "sq_finalize api st' w = (ret, u, w') \<Longrightarrow> traced api w w'"
  by (auto simp: sq_prepare_def sq_bind_def sq_step_def sq_finalize_def Let_def traced_def split: prod.splits)

lemma traced_retry:
  assumes "\<And>v r x v'. f v = (r, x, v') \<Longrightarrow> traced api v v'" and "busy_retry f n w = (ret, x, w')"
  shows "traced api w w'"
  by (rule busy_retry_inv [where P = "traced api w", OF _ assms(2)]) (use assms(1) traced_trans in blast, simp)

lemma traced_prepare: "i_sqlite3_prepare api sql w = (ret, st, w') \<Longrightarrow> traced api w w'"
  unfolding i_sqlite3_prepare_def by (rule traced_retry [OF traced_sq(1)])

lemma traced_finalize: "db_finalize api st rv w = (ret, w') \<Longrightarrow> traced api w w'"
  unfolding db_finalize_def i_sqlite3_finalize_def
  by (auto split: prod.splits intro: traced_retry [OF traced_sq(4)])

lemma traced_locks: "i_lock conn fl w = Some w' \<Longrightarrow> traced api w w'" "i_unlock conn w = Some w' \<Longrightarrow> traced api w w'"
  by (auto simp: i_lock_def i_unlock_def pthread_rwlock_rdlock_def pthread_rwlock_wrlock_def pthread_rwlock_unlock_def traced_def
      split: if_splits Option.bind_splits rwlock_state.splits)

lemma traced_step:
  assumes "i_sqlite3_step api conn st fl w = Some (ret, w')"
  shows "traced api w w'"
proof -
  from assms obtain w1 u w2 where "(if transaction_num conn = 0 then i_lock conn fl w else Some w) = Some w1"
    "busy_retry (sq_step api st) 0 w1 = (ret, u, w2)" "(if transaction_num conn = 0 then i_unlock conn w2 else Some w2) = Some w'"
    by (auto simp: i_sqlite3_step_def split: Option.bind_splits prod.splits)
  then have "traced api w w1" "traced api w1 w2" "traced api w2 w'"
    by (auto split: if_splits intro: traced_locks traced_retry [of "sq_step api st", OF traced_sq(3)])
  then show ?thesis by (blast intro: traced_trans)
qed

lemma traced_column_bind: "i_sqlite3_column_bind api st obj ci k w = Some (ret, w') \<Longrightarrow> traced api w w'"
  by (auto simp: i_sqlite3_column_bind_def split: Option.bind_splits if_splits sum.splits prod.splits dest: traced_sq(2))

lemma traced_for_bind: "for_bind api st obj guard is k w = Some (ret, k', w') \<Longrightarrow> traced api w w'"
proof (induction "is" arbitrary: k w)
  case (Cons i "is")
  then show ?case
    by (auto split: Option.bind_splits if_splits dest!: traced_column_bind intro: traced_trans)
qed simp

lemma traced_save_run:
  assumes "save_run api conn obj sql w = Some (ret, obj', w')"
  shows "traced api w w'"
proof -
  obtain r st w1 where p: "i_sqlite3_prepare api sql w = (r, st, w1)" by (metis prod_cases3)
  note t = traced_prepare [OF p]
  have "traced api w1 w'"
    using assms p unfolding save_run_def
    by (auto split: if_splits Option.bind_splits prod.splits
        dest!: traced_for_bind traced_step traced_finalize intro: traced_trans)
  with t show ?thesis by (rule traced_trans)
qed

lemma traced_save:
  assumes "wf_object obj" and "no_nul verb" and "i_save api (Some cn) (Some obj) verb w = Some (ret, res, w')"
  shows "traced api w w'"
proof (cases "valued obj = []")
  case True
  then show ?thesis using assms(3) by (simp add: i_save_def check_has_value_eq [OF assms(1)])
next
  case False
  then show ?thesis using assms(3) unfolding save_eq [OF assms(1) False assms(2)]
    by (auto split: if_splits Option.bind_splits dest: traced_save_run)
qed

section \<open>What SQLite keeps\<close>

text \<open>
  The values SQLite stores as they are bound to a column of their type: a NaN is stored as \<open>NULL\<close>, and a negative
  zero may come back as zero.
\<close>

definition kept_exactly :: "bind_value \<Rightarrow> bool" where
  "kept_exactly v = (case v of
     Bind_double x \<Rightarrow> \<not> (drop_bit 52 x AND 2047 = 2047 \<and> x AND (2 ^ 52 - 1) \<noteq> 0) \<and> x \<noteq> push_bit 63 1
   | _ \<Rightarrow> True)"

text \<open>
  The documented behaviour of a table: \<open>rows d\<close> are its rows in the database \<open>d\<close>, in any order. An insert that was prepared,
  whose values were bound and that stepped to \<open>SQLITE_DONE\<close> has added a row with these values in the named columns; a
  query for all columns that ends with \<open>SQLITE_DONE\<close> has given each row once, and the column functions answer its
  values.
\<close>

definition select_all_sql :: "sorm_table_descriptor_t \<Rightarrow> string" where
  "select_all_sql td = select_sql [td] ''*'' ([], []) SORM_INNER_JOIN None"

definition keeps_inserts :: "'db sqlite3_api \<Rightarrow> sorm_table_descriptor_t \<Rightarrow> ('db \<Rightarrow> bind_value list multiset) \<Rightarrow> bool" where
  "keeps_inserts api td rows \<longleftrightarrow> (\<forall>obj h vs conn cs d d'. wf_object obj \<and> desc obj = td \<and>
     column_values obj h (valued obj) vs \<and> list_all kept_exactly vs \<and> length (save_sql ''INSERT'' obj) \<le> 1023 \<and>
     stmt_protocol conn (save_sql ''INSERT'' obj) (numbered 1 vs) SORM_OK cs \<and> plays api cs d = Some d' \<longrightarrow>
     (\<exists>row. rows d' = add_mset row (rows d) \<and> length row = length (columns td) \<and>
        (\<forall>k < length vs. row ! (valued obj ! k) = vs ! k)))"

definition gives_rows :: "'db sqlite3_api \<Rightarrow> sorm_table_descriptor_t \<Rightarrow> ('db \<Rightarrow> bind_value list multiset) \<Rightarrow> bool" where
  "gives_rows api td rows \<longleftrightarrow> (\<forall>d st d1 N ds.
     prepare_db api (select_all_sql td) d = (SQLITE_OK, st, d1) \<and> fetch api st N d1 = (ds, SQLITE_DONE) \<longrightarrow>
     (\<exists>rs. mset rs = rows d \<and>
        list_all2 (\<lambda>dk row. \<forall>i < length (columns td). column_answers api st (int i) dk (row ! i)) ds rs))"

text \<open>
  The rows a \<open>WHERE\<close> clause with an equation for each of the columns \<open>is\<close> selects: nothing equals \<open>NULL\<close>. And what
  \<open>SET\<close> makes of a row.
\<close>

definition matches :: "nat list \<Rightarrow> bind_value list \<Rightarrow> bind_value list \<Rightarrow> bool" where
  "matches is vs row \<longleftrightarrow> list_all (\<lambda>(i, v). v \<noteq> Bind_null \<and> row ! i = v) (zip is vs)"

definition set_values :: "nat list \<Rightarrow> bind_value list \<Rightarrow> bind_value list \<Rightarrow> bind_value list" where
  "set_values is vs row = fold (\<lambda>(i, v) row. row[i := v]) (zip is vs) row"

text \<open>A row whose values the columns can hold.\<close>

definition row_storable :: "sorm_table_descriptor_t \<Rightarrow> bind_value list \<Rightarrow> bool" where
  "row_storable td row \<longleftrightarrow> (\<forall>i < length (columns td). row ! i = Bind_null \<or> storable (columns td ! i) (row ! i))"

section \<open>Saving and selecting\<close>

lemma all_columns_one: "all_columns [td] = map (Pair 0) [0..<length (columns td)]"
  by (simp add: all_columns_def table_columns_def)

lemma result_columns_all: "result_columns [td] ''*'' = Some (all_columns [td])"
proof -
  have "map strip (split_names ''*'') = [''*'']" by code_simp
  then show ?thesis by (simp add: result_columns_def expand_name_def)
qed

lemma positions_all:
  assumes "positions (all_columns [td]) 0 td xs" and "i < length (columns td)"
  shows "xs ! i = int i"
proof -
  let ?R = "map (Pair (0 :: nat)) [0..<length (columns td)]"
  have "(0, i) \<in> set ?R" using assms(2) by auto
  then have "\<exists>k < length ?R. xs ! i = int k \<and> ?R ! k = (0, i)"
    using assms unfolding positions_def position_ok_def all_columns_one by metis
  then show ?thesis by auto
qed

text \<open>A row that holds the values of a stored row, read back.\<close>

lemma row_holds_values:
  assumes "row_holds api st xs d h o'" and "desc o' = td" and "positions (all_columns [td]) 0 td xs" and "i < length (columns td)"
    and "column_answers api st (int i) d v" and "storable (columns td ! i) v"
  shows "column_bind_value o' (int i) h = Some (Inr (read_back (columns td ! i) v))"
  using assms positions_all [OF assms(3,4)] by (auto simp: row_holds_def column_holds_def NO_INDEXES_IN_RESULT_def)

lemma row_storable_fits:
  assumes "\<forall>i < length (columns td). column_answers api st (int i) d (row ! i)" and "row_storable td row"
    and "positions (all_columns [td]) 0 td xs"
  shows "row_fits api st td xs d"
  unfolding row_fits_def column_fits_def
proof (intro allI impI)
  fix i assume i: "i < length (columns td)"
  with assms(1) have a: "column_answers api st (xs ! i) d (row ! i)" using positions_all [OF assms(3) i] by simp
  from assms(2) i have "row ! i = Bind_null \<or> storable (columns td ! i) (row ! i)" by (simp add: row_storable_def)
  moreover have "sqlite3_column_type api st (xs ! i) d = SQLITE_NULL" if "row ! i = Bind_null"
    using a that by (simp add: column_answers_def)
  ultimately show "sqlite3_column_type api st (xs ! i) d = SQLITE_NULL \<or>
      (\<exists>v. column_answers api st (xs ! i) d v \<and> storable (columns td ! i) v)" using a by blast
qed

lemma insert_adds_row:
  assumes "keeps_inserts api td rows" and "wf_object obj" and "desc obj = td" and "valued obj \<noteq> []"
    and "transaction_num cn = 0 \<longrightarrow> lock_ready cn w" and "column_values obj (hp w) (valued obj) vs" and "list_all kept_exactly vs"
    and "pk_is_int td" and "finalize_keeps_rowid api" and "gives_handle api (save_sql ''INSERT'' obj)"
    and run: "sorm_insert api (Some cn) (Some obj) w = Some (SORM_OK, res, w1)"
  obtains row where "rows (db w1) = add_mset row (rows (db w))" and "length row = length (columns td)"
    and "\<forall>k < length vs. row ! (valued obj ! k) = vs ! k"
proof -
  have nn: "no_nul ''INSERT''" by (simp add: no_nul_def)
  have i: "i_save api (Some cn) (Some obj) ''INSERT'' w = Some (SORM_OK, res, w1)" using run by (simp add: sorm_insert_def)
  have l: "length (save_sql ''INSERT'' obj) \<le> 1023"
    using i unfolding save_eq [OF assms(2,4) nn] by (auto split: if_splits)
  obtain ret obj' w' cs where s: "save_run api cn obj (save_sql ''INSERT'' obj) w = Some (ret, obj', w')" "after_calls w cs w'"
    "stmt_protocol cn (save_sql ''INSERT'' obj) (numbered 1 vs) ret cs"
    using save_run_returns [OF assms(2,5,6) _ assms(9,10)] assms(3,8) by blast
  have e: "ret = SORM_OK" "w' = w1" using i s(1) l unfolding save_eq [OF assms(2,4) nn] by auto
  have "plays api cs (db w) = Some (db w1)"
    using traced_calls [OF traced_save_run [OF s(1)]] s(2) e(2) by (simp add: after_calls_def)
  with assms(1-3,6,7) l s(3) e(1) that show thesis unfolding keeps_inserts_def by blast
qed

text \<open>An object that holds the values of a row, as far as its columns can.\<close>

definition holds_row :: "sorm_table_descriptor_t \<Rightarrow> heap \<Rightarrow> sorm_object \<Rightarrow> bind_value list \<Rightarrow> bool" where
  "holds_row td h o' row \<longleftrightarrow> desc o' = td \<and> (\<forall>i < length (columns td). storable (columns td ! i) (row ! i) \<longrightarrow>
     column_bind_value o' (int i) h = Some (Inr (read_back (columns td ! i) (row ! i))))"

lemma rows_fit_all:
  assumes "list_all2 (\<lambda>dk row. \<forall>i < length (columns td). column_answers api st (int i) dk (row ! i)) ds rs"
    and "\<forall>row \<in> set rs. row_storable td row" and "positions (all_columns [td]) 0 td xs"
  shows "\<forall>d \<in> set ds. row_fits api st td xs d"
proof
  fix d assume "d \<in> set ds"
  then obtain k where k: "k < length ds" "d = ds ! k" by (metis in_set_conv_nth)
  with assms(1) have "\<forall>i < length (columns td). column_answers api st (int i) d (rs ! k ! i)" "rs ! k \<in> set rs"
    by (auto simp: list_all2_conv_all_nth)
  with assms(2) show "row_fits api st td xs d" by (intro row_storable_fits [OF _ _ assms(3)]) auto
qed

lemma list_holds_rows:
  assumes "list_all2 (\<lambda>dk row. \<forall>i < length (columns td). column_answers api st (int i) dk (row ! i)) ds rs"
    and "list_all2 (\<lambda>(q, dd, o') d. desc o' = td \<and> row_holds api st xs d h o') es ds"
    and "positions (all_columns [td]) 0 td xs"
  shows "list_all2 (\<lambda>(q, dd, o'). holds_row td h o') es rs"
  unfolding list_all2_conv_all_nth
proof (intro conjI allI impI)
  show "length es = length rs" using list_all2_lengthD [OF assms(1)] list_all2_lengthD [OF assms(2)] by simp
  fix k assume k: "k < length es"
  obtain q dd o' where o: "es ! k = (q, dd, o')" by (metis prod_cases3)
  have h: "desc o' = td" "row_holds api st xs (ds ! k) h o'" using list_all2_nthD [OF assms(2) k] o by auto
  have "\<forall>i < length (columns td). column_answers api st (int i) (ds ! k) (rs ! k ! i)"
    using list_all2_nthD [OF assms(1), of k] k list_all2_lengthD [OF assms(2)] by simp
  then have "holds_row td h o' (rs ! k)" using row_holds_values [OF h(2,1) assms(3)] h(1) by (auto simp: holds_row_def)
  then show "(case es ! k of (q, dd, o') \<Rightarrow> holds_row td h o') (rs ! k)" by (simp add: o)
qed

lemma all_rows_selected:
  assumes "gives_rows api td rows" and "query_ready api al [td] ''*'' (hp w)" and "transaction_num cn = 0 \<longrightarrow> lock_ready cn w"
    and "length (select_all_sql td) \<le> 1023" and "\<forall>row \<in># rows (db w). row_storable td row"
    and "prepare_db api (select_all_sql td) (db w) = (SQLITE_OK, st, d1)" and "st \<noteq> 0" and "fetch api st N d1 = (ds, SQLITE_DONE)"
  shows "\<exists>f p w' es rs. sorm_select_all_list_by api (Some cn) al (Some td) (Some ''*'') None (Some m) True w =
      Some (query_code SORM_OK f (int (length es)), Some (int (length es)), p, w') \<and>
    list_ok (pool_of al) (hp w') p es \<and> mset rs = rows (db w) \<and> list_all2 (\<lambda>(q, dd, o'). holds_row td (hp w') o') es rs"
proof -
  from assms(1,6,8) obtain rs where
    rs: "mset rs = rows (db w)" "list_all2 (\<lambda>dk row. \<forall>i < length (columns td). column_answers api st (int i) dk (row ! i)) ds rs"
    unfolding gives_rows_def by blast
  have tu: "wf_table td" "columns td \<noteq> []" using assms(2) by (simp_all add: query_ready_def table_usable_def)
  have R: "all_columns [td] \<noteq> []" using tu(2) by (simp add: all_columns_one)
  have nn: "no_nul (select_all_sql td)" using tu(1) by (simp add: select_all_sql_def select_sql_def wf_table_def)
  from all_list_selected [OF assms(2) result_columns_all R assms(3) _ refl _ _ _ assms(7,8), of None m]
    assms(4,6) nn obtain ret0 f n p w' xs where
    s: "sorm_select_all_list_by api (Some cn) al (Some td) (Some ''*'') None (Some m) True w = Some (query_code ret0 f n, Some n, p, w')"
      "positions (all_columns [td]) 0 td xs" "list_query api al st td xs ds True w ret0 n p w'"
    unfolding select_all_sql_def [symmetric] by (auto simp: SQLITE_DONE_def SQLITE_ROW_def)
  have "\<forall>row \<in> set rs. row_storable td row" using assms(5) unfolding rs(1) [symmetric] by simp
  with s(3) rows_fit_all [OF rs(2) _ s(2)] have r: "ret0 = SORM_OK" "n = int (length ds)" by (auto simp: list_query_def)
  obtain es where e: "list_ok (pool_of al) (hp w') p es"
    "list_all2 (\<lambda>(q, dd, o') d. desc o' = td \<and> row_holds api st xs d (hp w') o') es ds"
  proof (cases "ds = []")
    case True
    with s(3) have "p = 0" by (simp add: list_query_def)
    with that [of "[]"] True show thesis by (simp add: list_ok_def)
  next
    case False
    with s(3) r(1) that show thesis by (auto simp: list_query_def rows_listed_def)
  qed
  have "query_code ret0 f n = query_code SORM_OK f (int (length es))" "n = int (length es)"
    using r list_all2_lengthD [OF e(2)] by simp_all
  with s(1) have "sorm_select_all_list_by api (Some cn) al (Some td) (Some ''*'') None (Some m) True w =
      Some (query_code SORM_OK f (int (length es)), Some (int (length es)), p, w')" by simp
  then show ?thesis using e(1) rs(1) list_holds_rows [OF rs(2) e(2) s(2)] by blast
qed

text \<open>The values of the valued columns are values of their columns.\<close>

lemma valued_storable:
  assumes "wf_object obj" and "column_values obj h (valued obj) vs" and "k < length vs"
  shows "valued obj ! k < length (columns (desc obj))" and "storable (columns (desc obj) ! (valued obj ! k)) (vs ! k)"
proof -
  have l: "k < length (valued obj)" using assms(2,3) by (simp add: column_values_def list_all2_lengthD)
  then show i: "valued obj ! k < length (columns (desc obj))"
    using wf_object_length [OF assms(1)] nth_mem [OF l] by (auto simp: valued_def simp del: nth_mem)
  show "storable (columns (desc obj) ! (valued obj ! k)) (vs ! k)"
    using i list_all2_nthD [OF assms(2) [unfolded column_values_def] l] by (rule bound_storable [OF assms(1)])
qed

section \<open>Properties\<close>

text \<open>
  C3: What is saved is found. On a SQLite that keeps the rows of a table: after \<open>sorm_insert\<close> has returned \<open>SORM_OK\<close> for
  an object, \<open>sorm_select_all_list_by\<close> for all columns, once SQLite accepts the query and gives its rows to the end, returns a
  list with one entry for each row that was there and one more, and some entry is an object of the table whose
  columns hold the values the saved object had in its valued columns (an empty blob on the heap comes back as
  \<open>NULL\<close>). The code is \<open>SORM_OK\<close> unless SQLite refuses to finalize the query.
\<close>

theorem saved_is_selected:
  assumes "keeps_inserts api td rows" and "gives_rows api td rows"
    and "wf_object obj" and "desc obj = td" and "valued obj \<noteq> []" and "pk_is_int td" and "finalize_keeps_rowid api"
    and "transaction_num cn = 0 \<longrightarrow> lock_ready cn w" and "column_values obj (hp w) (valued obj) vs" and "list_all kept_exactly vs"
    and "sorm_insert api (Some cn) (Some obj) w = Some (SORM_OK, res, w1)"
    and "query_ready api al [td] ''*'' (hp w1)" and "transaction_num cn = 0 \<longrightarrow> lock_ready cn w1"
    and "length (select_all_sql td) \<le> 1023" and "\<forall>row \<in># rows (db w1). row_storable td row"
    and "prepare_db api (select_all_sql td) (db w1) = (SQLITE_OK, st, d1)" and "st \<noteq> 0" and "fetch api st N d1 = (ds, SQLITE_DONE)"
    and "gives_handle api (save_sql ''INSERT'' obj)"
  shows "\<exists>f p w2 es. sorm_select_all_list_by api (Some cn) al (Some td) (Some ''*'') None (Some m) True w1 =
      Some (if f = SQLITE_OK then SORM_OK else SORM_DB_ERROR, Some (int (length es)), p, w2) \<and>
    length es = size (rows (db w)) + 1 \<and> list_ok (pool_of al) (hp w2) p es \<and>
    (\<exists>(q, dd, o') \<in> set es. desc o' = td \<and> (\<forall>k < length vs. column_bind_value o' (int (valued obj ! k)) (hp w2) =
       Some (Inr (read_back (columns td ! (valued obj ! k)) (vs ! k)))))"
proof -
  obtain row where row: "rows (db w1) = add_mset row (rows (db w))" "\<forall>k < length vs. row ! (valued obj ! k) = vs ! k"
    using insert_adds_row [OF assms(1,3-5,8-10,6,7,19,11)] by blast
  from all_rows_selected [OF assms(2,12-18), of m] obtain f p w2 es rs where
    s: "sorm_select_all_list_by api (Some cn) al (Some td) (Some ''*'') None (Some m) True w1 =
        Some (query_code SORM_OK f (int (length es)), Some (int (length es)), p, w2)"
      "list_ok (pool_of al) (hp w2) p es" "mset rs = rows (db w1)" "list_all2 (\<lambda>(q, dd, o'). holds_row td (hp w2) o') es rs" by blast
  have len: "length es = size (rows (db w)) + 1"
    using list_all2_lengthD [OF s(4)] s(3) row(1) by (metis size_add_mset size_mset Suc_eq_plus1)
  have "row \<in> set rs" using s(3) row(1) by (metis set_mset_mset union_single_eq_member)
  then obtain k where k: "k < length es" "rs ! k = row" using list_all2_lengthD [OF s(4)] by (metis in_set_conv_nth)
  obtain q dd o' where o: "es ! k = (q, dd, o')" by (metis prod_cases3)
  have h: "holds_row td (hp w2) o' row" using list_all2_nthD [OF s(4) k(1)] k(2) by (simp add: o)
  have "column_bind_value o' (int (valued obj ! j)) (hp w2) = Some (Inr (read_back (columns td ! (valued obj ! j)) (vs ! j)))"
    if j: "j < length vs" for j
    using valued_storable [OF assms(3,9) j] h row(2) j assms(4) by (simp add: holds_row_def)
  moreover have "(q, dd, o') \<in> set es" using nth_mem [OF k(1)] by (simp add: o)
  moreover have "query_code SORM_OK f (int (length es)) = (if f = SQLITE_OK then SORM_OK else SORM_DB_ERROR)"
    using len by (simp add: query_code_def)
  ultimately show ?thesis using s(1,2) h len
    by (intro exI [of _ f] exI [of _ p] exI [of _ w2] exI [of _ es] conjI bexI [of _ "(q, dd, o')"]) (auto simp: holds_row_def)
qed

section \<open>A concrete database\<close>

text \<open>
  A database with the one table \<open>device\<close> that understands the statements of the library: it looks for the insert, delete or
  update with some of the columns whose text it is given, takes anything else for the query, and refuses values above a
  limit. The columns of the current row are answered as by \<open>rows_api\<close>.
\<close>

datatype plan = Insert "nat list" | Delete "nat list" | Update "nat list" | Query

record store =
  tbl :: "bind_value list list"
  plan :: plan
  params :: "bind_value list"
  out :: "bind_value list list"

definition insert_sql :: "nat list \<Rightarrow> string" where
  "insert_sql is = ''INSERT INTO device ('' @ list_text (map (\<lambda>i. c_name (columns demo_table ! i)) is) @
     '' VALUES ('' @ list_text (map (\<lambda>i. ''?'') is)"

definition demo_names :: "nat list \<Rightarrow> string list" where
  "demo_names is = map (\<lambda>i. c_name (columns demo_table ! i)) is"

definition demo_unique :: "nat list \<Rightarrow> nat list" where
  "demo_unique is = filter (\<lambda>i. sorm_is_unique_column (c_constraint (columns demo_table ! i))) is"

definition remove_sql :: "nat list \<Rightarrow> string" where
  "remove_sql is = ''DELETE FROM device WHERE '' @ and_text (demo_names is)"

definition modify_sql :: "nat list \<Rightarrow> string" where
  "modify_sql is = ''UPDATE device SET'' @ set_text (demo_names is) @ '' WHERE'' @ and_text (demo_names (demo_unique is))"

definition statements :: "(string \<times> plan) list" where
  "statements = map (\<lambda>is. (insert_sql is, Insert is)) (subseqs [0, 1, 2]) @
     map (\<lambda>is. (remove_sql is, Delete is)) (subseqs [0, 1, 2]) @ map (\<lambda>is. (modify_sql is, Update is)) (subseqs [0, 1, 2])"

definition plan_of :: "string \<Rightarrow> plan" where
  "plan_of sql = (case map_of statements sql of Some p \<Rightarrow> p | None \<Rightarrow> Query)"

definition norm_row :: "bind_value list \<Rightarrow> bind_value list" where
  "norm_row r = map (\<lambda>i. if i < length r \<and> value_size (r ! i) \<le> 1000 then r ! i else Bind_null) [0, 1, 2]"

definition new_row :: "nat list \<Rightarrow> bind_value list \<Rightarrow> bind_value list" where
  "new_row is vs = map (\<lambda>j. case map_of (zip is vs) j of Some v \<Rightarrow> v | None \<Rightarrow> Bind_null) [0, 1, 2]"

text \<open>What a statement does with the table.\<close>

fun acted :: "plan \<Rightarrow> bind_value list \<Rightarrow> bind_value list list \<Rightarrow> bind_value list list" where
  "acted (Insert is) vs t = t @ [new_row is vs]"
| "acted (Delete is) vs t = filter (\<lambda>r. \<not> matches is vs (norm_row r)) t"
| "acted (Update is) vs t = map (\<lambda>r. if matches (demo_unique is) (drop (length is) vs) (norm_row r)
     then set_values is (take (length is) vs) (norm_row r) else r) t"
| "acted Query vs t = t"

definition store_rows :: "store \<Rightarrow> bind_value list multiset" where
  "store_rows d = mset (map norm_row (tbl d))"

definition store_api :: "store sqlite3_api" where
  "store_api = \<lparr>
     sqlite3_open = (\<lambda>path d. (0, d)), sqlite3_close = (\<lambda>d. (0, d)),
     sqlite3_prepare = (\<lambda>sql d. (0, 1, d\<lparr>plan := plan_of sql, params := [], out := [] # map norm_row (tbl d)\<rparr>)),
     sqlite3_bind = (\<lambda>st i v d. if value_size v \<le> 1000 then (0, d\<lparr>params := params d @ [v]\<rparr>) else (18, d)),
     sqlite3_step = (\<lambda>st d. case plan d of
          Query \<Rightarrow> (if tl (out d) = [] then 101 else 100, d\<lparr>out := tl (out d)\<rparr>)
        | p \<Rightarrow> (101, d\<lparr>tbl := acted p (params d) (tbl d)\<rparr>)),
     sqlite3_finalize = (\<lambda>st d. (0, d)),
     sqlite3_column_type = (\<lambda>st i d. sqlite3_column_type rows_api st i (out d)),
     sqlite3_column_int = (\<lambda>st i d. sqlite3_column_int rows_api st i (out d)),
     sqlite3_column_int64 = (\<lambda>st i d. sqlite3_column_int64 rows_api st i (out d)),
     sqlite3_column_double = (\<lambda>st i d. sqlite3_column_double rows_api st i (out d)),
     sqlite3_column_text = (\<lambda>st i d. sqlite3_column_text rows_api st i (out d)),
     sqlite3_column_blob = (\<lambda>st i d. sqlite3_column_blob rows_api st i (out d)),
     sqlite3_column_bytes = (\<lambda>st i d. sqlite3_column_bytes rows_api st i (out d)),
     sqlite3_last_insert_rowid = (\<lambda>d. of_nat (length (tbl d))), sqlite3_changes = (\<lambda>d. 1)\<rparr>"

lemma store_consistent: "columns_consistent store_api"
  using rows_api_consistent unfolding columns_consistent_def by (simp add: store_api_def)

lemma store_answers: "column_answers store_api st ri d v \<longleftrightarrow> column_answers rows_api st ri (out d) v"
  by (cases v) (simp_all add: column_answers_def store_api_def)

lemma store_keeps_rowid: "finalize_keeps_rowid store_api"
  by (simp add: finalize_keeps_rowid_def store_api_def)

text \<open>The query.\<close>

lemma store_step_db: "plan d = Query \<Longrightarrow>
    step_db store_api st d = (if tl (out d) = [] then SQLITE_DONE else SQLITE_ROW, d\<lparr>out := tl (out d)\<rparr>)"
  unfolding step_db_def by (subst busy_retry.simps) (simp add: step_call_db_def store_api_def sqlite_codes)

lemma store_fetch:
  "plan d = Query \<Longrightarrow> fetch store_api st N d = (ds, SQLITE_DONE) \<Longrightarrow> map (\<lambda>x. hd (out x)) ds = tl (out d) \<and> (\<forall>x \<in> set ds. out x \<noteq> [])"
proof (induction N arbitrary: d ds)
  case 0
  then show ?case by (simp add: sqlite_codes)
next
  case (Suc N)
  show ?case
  proof (cases "tl (out d) = []")
    case True
    with Suc.prems show ?thesis by (simp add: store_step_db sqlite_codes)
  next
    case False
    with Suc.prems obtain ds' where ds': "fetch store_api st N (d\<lparr>out := tl (out d)\<rparr>) = (ds', SQLITE_DONE)"
      "ds = (d\<lparr>out := tl (out d)\<rparr>) # ds'"
      by (auto simp: store_step_db sqlite_codes split: prod.splits)
    from Suc.IH [OF _ ds'(1)] Suc.prems(1) False show ?thesis by (simp add: ds'(2))
  qed
qed

lemma select_is_query: "plan_of (select_all_sql demo_table) = Query"
  by code_simp

definition queried_store :: "store \<Rightarrow> store" where
  "queried_store d = d\<lparr>plan := Query, params := [], out := [] # map norm_row (tbl d)\<rparr>"

lemma store_prepare_db: "prepare_db store_api (select_all_sql demo_table) d = (SQLITE_OK, 1, queried_store d)"
proof -
  have "take (nat SQL_STMT_MAX_LEN) (select_all_sql demo_table) = select_all_sql demo_table" by code_simp
  then show ?thesis unfolding prepare_db_def by (subst busy_retry.simps) (simp add: store_api_def sqlite_codes select_is_query queried_store_def)
qed

lemma norm_row_length [simp]: "length (norm_row r) = 3"
  by (simp add: norm_row_def)

lemma norm_row_size: "i < 3 \<Longrightarrow> value_size (norm_row r ! i) \<le> 1000"
  by (auto simp: norm_row_def numeral_3_eq_3 less_Suc_eq)

lemma store_gives_rows: "gives_rows store_api demo_table store_rows"
  unfolding gives_rows_def
proof (intro allI impI, elim conjE)
  fix d st d1 N ds
  assume p: "prepare_db store_api (select_all_sql demo_table) d = (SQLITE_OK, st, d1)" and f: "fetch store_api st N d1 = (ds, SQLITE_DONE)"
  let ?rs = "map norm_row (tbl d)"
  from p have d1: "plan d1 = Query" "out d1 = [] # ?rs" by (auto simp: store_prepare_db queried_store_def)
  from store_fetch [OF d1(1) f] d1(2) have h: "map (\<lambda>x. hd (out x)) ds = ?rs" "\<forall>x \<in> set ds. out x \<noteq> []" by simp_all
  have "column_answers store_api st (int i) (ds ! k) (?rs ! k ! i)" if "k < length ds" "i < 3" for k i
  proof -
    have l: "length ds = length ?rs" using h(1) by (metis length_map)
    have e: "hd (out (ds ! k)) = ?rs ! k" using h(1) that(1) by (metis nth_map)
    moreover have "out (ds ! k) \<noteq> []" using h(2) that(1) by simp
    ultimately have "rows_value (int i) (out (ds ! k)) = ?rs ! k ! i"
      using that l by (cases "out (ds ! k)") (simp_all add: rows_value_def)
    moreover have "value_size (?rs ! k ! i) \<le> 1000" using norm_row_size [OF that(2)] that(1) l by simp
    ultimately show ?thesis unfolding store_answers by (rule rows_api_answers)
  qed
  moreover have "length ds = length ?rs" using h(1) by (metis length_map)
  ultimately show "\<exists>rs. mset rs = store_rows d \<and>
      list_all2 (\<lambda>dk row. \<forall>i < length (columns demo_table). column_answers store_api st (int i) dk (row ! i)) ds rs"
    by (intro exI [of _ ?rs]) (simp add: store_rows_def list_all2_conv_all_nth)
qed

text \<open>The insert.\<close>

lemma play_store:
  "play store_api (Call_prepare sql ret st) d = Some d' \<Longrightarrow>
     ret = SQLITE_OK \<and> d' = d\<lparr>plan := plan_of sql, params := [], out := [] # map norm_row (tbl d)\<rparr>"
  "play store_api (Call_bind st i v ret) d = Some d' \<Longrightarrow>
     (ret = SQLITE_OK \<longleftrightarrow> value_size v \<le> 1000) \<and> (ret = SQLITE_OK \<longrightarrow> d' = d\<lparr>params := params d @ [v]\<rparr>)"
  "play store_api (Call_step st ret) d = Some d' \<Longrightarrow> plan d \<noteq> Query \<Longrightarrow>
     ret = SQLITE_DONE \<and> d' = d\<lparr>tbl := acted (plan d) (params d) (tbl d)\<rparr>"
  "play store_api (Call_finalize st ret) d = Some d' \<Longrightarrow> ret = SQLITE_OK \<and> d' = d"
  by (auto simp: store_api_def sqlite_codes split: if_splits plan.splits)

lemma plays_prepare_run:
  assumes "prepare_run sql ret st ps" and "plays store_api ps d = Some d'"
  shows "ret = SQLITE_OK \<and> d' = d\<lparr>plan := plan_of (take 1023 sql), params := [], out := [] # map norm_row (tbl d)\<rparr>"
proof -
  from assms(1) obtain es where es: "ps = es @ [Call_prepare (take 1023 sql) ret st]"
    "\<forall>e \<in> set es. \<exists>y. e = Call_prepare (take 1023 sql) SQLITE_BUSY y" by (auto simp: prepare_run_def)
  have "es = []"
  proof (cases es)
    case (Cons e es')
    then obtain y where "e = Call_prepare (take 1023 sql) SQLITE_BUSY y" using es(2) by auto
    with Cons es(1) assms(2) show ?thesis by (auto simp: store_api_def sqlite_codes split: Option.bind_splits if_splits)
  qed simp
  with es(1) assms(2) have "play store_api (Call_prepare (take 1023 sql) ret st) d = Some d'" by (simp del: plays.simps play.simps add: plays_one)
  then show ?thesis by (rule play_store(1))
qed

lemma plays_binds:
  "plays store_api (bind_calls st (numbered k vs)) d = Some d' \<Longrightarrow>
   d' = d\<lparr>params := params d @ vs\<rparr> \<and> (\<forall>v \<in> set vs. value_size v \<le> 1000)"
proof (induction vs arbitrary: k d)
  case Nil
  then show ?case by (simp add: bind_calls_def)
next
  case (Cons v vs)
  from Cons.prems obtain d1 where d1: "play store_api (Call_bind st k v SQLITE_OK) d = Some d1"
    "plays store_api (bind_calls st (numbered (k + 1) vs)) d1 = Some d'"
    by (auto simp: bind_calls_def split: Option.bind_splits)
  from Cons.IH [OF d1(2)] play_store(2) [OF d1(1)] show ?case by simp
qed

lemma plays_locks: "plays api (step_events conn ss) d = plays api ss d"
  by (auto simp: step_events_def lock_events_def plays_append split: Option.bind_splits)

lemma plays_step_run:
  assumes "step_run st ret ss" and "plays store_api ss d = Some d'" and "plan d \<noteq> Query"
  shows "ret = SQLITE_DONE \<and> d' = d\<lparr>tbl := acted (plan d) (params d) (tbl d)\<rparr>"
proof -
  from assms(1) obtain n where n: "ss = replicate n (Call_step st SQLITE_BUSY) @ [Call_step st ret]" by (auto simp: step_run_def)
  have "n = 0"
  proof (cases n)
    case (Suc m)
    with n assms(2,3) show ?thesis by (auto simp: store_api_def sqlite_codes split: Option.bind_splits if_splits plan.splits)
  qed
  with n assms(2) have "play store_api (Call_step st ret) d = Some d'" by (simp del: plays.simps play.simps add: plays_one)
  then show ?thesis using assms(3) by (rule play_store(3))
qed

lemma plays_finalize_run:
  assumes "finalize_run st ret fs" and "plays store_api fs d = Some d'"
  shows "ret = SQLITE_OK \<and> d' = d"
proof -
  from assms(1) obtain n where n: "fs = replicate n (Call_finalize st SQLITE_BUSY) @ [Call_finalize st ret]" by (auto simp: finalize_run_def)
  have "n = 0"
  proof (cases n)
    case (Suc m)
    with n assms(2) show ?thesis by (auto simp: store_api_def sqlite_codes split: Option.bind_splits if_splits)
  qed
  with n assms(2) have "play store_api (Call_finalize st ret) d = Some d'" by (simp del: plays.simps play.simps add: plays_one)
  then show ?thesis by (rule play_store(4))
qed

text \<open>The text of an insert tells its columns.\<close>

lemma plan_of_insert: "is \<in> set (subseqs [0, 1, 2]) \<Longrightarrow> plan_of (insert_sql is) = Insert is"
proof -
  have "list_all (\<lambda>is. plan_of (insert_sql is) = Insert is) (subseqs [0, 1, 2])" by code_simp
  then show "is \<in> set (subseqs [0, 1, 2]) \<Longrightarrow> plan_of (insert_sql is) = Insert is" unfolding list_all_iff by blast
qed

lemma valued_subseq:
  assumes "wf_object obj" and "desc obj = demo_table"
  shows "valued obj \<in> set (subseqs [0, 1, 2])" and "save_sql ''INSERT'' obj = insert_sql (valued obj)"
proof -
  have "[0..<length (cells obj)] = [0, 1, 2]" using wf_object_length [OF assms(1)] assms(2) by (simp add: upt_rec)
  then show "valued obj \<in> set (subseqs [0, 1, 2])" by (simp add: valued_def)
  show "save_sql ''INSERT'' obj = insert_sql (valued obj)"
    by (simp add: save_sql_def insert_sql_def names_of_def assms(2) demo_table_def)
qed

lemma norm_row_id: "length r = 3 \<Longrightarrow> \<forall>v \<in> set r. value_size v \<le> 1000 \<Longrightarrow> norm_row r = r"
  by (auto simp: norm_row_def numeral_3_eq_3 length_Suc_conv)

lemma norm_new_row:
  assumes "is \<in> set (subseqs [0, 1, 2])" and "length is = length vs" and "\<forall>v \<in> set vs. value_size v \<le> 1000"
  shows "norm_row (new_row is vs) = new_row is vs \<and> (\<forall>k < length vs. new_row is vs ! (is ! k) = vs ! k)"
proof (intro conjI allI impI)
  have "value_size (case map_of (zip is vs) j of Some v \<Rightarrow> v | None \<Rightarrow> Bind_null) \<le> 1000" for j
    using assms(3) by (auto split: option.splits dest!: map_of_SomeD set_zip_rightD)
  then show "norm_row (new_row is vs) = new_row is vs" by (intro norm_row_id) (auto simp: new_row_def)
  fix k assume k: "k < length vs"
  have i: "distinct is" "\<forall>i \<in> set is. i < 3" using assms(1) by auto
  have "new_row is vs ! j = (case map_of (zip is vs) j of Some v \<Rightarrow> v | None \<Rightarrow> Bind_null)" if "j < 3" for j
    using that by (auto simp: new_row_def numeral_3_eq_3 numeral_2_eq_2 less_Suc_eq)
  moreover have "map_of (zip is vs) (is ! k) = Some (vs ! k)" using i(1) assms(2) k by (simp add: map_of_zip_nth)
  ultimately show "new_row is vs ! (is ! k) = vs ! k" using i(2) k assms(2) by simp
qed

text \<open>A statement that changes the table, run to its end.\<close>

lemma store_stmt_tbl:
  assumes sql: "length sql \<le> 1023" "plan_of sql \<noteq> Query"
    and pr: "stmt_protocol conn sql (numbered 1 vs) SORM_OK cs" and pl: "plays store_api cs d = Some d'"
  shows "tbl d' = acted (plan_of sql) vs (tbl d) \<and> (\<forall>v \<in> set vs. value_size v \<le> 1000)"
proof -
  from pr obtain st ps ss fs r f where c: "cs = ps @ bind_calls st (numbered 1 vs) @ step_events conn ss @ fs"
      "prepare_run sql SQLITE_OK st ps" "step_run st r ss" "finalize_run st f fs"
    by (cases rule: stmt_protocol.cases) auto
  from pl obtain d1 d2 d3 where
    d: "plays store_api ps d = Some d1" "plays store_api (bind_calls st (numbered 1 vs)) d1 = Some d2"
      "plays store_api ss d2 = Some d3" "plays store_api fs d3 = Some d'"
    unfolding c(1) plays_append plays_locks by (auto split: Option.bind_splits)
  have p1: "plan d1 = plan_of sql" "params d1 = []" "tbl d1 = tbl d"
    using plays_prepare_run [OF c(2) d(1)] sql(1) by simp_all
  note p2 = plays_binds [OF d(2)]
  have "tbl d3 = acted (plan_of sql) vs (tbl d)"
    using plays_step_run [OF c(3) d(3)] p2 p1 sql(2) by simp
  then show ?thesis using plays_finalize_run [OF c(4) d(4)] p2 by simp
qed

lemma store_inserts: "keeps_inserts store_api demo_table store_rows"
  unfolding keeps_inserts_def
proof (intro allI impI, elim conjE)
  fix obj h vs conn cs d d'
  assume o: "wf_object obj" "desc obj = demo_table" "column_values obj h (valued obj) vs" "length (save_sql ''INSERT'' obj) \<le> 1023"
    and pr: "stmt_protocol conn (save_sql ''INSERT'' obj) (numbered 1 vs) SORM_OK cs" and pl: "plays store_api cs d = Some d'"
  note v = valued_subseq [OF o(1,2)]
  have "plan_of (save_sql ''INSERT'' obj) = Insert (valued obj)" using plan_of_insert [OF v(1)] v(2) by simp
  with store_stmt_tbl [OF o(4) _ pr pl]
  have t: "tbl d' = tbl d @ [new_row (valued obj) vs] \<and> (\<forall>v \<in> set vs. value_size v \<le> 1000)" by simp
  have l: "length (valued obj) = length vs" using o(3) by (simp add: column_values_def list_all2_lengthD)
  show "\<exists>row. store_rows d' = add_mset row (store_rows d) \<and> length row = length (columns demo_table) \<and>
      (\<forall>k < length vs. row ! (valued obj ! k) = vs ! k)"
    using norm_new_row [OF v(1) l] t
    by (intro exI [of _ "new_row (valued obj) vs"]) (auto simp: store_rows_def new_row_def)
qed

lemma store_stmt_ok:
  assumes "length sql \<le> 1023" and "plan_of sql \<noteq> Query" and "\<forall>v \<in> set vs. value_size v \<le> 1000"
    and "stmt_protocol conn sql (numbered 1 vs) ret cs" and "plays store_api cs d = Some d'"
  shows "ret = SORM_OK"
  using assms(4)
proof (cases rule: stmt_protocol.cases)
  case (not_prepared r st)
  with plays_prepare_run assms(5) show ?thesis by blast
next
  case (not_bound st ps bs i v rest r f fs)
  have "snd ` set (numbered k us) = set us" for k :: int and us :: "bind_value list" by (induction us arbitrary: k) auto
  then have "v \<in> set vs" using not_bound(4) by (metis in_set_conv_decomp image_eqI snd_conv)
  moreover from assms(5) obtain d1 d2 where "play store_api (Call_bind st i v r) d1 = Some d2"
    unfolding not_bound(2) plays_append by (auto simp del: play.simps split: Option.bind_splits)
  ultimately show ?thesis using play_store(2) not_bound(5) assms(3) by blast
next
  case (executed st ps r ss f fs)
  from assms(5) obtain d1 d2 d3 where
    d: "plays store_api ps d = Some d1" "plays store_api (bind_calls st (numbered 1 vs)) d1 = Some d2"
      "plays store_api ss d2 = Some d3" "plays store_api fs d3 = Some d'"
    unfolding executed(2) plays_append plays_locks by (auto split: Option.bind_splits)
  have "plan d2 \<noteq> Query" using plays_prepare_run [OF executed(3) d(1)] plays_binds [OF d(2)] assms(1,2) by simp
  then show ?thesis using plays_step_run [OF executed(4) d(3)] plays_finalize_run [OF executed(5) d(4)] executed(1) by simp
qed

lemma store_fetch_ends:
  "plan d = Query \<Longrightarrow> out d = x # rs \<Longrightarrow> \<exists>ds. fetch store_api st (Suc (length rs)) d = (ds, SQLITE_DONE)"
proof (induction rs arbitrary: d x)
  case Nil
  then show ?case by (simp add: store_step_db sqlite_codes)
next
  case (Cons r rs)
  from Cons.IH [of "d\<lparr>out := r # rs\<rparr>" r] Cons.prems obtain ds where
    "fetch store_api st (Suc (length rs)) (d\<lparr>out := r # rs\<rparr>) = (ds, SQLITE_DONE)" by auto
  then show ?case using Cons.prems by (subst fetch.simps) (simp add: store_step_db sqlite_codes del: fetch.simps)
qed

lemma store_query_ends: "\<exists>N ds. fetch store_api st N (queried_store d) = (ds, SQLITE_DONE)"
  using store_fetch_ends [of "queried_store d" "[]" "map norm_row (tbl d)" st] unfolding queried_store_def by fastforce

lemma select_all_demo: "length (select_all_sql demo_table) \<le> 1023"
  by code_simp

lemma store_query_ready:
  assumes "hp w = hp (start_world d)"
  shows "query_ready store_api (Some arena) [demo_table] ''*'' (hp w)"
proof -
  have "split_names ''*'' = [''*'']" by code_simp
  then show ?thesis unfolding assms
    by (auto simp: query_ready_def arena_ok arena_lasts store_consistent table_usable_def indexes_size_def
        start_world_def heap_ok_def blank_def no_nul_def) (simp_all add: demo_table_def)
qed

text \<open>The object \<open>demo_object\<close>, whose column \<open>uuid\<close> is set, saved into the empty table and found there.\<close>

definition empty_store :: store where
  "empty_store = \<lparr>tbl = [], plan = Query, params = [], out = []\<rparr>"

lemma plain_conn_ready [simp]: "lock_ready plain_conn w"
  by (simp add: lock_ready_def plain_conn_def sorm_semaphore_enabled_def sorm_rwlock_enabled_def
      SORM_ENABLE_SEMAPHORE_def SORM_ENABLE_RWLOCK_def)

lemma saved_object_facts:
  "desc demo_object = demo_table" "wf_object demo_object" "valued demo_object = [1]"
  "column_values demo_object h [1] [Bind_text ''abc'']"
proof -
  show "desc demo_object = demo_table" by (simp add: demo_object_def)
  show "wf_object demo_object"
    unfolding demo_object_def using object_ok_new(1) [OF wf_demo_table]
    by (intro wf_object_put) (simp_all add: object_ok_def wf_cell_def demo_column_def is_cstr_def
        stat_needfree_bit SORM_STAT_VALUED_def bit_1_iff)
  show "valued demo_object = [1]"
    by (simp add: valued_def demo_object_def put_cell_def new_object_def upt_rec sorm_is_stat_valued_def sorm_is_stat_def SORM_STAT_VALUED_def)
  show "column_values demo_object h [1] [Bind_text ''abc'']"
    by (simp add: column_values_def demo_object_def column_bind_value_def put_cell_def new_object_def column_at_def
        nth_opt_def get_member_def cell_at_def i_get_blob_len_def is_cstr_def demo_table_def demo_column_def)
qed

lemma store_handle: "gives_handle store_api sql"
  by (simp add: gives_handle_def store_api_def)

lemma demo_inserted:
  obtains res w1 where "sorm_insert store_api (Some plain_conn) (Some demo_object) (start_world empty_store) = Some (SORM_OK, res, w1)"
    and "hp w1 = hp (start_world empty_store)" and "tbl (db w1) = [[Bind_null, Bind_text ''abc'', Bind_null]]"
proof -
  let ?w = "start_world empty_store" and ?sql = "save_sql ''INSERT'' demo_object"
  note o = saved_object_facts
  have vs: "column_values demo_object (hp ?w) (valued demo_object) [Bind_text ''abc'']" unfolding o(3) by (rule o(4))
  have pk: "pk_is_int (desc demo_object)" by (simp add: o(1) pk_is_int_def demo_table_def demo_column_def)
  have sql: "?sql = insert_sql [1]" "length ?sql \<le> 1023" using valued_subseq(2) [OF o(2,1)] o(3)
    by (simp_all add: insert_sql_def list_text_def demo_column_def)
  from save_run_returns [OF o(2) _ vs pk store_keeps_rowid store_handle, of plain_conn ?sql] obtain ret obj' w1 cs where
    s: "save_run store_api plain_conn demo_object ?sql ?w = Some (ret, obj', w1)" "after_calls ?w cs w1"
      "stmt_protocol plain_conn ?sql (numbered 1 [Bind_text ''abc'']) ret cs" by auto
  have pl: "plays store_api cs (db ?w) = Some (db w1)"
    using traced_calls [OF traced_save_run [OF s(1)]] s(2) by (simp add: after_calls_def)
  have pn: "plan_of ?sql = Insert [1]" unfolding sql(1) by (rule plan_of_insert) simp
  have ok: "ret = SORM_OK" by (rule store_stmt_ok [OF sql(2) _ _ s(3) pl]) (simp_all add: pn)
  have "tbl (db w1) = [[Bind_null, Bind_text ''abc'', Bind_null]]"
    using store_stmt_tbl [OF sql(2) _ s(3) [unfolded ok] pl] pn by (simp add: start_world_def empty_store_def new_row_def)
  moreover have "sorm_insert store_api (Some plain_conn) (Some demo_object) ?w = Some (SORM_OK, Some obj', w1)"
    using s(1) ok sql(2) o(3) by (simp add: sorm_insert_def save_eq [OF o(2)] no_nul_def)
  ultimately show thesis using that s(2) by (simp add: after_calls_def)
qed

theorem saved_is_selected_witness:
  "\<exists>res w1 ret p w2 es. sorm_insert store_api (Some plain_conn) (Some demo_object) (start_world empty_store) = Some (SORM_OK, res, w1) \<and>
     sorm_select_all_list_by store_api (Some plain_conn) (Some arena) (Some demo_table) (Some ''*'') None (Some 0) True w1 =
       Some (ret, Some 1, p, w2) \<and> list_ok (pool_of (Some arena)) (hp w2) p es \<and>
     (\<exists>(q, dd, o') \<in> set es. desc o' = demo_table \<and> column_bind_value o' 1 (hp w2) = Some (Inr (Bind_text ''abc'')))"
proof -
  let ?w = "start_world empty_store"
  note o = saved_object_facts
  obtain res w1 where w1: "sorm_insert store_api (Some plain_conn) (Some demo_object) ?w = Some (SORM_OK, res, w1)"
    "hp w1 = hp ?w" "tbl (db w1) = [[Bind_null, Bind_text ''abc'', Bind_null]]" by (rule demo_inserted)
  have vs: "column_values demo_object (hp ?w) (valued demo_object) [Bind_text ''abc'']" unfolding o(3) by (rule o(4))
  have pk: "pk_is_int demo_table" by (simp add: pk_is_int_def demo_table_def demo_column_def)
  note q = store_query_ready [OF w1(2)]
  have r: "\<forall>row \<in># store_rows (db w1). row_storable demo_table row"
    by (simp add: store_rows_def w1(3) norm_row_def row_storable_def storable_def mem_legal_def too_long_def demo_column_def no_nul_def
        numeral_3_eq_3 less_Suc_eq)
  obtain N ds where f: "fetch store_api 1 N (queried_store (db w1)) = (ds, SQLITE_DONE)" using store_query_ends by blast
  have "valued demo_object \<noteq> []" "list_all kept_exactly [Bind_text ''abc'']" "(1 :: nat) \<noteq> 0"
    by (simp_all add: o(3) kept_exactly_def)
  from saved_is_selected [OF store_inserts store_gives_rows o(2,1) this(1) pk store_keeps_rowid _ vs this(2) w1(1) q _ select_all_demo r
      store_prepare_db this(3) f store_handle, of 0]
  have "\<exists>ret p w2 es. sorm_select_all_list_by store_api (Some plain_conn) (Some arena) (Some demo_table) (Some ''*'') None (Some 0) True w1 =
      Some (ret, Some (int (length es)), p, w2) \<and> length es = size (store_rows (db ?w)) + 1 \<and> list_ok (pool_of (Some arena)) (hp w2) p es \<and>
      (\<exists>(q, dd, o') \<in> set es. desc o' = demo_table \<and> column_bind_value o' (int (valued demo_object ! 0)) (hp w2) =
        Some (Inr (read_back (columns demo_table ! (valued demo_object ! 0)) ([Bind_text ''abc''] ! 0))))"
    by fastforce
  then show ?thesis using w1(1) by (fastforce simp: o(3) store_rows_def start_world_def empty_store_def read_back_def)
qed

end
