(* ===== verification/Sorm_Change.thy ===== *)
theory Sorm_Change
  imports Sorm_Store
begin

text \<open>
  Deleting, updating and selecting together, as \<open>Sorm_Store\<close> does for saving: on a SQLite with the documented behaviour of
  \<open>DELETE\<close> and \<open>UPDATE\<close>, what is selected after \<open>sorm_delete\<close> are the other rows, and after \<open>sorm_update\<close> the rows with
  the new values.
\<close>

section \<open>The calls of a change\<close>

lemma traced_for_binds: "for_binds api st obj gs k w = Some (ret, k', w') \<Longrightarrow> traced api w w'"
proof (induction gs arbitrary: k w)
  case (Cons g gs)
  then show ?case
    by (auto split: Option.bind_splits if_splits prod.splits dest!: traced_for_bind intro: traced_trans)
qed simp

lemma traced_change_run:
  assumes "change_run api conn obj guards sql w = Some (ret, w')"
  shows "traced api w w'"
proof -
  obtain r st w1 where p: "i_sqlite3_prepare api sql w = (r, st, w1)" by (metis prod_cases3)
  note t = traced_prepare [OF p]
  have "traced api w1 w'"
    using assms p unfolding change_run_def
    by (auto split: if_splits Option.bind_splits prod.splits
        dest!: traced_for_binds traced_step traced_finalize intro: traced_trans)
  with t show ?thesis by (rule traced_trans)
qed

section \<open>What SQLite changes\<close>

text \<open>
  A statement that was prepared, whose values were bound and that stepped to \<open>SQLITE_DONE\<close> has turned the rows of the
  table into \<open>eff\<close> of them. This is asked only for rows with values of the types of their columns, so that equality in SQL
  is equality of values.
\<close>

definition changes_rows ::
  "'db sqlite3_api \<Rightarrow> sorm_table_descriptor_t \<Rightarrow> ('db \<Rightarrow> bind_value list multiset) \<Rightarrow> string \<Rightarrow> bind_value list \<Rightarrow>
   (bind_value list multiset \<Rightarrow> bind_value list multiset) \<Rightarrow> bool" where
  "changes_rows api td rows sql vs eff \<longleftrightarrow> (\<forall>conn cs d d'.
     (\<forall>row \<in># rows d. row_storable td row \<and> list_all kept_exactly row) \<and>
     change_protocol conn sql (numbered 1 vs) SORM_OK cs \<and> plays api cs d = Some d' \<longrightarrow> rows d' = eff (rows d))"

definition keeps_deletes :: "'db sqlite3_api \<Rightarrow> sorm_table_descriptor_t \<Rightarrow> ('db \<Rightarrow> bind_value list multiset) \<Rightarrow> bool" where
  "keeps_deletes api td rows \<longleftrightarrow> (\<forall>obj h vs. wf_object obj \<and> desc obj = td \<and> column_values obj h (valued obj) vs \<and>
     valued obj \<noteq> [] \<and> list_all kept_exactly vs \<and> length (delete_sql obj) \<le> 1019 \<longrightarrow>
     changes_rows api td rows (delete_sql obj) vs (filter_mset (\<lambda>row. \<not> matches (valued obj) vs row)))"

definition updated :: "sorm_object \<Rightarrow> bind_value list \<Rightarrow> bind_value list \<Rightarrow> bind_value list \<Rightarrow> bind_value list" where
  "updated obj vs us row = (if matches (unique_valued obj) us row then set_values (valued obj) vs row else row)"

definition keeps_updates :: "'db sqlite3_api \<Rightarrow> sorm_table_descriptor_t \<Rightarrow> ('db \<Rightarrow> bind_value list multiset) \<Rightarrow> bool" where
  "keeps_updates api td rows \<longleftrightarrow> (\<forall>obj h vs us. wf_object obj \<and> desc obj = td \<and> column_values obj h (valued obj) vs \<and>
     column_values obj h (unique_valued obj) us \<and> unique_valued obj \<noteq> [] \<and> list_all kept_exactly vs \<and>
     length (update_sql obj) \<le> 1019 \<longrightarrow>
     changes_rows api td rows (update_sql obj) (vs @ us) (image_mset (updated obj vs us)))"

lemma change_applied:
  assumes "changes_rows api td rows sql vs eff" and "\<forall>row \<in># rows (db w). row_storable td row \<and> list_all kept_exactly row"
    and "transaction_num cn = 0 \<longrightarrow> lock_ready cn w" and "gives_handle api sql"
    and "\<And>st w'. hp w' = hp w \<Longrightarrow> st \<noteq> 0 \<Longrightarrow> binds_all st (numbered 1 vs) w' (for_binds api st obj guards 1 w') n"
    and run: "change_run api cn obj guards sql w = Some (SORM_OK, w1)"
  shows "rows (db w1) = eff (rows (db w))"
proof -
  from change_run_returns [OF assms(3-5)] run obtain cs where
    cs: "after_calls w cs w1" "change_protocol cn sql (numbered 1 vs) SORM_OK cs" by auto
  have "plays api cs (db w) = Some (db w1)"
    using traced_calls [OF traced_change_run [OF run]] cs(1) by (simp add: after_calls_def)
  with assms(1,2) cs(2) show ?thesis unfolding changes_rows_def by blast
qed

text \<open>A row stays storable when values of its columns are set.\<close>

lemma set_values_nth:
  "length is = length vs \<Longrightarrow>
   set_values is vs row ! i = row ! i \<or> (\<exists>k < length vs. is ! k = i \<and> set_values is vs row ! i = vs ! k)"
proof (induction "is" vs arbitrary: row rule: list_induct2)
  case (Cons j "is" v vs)
  have s: "set_values (j # is) (v # vs) row = set_values is vs (row[j := v])" by (simp add: set_values_def)
  from Cons.IH [of "row[j := v]"] consider "set_values is vs (row[j := v]) ! i = row[j := v] ! i"
    | k where "k < length vs" "is ! k = i" "set_values is vs (row[j := v]) ! i = vs ! k" by blast
  then show ?case
  proof cases
    case 1
    then show ?thesis unfolding s by (cases "i = j"; cases "j < length row") (auto simp: list_update_beyond)
  next
    case 2
    then show ?thesis unfolding s by (intro disjI2 exI [of _ "Suc k"]) simp
  qed
qed (simp add: set_values_def)

lemma updated_storable:
  assumes "wf_object obj" and "column_values obj h (valued obj) vs" and "row_storable (desc obj) row"
  shows "row_storable (desc obj) (updated obj vs us row)"
  unfolding row_storable_def
proof (intro allI impI)
  fix i assume i: "i < length (columns (desc obj))"
  have l: "length (valued obj) = length vs" using assms(2) by (simp add: column_values_def list_all2_lengthD)
  from set_values_nth [OF l, of row i] valued_storable(2) [OF assms(1,2)] assms(3) i
  show "updated obj vs us row ! i = Bind_null \<or> storable (columns (desc obj) ! i) (updated obj vs us row ! i)"
    unfolding updated_def row_storable_def by (cases "matches (unique_valued obj) us row") auto
qed

section \<open>Properties\<close>

text \<open>
  C4: What is deleted is gone, and nothing else. On a SQLite that keeps the rows of a table: after \<open>sorm_delete\<close> has
  returned \<open>SORM_OK\<close> for an object with valued columns, \<open>sorm_select_all_list_by\<close> for all columns, once SQLite accepts the
  query and gives its rows to the end, returns a list with one entry for each row that differs from the
  object in one of its valued columns, holding the values of this row. When all rows match the code is
  \<open>SORM_NOEXIST\<close> and the list is \<open>NULL\<close>.
\<close>

theorem deleted_is_gone:
  assumes "keeps_deletes api td rows" and "gives_rows api td rows"
    and "wf_object obj" and "desc obj = td" and "valued obj \<noteq> []" and "gives_handle api (delete_sql obj)"
    and "transaction_num cn = 0 \<longrightarrow> lock_ready cn w" and "column_values obj (hp w) (valued obj) vs" and "list_all kept_exactly vs"
    and "\<forall>row \<in># rows (db w). row_storable td row \<and> list_all kept_exactly row"
    and "sorm_delete api (Some cn) (Some obj) w = Some (SORM_OK, w1)"
    and "query_ready api al [td] ''*'' (hp w1)" and "transaction_num cn = 0 \<longrightarrow> lock_ready cn w1"
    and "length (select_all_sql td) \<le> 1023"
    and "prepare_db api (select_all_sql td) (db w1) = (SQLITE_OK, st, d1)" and "st \<noteq> 0" and "fetch api st N d1 = (ds, SQLITE_DONE)"
  shows "\<exists>f p w2 es rs. sorm_select_all_list_by api (Some cn) al (Some td) (Some ''*'') None (Some m) True w1 =
      Some (query_code SORM_OK f (int (length es)), Some (int (length es)), p, w2) \<and> list_ok (pool_of al) (hp w2) p es \<and>
    mset rs = filter_mset (\<lambda>row. \<not> matches (valued obj) vs row) (rows (db w)) \<and>
    list_all2 (\<lambda>(q, dd, o'). holds_row td (hp w2) o') es rs"
proof -
  have run: "length (delete_sql obj) \<le> 1019" "change_run api cn obj [is_valued obj] (delete_sql obj) w = Some (SORM_OK, w1)"
    using assms(11) unfolding delete_eq [OF assms(3,5)] by (auto split: if_splits)
  have "changes_rows api td rows (delete_sql obj) vs (filter_mset (\<lambda>row. \<not> matches (valued obj) vs row))"
    using assms(1,3-5,8,9) run(1) unfolding keeps_deletes_def by blast
  from change_applied [OF this assms(10,7,6) delete_binds [OF assms(3,8)] run(2)]
  have rows: "rows (db w1) = filter_mset (\<lambda>row. \<not> matches (valued obj) vs row) (rows (db w))" .
  then have "\<forall>row \<in># rows (db w1). row_storable td row" using assms(10) by simp
  from all_rows_selected [OF assms(2,12-14) this assms(15-17), of m] show ?thesis unfolding rows .
qed

text \<open>
  C5: What is updated is read with its new values. On a SQLite that keeps the rows of a table: after \<open>sorm_update\<close> has
  returned \<open>SORM_OK\<close> for an object with a valued unique column, \<open>sorm_select_all_list_by\<close> for all columns returns one
  entry for each row of the table: those that agree with the object in its valued unique columns now hold the
  values of all of its valued columns, the others what they held before.
\<close>

theorem updated_is_selected:
  assumes "keeps_updates api td rows" and "gives_rows api td rows"
    and "wf_object obj" and "desc obj = td" and "unique_valued obj \<noteq> []" and "gives_handle api (update_sql obj)"
    and "transaction_num cn = 0 \<longrightarrow> lock_ready cn w" and "column_values obj (hp w) (valued obj) vs"
    and "column_values obj (hp w) (unique_valued obj) us" and "list_all kept_exactly vs"
    and "\<forall>row \<in># rows (db w). row_storable td row \<and> list_all kept_exactly row"
    and "sorm_update api (Some cn) (Some obj) w = Some (SORM_OK, w1)"
    and "query_ready api al [td] ''*'' (hp w1)" and "transaction_num cn = 0 \<longrightarrow> lock_ready cn w1"
    and "length (select_all_sql td) \<le> 1023"
    and "prepare_db api (select_all_sql td) (db w1) = (SQLITE_OK, st, d1)" and "st \<noteq> 0" and "fetch api st N d1 = (ds, SQLITE_DONE)"
  shows "\<exists>f p w2 es rs. sorm_select_all_list_by api (Some cn) al (Some td) (Some ''*'') None (Some m) True w1 =
      Some (query_code SORM_OK f (int (length es)), Some (int (length es)), p, w2) \<and> list_ok (pool_of al) (hp w2) p es \<and>
    mset rs = image_mset (updated obj vs us) (rows (db w)) \<and>
    list_all2 (\<lambda>(q, dd, o'). holds_row td (hp w2) o') es rs"
proof -
  have v: "valued obj \<noteq> []" using assms(5) by (auto simp: unique_valued_def)
  have run: "length (update_sql obj) \<le> 1019"
      "change_run api cn obj [is_valued obj, is_unique_valued obj] (update_sql obj) w = Some (SORM_OK, w1)"
    using assms(5,12) unfolding update_eq [OF assms(3) v] by (auto split: if_splits)
  have "changes_rows api td rows (update_sql obj) (vs @ us) (image_mset (updated obj vs us))"
    using assms(1,3-5,8-10) run(1) unfolding keeps_updates_def by blast
  from change_applied [OF this assms(11,7,6) update_binds [OF assms(3,8,9)] run(2)]
  have rows: "rows (db w1) = image_mset (updated obj vs us) (rows (db w))" .
  then have "\<forall>row \<in># rows (db w1). row_storable td row" using assms(4,11) updated_storable [OF assms(3,8)] by auto
  from all_rows_selected [OF assms(2,13-15) this assms(16-18), of m] show ?thesis unfolding rows .
qed

section \<open>The concrete database\<close>

lemma change_ok_stmt: "change_protocol conn sql bs SORM_OK cs \<Longrightarrow> stmt_protocol conn sql bs SORM_OK cs"
  by (erule change_protocol.cases)
    (auto split: if_splits dest: stmt_protocol.executed [where r = SQLITE_DONE and f = SQLITE_OK])

lemma store_change_ok:
  assumes "change_protocol conn sql (numbered 1 vs) ret cs" and "plays store_api cs d = Some d'"
    and sql: "length sql \<le> 1023" "plan_of sql \<noteq> Query" "\<forall>v \<in> set vs. value_size v \<le> 1000"
  shows "ret = SORM_OK"
  using assms(1)
proof (cases rule: change_protocol.cases)
  case (change_not_prepared r st)
  from stmt_protocol.not_prepared [OF this(2,3)] assms(2) have "SORM_DB_ERROR = SORM_OK" by (rule store_stmt_ok [OF sql])
  then show ?thesis by simp
next
  case (change_not_bound st ps es f fs)
  from stmt_not_bound [OF this(3-5)] assms(2) [unfolded this(2)] have "SORM_DB_ERROR = SORM_OK" by (rule store_stmt_ok [OF sql])
  then show ?thesis by simp
next
  case (change_done st ps ss f fs)
  from stmt_protocol.executed [OF this(3-5)] assms(2) [unfolded this(2)]
  have "(if f = SQLITE_OK \<and> SQLITE_DONE = SQLITE_DONE then SORM_OK else SORM_DB_ERROR) = SORM_OK" by (rule store_stmt_ok [OF sql])
  then show ?thesis using change_done(1) by simp
next
  case (unfinished st ps r ss)
  from assms(2) obtain d1 d2 where
    d: "plays store_api ps d = Some d1" "plays store_api (bind_calls st (numbered 1 vs)) d1 = Some d2" "plays store_api ss d2 = Some d'"
    unfolding unfinished(2) plays_append plays_locks by (auto split: Option.bind_splits)
  have "plan d2 \<noteq> Query" using plays_prepare_run [OF unfinished(3) d(1)] plays_binds [OF d(2)] sql by simp
  then show ?thesis using plays_step_run [OF unfinished(4) d(3)] unfinished(5) by simp
qed

lemma store_change_run:
  assumes "\<And>st w'. hp w' = hp w \<Longrightarrow> st \<noteq> 0 \<Longrightarrow> binds_all st (numbered 1 vs) w' (for_binds store_api st obj guards 1 w') n"
    and "length sql \<le> 1023" and "plan_of sql \<noteq> Query" and "\<forall>v \<in> set vs. value_size v \<le> 1000"
  shows "\<exists>w1. change_run store_api plain_conn obj guards sql w = Some (SORM_OK, w1) \<and> hp w1 = hp w"
proof -
  obtain ret w1 cs where r: "change_run store_api plain_conn obj guards sql w = Some (ret, w1)" "after_calls w cs w1"
    "change_protocol plain_conn sql (numbered 1 vs) ret cs"
    using change_run_returns [of plain_conn w store_api sql "numbered 1 vs" obj guards n] store_handle assms(1) by auto
  have "plays store_api cs (db w) = Some (db w1)"
    using traced_calls [OF traced_change_run [OF r(1)]] r(2) by (simp add: after_calls_def)
  from store_change_ok [OF r(3) this assms(2-4)] r(1,2) show ?thesis by (auto simp: after_calls_def)
qed

lemma plan_of_change:
  "is \<in> set (subseqs [0, 1, 2]) \<Longrightarrow> plan_of (remove_sql is) = Delete is"
  "is \<in> set (subseqs [0, 1, 2]) \<Longrightarrow> plan_of (modify_sql is) = Update is"
proof -
  have "list_all (\<lambda>is. plan_of (remove_sql is) = Delete is \<and> plan_of (modify_sql is) = Update is) (subseqs [0, 1, 2])"
    by code_simp
  then show "is \<in> set (subseqs [0, 1, 2]) \<Longrightarrow> plan_of (remove_sql is) = Delete is"
    "is \<in> set (subseqs [0, 1, 2]) \<Longrightarrow> plan_of (modify_sql is) = Update is" unfolding list_all_iff by blast+
qed

lemma demo_change_sql:
  assumes "wf_object obj" and "desc obj = demo_table"
  shows "delete_sql obj = remove_sql (valued obj)" and "update_sql obj = modify_sql (valued obj)"
    and "unique_valued obj = demo_unique (valued obj)"
  using assms(2) by (simp_all add: delete_sql_def remove_sql_def update_sql_def update_head_def modify_sql_def names_of_def
      demo_names_def unique_valued_def demo_unique_def)

lemma store_changes:
  assumes "length sql \<le> 1019" and "plan_of sql = p" and "p \<noteq> Query"
    and "\<And>t. (\<forall>v \<in> set vs. value_size v \<le> 1000) \<Longrightarrow> mset (map norm_row (acted p vs t)) = eff (mset (map norm_row t))"
  shows "changes_rows store_api demo_table store_rows sql vs eff"
  unfolding changes_rows_def
proof (intro allI impI, elim conjE)
  fix conn cs d d'
  assume c: "change_protocol conn sql (numbered 1 vs) SORM_OK cs" and p: "plays store_api cs d = Some d'"
  have "tbl d' = acted p vs (tbl d) \<and> (\<forall>v \<in> set vs. value_size v \<le> 1000)"
    using store_stmt_tbl [OF _ _ change_ok_stmt [OF c] p] assms(1-3) by simp
  with assms(4) show "store_rows d' = eff (store_rows d)" by (simp add: store_rows_def)
qed

lemma store_deletes: "keeps_deletes store_api demo_table store_rows"
  unfolding keeps_deletes_def
proof (intro allI impI, elim conjE)
  fix obj h vs
  assume o: "wf_object obj" "desc obj = demo_table" "length (delete_sql obj) \<le> 1019"
  have "plan_of (delete_sql obj) = Delete (valued obj)"
    using plan_of_change(1) [OF valued_subseq(1) [OF o(1,2)]] demo_change_sql(1) [OF o(1,2)] by simp
  then show "changes_rows store_api demo_table store_rows (delete_sql obj) vs (filter_mset (\<lambda>row. \<not> matches (valued obj) vs row))"
  proof (rule store_changes [OF o(3)])
    fix t
    have "map norm_row (acted (Delete (valued obj)) vs t) = filter (\<lambda>row. \<not> matches (valued obj) vs row) (map norm_row t)"
      by (simp add: filter_map o_def)
    then show "mset (map norm_row (acted (Delete (valued obj)) vs t)) =
        filter_mset (\<lambda>row. \<not> matches (valued obj) vs row) (mset (map norm_row t))" by (metis mset_filter)
  qed simp
qed

lemma norm_set_values:
  assumes "length r = 3" and "\<forall>v \<in> set vs. value_size v \<le> 1000" and "norm_row r = r"
  shows "norm_row (set_values is vs r) = set_values is vs r"
  using assms
proof (induction vs arbitrary: "is" r)
  case (Cons v vs)
  show ?case
  proof (cases "is")
    case (Cons i js)
    have "norm_row (r[i := v]) = r[i := v]"
    proof (rule norm_row_id)
      have "\<forall>u \<in> set r. value_size u \<le> 1000"
        using norm_row_size [of _ r] Cons.prems(1,3) by (metis in_set_conv_nth)
      then show "\<forall>u \<in> set (r[i := v]). value_size u \<le> 1000"
        using Cons.prems(2) set_update_subset_insert [of r i v] by auto
    qed (use Cons.prems(1) in simp)
    then show ?thesis using Cons.IH [of "r[i := v]" js] Cons.prems Cons by (simp add: set_values_def)
  qed (use Cons.prems in \<open>simp add: set_values_def\<close>)
qed (simp add: set_values_def)

lemma norm_row_norm: "norm_row (norm_row r) = norm_row r"
proof (rule norm_row_id)
  show "\<forall>v \<in> set (norm_row r). value_size v \<le> 1000" using norm_row_size by (metis in_set_conv_nth norm_row_length)
qed simp

lemma store_updates: "keeps_updates store_api demo_table store_rows"
  unfolding keeps_updates_def
proof (intro allI impI, elim conjE)
  fix obj h vs us
  assume o: "wf_object obj" "desc obj = demo_table" "length (update_sql obj) \<le> 1019" "column_values obj h (valued obj) vs"
  have p: "plan_of (update_sql obj) = Update (valued obj)"
    using plan_of_change(2) [OF valued_subseq(1) [OF o(1,2)]] demo_change_sql(2) [OF o(1,2)] by simp
  have l: "length (valued obj) = length vs" using o(4) by (simp add: column_values_def list_all2_lengthD)
  show "changes_rows store_api demo_table store_rows (update_sql obj) (vs @ us) (image_mset (updated obj vs us))"
  proof (rule store_changes [OF o(3) p])
    fix t assume "\<forall>v \<in> set (vs @ us). value_size v \<le> 1000"
    then have "norm_row (set_values (valued obj) vs (norm_row r)) = set_values (valued obj) vs (norm_row r)" for r
      by (intro norm_set_values) (auto simp: norm_row_norm)
    then have "map norm_row (acted (Update (valued obj)) (vs @ us) t) = map (updated obj vs us) (map norm_row t)"
      using l by (simp add: updated_def demo_change_sql(3) [OF o(1,2)])
    then show "mset (map norm_row (acted (Update (valued obj)) (vs @ us) t)) =
        image_mset (updated obj vs us) (mset (map norm_row t))" by (metis mset_map)
  qed simp
qed

text \<open>
  Two rows: the object \<open>demo_object\<close>, whose column \<open>uuid\<close> is set, deletes the first of them; with its column \<open>name\<close> set
  to \<open>NULL\<close> too it updates it.
\<close>

definition full_store :: store where
  "full_store = empty_store\<lparr>tbl := [[Bind_int 1, Bind_text ''abc'', Bind_text ''old''], [Bind_int 2, Bind_text ''xy'', Bind_null]]\<rparr>"

definition nameless_object :: sorm_object where
  "nameless_object = put_cell demo_object 2 \<lparr>blob_len = 0, stat = SORM_STAT_VALUED, val = M_ptr 0\<rparr>"

lemma full_store_rows:
  "store_rows full_store = {#[Bind_int 1, Bind_text ''abc'', Bind_text ''old''], [Bind_int 2, Bind_text ''xy'', Bind_null]#}"
  by (simp add: store_rows_def full_store_def norm_row_def)

lemma full_store_storable:
  "\<forall>row \<in># store_rows (db (start_world full_store)). row_storable demo_table row \<and> list_all kept_exactly row"
  by (simp add: start_world_def full_store_rows row_storable_def storable_def mem_legal_def too_long_def demo_column_def
      no_nul_def kept_exactly_def numeral_3_eq_3 less_Suc_eq)

lemma nameless_object_facts:
  "desc nameless_object = demo_table" "wf_object nameless_object" "valued nameless_object = [1, 2]"
  "unique_valued nameless_object = [1]"
  "column_values nameless_object h [1, 2] [Bind_text ''abc'', Bind_null]" "column_values nameless_object h [1] [Bind_text ''abc'']"
proof -
  show d: "desc nameless_object = demo_table" by (simp add: nameless_object_def saved_object_facts(1))
  show w: "wf_object nameless_object"
    unfolding nameless_object_def using saved_object_facts(1,2)
    by (intro wf_object_put) (simp_all add: wf_cell_def demo_column_def stat_needfree_bit SORM_STAT_VALUED_def bit_1_iff)
  show v: "valued nameless_object = [1, 2]"
    by (simp add: valued_def nameless_object_def demo_object_def put_cell_def new_object_def upt_rec sorm_is_stat_valued_def
        sorm_is_stat_def SORM_STAT_VALUED_def)
  show "unique_valued nameless_object = [1]"
    by (simp add: unique_valued_def v d demo_column_def sorm_is_unique_column_def)
  show "column_values nameless_object h [1, 2] [Bind_text ''abc'', Bind_null]"
    by (simp add: column_values_def nameless_object_def demo_object_def column_bind_value_def put_cell_def new_object_def column_at_def
        nth_opt_def get_member_def cell_at_def i_get_blob_len_def is_cstr_def demo_table_def demo_column_def)
  then show "column_values nameless_object h [1] [Bind_text ''abc'']" by (simp add: column_values_def)
qed

lemma demo_deleted:
  "\<exists>w1. sorm_delete store_api (Some plain_conn) (Some demo_object) (start_world full_store) = Some (SORM_OK, w1) \<and>
     hp w1 = hp (start_world full_store)"
proof -
  let ?w = "start_world full_store"
  note o = saved_object_facts
  have sql: "delete_sql demo_object = remove_sql [1]" using demo_change_sql(1) [OF o(2,1)] o(3) by simp
  have l: "length (remove_sql [1]) \<le> 1019" by code_simp
  have p: "plan_of (remove_sql [1]) = Delete [1]" by (rule plan_of_change) simp
  have vs: "column_values demo_object (hp ?w) (valued demo_object) [Bind_text ''abc'']" unfolding o(3) by (rule o(4))
  from store_change_run [OF delete_binds [OF o(2) vs]] l p
  have "\<exists>w1. change_run store_api plain_conn demo_object [is_valued demo_object] (remove_sql [1]) ?w = Some (SORM_OK, w1) \<and> hp w1 = hp ?w"
    by simp
  then show ?thesis using o(3) sql l by (simp add: delete_eq [OF o(2)])
qed

lemma demo_updated:
  "\<exists>w1. sorm_update store_api (Some plain_conn) (Some nameless_object) (start_world full_store) = Some (SORM_OK, w1) \<and>
     hp w1 = hp (start_world full_store)"
proof -
  let ?w = "start_world full_store"
  note o = nameless_object_facts
  have sql: "update_sql nameless_object = modify_sql [1, 2]" using demo_change_sql(2) [OF o(2,1)] o(3) by simp
  have l: "length (modify_sql [1, 2]) \<le> 1017" by code_simp
  then have h: "length (update_head nameless_object) \<le> 1017" unfolding sql [symmetric] by (simp add: update_sql_def)
  have p: "plan_of (modify_sql [1, 2]) = Update [1, 2]" by (rule plan_of_change) simp
  have vs: "column_values nameless_object (hp ?w) (valued nameless_object) [Bind_text ''abc'', Bind_null]" unfolding o(3) by (rule o(5))
  have us: "column_values nameless_object (hp ?w) (unique_valued nameless_object) [Bind_text ''abc'']" unfolding o(4) by (rule o(6))
  from store_change_run [OF update_binds [OF o(2) vs us]] l p
  have "\<exists>w1. change_run store_api plain_conn nameless_object [is_valued nameless_object, is_unique_valued nameless_object]
      (modify_sql [1, 2]) ?w = Some (SORM_OK, w1) \<and> hp w1 = hp ?w" by simp
  then show ?thesis using o(3,4) sql h l by (simp add: update_eq [OF o(2)])
qed

theorem deleted_is_gone_witness:
  "\<exists>w1 ret p w2 q dd o'. sorm_delete store_api (Some plain_conn) (Some demo_object) (start_world full_store) = Some (SORM_OK, w1) \<and>
     sorm_select_all_list_by store_api (Some plain_conn) (Some arena) (Some demo_table) (Some ''*'') None (Some 0) True w1 =
       Some (ret, Some 1, p, w2) \<and> list_ok (pool_of (Some arena)) (hp w2) p [(q, dd, o')] \<and>
     holds_row demo_table (hp w2) o' [Bind_int 2, Bind_text ''xy'', Bind_null]"
proof -
  let ?w = "start_world full_store"
  note o = saved_object_facts
  obtain w1 where w1: "sorm_delete store_api (Some plain_conn) (Some demo_object) ?w = Some (SORM_OK, w1)" "hp w1 = hp ?w"
    using demo_deleted by blast
  have vs: "column_values demo_object (hp ?w) (valued demo_object) [Bind_text ''abc'']" unfolding o(3) by (rule o(4))
  obtain N ds where f: "fetch store_api 1 N (queried_store (db w1)) = (ds, SQLITE_DONE)" using store_query_ends by blast
  have k: "valued demo_object \<noteq> []" "list_all kept_exactly [Bind_text ''abc'']" "(1 :: nat) \<noteq> 0"
    by (simp_all add: o(3) kept_exactly_def)
  from deleted_is_gone [OF store_deletes store_gives_rows o(2,1) k(1) store_handle _ vs k(2) full_store_storable w1(1)
      store_query_ready [OF w1(2)] _ select_all_demo store_prepare_db k(3) f, of 0]
  obtain fr p w2 es rs where
    s: "sorm_select_all_list_by store_api (Some plain_conn) (Some arena) (Some demo_table) (Some ''*'') None (Some 0) True w1 =
        Some (query_code SORM_OK fr (int (length es)), Some (int (length es)), p, w2)" "list_ok (pool_of (Some arena)) (hp w2) p es"
      "mset rs = filter_mset (\<lambda>row. \<not> matches (valued demo_object) [Bind_text ''abc''] row) (store_rows (db ?w))"
      "list_all2 (\<lambda>(q, dd, o'). holds_row demo_table (hp w2) o') es rs" by auto
  have "mset rs = {#[Bind_int 2, Bind_text ''xy'', Bind_null]#}"
    using s(3) by (simp add: o(3) start_world_def full_store_rows matches_def)
  with s(4) obtain q dd o' where "es = [(q, dd, o')]" "holds_row demo_table (hp w2) o' [Bind_int 2, Bind_text ''xy'', Bind_null]"
    by (auto simp: list_all2_Cons2)
  then show ?thesis using w1(1) s(1,2) by auto
qed

theorem updated_is_selected_witness:
  "\<exists>w1 ret p w2 es rs. sorm_update store_api (Some plain_conn) (Some nameless_object) (start_world full_store) = Some (SORM_OK, w1) \<and>
     sorm_select_all_list_by store_api (Some plain_conn) (Some arena) (Some demo_table) (Some ''*'') None (Some 0) True w1 =
       Some (ret, Some 2, p, w2) \<and> list_ok (pool_of (Some arena)) (hp w2) p es \<and>
     mset rs = {#[Bind_int 1, Bind_text ''abc'', Bind_null], [Bind_int 2, Bind_text ''xy'', Bind_null]#} \<and>
     list_all2 (\<lambda>(q, dd, o'). holds_row demo_table (hp w2) o') es rs"
proof -
  let ?w = "start_world full_store"
  note o = nameless_object_facts
  obtain w1 where w1: "sorm_update store_api (Some plain_conn) (Some nameless_object) ?w = Some (SORM_OK, w1)" "hp w1 = hp ?w"
    using demo_updated by blast
  have vs: "column_values nameless_object (hp ?w) (valued nameless_object) [Bind_text ''abc'', Bind_null]" unfolding o(3) by (rule o(5))
  have us: "column_values nameless_object (hp ?w) (unique_valued nameless_object) [Bind_text ''abc'']" unfolding o(4) by (rule o(6))
  obtain N ds where f: "fetch store_api 1 N (queried_store (db w1)) = (ds, SQLITE_DONE)" using store_query_ends by blast
  have k: "unique_valued nameless_object \<noteq> []" "list_all kept_exactly [Bind_text ''abc'', Bind_null]" "(1 :: nat) \<noteq> 0"
    by (simp_all add: o(4) kept_exactly_def)
  from updated_is_selected [OF store_updates store_gives_rows o(2,1) k(1) store_handle _ vs us k(2) full_store_storable w1(1)
      store_query_ready [OF w1(2)] _ select_all_demo store_prepare_db k(3) f, of 0]
  obtain fr p w2 es rs where
    s: "sorm_select_all_list_by store_api (Some plain_conn) (Some arena) (Some demo_table) (Some ''*'') None (Some 0) True w1 =
        Some (query_code SORM_OK fr (int (length es)), Some (int (length es)), p, w2)" "list_ok (pool_of (Some arena)) (hp w2) p es"
      "mset rs = image_mset (updated nameless_object [Bind_text ''abc'', Bind_null] [Bind_text ''abc'']) (store_rows (db ?w))"
      "list_all2 (\<lambda>(q, dd, o'). holds_row demo_table (hp w2) o') es rs" by auto
  have m: "mset rs = {#[Bind_int 1, Bind_text ''abc'', Bind_null], [Bind_int 2, Bind_text ''xy'', Bind_null]#}"
    using s(3) by (simp add: o(3,4) start_world_def full_store_rows matches_def set_values_def updated_def numeral_2_eq_2)
  then have "length rs = 2" by (metis size_mset size_add_mset size_empty numeral_2_eq_2)
  then have "length es = 2" using list_all2_lengthD [OF s(4)] by simp
  then show ?thesis using w1(1) s(1,2,4) m by auto
qed

end
