(* ===== verification/Sorm_Times.thy ===== *)
theory Sorm_Times
  imports Complex_Main Sorm_Prelude
begin

text \<open>
  The debug masks of \<^verbatim>\<open>src/utils/debug.h\<close> and the stop watches of \<^verbatim>\<open>src/utils/times.c\<close>: a stack of start times in an array that doubles when it is full.
  The locale \<open>time_stack\<close> is what a user of nested watches relies on; it is interpreted for the operations of the source.
  Whether \<open>malloc\<close> and \<open>realloc\<close> find memory is an argument, as is the answer of \<open>gettimeofday\<close>. A \<open>double\<close> is the real
  number it stands for, and every operation on them gives the exact result rounded by a function \<open>rnd\<close>, a parameter;
  the times here are far from the limits of the type.
\<close>

section \<open>Debug masks: \<open>debug.h\<close>\<close>

text \<open>
  The variable \<open>debug_mask\<close>, which starts as \<open>DEBUG_NONE\<close>, decides which of the \<open>debug\<close> messages are printed.
\<close>

definition DEBUG_NONE :: "32 word" where "DEBUG_NONE = 0"

definition DEBUG_USER :: "32 word" where "DEBUG_USER = push_bit 0 1"

definition DEBUG_IOFW :: "32 word" where "DEBUG_IOFW = push_bit 1 1"

definition DEBUG_PACK :: "32 word" where "DEBUG_PACK = push_bit 2 1"

definition DEBUG_TIME :: "32 word" where "DEBUG_TIME = push_bit 3 1"

definition DEBUG_MSG :: "32 word" where "DEBUG_MSG = push_bit 4 1"

definition DEBUG_UNMAP :: "32 word" where "DEBUG_UNMAP = push_bit 4 1"

definition set_debug_mask :: "32 word \<Rightarrow> 32 word \<Rightarrow> 32 word" where
  "set_debug_mask msk debug_mask = msk"

definition add_debug_mask :: "32 word \<Rightarrow> 32 word \<Rightarrow> 32 word" where
  "add_debug_mask msk debug_mask = (debug_mask OR msk)"

definition debug_prints :: "32 word \<Rightarrow> 32 word \<Rightarrow> bool" where
  "debug_prints msk debug_mask \<longleftrightarrow> debug_mask AND msk \<noteq> 0"

text \<open>
  Adding a mask turns on the messages that share a bit with it and turns none off. Two of the masks are the same bit.
\<close>

lemma debug_added: "debug_prints m (add_debug_mask m' s) \<longleftrightarrow> debug_prints m s \<or> debug_prints m m'"
proof -
  have "(s OR m') AND m = 0 \<longleftrightarrow> s AND m = 0 \<and> m' AND m = 0"
    unfolding bit_eq_iff bit_and_iff bit_or_iff by auto
  then show ?thesis by (simp add: debug_prints_def add_debug_mask_def)
qed

lemma debug_msg_unmap: "debug_prints DEBUG_MSG (add_debug_mask DEBUG_UNMAP DEBUG_NONE)"
  by (simp add: debug_prints_def add_debug_mask_def DEBUG_MSG_def DEBUG_UNMAP_def DEBUG_NONE_def)

section \<open>The clock\<close>

text \<open>The answer of \<open>gettimeofday\<close>: seconds and microseconds.\<close>

type_synonym timeval = "int \<times> int"

definition times_cur :: "(real \<Rightarrow> real) \<Rightarrow> timeval \<Rightarrow> real" where
  "times_cur rnd = (\<lambda>(tv_sec, tv_usec). rnd (rnd (rnd (of_int tv_sec) * 1000) + rnd (rnd (of_int tv_usec) / 1000)))"

section \<open>The stack: \<open>time_stack_t\<close>\<close>

definition TIMES_STACK_INIT_SIZE :: int where
  "TIMES_STACK_INIT_SIZE = 512"

text \<open>
  The array is \<open>NULL\<close> or a block of cells, each unset or a time. The variable \<open>time_stack\<close> is \<open>NULL\<close> or points
  to the structure; \<open>live\<close> counts the blocks taken from the C library and not given back.
\<close>

record time_stack_t =
  stack_data :: "real option list option"
  stack_top :: int
  stack_size :: int

record times_state =
  time_stack :: "time_stack_t option"
  live :: int

text \<open>The value of an expression of type \<open>int\<close>, if it fits.\<close>

definition int_fits :: "int \<Rightarrow> int option" where
  "int_fits i = (if - (2 ^ 31) \<le> i \<and> i < 2 ^ 31 then Some i else None)"

text \<open>Cells of the array: an index outside of the block is an error, and so is reading an unset cell.\<close>

definition cell_set :: "real option list option \<Rightarrow> int \<Rightarrow> real \<Rightarrow> real option list option option" where
  "cell_set data i v =
     (case data of
        None \<Rightarrow> None
      | Some cs \<Rightarrow> if 0 \<le> i \<and> i < int (length cs) then Some (Some (cs[nat i := Some v])) else None)"

definition cell_get :: "real option list option \<Rightarrow> int \<Rightarrow> real option" where
  "cell_get data i =
     (case data of
        None \<Rightarrow> None
      | Some cs \<Rightarrow> if 0 \<le> i \<and> i < int (length cs) then cs ! nat i else None)"

text \<open>\<open>realloc\<close> to \<open>n\<close> cells: the cells that fit are kept, new ones are unset.\<close>

definition resize :: "nat \<Rightarrow> real option list option \<Rightarrow> real option list" where
  "resize n data = (case data of None \<Rightarrow> replicate n None | Some cs \<Rightarrow> take n cs @ replicate (n - length cs) None)"

section \<open>The operations\<close>

text \<open>The two arguments say whether the first and the second \<open>malloc\<close> find memory.\<close>

definition times_init :: "bool \<Rightarrow> bool \<Rightarrow> times_state \<Rightarrow> int \<times> times_state" where
  "times_init ok1 ok2 s =
     (if \<not> ok1 then (-1, s\<lparr>time_stack := None\<rparr>)
      else let ts = \<lparr>stack_data = None, stack_top = -1, stack_size = TIMES_STACK_INIT_SIZE\<rparr>;
               s = s\<lparr>live := live s + 1\<rparr> in
        if \<not> ok2 then (-1, s\<lparr>time_stack := Some ts\<rparr>)
        else (0, s\<lparr>time_stack := Some (ts\<lparr>stack_data := Some (replicate (nat TIMES_STACK_INIT_SIZE) None)\<rparr>),
                   live := live s + 1\<rparr>))"

definition times_final :: "times_state \<Rightarrow> int \<times> times_state" where
  "times_final s =
     (case time_stack s of
        None \<Rightarrow> (0, s)
      | Some ts \<Rightarrow>
          let s = (if stack_data ts \<noteq> None then s\<lparr>live := live s - 1\<rparr> else s) in
          (0, s\<lparr>time_stack := None, live := live s - 1\<rparr>))"

text \<open>
  The test after \<open>realloc\<close> looks at the old pointer. Where it is \<open>NULL\<close> the new block is lost; otherwise the answer of
  \<open>realloc\<close>, \<open>NULL\<close> included, becomes the array.
\<close>

definition times_start :: "(real \<Rightarrow> real) \<Rightarrow> timeval \<Rightarrow> bool \<Rightarrow> times_state \<Rightarrow> (int \<times> times_state) option" where
  "times_start rnd tv ok s =
     (case time_stack s of
        None \<Rightarrow> None
      | Some ts \<Rightarrow> do {
          let cur_time = times_cur rnd tv;
          limit \<leftarrow> int_fits (stack_size ts - 1);
          let push = (\<lambda>ts s. do {
            top \<leftarrow> int_fits (stack_top ts + 1);
            cells \<leftarrow> cell_set (stack_data ts) top cur_time;
            Some (0, s\<lparr>time_stack := Some (ts\<lparr>stack_data := cells, stack_top := top\<rparr>)\<rparr>)
          });
          if stack_top ts = limit then do {
            n \<leftarrow> int_fits (stack_size ts * 2);
            let addr = (if ok then Some (resize (nat n) (stack_data ts)) else None);
            if stack_data ts = None
            then Some (-1, if ok then s\<lparr>live := live s + 1\<rparr> else s)
            else push (ts\<lparr>stack_size := n, stack_data := addr\<rparr>) s
          }
          else push ts s
        })"

definition times_end :: "(real \<Rightarrow> real) \<Rightarrow> timeval \<Rightarrow> times_state \<Rightarrow> (real \<times> times_state) option" where
  "times_end rnd tv s =
     (case time_stack s of
        None \<Rightarrow> None
      | Some ts \<Rightarrow> do {
          let cur_time = times_cur rnd tv;
          start_time \<leftarrow> cell_get (stack_data ts) (stack_top ts);
          top \<leftarrow> int_fits (stack_top ts - 1);
          Some (rnd (cur_time - start_time), s\<lparr>time_stack := Some (ts\<lparr>stack_top := top\<rparr>)\<rparr>)
        })"

section \<open>What a user of watches relies on\<close>

text \<open>Calls of a user, and a run of them that collects what the ends report.\<close>

datatype 'c watch_call = Start 'c | End 'c

primrec watch_run ::
  "('c \<Rightarrow> 's \<Rightarrow> 's option) \<Rightarrow> ('c \<Rightarrow> 's \<Rightarrow> ('t \<times> 's) option) \<Rightarrow> 'c watch_call list \<Rightarrow> 's \<Rightarrow> ('t list \<times> 's) option" where
  "watch_run st en [] s = Some ([], s)"
| "watch_run st en (c # cs) s =
     (case c of
        Start t \<Rightarrow> do { s \<leftarrow> st t s; watch_run st en cs s }
      | End t \<Rightarrow> do { (d, s) \<leftarrow> en t s; (ds, s) \<leftarrow> watch_run st en cs s; Some (d # ds, s) })"

text \<open>
  The reference: a list of readings, the last start first; an end reports the time since then, as \<open>elapsed\<close> has it, and
  without a start does not return.
\<close>

definition ref_start :: "'c \<Rightarrow> 'c list \<Rightarrow> 'c list option" where
  "ref_start t xs = Some (t # xs)"

definition ref_end :: "('c \<Rightarrow> 'c \<Rightarrow> 't) \<Rightarrow> 'c \<Rightarrow> 'c list \<Rightarrow> ('t \<times> 'c list) option" where
  "ref_end elapsed t xs = (case xs of [] \<Rightarrow> None | x # xs \<Rightarrow> Some (elapsed t x, xs))"

lemma ref_end_simps [simp]:
  "ref_end elapsed t [] = None"
  "ref_end elapsed t (x # xs) = Some (elapsed t x, xs)"
  by (simp_all add: ref_end_def)

locale watch_stack =
  fixes st :: "'c \<Rightarrow> 's \<Rightarrow> 's option"
    and en :: "'c \<Rightarrow> 's \<Rightarrow> ('t \<times> 's) option"
    and elapsed :: "'c \<Rightarrow> 'c \<Rightarrow> 't"
    and holds :: "'s \<Rightarrow> 'c list \<Rightarrow> bool"
    and depth :: nat
  assumes start_pushes: "holds s xs \<Longrightarrow> length xs < depth \<Longrightarrow> \<exists>s'. st t s = Some s' \<and> holds s' (t # xs)"
    and end_pops: "holds s (x # xs) \<Longrightarrow> \<exists>s'. en t s = Some (elapsed t x, s') \<and> holds s' xs"
    and end_empty: "holds s [] \<Longrightarrow> en t s = None"
begin

lemma run_refines:
  assumes "holds s xs" and "length xs + length cs \<le> depth"
  shows "rel_option (\<lambda>(ds, s') (ds', ys). ds = ds' \<and> holds s' ys)
           (watch_run st en cs s) (watch_run ref_start (ref_end elapsed) cs xs)"
  using assms
proof (induction cs arbitrary: s xs)
  case (Cons c cs)
  show ?case
  proof (cases c)
    case (Start t)
    from start_pushes [OF Cons.prems(1), of t] Cons.prems(2) obtain s' where
      "st t s = Some s'" and "holds s' (t # xs)" by auto
    with Cons.IH [of s' "t # xs"] Cons.prems(2) Start show ?thesis by (simp add: ref_start_def)
  next
    case (End t)
    show ?thesis
    proof (cases xs)
      case Nil
      with Cons.prems(1) End show ?thesis by (simp add: end_empty)
    next
      case (Cons x ys)
      with end_pops [of s x ys t] \<open>holds s xs\<close> obtain s' where
        s': "en t s = Some (elapsed t x, s')" and "holds s' ys" by auto
      with Cons.IH [of s' ys] Cons.prems(2) Cons
      have "rel_option (\<lambda>(ds, s') (ds', ys). ds = ds' \<and> holds s' ys)
           (watch_run st en cs s') (watch_run ref_start (ref_end elapsed) cs ys)" by simp
      with s' Cons End show ?thesis
        by (cases "watch_run st en cs s'"; cases "watch_run ref_start (ref_end elapsed) cs ys")
          auto
    qed
  qed
qed simp

end

section \<open>The array implements the list\<close>

text \<open>
  The array holds the times of \<open>xs\<close>, the first started first, below the top, and nothing is leaked: \<open>n\<close> blocks were live
  before \<open>times_init\<close>.
\<close>

definition timer_on :: "(real \<Rightarrow> real) \<Rightarrow> int \<Rightarrow> times_state \<Rightarrow> timeval list \<Rightarrow> bool" where
  "timer_on rnd n s xs \<longleftrightarrow>
     (\<exists>ts cs. time_stack s = Some ts \<and> stack_data ts = Some cs \<and> stack_top ts = int (length xs) - 1 \<and>
        stack_size ts = int (length cs) \<and> 0 < length cs \<and> length cs < 2 ^ 31 \<and>
        length xs \<le> length cs \<and> take (length xs) cs = map (\<lambda>x. Some (times_cur rnd x)) (rev xs) \<and> live s = n + 2)"

definition between :: "(real \<Rightarrow> real) \<Rightarrow> timeval \<Rightarrow> timeval \<Rightarrow> real" where
  "between rnd t x = rnd (times_cur rnd t - times_cur rnd x)"

lemma take_push: "length xs < length cs \<Longrightarrow> take (length xs) cs = ys \<Longrightarrow>
    take (Suc (length xs)) (cs[length xs := v]) = ys @ [v]"
  by (simp add: take_Suc_conv_app_nth take_update_cancel)

lemma times_init_empty: "timer_on rnd (live s) (snd (times_init True True s)) []"
  by (simp add: times_init_def timer_on_def TIMES_STACK_INIT_SIZE_def Let_def)

lemma timer_final: "timer_on rnd n s xs \<Longrightarrow> times_final s = (0, s\<lparr>time_stack := None, live := n\<rparr>)"
  by (auto simp: timer_on_def times_final_def Let_def)

lemma timer_start:
  assumes "timer_on rnd n s xs" and "length xs < 2 ^ 30"
  shows "\<exists>s'. times_start rnd t True s = Some (0, s') \<and> timer_on rnd n s' (t # xs)"
proof -
  from assms(1) obtain ts cs where s: "time_stack s = Some ts" "stack_data ts = Some cs"
      "stack_top ts = int (length xs) - 1" "stack_size ts = int (length cs)" "0 < length cs" "length cs < 2 ^ 31"
      "length xs \<le> length cs" "take (length xs) cs = map (\<lambda>x. Some (times_cur rnd x)) (rev xs)" "live s = n + 2"
    unfolding timer_on_def by blast
  define ds where "ds = (if length xs = length cs then cs @ replicate (length cs) None else cs)"
  have "length xs < length ds" "length ds < 2 ^ 31" using s(5-7) assms(2) by (auto simp: ds_def)
  moreover have "take (length xs) ds = map (\<lambda>x. Some (times_cur rnd x)) (rev xs)" using s(7,8)
    by (cases "length xs = length cs") (simp_all add: ds_def)
  ultimately have ds: "length xs < length ds" "length ds < 2 ^ 31" "take (length xs) ds = map (\<lambda>x. Some (times_cur rnd x)) (rev xs)" by blast+
  define ts' where "ts' = ts\<lparr>stack_data := Some (ds[length xs := Some (times_cur rnd t)]), stack_top := int (length xs),
    stack_size := int (length ds)\<rparr>"
  have fits: "int_fits (int (length cs) - 1) = Some (int (length cs) - 1)" "int_fits (int (length xs)) = Some (int (length xs))"
    using s(5,6) assms(2) by (simp_all add: int_fits_def)
  have "times_start rnd t True s = Some (0, s\<lparr>time_stack := Some ts'\<rparr>)"
  proof (cases "length xs = length cs")
    case True
    with assms(2) have "int_fits (int (length cs) * 2) = Some (int (length cs) * 2)" by (simp add: int_fits_def)
    moreover have "resize (nat (int (length cs) * 2)) (Some cs) = ds"
      using True by (simp add: resize_def ds_def nat_mult_distrib)
    moreover have "int (length ds) = int (length cs) * 2" using True by (simp add: ds_def)
    ultimately show ?thesis using True s(1-4) ds(1) fits
      by (simp add: times_start_def cell_set_def ts'_def)
  next
    case False
    then have "ds = cs" by (simp add: ds_def)
    with False s(1-4) ds(1) fits show ?thesis
      by (simp add: times_start_def cell_set_def ts'_def)
  qed
  moreover have "timer_on rnd n (s\<lparr>time_stack := Some ts'\<rparr>) (t # xs)"
    unfolding timer_on_def using s(9) ds(1,2) take_push [OF ds(1,3)] by (force simp: ts'_def Suc_le_eq)
  ultimately show ?thesis by blast
qed

lemma timer_end:
  assumes "timer_on rnd n s (x # xs)"
  shows "\<exists>s'. times_end rnd t s = Some (between rnd t x, s') \<and> timer_on rnd n s' xs"
proof -
  from assms obtain ts cs where s: "time_stack s = Some ts" "stack_data ts = Some cs"
      "stack_top ts = int (length xs)" "stack_size ts = int (length cs)" "0 < length cs" "length cs < 2 ^ 31"
      "length xs < length cs" "take (Suc (length xs)) cs = map (\<lambda>x. Some (times_cur rnd x)) (rev (x # xs))" "live s = n + 2"
    by (auto simp: timer_on_def)
  from s(7,8) have "take (length xs) cs = map (\<lambda>x. Some (times_cur rnd x)) (rev xs)" and "cs ! length xs = Some (times_cur rnd x)"
    by (simp_all add: take_Suc_conv_app_nth)
  with s show ?thesis by (auto simp: between_def timer_on_def times_end_def cell_get_def int_fits_def)
qed

lemma timer_end_empty: "timer_on rnd n s [] \<Longrightarrow> times_end rnd t s = None"
  by (auto simp: between_def timer_on_def times_end_def cell_get_def)

text \<open>A start that succeeds, while \<open>realloc\<close> finds memory.\<close>

definition started :: "(real \<Rightarrow> real) \<Rightarrow> timeval \<Rightarrow> times_state \<Rightarrow> times_state option" where
  "started rnd t s = do { (ret, s) \<leftarrow> times_start rnd t True s; if ret = 0 then Some s else None }"

interpretation tw: watch_stack "started rnd" "times_end rnd" "between rnd" "timer_on rnd n" "2 ^ 30" for rnd n
proof (unfold_locales, goal_cases)
  case (1 s xs t)
  with timer_start [of rnd n s xs t] show ?case by (auto simp: started_def)
qed (fact timer_end timer_end_empty)+

section \<open>Properties\<close>

text \<open>
  Without memory the answer of \<open>realloc\<close> is not looked at: a start on a full array stores through \<open>NULL\<close>. After
  an initialisation that failed at the second \<open>malloc\<close> every start does, while \<open>times_final\<close> still gives back what the
  first one took.
\<close>

lemma times_realloc_unchecked:
  assumes "timer_on rnd n s xs" and "map_option stack_size (time_stack s) = Some (int (length xs))"
  shows "times_start rnd t False s = None"
  using assms
  by (auto simp: timer_on_def times_start_def cell_set_def int_fits_def Let_def split: bind_splits if_splits)

lemma times_init_failed:
  assumes "times_init True False s = (ret, s')"
  shows "ret = -1 \<and> times_start rnd t ok s' = None \<and> times_final s' = (0, s\<lparr>time_stack := None\<rparr>)"
  using assms by (auto simp: times_init_def times_start_def times_final_def cell_set_def int_fits_def
      TIMES_STACK_INIT_SIZE_def Let_def)

section \<open>Accuracy\<close>

text \<open>
  What IEEE arithmetic promises of rounding to a \<open>double\<close>: whole numbers up to \<open>2 ^ 53\<close> are exact, and below \<open>2 ^ 41\<close> the
  numbers lie at most \<open>2 ^ -12\<close> apart.
\<close>

definition double_rounding :: "(real \<Rightarrow> real) \<Rightarrow> bool" where
  "double_rounding rnd \<longleftrightarrow> (\<forall>i :: int. \<bar>i\<bar> \<le> 2 ^ 53 \<longrightarrow> rnd (of_int i) = of_int i) \<and>
     (\<forall>x. \<bar>x\<bar> < 2 ^ 41 \<longrightarrow> \<bar>rnd x - x\<bar> \<le> 1 / 2 ^ 13)"

text \<open>A reading of the clock between 1970 and 2038, and its time in milliseconds.\<close>

definition timeval_ok :: "timeval \<Rightarrow> bool" where
  "timeval_ok = (\<lambda>(tv_sec, tv_usec). 0 \<le> tv_sec \<and> tv_sec < 2 ^ 31 \<and> 0 \<le> tv_usec \<and> tv_usec < 1000000)"

definition exact_ms :: "timeval \<Rightarrow> real" where
  "exact_ms = (\<lambda>(tv_sec, tv_usec). of_int tv_sec * 1000 + of_int tv_usec / 1000)"

definition exact_between :: "timeval \<Rightarrow> timeval \<Rightarrow> real" where
  "exact_between t x = exact_ms t - exact_ms x"

primrec call_ok :: "timeval watch_call \<Rightarrow> bool" where
  "call_ok (Start t) = timeval_ok t"
| "call_ok (End t) = timeval_ok t"

lemma exact_ms_range: "timeval_ok t \<Longrightarrow> 0 \<le> exact_ms t \<and> exact_ms t < 2 ^ 31 * 1000"
proof -
  obtain sec usec where t: "t = (sec, usec)" by (cases t)
  assume "timeval_ok t"
  then have "0 \<le> sec" "sec \<le> 2147483647" "0 \<le> usec" "usec \<le> 999999" by (auto simp: t timeval_ok_def)
  then have "(0 :: real) \<le> of_int sec" "(of_int sec :: real) \<le> 2147483647" "(0 :: real) \<le> of_int usec"
    "(of_int usec :: real) \<le> 999999" by simp_all
  then show ?thesis unfolding t exact_ms_def by simp
qed

lemma times_cur_close:
  assumes "double_rounding rnd" and "timeval_ok t"
  shows "\<bar>times_cur rnd t - exact_ms t\<bar> \<le> 2 / 8192"
proof -
  obtain sec usec where t: "t = (sec, usec)" by (cases t)
  from assms(2) have r: "0 \<le> sec" "sec < 2 ^ 31" "0 \<le> usec" "usec < 1000000" by (auto simp: t timeval_ok_def)
  have ints: "rnd (of_int i) = of_int i" if "\<bar>i\<bar> \<le> 2 ^ 53" for i using assms(1) that by (simp add: double_rounding_def)
  have near: "\<bar>rnd x - x\<bar> \<le> 1 / 8192" if "\<bar>x\<bar> < 2199023255552" for x using assms(1) that by (simp add: double_rounding_def)
  have "rnd (of_int sec * 1000) = of_int sec * 1000" using ints [of "sec * 1000"] r by simp
  then have c: "times_cur rnd t = rnd (of_int sec * 1000 + rnd (of_int usec / 1000))"
    using ints [of sec] ints [of usec] r by (simp add: times_cur_def t)
  have e: "exact_ms t = of_int sec * 1000 + of_int usec / 1000" by (simp add: t exact_ms_def)
  have m: "0 \<le> exact_ms t" "exact_ms t < 2147483648000" using exact_ms_range [OF assms(2)] by simp_all
  have u: "\<bar>rnd (of_int usec / 1000) - of_int usec / 1000\<bar> \<le> 1 / 8192" using r by (intro near) simp
  have "\<bar>of_int sec * 1000 + rnd (of_int usec / 1000)\<bar> < 2199023255552" using u m unfolding e by linarith
  from near [OF this] u show ?thesis unfolding c e by linarith
qed

lemma between_close:
  assumes "double_rounding rnd" and "timeval_ok t" and "timeval_ok x"
  shows "\<bar>between rnd t x - exact_between t x\<bar> < 1 / 1000"
proof -
  have d: "\<bar>(times_cur rnd t - times_cur rnd x) - exact_between t x\<bar> \<le> 4 / 8192"
    using times_cur_close [OF assms(1,2)] times_cur_close [OF assms(1,3)] unfolding exact_between_def by linarith
  have "0 \<le> exact_ms t" "exact_ms t < 2147483648000" "0 \<le> exact_ms x" "exact_ms x < 2147483648000"
    using exact_ms_range [OF assms(2)] exact_ms_range [OF assms(3)] by simp_all
  with d have "\<bar>times_cur rnd t - times_cur rnd x\<bar> < 2199023255552" unfolding exact_between_def by linarith
  then have "\<bar>between rnd t x - (times_cur rnd t - times_cur rnd x)\<bar> \<le> 1 / 8192"
    using assms(1) by (simp add: double_rounding_def between_def)
  with d show ?thesis by linarith
qed

lemma runs_close:
  assumes "double_rounding rnd" and "list_all call_ok cs" and "list_all timeval_ok xs"
  shows "rel_option (\<lambda>(ds, ys) (es, zs). list_all2 (\<lambda>d e. \<bar>d - e\<bar> < 1 / 1000) ds es)
     (watch_run ref_start (ref_end (between rnd)) cs xs) (watch_run ref_start (ref_end exact_between) cs xs)"
  using assms(2,3)
proof (induction cs arbitrary: xs)
  case (Cons c cs)
  show ?case
  proof (cases c)
    case (Start t)
    with Cons.IH [of "t # xs"] Cons.prems show ?thesis by (simp add: ref_start_def)
  next
    case (End t)
    show ?thesis
    proof (cases xs)
      case (Cons x ys)
      with Cons.IH [of ys] Cons.prems between_close [OF assms(1), of t x] End show ?thesis
        by (cases "watch_run ref_start (ref_end (between rnd)) cs ys"; cases "watch_run ref_start (ref_end exact_between) cs ys") auto
    qed (use End in simp)
  qed
qed simp

text \<open>
  C38: nested watches measure the time. After \<open>times_init\<close> found memory, any sequence of up to \<open>2 ^ 30\<close> starts and
  ends with readings of the clock until 2038 and memory for the array to grow reports for every end, to less than a
  microsecond, the time since the last start that was not ended yet; a sequence that ends more watches than it started
  does not return. \<open>times_final\<close> then gives back all the memory that was taken.
\<close>

theorem times_watches:
  assumes "double_rounding rnd" and "list_all call_ok cs" and "length cs \<le> 2 ^ 30"
  shows "\<exists>s0. times_init True True s = (0, s0) \<and>
    (case watch_run ref_start (ref_end exact_between) cs [] of
       None \<Rightarrow> watch_run (started rnd) (times_end rnd) cs s0 = None
     | Some (es, xs) \<Rightarrow> \<exists>ds s1. watch_run (started rnd) (times_end rnd) cs s0 = Some (ds, s1) \<and>
         list_all2 (\<lambda>d e. \<bar>d - e\<bar> < 1 / 1000) ds es \<and> times_final s1 = (0, s1\<lparr>time_stack := None, live := live s\<rparr>))"
proof -
  obtain s0 where s0: "times_init True True s = (0, s0)" by (simp add: times_init_def Let_def)
  with times_init_empty [of rnd s] have "timer_on rnd (live s) s0 []" by simp
  from tw.run_refines [OF this, of cs] assms(3)
  have "rel_option (\<lambda>(ds, s1) (ds', xs). ds = ds' \<and> timer_on rnd (live s) s1 xs)
      (watch_run (started rnd) (times_end rnd) cs s0) (watch_run ref_start (ref_end (between rnd)) cs [])" by simp
  with runs_close [OF assms(1,2), of "[]"] s0 show ?thesis
    by (cases "watch_run ref_start (ref_end (between rnd)) cs []"; cases "watch_run ref_start (ref_end exact_between) cs []")
      (auto simp: option_rel_Some2 timer_final)
qed

text \<open>Rounding to a multiple of \<open>2 ^ -12\<close> is such a rounding.\<close>

definition grid_round :: "real \<Rightarrow> real" where
  "grid_round x = of_int \<lfloor>x * 4096 + 1 / 2\<rfloor> / 4096"

lemma grid_rounding: "double_rounding grid_round"
  unfolding double_rounding_def
proof (intro conjI allI impI)
  fix i :: int
  have "\<lfloor>of_int i * 4096 + 1 / 2 :: real\<rfloor> = i * 4096" by (simp add: floor_eq_iff)
  then show "grid_round (of_int i) = of_int i" by (simp add: grid_round_def)
next
  fix x :: real
  have "of_int \<lfloor>x * 4096 + 1 / 2\<rfloor> \<le> x * 4096 + 1 / 2" "x * 4096 + 1 / 2 < of_int \<lfloor>x * 4096 + 1 / 2\<rfloor> + 1" by linarith+
  then have "\<bar>grid_round x - x\<bar> \<le> 1 / 8192" unfolding grid_round_def by linarith
  then show "\<bar>grid_round x - x\<bar> \<le> 1 / 2 ^ 13" by simp
qed

theorem times_watches_witness:
  "\<exists>s0 d1 d2 s1. times_init True True \<lparr>time_stack = None, live = 3\<rparr> = (0, s0) \<and>
     watch_run (started grid_round) (times_end grid_round)
       [Start (1700000000, 10), Start (1700000001, 0), End (1700000001, 500), End (1700000002, 10)] s0 = Some ([d1, d2], s1) \<and>
     \<bar>d1 - 1 / 2\<bar> < 1 / 1000 \<and> \<bar>d2 - 2000\<bar> < 1 / 1000 \<and> live (snd (times_final s1)) = 3"
proof -
  let ?cs = "[Start (1700000000, 10), Start (1700000001, 0), End (1700000001, 500), End (1700000002, 10)] :: timeval watch_call list"
  have "list_all call_ok ?cs" "length ?cs \<le> 2 ^ 30" by (simp_all add: timeval_ok_def)
  from times_watches [OF grid_rounding this, of "\<lparr>time_stack = None, live = 3\<rparr>"] show ?thesis
    by (auto simp: ref_start_def exact_between_def exact_ms_def list_all2_Cons2)
qed

end
