(* ===== verification/Sorm_Life.thy ===== *)
theory Sorm_Life
  imports Sorm_Row
begin

text \<open>
  The life of an object: made by \<open>sorm_new\<close>, filled from rows, its columns set any number of times with any
  arguments, among other uses of the heap. Whatever the calls return, each member keeps the type of its column and the
  object owns only live blocks of its allocator, each once, so that \<open>sorm_free\<close> can release them.
\<close>

section \<open>Setting a column\<close>

text \<open>
  Whatever the argument, a call of \<open>sorm_set_column_value\<close> that returns has changed the column's cell to one of the
  column's type at most.
\<close>

lemma set_stack_cell:
  assumes wf: "wf_object obj" and i: "i < length (columns (desc obj))" and len: "- (2 ^ 31) \<le> len" "len < 2 ^ 31"
    and t: "c_type (columns (desc obj) ! i) = SORM_TYPE_TEXT \<or> c_type (columns (desc obj) ! i) = SORM_TYPE_BLOB"
    and m: "c_mem (columns (desc obj) ! i) = SORM_MEM_STACK"
    and run: "sorm_set_column_value (Some obj) (int i) (Some va) len h = Some (ret, res)"
  shows "\<exists>cl. res = Some (put_cell obj i cl) \<and> wf_cell (columns (desc obj) ! i) cl"
proof -
  let ?c = "columns (desc obj) ! i" and ?cl = "cells obj ! i"
  note has = wf_object_has [OF wf i] and wfc = wf_object_cell [OF wf i] and col = column_at_wf [OF wf i]
  note max = max_len_bounds [OF wf i]
  note ops = col cell_ops [OF has] cell_ops [of "put_cell obj i x" i for x, simplified, OF has]
  note run' = run [unfolded sorm_set_column_value_def Let_def col]
  show ?thesis
  proof (cases "c_type ?c = SORM_TYPE_TEXT")
    case True
    with m run' obtain p s where p: "va = V_mem p" "load_str h p = Some s"
      by (auto simp: ops split: value_arg.splits Option.bind_splits)
    from set_text_stack [OF wf i True m p(2), of len] run p(1) show ?thesis by (auto simp: sets_cell_def Let_def)
  next
    case False
    with t have b: "c_type ?c = SORM_TYPE_BLOB" by simp
    from b m run' obtain p where p: "va = V_mem p" by (auto simp: ops split: value_arg.splits)
    show ?thesis
    proof (cases "len > c_max_len ?c")
      case True
      with b m run' p wfc show ?thesis by (intro exI [of _ ?cl]) (simp add: ops)
    next
      case False
      with b m run' p obtain bs a a' where
        a: "load_bytes h p (size_t len) = Some bs" "val ?cl = M_array a" "buf_write a 0 bs = Some a'"
        by (auto simp: ops split: Option.bind_splits member.splits)
      from wfc b m a(2) have "cap a = nat (c_max_len ?c + 1)" by (auto simp: wf_cell_def)
      moreover have "length bs \<le> cap a" using a(3) by (auto simp: buf_write_def split: if_splits)
      ultimately have "size_t len \<le> nat (c_max_len ?c + 1)" using load_bytes_length [OF a(1)] by simp
      moreover have "len mod 2 ^ 64 = len + 2 ^ 64" if "len < 0"
        using that len mod_pos_pos_trivial [of "len + 2 ^ 64" "2 ^ 64"] by simp
      ultimately have "0 \<le> len" using len max by (cases "0 \<le> len") (auto simp: size_t_def)
      then have "size_t len = nat len" using len by (simp add: size_t_def)
      with set_blob_stack [OF wf i b m \<open>0 \<le> len\<close> len(2), of h p bs] a(1) run p show ?thesis
        by (auto simp: sets_cell_def Let_def)
    qed
  qed
qed

lemma set_column_cell:
  assumes wf: "wf_object obj" and i: "i < length (columns (desc obj))" and len: "- (2 ^ 31) \<le> len" "len < 2 ^ 31"
    and run: "sorm_set_column_value (Some obj) (int i) (Some va) len h = Some (ret, res)"
  shows "\<exists>cl. res = Some (put_cell obj i cl) \<and> wf_cell (columns (desc obj) ! i) cl \<and>
    (cl = cells obj ! i \<or> \<not> sorm_is_stat_needfree (stat cl))"
proof -
  let ?c = "columns (desc obj) ! i" and ?cl = "cells obj ! i"
  note has = wf_object_has [OF wf i] and wfc = wf_object_cell [OF wf i] and col = column_at_wf [OF wf i]
  note ops = col cell_ops [OF has] cell_ops [of "put_cell obj i x" i for x, simplified, OF has]
  note run' = run [unfolded sorm_set_column_value_def Let_def col]
  have same: ?thesis if "res = Some obj"
    using that wfc by (intro exI [of _ ?cl]) simp
  have put: ?thesis if "res = Some (put_cell obj i cl)" "wf_cell ?c cl" "\<not> sorm_is_stat_needfree (stat cl)" for cl
    using that by blast
  show ?thesis
  proof (cases "c_type ?c")
    case SORM_TYPE_INT
    with run' has show ?thesis by (auto simp: ops wf_cell_def split: value_arg.splits intro: put)
  next
    case SORM_TYPE_INT64
    with run' has show ?thesis by (auto simp: ops wf_cell_def split: value_arg.splits intro: put)
  next
    case SORM_TYPE_DOUBLE
    with run' has show ?thesis by (auto simp: ops wf_cell_def split: value_arg.splits intro: put)
  next
    case (SORM_TYPE_OTHER x)
    with run' show ?thesis by (intro same) (auto simp: ops split: value_arg.splits)
  next
    case SORM_TYPE_TEXT
    show ?thesis
    proof (cases "c_mem ?c")
      case SORM_MEM_STACK
      with set_stack_cell [OF wf i len _ _ run] SORM_TYPE_TEXT show ?thesis by (auto simp: wf_cell_def)
    next
      case SORM_MEM_HEAP
      with SORM_TYPE_TEXT run' has show ?thesis by (auto simp: ops wf_cell_def split: value_arg.splits intro: put)
    qed (use SORM_TYPE_TEXT run' in \<open>intro same; auto simp: ops split: value_arg.splits\<close>)+
  next
    case SORM_TYPE_BLOB
    show ?thesis
    proof (cases "c_mem ?c")
      case SORM_MEM_STACK
      with set_stack_cell [OF wf i len _ _ run] SORM_TYPE_BLOB show ?thesis by (auto simp: wf_cell_def)
    next
      case SORM_MEM_HEAP
      with SORM_TYPE_BLOB run' has show ?thesis by (auto simp: ops wf_cell_def split: value_arg.splits intro: put)
    qed (use SORM_TYPE_BLOB run' in \<open>intro same; auto simp: ops split: value_arg.splits\<close>)+
  qed
qed

lemma set_column_keeps:
  assumes ok: "object_ok pool h obj" and len: "- (2 ^ 31) \<le> len" "len < 2 ^ 31"
    and run: "sorm_set_column_value (Some obj) ci v len h = Some (ret, res)"
  shows "\<exists>obj'. res = Some obj' \<and> object_ok pool h obj' \<and> desc obj' = desc obj \<and> owned obj' \<subseteq> owned obj"
proof (cases v)
  case None
  with run ok show ?thesis by (auto simp: sorm_set_column_value_def)
next
  case (Some va)
  have wf: "wf_object obj" using ok by (simp add: object_ok_def)
  from run Some obtain c where "column_at (desc obj) ci = Some c"
    by (auto simp: sorm_set_column_value_def Let_def split: Option.bind_splits)
  then obtain i where i: "ci = int i" "i < length (columns (desc obj))"
    by (auto simp: column_at_def nth_opt_def split: if_splits intro: that [of "nat ci"])
  from set_column_cell [OF wf i(2) len] run Some i(1) obtain cl where
    c: "res = Some (put_cell obj i cl)" "wf_cell (columns (desc obj) ! i) cl" "cl = cells obj ! i \<or> \<not> sorm_is_stat_needfree (stat cl)"
    by blast
  from c(3) show ?thesis
  proof
    assume "cl = cells obj ! i"
    then show ?thesis using c(1) ok by (simp add: put_cell_simps)
  next
    assume "\<not> sorm_is_stat_needfree (stat cl)"
    from object_drop [OF ok i(2) owned_cell_none [OF this] c(2)] c(1) show ?thesis by simp
  qed
qed

section \<open>The life of an object\<close>

text \<open>
  \<open>other\<close> stands for all that goes on in the heap besides: the client's and SQLite's blocks, other objects, as long as
  the blocks of this object are left alone.
\<close>

inductive object_life :: "'db sqlite3_api \<Rightarrow> sorm_allocator_t option \<Rightarrow> sorm_object \<Rightarrow> heap \<Rightarrow> bool"
  for api :: "'db sqlite3_api" and al :: "sorm_allocator_t option" where
  made: "wf_table td \<Longrightarrow> heap_ok h \<Longrightarrow> sorm_new al (Some td) h = Some (p, h') \<Longrightarrow> p \<noteq> 0 \<Longrightarrow>
    object_life api al (new_object td) h'"
| row: "object_life api al obj h \<Longrightarrow> \<forall>cl \<in> set (cells obj). \<not> sorm_is_stat_needfree (stat cl) \<Longrightarrow>
    i_parse_select_result api al st xs d obj h = Some (ret, obj', h') \<Longrightarrow> object_life api al obj' h'"
| set: "object_life api al obj h \<Longrightarrow> - (2 ^ 31) \<le> len \<Longrightarrow> len < 2 ^ 31 \<Longrightarrow>
    sorm_set_column_value (Some obj) ci v len h = Some (ret, Some obj') \<Longrightarrow> object_life api al obj' h"
| other: "object_life api al obj h \<Longrightarrow> heap_ok h' \<Longrightarrow> \<forall>a \<in> owned obj. blocks h' a = blocks h a \<Longrightarrow> object_life api al obj h'"

lemma parse_keeps:
  assumes "allocator_ok al" and "object_ok (pool_of al) h obj" and "heap_ok h"
    and "\<forall>cl \<in> set (cells obj). \<not> sorm_is_stat_needfree (stat cl)"
    and "i_parse_select_result api al st xs d obj h = Some (ret, obj', h')"
  shows "object_ok (pool_of al) h' obj' \<and> heap_ok h' \<and> desc obj' = desc obj"
proof -
  have o: "owned obj = {}" using assms(4) by (simp add: owned_def owned_cell_none)
  then have "row_ok (pool_of al) h h obj" using assms(2,3) by (simp add: row_ok_def)
  moreover have "\<not> sorm_is_stat_needfree (stat (cells obj ! i))" if "i < length (columns (desc obj))" for i
    using assms(2,4) that wf_object_length [of obj] by (auto simp: object_ok_def)
  ultimately have "row_ok (pool_of al) h h' obj' \<and> desc obj' = desc obj" by (rule parse_result_ok [OF assms(1) _ o _ assms(5)])
  then show ?thesis by (simp add: row_ok_def)
qed

lemma object_life_ok:
  assumes "object_life api al obj h" and "allocator_ok al"
  shows "object_ok (pool_of al) h obj \<and> heap_ok h"
  using assms(1)
proof induction
  case (made td h p h')
  from made(3,4) obtain h1 where m: "i_malloc al (size_t (int (t_size td) * 1)) h = Some (p, h1)"
    "h' = store h1 p (C_objects (replicate (nat 1) (new_object td)))"
    by (auto simp: sorm_new_def sorm_new_array_def split: Option.bind_splits if_splits)
  have "heap_ok h1" by (rule alloc_contract.mal_ok [OF assms(2) [unfolded allocator_ok_def] made(2) m(1)])
  then show ?case using object_ok_new(1) [OF made(1)] m(2) heap_ok_store by blast
next
  case (row obj h st xs d ret obj' h')
  then show ?case using parse_keeps [OF assms(2) _ _ row(2,3)] by simp
next
  case (set obj h len ci v ret obj')
  then show ?case using set_column_keeps [OF _ set(2,3,4)] by fastforce
next
  case (other obj h h')
  then show ?case unfolding object_ok_def by metis
qed

section \<open>Properties\<close>

text \<open>
  C17: At every moment of its life an object is well typed: each member has the form that belongs to the type of its
  column, arrays hold what fits, and the blocks it owns are live, of its allocator, and owned by one column only. So
  \<open>sorm_free\<close> returns and releases these blocks and no others.
\<close>

theorem object_life_typed:
  assumes "object_life api al obj h" and "allocator_ok al"
  shows "wf_object obj \<and> disjoint_cells obj \<and>
    (\<exists>h'. sorm_free al (Some obj) h = Some h' \<and> heap_ok h' \<and>
       blocks h' = (\<lambda>a. if a \<in> owned obj then None else blocks h a))"
  using object_life_ok [OF assms] sorm_free_owned [OF assms(2), of h obj] by (simp add: object_ok_def)

text \<open>A new object of the demo table with its key set.\<close>

theorem object_life_typed_witness:
  "\<exists>obj p h. sorm_new None (Some demo_table) (hp (start_world ([] :: int list))) = Some (p, h) \<and>
     sorm_set_column_value (Some (new_object demo_table)) 0 (Some (V_int32 7)) 0 h = Some (SORM_OK, Some obj) \<and>
     wf_object obj \<and> (\<exists>h'. sorm_free None (Some obj) h = Some h')"
proof -
  let ?h = "hp (start_world ([] :: int list))"
  obtain p h where n: "sorm_new None (Some demo_table) ?h = Some (p, h)" "p \<noteq> 0"
    by (simp add: sorm_new_def sorm_new_array_def i_malloc_def malloc_def demo_table_def start_world_def size_t_def)
  obtain obj where s: "sorm_set_column_value (Some (new_object demo_table)) 0 (Some (V_int32 7)) 0 h = Some (SORM_OK, Some obj)"
    using set_column_value_sets [of "new_object demo_table" 0 h "V_int32 7" 0 "Bind_int 7"] object_ok_new(1) [OF wf_demo_table, of None h]
    by (auto simp: sets_cell_def too_long_def Let_def object_ok_def arg_value_def mem_legal_def demo_column_def)
  have "object_life script_api None (new_object demo_table) h" by (rule object_life.made [OF wf_demo_table heap_ok_start n])
  then have l: "object_life script_api None obj h" using object_life.set [OF _ _ _ s] by simp
  from object_life_typed [OF l allocator_ok_libc] n s show ?thesis by auto
qed

end
