(* ===== verification/Sorm_Log.thy ===== *)
theory Sorm_Log
  imports Sorm_Sem
begin

text \<open>
  The start and the end of the library (\<open>sorm_init\<close>, \<open>sorm_final\<close> of \<^verbatim>\<open>src/src/sorm.c\<close>) with the two functions of
  \<^verbatim>\<open>src/src/log.h\<close> that keep state. zlog is a parameter; a build without it has none. The messages themselves
  touch nothing the other theories model.
\<close>

section \<open>Logging\<close>

datatype log_error_t = LOG_OK | LOG_INIT_FAIL

text \<open>The functions of zlog called; \<open>zlog_get_category\<close> says whether it gave a category.\<close>

record 'z zlog_api =
  zlog_init :: "'z \<Rightarrow> int \<times> 'z"
  zlog_get_category :: "'z \<Rightarrow> bool \<times> 'z"
  zlog_fini :: "'z \<Rightarrow> 'z"

text \<open>The variable \<open>zlog_category\<close> is \<open>NULL\<close> or not; the calls made are kept, the last first.\<close>

datatype zlog_call = Call_init int | Call_fini

record 'z log_state =
  zlog :: 'z
  zlog_category :: bool
  zlog_calls :: "zlog_call list"

definition log_init :: "'z zlog_api option \<Rightarrow> 'z log_state \<Rightarrow> log_error_t \<times> 'z log_state" where
  "log_init api s =
     (case api of
        None \<Rightarrow> (LOG_OK, s)
      | Some a \<Rightarrow>
          if zlog_category s then (LOG_OK, s)
          else let (ret, z) = zlog_init a (zlog s); s = s\<lparr>zlog := z, zlog_calls := Call_init ret # zlog_calls s\<rparr> in
            if ret \<noteq> 0 then (LOG_INIT_FAIL, s)
            else let (found, z) = zlog_get_category a z in
              if found then (LOG_OK, s\<lparr>zlog := z, zlog_category := True\<rparr>)
              else (LOG_INIT_FAIL, s\<lparr>zlog := zlog_fini a z, zlog_calls := Call_fini # zlog_calls s\<rparr>))"

definition log_final :: "'z zlog_api option \<Rightarrow> 'z log_state \<Rightarrow> 'z log_state" where
  "log_final api s =
     (case api of
        None \<Rightarrow> s
      | Some a \<Rightarrow>
          if zlog_category s
          then s\<lparr>zlog := zlog_fini a (zlog s), zlog_category := False, zlog_calls := Call_fini # zlog_calls s\<rparr>
          else s)"

section \<open>Start and end\<close>

definition sorm_init :: "'z zlog_api option \<Rightarrow> 'z log_state \<Rightarrow> sorm_error_t \<times> 'z log_state" where
  "sorm_init api s = (let (ret, s) = log_init api s in if ret \<noteq> LOG_OK then (SORM_INIT_FAIL, s) else (SORM_OK, s))"

definition sorm_final :: "'z zlog_api option \<Rightarrow> 'z log_state \<times> sem_state \<Rightarrow> 'z log_state \<times> sem_state" where
  "sorm_final api = (\<lambda>(s, sems). (log_final api s, sem_final sems))"

text \<open>\<open>sorm_last_stmt\<close>: the lines that would write \<open>last_stmt\<close> are comments, so it stays as the program starts with it.\<close>

definition sorm_last_stmt :: string where
  "sorm_last_stmt = []"

section \<open>zlog is opened and closed in turns\<close>

text \<open>How often zlog is open after these calls.\<close>

fun zlog_open :: "zlog_call list \<Rightarrow> int" where
  "zlog_open [] = 0"
| "zlog_open (Call_init ret # cs) = zlog_open cs + (if ret = 0 then 1 else 0)"
| "zlog_open (Call_fini # cs) = zlog_open cs - 1"

definition log_ok :: "'z log_state \<Rightarrow> bool" where
  "log_ok s \<longleftrightarrow> zlog_open (zlog_calls s) = (if zlog_category s then 1 else 0)"

lemma log_init_ok: "log_ok s \<Longrightarrow> log_init api s = (ret, s') \<Longrightarrow>
    log_ok s' \<and> (ret = LOG_OK \<longrightarrow> api = None \<or> zlog_category s') \<and> (ret \<noteq> LOG_OK \<longrightarrow> \<not> zlog_category s')"
  by (auto simp: log_init_def log_ok_def Let_def split: option.splits prod.splits if_splits)

lemma log_final_ok: "log_ok s \<Longrightarrow> log_ok (log_final api s) \<and> (api \<noteq> None \<longrightarrow> \<not> zlog_category (log_final api s))"
  by (auto simp: log_final_def log_ok_def split: option.splits)

text \<open>
  Whatever zlog answers, \<open>sorm_init\<close> returns \<open>SORM_OK\<close> or \<open>SORM_INIT_FAIL\<close>; zlog is open exactly once after the first and
  not at all after the second, and never after \<open>sorm_final\<close>; a second \<open>sorm_init\<close> opens nothing.
\<close>

theorem init_final_balanced:
  assumes "log_ok s" and "sorm_init (Some api) s = (ret, s')"
  shows "(ret = SORM_OK \<and> zlog_open (zlog_calls s') = 1 \<and> sorm_init (Some api) s' = (SORM_OK, s') \<or>
      ret = SORM_INIT_FAIL \<and> zlog_open (zlog_calls s') = 0) \<and>
    zlog_open (zlog_calls (fst (sorm_final (Some api) (s', sems)))) = 0"
proof -
  obtain r where r: "log_init (Some api) s = (r, s')" "ret = (if r \<noteq> LOG_OK then SORM_INIT_FAIL else SORM_OK)"
    using assms(2) by (auto simp: sorm_init_def split: prod.splits if_splits)
  note i = log_init_ok [OF assms(1) r(1)]
  have "log_init (Some api) s' = (LOG_OK, s')" if "zlog_category s'" using that by (simp add: log_init_def)
  then show ?thesis using i log_final_ok [of s' "Some api"] r(2)
    by (cases r) (auto simp: log_ok_def sorm_final_def sorm_init_def)
qed

end
