(* ===== verification/Sorm_Header.thy ===== *)
theory Sorm_Header
  imports Sorm_Types
begin

text \<open>
  The first half of the code generator: the header file for a table (\<^verbatim>\<open>src/src/header_generate.c\<close>, with
  \<^verbatim>\<open>generate.h\<close>). A function that prints into the file is the text it prints; \<open>None\<close> where it ends in
  \<open>exit(0)\<close>. The formats are those of the source. Then the layout a C compiler gives the structure in the
  generated header, and the words the library uses in it.
\<close>

section \<open>Printing\<close>

text \<open>\<open>fprintf\<close> with the conversions \<open>%s\<close> and \<open>%d\<close> only; numbers are among the arguments as their digits.\<close>

fun fprintf :: "string \<Rightarrow> string list \<Rightarrow> string" where
  "fprintf [] args = []"
| "fprintf (c # f) args = (if c = CHR ''%'' then hd args @ fprintf (tl f) (tl args) else c # fprintf f args)"

definition case_lower2upper :: "string \<Rightarrow> string" where
  "case_lower2upper lower_case =
     map (\<lambda>c. let n = (of_char c :: nat) in
       if n \<le> of_char (CHR ''z'') \<and> of_char (CHR ''a'') \<le> n then char_of (n - 32) else c) lower_case"

text \<open>The loop over the columns, the text of each behind the other.\<close>

fun cat_columns ::
  "(nat \<Rightarrow> sorm_column_descriptor_t \<Rightarrow> string option) \<Rightarrow> sorm_table_descriptor_t \<Rightarrow> nat list \<Rightarrow> string option" where
  "cat_columns f td [] = Some []"
| "cat_columns f td (i # is) =
     do { col \<leftarrow> column_at td (int i); s \<leftarrow> f i col; r \<leftarrow> cat_columns f td is; Some (s @ r) }"

definition for_columns ::
  "(nat \<Rightarrow> sorm_column_descriptor_t \<Rightarrow> string option) \<Rightarrow> sorm_table_descriptor_t \<Rightarrow> string option" where
  "for_columns f td = cat_columns f td (column_indexes td)"

section \<open>The parts of the header\<close>

definition define_len :: "string \<Rightarrow> nat \<Rightarrow> sorm_column_descriptor_t \<Rightarrow> string option" where
  "define_len t i col =
    (let T = case_lower2upper t; C = case_lower2upper (c_name col) in
     Some (fprintf ''#define %s__%s__MAX_LEN %d\<newline>'' [T, C, printf_d (c_max_len col)]))"

definition define_column :: "string \<Rightarrow> nat \<Rightarrow> sorm_column_descriptor_t \<Rightarrow> string option" where
  "define_column t i col =
    (let T = case_lower2upper t; c = c_name col; C = case_lower2upper c in
     Some (fprintf ''#define COLUMN__%s__%s \"%s.%s\"\<newline>'' [T, C, t, c]))"

definition header_generate_define :: "sorm_table_descriptor_t \<Rightarrow> string option" where
  "header_generate_define td =
    (let t = t_name td; T = case_lower2upper t in
     do { lens \<leftarrow> for_columns (define_len t) td;
          names \<leftarrow> for_columns (define_column t) td;
          Some (fprintf ''#ifndef %s_SORM_H\<newline>#define %s_SORM_H\<newline>\<newline>'' [T, T] @
            fprintf ''#include \"sorm.h\"\<newline>\<newline>'' [] @
            lens @ fprintf ''\<newline>'' [] @
            fprintf ''#define %s__ALL_COLUMNS \"%s.*\"\<newline>'' [T, t] @
            fprintf ''#define TABLE__%s \"%s\"\<newline>'' [T, t] @
            names @ fprintf ''\<newline>'' [] @
            fprintf ''#define DESC__%s %s_get_desc()\<newline>\<newline>'' [T, t] @
            fprintf (''#define %s_list_for_each(data, pos, head) '' @ [CHR 0x5C] @ ''\<newline>'' @
                     ''    sorm_list_data_for_each(data, %s_t, pos, head)\<newline>'' @
                     ''#define %s_list_for_each_safe(data, pos, scratch, head) '' @ [CHR 0x5C] @ ''\<newline>'' @
                     ''    sorm_list_data_for_each_safe(data, %s_t, pos, scratch, head)\<newline>\<newline>'')
                    [t, t, t, t]) })"

definition init_column :: "nat \<Rightarrow> sorm_column_descriptor_t \<Rightarrow> string option" where
  "init_column i col =
     do { v \<leftarrow> (case c_type col of
            SORM_TYPE_INT \<Rightarrow> Some (fprintf ''0, '' [])
          | SORM_TYPE_INT64 \<Rightarrow> Some (fprintf ''0, '' [])
          | SORM_TYPE_DOUBLE \<Rightarrow> Some (fprintf ''0, '' [])
          | SORM_TYPE_TEXT \<Rightarrow> Some (fprintf ''NULL, '' [])
          | SORM_TYPE_BLOB \<Rightarrow> Some (fprintf ''0, NULL, '' [])
          | SORM_TYPE_OTHER _ \<Rightarrow> None);
          Some (fprintf ''%d, '' [printf_d 0] @ v) }"

definition header_generate_init :: "sorm_table_descriptor_t \<Rightarrow> string option" where
  "header_generate_init td =
    (let t = t_name td; T = case_lower2upper t in
     do { zeros \<leftarrow> for_columns init_column td;
          Some (fprintf (''#define %s_INIT { %s_table_descriptor, '' @ [CHR 0x5C] @ ''\<newline>    '')
                  [T, t] @
            zeros @ fprintf '' }\<newline>\<newline>'' [] @
            fprintf ''extern sorm_table_descriptor_t %s_table_descriptor;\<newline>\<newline>'' [t] @
            fprintf (''static inline void %s_init(%s_t *%s) {\<newline>    bzero(%s, sizeof(%s_t)); \<newline>'' @
                     ''    %s->table_desc = %s_table_descriptor; \<newline>}\<newline>\<newline>'')
                    [t, t, t, t, t, t, t]) })"

definition struct_column :: "string \<Rightarrow> sorm_column_descriptor_t \<Rightarrow> string option" where
  "struct_column T col =
    (let c = c_name col; C = case_lower2upper c in
     do { v \<leftarrow> (case c_type col of
            SORM_TYPE_INT \<Rightarrow> Some (fprintf ''    int32_t     %s;\<newline>\<newline>'' [c])
          | SORM_TYPE_INT64 \<Rightarrow> Some (fprintf ''    int64_t     %s;\<newline>\<newline>'' [c])
          | SORM_TYPE_TEXT \<Rightarrow>
              if c_mem col = SORM_MEM_HEAP then Some (fprintf ''    char*       %s;\<newline>\<newline>'' [c])
              else if c_mem col = SORM_MEM_STACK
                then Some (fprintf ''    char        %s[%s__%s__MAX_LEN + 1];\<newline>\<newline>'' [c, T, C])
              else None
          | SORM_TYPE_DOUBLE \<Rightarrow> Some (fprintf ''    double      %s;\<newline>\<newline>'' [c])
          | SORM_TYPE_BLOB \<Rightarrow>
              if c_mem col = SORM_MEM_HEAP then Some (fprintf ''    void*       %s;\<newline>\<newline>'' [c])
              else if c_mem col = SORM_MEM_STACK
                then Some (fprintf ''    char        %s[%s__%s__MAX_LEN + 1];\<newline>\<newline>'' [c, T, C])
              else None
          | SORM_TYPE_OTHER _ \<Rightarrow> None);
          Some ((if c_type col = SORM_TYPE_BLOB then fprintf ''    int         %s_len;\<newline>'' [c] else []) @
            fprintf ''    sorm_stat_t %s_stat;\<newline>'' [c] @ v) })"

definition header_generate_struct :: "sorm_table_descriptor_t \<Rightarrow> string option" where
  "header_generate_struct td =
    (let t = t_name td; T = case_lower2upper t in
     do { members \<leftarrow> for_columns (\<lambda>i col. struct_column T col) td;
          Some (fprintf ''typedef struct %s_s\<newline>{\<newline>    sorm_table_descriptor_t table_desc;\<newline>\<newline>'' [t] @
            members @ fprintf ''} %s_t;\<newline>\<newline>'' [t]) })"

definition header_generate_func_to_string :: "sorm_table_descriptor_t \<Rightarrow> string" where
  "header_generate_func_to_string td =
    (let t = t_name td in
     fprintf ''char* %s_to_string(\<newline>        %s_t *%s, char *string, int len);\<newline>\<newline>'' [t, t, t])"

definition header_generate_func_get_desc :: "sorm_table_descriptor_t \<Rightarrow> string" where
  "header_generate_func_get_desc td =
    (let t = t_name td in
     fprintf ''sorm_table_descriptor_t* %s_get_desc();\<newline>\<newline>'' [t])"

definition header_generate_func_new :: "sorm_table_descriptor_t \<Rightarrow> string" where
  "header_generate_func_new td =
    (let t = t_name td in
     fprintf ''%s_t* %s_new(const sorm_allocator_t *allocator);\<newline>\<newline>'' [t, t] @
     fprintf ''%s_t* %s_new_array(const sorm_allocator_t *allocator, int num);\<newline>\<newline>'' [t, t])"

definition header_generate_func_free :: "sorm_table_descriptor_t \<Rightarrow> string" where
  "header_generate_func_free td =
    (let t = t_name td in
     fprintf ''void %s_free(const sorm_allocator_t *allocator, %s_t *%s);\<newline>\<newline>'' [t, t, t] @
     fprintf ''void %s_free_array(const sorm_allocator_t *allocator, %s_t *%s, int n);\<newline>\<newline>'' [t, t, t])"

definition header_generate_func_create_table :: "sorm_table_descriptor_t \<Rightarrow> string" where
  "header_generate_func_create_table td =
    (let t = t_name td in
     fprintf ''int %s_create_table(const sorm_connection_t *conn);\<newline>\<newline>'' [t])"

definition header_generate_func_delete_table :: "sorm_table_descriptor_t \<Rightarrow> string" where
  "header_generate_func_delete_table td =
    (let t = t_name td in
     fprintf ''int %s_delete_table(const sorm_connection_t *conn);\<newline>\<newline>'' [t])"

definition header_generate_func_save :: "sorm_table_descriptor_t \<Rightarrow> string" where
  "header_generate_func_save td =
    (let t = t_name td in
     fprintf ''int %s_insert(sorm_connection_t *conn, %s_t *%s);\<newline>'' [t, t, t] @
     fprintf ''int %s_replace(sorm_connection_t *conn, %s_t *%s);\<newline>\<newline>'' [t, t, t])"

definition header_generate_func_update :: "sorm_table_descriptor_t \<Rightarrow> string" where
  "header_generate_func_update td =
    (let t = t_name td in
     fprintf ''int %s_update(sorm_connection_t *conn, %s_t *%s);\<newline>\<newline>'' [t, t, t])"

text \<open>A \<open>double\<close> column falls through to the prototype of a blob.\<close>

definition set_prototype :: "string \<Rightarrow> nat \<Rightarrow> sorm_column_descriptor_t \<Rightarrow> string option" where
  "set_prototype t i col =
    (let c = c_name col in
     (case c_type col of
        SORM_TYPE_INT \<Rightarrow> Some (fprintf ''int %s_set_%s(%s_t *%s, int %s);\<newline>'' [t, c, t, t, c])
      | SORM_TYPE_INT64 \<Rightarrow> Some (fprintf ''int %s_set_%s(%s_t *%s, int64_t %s);\<newline>'' [t, c, t, t, c])
      | SORM_TYPE_TEXT \<Rightarrow> Some (fprintf ''int %s_set_%s(%s_t *%s, const char* %s);\<newline>'' [t, c, t, t, c])
      | SORM_TYPE_DOUBLE \<Rightarrow>
          Some (fprintf ''int %s_set_%s(%s_t *%s, double %s);\<newline>'' [t, c, t, t, c] @
            fprintf ''int %s_set_%s(%s_t *%s, const void* %s, int len);\<newline>'' [t, c, t, t, c])
      | SORM_TYPE_BLOB \<Rightarrow>
          Some (fprintf ''int %s_set_%s(%s_t *%s, const void* %s, int len);\<newline>'' [t, c, t, t, c])
      | SORM_TYPE_OTHER _ \<Rightarrow> None))"

definition header_generate_func_set_mem :: "sorm_table_descriptor_t \<Rightarrow> string option" where
  "header_generate_func_set_mem td =
     do { setters \<leftarrow> for_columns (set_prototype (t_name td)) td;
          Some (setters @ fprintf ''\<newline>'' []) }"

definition delete_by_prototype :: "string \<Rightarrow> nat \<Rightarrow> sorm_column_descriptor_t \<Rightarrow> string option" where
  "delete_by_prototype t i col =
    (let c = c_name col in
     if \<not> sorm_is_unique_column (c_constraint col) then Some []
     else (case c_type col of
        SORM_TYPE_INT \<Rightarrow> Some (
          fprintf ''int %s_delete_by_%s(const sorm_connection_t *conn, int %s);\<newline>'' [t, c, c])
      | SORM_TYPE_INT64 \<Rightarrow> Some (
          fprintf ''int %s_delete_by_%s(const sorm_connection_t *conn, int64_t %s);\<newline>'' [t, c, c])
      | SORM_TYPE_TEXT \<Rightarrow> Some (
          fprintf ''int %s_delete_by_%s(const sorm_connection_t *conn, char* %s);\<newline>'' [t, c, c])
      | SORM_TYPE_DOUBLE \<Rightarrow> Some (
          fprintf ''int %s_delete_by_%s(const sorm_connection_t *conn, double %s);\<newline>'' [t, c, c])
      | SORM_TYPE_BLOB \<Rightarrow> Some []
      | SORM_TYPE_OTHER _ \<Rightarrow> None))"

definition header_generate_func_delete :: "sorm_table_descriptor_t \<Rightarrow> string option" where
  "header_generate_func_delete td =
    (let t = t_name td in
     do { by_column \<leftarrow> for_columns (delete_by_prototype t) td;
          Some (fprintf ''int %s_delete(const sorm_connection_t *conn, const %s_t *%s);\<newline>\<newline>'' [t, t, t] @
            fprintf ''int %s_delete_by(const sorm_connection_t *conn, const char *filter);\<newline>\<newline>'' [t] @
            by_column @ fprintf ''\<newline>'' []) })"

definition select_by_prototype :: "string \<Rightarrow> nat \<Rightarrow> sorm_column_descriptor_t \<Rightarrow> string option" where
  "select_by_prototype t i col =
    (let c = c_name col in
     if \<not> sorm_is_unique_column (c_constraint col) then Some []
     else (case c_type col of
        SORM_TYPE_INT \<Rightarrow> Some (
          fprintf (''int %s_select_by_%s(\<newline>        const sorm_connection_t *conn,\<newline>'' @
                   ''        const sorm_allocator_t *allocator,\<newline>        const char *column_names, int %s,\<newline>'' @
                   ''        %s_t **%s);\<newline>'')
                  [t, c, c, t, t])
      | SORM_TYPE_INT64 \<Rightarrow> Some (
          fprintf (''int %s_select_by_%s(\<newline>        const sorm_connection_t *conn,\<newline>'' @
                   ''        const sorm_allocator_t *allocator,\<newline>        const char *column_names, int64_t %s,\<newline>'' @
                   ''        %s_t **%s);\<newline>'')
                  [t, c, c, t, t])
      | SORM_TYPE_TEXT \<Rightarrow> Some (
          fprintf (''int %s_select_by_%s(\<newline>        const sorm_connection_t *conn,\<newline>'' @
                   ''        const sorm_allocator_t *allocator,\<newline>        const char *column_names, const char* %s,\<newline>'' @
                   ''        %s_t **%s);\<newline>'')
                  [t, c, c, t, t])
      | SORM_TYPE_DOUBLE \<Rightarrow> Some (
          fprintf (''int %s_select_by_%s(\<newline>        const sorm_connection_t *conn,\<newline>'' @
                   ''        const sorm_allocator_t *allocator,\<newline>        const char *column_names, double* %s,\<newline>'' @
                   ''        %s_t **%s);\<newline>'')
                  [t, c, c, t, t])
      | SORM_TYPE_BLOB \<Rightarrow> Some []
      | SORM_TYPE_OTHER _ \<Rightarrow> None))"

definition header_generate_func_select :: "sorm_table_descriptor_t \<Rightarrow> string option" where
  "header_generate_func_select td =
    (let t = t_name td in
     do { by_column \<leftarrow> for_columns (select_by_prototype t) td;
          Some (by_column @ fprintf ''\<newline>'' [] @
            fprintf (''int %s_select_some_array_by(\<newline>        const sorm_connection_t *conn,\<newline>'' @
                     ''        const sorm_allocator_t *allocator,\<newline>'' @
                     ''        const char *column_names, const char *filter,\<newline>        int *n, %s_t **%ss_array);\<newline>'' @
                     ''int %s_select_some_list_by(\<newline>        const sorm_connection_t *conn,\<newline>'' @
                     ''        const sorm_allocator_t *allocator,\<newline>'' @
                     ''        const char *column_names, const char *filter,\<newline>'' @
                     ''        int *n, sorm_list_t **%ss_list_head);\<newline>int %s_select_all_array_by(\<newline>'' @
                     ''        const sorm_connection_t *conn,\<newline>        const sorm_allocator_t *allocator,\<newline>'' @
                     ''        const char *column_names, const char *filter,\<newline>        int *n, %s_t **%ss_array);\<newline>'' @
                     ''int %s_select_all_list_by(\<newline>        const sorm_connection_t *conn,\<newline>'' @
                     ''        const sorm_allocator_t *allocator,\<newline>'' @
                     ''        const char *column_names, const char *filter,\<newline>'' @
                     ''        int *n, sorm_list_t **%ss_list_head);\<newline>\<newline>'')
                    [t, t, t, t, t, t, t, t, t, t] @
            fprintf (''int %s_select_iterate_by_open(\<newline>        const sorm_connection_t *conn,\<newline>'' @
                     ''        const sorm_allocator_t *allocator,\<newline>'' @
                     ''        const char *column_names, const char *filter,\<newline>        sorm_iterator_t **iterator);\<newline>'' @
                     ''int %s_select_iterate_by(\<newline>        sorm_iterator_t *iterator, %s_t **%s);\<newline>'' @
                     ''#define %s_select_iterate_close sorm_select_iterate_close\<newline>'' @
                     ''#define %s_select_iterate_more sorm_select_iterate_more\<newline>'')
                    [t, t, t, t, t, t]) })"

definition header_generate_func_index :: "sorm_table_descriptor_t \<Rightarrow> string" where
  "header_generate_func_index td =
    (let t = t_name td in
     fprintf ''int %s_create_index(\<newline>        const sorm_connection_t *conn, char *columns_name);\<newline>'' [t] @
     fprintf ''int %s_drop_index(\<newline>        const sorm_connection_t *conn, char *columns_name);\<newline>'' [t])"

text \<open>
  \<open>writable\<close> says which files \<open>fopen\<close> opens for writing. When it does not open the header, the message is
  printed from the name that was just freed. The result is the name and the content of the file.
\<close>

definition header_generate :: "(string \<Rightarrow> bool) \<Rightarrow> sorm_table_descriptor_t \<Rightarrow> (string \<times> string) option" where
  "header_generate writable td =
    (let file_name = fprintf ''%s_sorm.h'' [t_name td] in
     if \<not> writable file_name then None
     else do {
       s1 \<leftarrow> header_generate_define td;
       s2 \<leftarrow> header_generate_struct td;
       s3 \<leftarrow> header_generate_init td;
       s4 \<leftarrow> header_generate_func_set_mem td;
       s5 \<leftarrow> header_generate_func_delete td;
       s6 \<leftarrow> header_generate_func_select td;
       Some (file_name, s1 @ s2 @ s3 @ header_generate_func_to_string td @ header_generate_func_get_desc td @
         header_generate_func_new td @ header_generate_func_free td @ header_generate_func_create_table td @
         header_generate_func_delete_table td @ header_generate_func_save td @ header_generate_func_update td @
         s4 @ s5 @ s6 @ header_generate_func_index td @ fprintf ''#endif'' []) })"

section \<open>The structure the header declares\<close>

text \<open>The types of its members; an array has the text of its length beside the length itself.\<close>

datatype ctype =
    C_descriptor       \<comment> \<open>\<open>sorm_table_descriptor_t\<close>\<close>
  | C_int | C_stat     \<comment> \<open>\<open>int\<close>, \<open>sorm_stat_t\<close>\<close>
  | C_int32 | C_int64 | C_double
  | C_char_ptr | C_void_ptr
  | C_array nat

text \<open>The members: the descriptor, and of column \<open>i\<close> the blob length, the status and the value.\<close>

datatype member_tag = F_desc | F_len nat | F_stat nat | F_value nat

definition value_type :: "sorm_column_descriptor_t \<Rightarrow> ctype option" where
  "value_type col =
     (case c_type col of
        SORM_TYPE_INT \<Rightarrow> Some C_int32
      | SORM_TYPE_INT64 \<Rightarrow> Some C_int64
      | SORM_TYPE_TEXT \<Rightarrow>
          if c_mem col = SORM_MEM_HEAP then Some C_char_ptr
          else if c_mem col = SORM_MEM_STACK then Some (C_array (nat (c_max_len col + 1))) else None
      | SORM_TYPE_DOUBLE \<Rightarrow> Some C_double
      | SORM_TYPE_BLOB \<Rightarrow>
          if c_mem col = SORM_MEM_HEAP then Some C_void_ptr
          else if c_mem col = SORM_MEM_STACK then Some (C_array (nat (c_max_len col + 1))) else None
      | SORM_TYPE_OTHER _ \<Rightarrow> None)"

fun struct_columns :: "nat \<Rightarrow> sorm_column_descriptor_t list \<Rightarrow> (member_tag \<times> ctype) list option" where
  "struct_columns i [] = Some []"
| "struct_columns i (col # cols) =
     do { v \<leftarrow> value_type col;
          r \<leftarrow> struct_columns (Suc i) cols;
          Some ((if c_type col = SORM_TYPE_BLOB then [(F_len i, C_int)] else []) @ [(F_stat i, C_stat), (F_value i, v)] @ r) }"

definition struct_members :: "sorm_table_descriptor_t \<Rightarrow> (member_tag \<times> ctype) list option" where
  "struct_members td = map_option (\<lambda>fs. (F_desc, C_descriptor) # fs) (struct_columns 0 (columns td))"

text \<open>How the header declares a member.\<close>

fun declares :: "sorm_table_descriptor_t \<Rightarrow> member_tag \<times> ctype \<Rightarrow> string" where
  "declares td (F_desc, ty) = ''    sorm_table_descriptor_t table_desc;\<newline>\<newline>''"
| "declares td (F_len i, ty) = ''    int         '' @ c_name (columns td ! i) @ ''_len;\<newline>''"
| "declares td (F_stat i, ty) = ''    sorm_stat_t '' @ c_name (columns td ! i) @ ''_stat;\<newline>''"
| "declares td (F_value i, ty) =
     (let c = c_name (columns td ! i) in
      (case ty of
         C_int32 \<Rightarrow> ''    int32_t     '' @ c
       | C_int64 \<Rightarrow> ''    int64_t     '' @ c
       | C_double \<Rightarrow> ''    double      '' @ c
       | C_char_ptr \<Rightarrow> ''    char*       '' @ c
       | C_void_ptr \<Rightarrow> ''    void*       '' @ c
       | C_array n \<Rightarrow> ''    char        '' @ c @ ''['' @ case_lower2upper (t_name td) @ ''__'' @ case_lower2upper c @ ''__MAX_LEN + 1]''
       | _ \<Rightarrow> []) @ '';\<newline>\<newline>'')"

section \<open>Its layout\<close>

text \<open>Sizes and alignments on a machine with 8-byte pointers; the descriptor has three pointers, a \<open>size_t\<close> and two \<open>int\<close>s.\<close>

fun c_size :: "ctype \<Rightarrow> nat" where
  "c_size C_descriptor = 40"
| "c_size C_int = 4" | "c_size C_stat = 4" | "c_size C_int32 = 4"
| "c_size C_int64 = 8" | "c_size C_double = 8" | "c_size C_char_ptr = 8" | "c_size C_void_ptr = 8"
| "c_size (C_array n) = n"

fun c_align :: "ctype \<Rightarrow> nat" where
  "c_align C_descriptor = 8"
| "c_align C_int = 4" | "c_align C_stat = 4" | "c_align C_int32 = 4"
| "c_align C_int64 = 8" | "c_align C_double = 8" | "c_align C_char_ptr = 8" | "c_align C_void_ptr = 8"
| "c_align (C_array n) = 1"

definition align_up :: "nat \<Rightarrow> nat \<Rightarrow> nat" where
  "align_up a n = (n + a - 1) div a * a"

text \<open>Every member at the next address its alignment allows.\<close>

fun layout :: "nat \<Rightarrow> ('k \<times> ctype) list \<Rightarrow> ('k \<times> nat) list" where
  "layout n [] = []"
| "layout n ((k, ty) # fs) = (let off = align_up (c_align ty) n in (k, off) # layout (off + c_size ty) fs)"

fun layout_end :: "nat \<Rightarrow> ('k \<times> ctype) list \<Rightarrow> nat" where
  "layout_end n [] = n"
| "layout_end n ((k, ty) # fs) = layout_end (align_up (c_align ty) n + c_size ty) fs"

text \<open>\<open>SORM_SIZE\<close> and \<open>SORM_OFFSET\<close> of the structure.\<close>

definition struct_size :: "sorm_table_descriptor_t \<Rightarrow> nat option" where
  "struct_size td = map_option (\<lambda>fs. align_up 8 (layout_end 0 fs)) (struct_members td)"

definition member_offset :: "sorm_table_descriptor_t \<Rightarrow> member_tag \<Rightarrow> nat option" where
  "member_offset td k = do { fs \<leftarrow> struct_members td; map_of (layout 0 fs) k }"

text \<open>
  What the library uses of an object for column \<open>i\<close> (\<open>_get_column_stat\<close>, \<open>_get_blob_len\<close>): the value at its
  offset, the four bytes before it for the status, and for a blob the four bytes before these.
\<close>

definition used_from :: "sorm_column_descriptor_t \<Rightarrow> nat \<Rightarrow> nat" where
  "used_from col off = off - (if c_type col = SORM_TYPE_BLOB then 8 else 4)"

definition used_to :: "sorm_column_descriptor_t \<Rightarrow> nat \<Rightarrow> nat" where
  "used_to col off = off + (case value_type col of Some ty \<Rightarrow> c_size ty | None \<Rightarrow> 0)"

section \<open>Facts\<close>

lemma cat_columns_Some:
  "(\<forall>i \<in> set is. i < length (columns td)) \<Longrightarrow>
   cat_columns f td is = map_option concat (those (map (\<lambda>i. f i (columns td ! i)) is))"
  by (induction "is") (auto simp: column_at_def map_option_case split: option.splits)

lemma for_columns_eq:
  "wf_table td \<Longrightarrow> for_columns f td = map_option concat (those (map (\<lambda>i. f i (columns td ! i)) [0..<length (columns td)]))"
  unfolding for_columns_def wf_table_indexes by (rule cat_columns_Some) simp

lemma align_up_bounds:
  assumes "0 < a"
  shows "n \<le> align_up a n" and "a dvd align_up a n" and "align_up a n < n + a"
proof -
  have "(n + a - 1) div a * a + (n + a - 1) mod a = n + a - 1" by simp
  moreover have "(n + a - 1) mod a < a" using assms by simp
  ultimately show "n \<le> align_up a n" "align_up a n < n + a" unfolding align_up_def using assms by linarith+
  show "a dvd align_up a n" by (simp add: align_up_def)
qed

lemma align_up_dvd:
  assumes "0 < a" and "a dvd n"
  shows "align_up a n = n"
proof -
  obtain k m where km: "n = a * k" "align_up a n = a * m" using assms(2) align_up_bounds(2) [OF assms(1)] by (metis dvdE)
  then have "a * k \<le> a * m" "a * m < a * (k + 1)" using align_up_bounds(1,3) [OF assms(1), of n] by simp_all
  then have "k \<le> m" "m < k + 1" using assms(1) by (simp_all only: mult_le_cancel1 mult_less_cancel1)
  then show ?thesis using km by simp
qed

lemma c_align_cases: "c_align ty = 1 \<or> c_align ty = 4 \<or> c_align ty = 8"
  by (cases ty) simp_all

lemma align_up_4: "4 dvd n \<Longrightarrow> 4 dvd align_up (c_align ty) n"
  using c_align_cases [of ty] align_up_bounds(2) [of 8 n] align_up_dvd [of 1 n] align_up_dvd [of 4 n]
  by (auto elim: dvd_trans [rotated])

text \<open>The place of one column that starts at \<open>n\<close>: the length of a blob, the status, the value.\<close>

lemma column_place:
  fixes n :: nat
  defines "l \<equiv> align_up 4 n"
  shows "align_up 4 (l + 4) = l + 4" "n \<le> l" "4 dvd l" "4 dvd align_up (c_align ty) (l + 4)"
    "l + 4 \<le> align_up (c_align ty) (l + 4)" "l + 8 \<le> align_up (c_align ty) (l + 8)" "4 dvd align_up (c_align ty) (l + 8)"
proof -
  show l: "n \<le> l" "4 dvd l" using align_up_bounds [of 4 n] by (simp_all add: l_def)
  then have d: "4 dvd l + 4" "4 dvd l + 8" by (auto simp: dvd_add_left_iff)
  show "align_up 4 (l + 4) = l + 4" by (rule align_up_dvd [OF _ d(1)]) simp
  have a: "0 < c_align ty" using c_align_cases [of ty] by auto
  show "l + 4 \<le> align_up (c_align ty) (l + 4)" "l + 8 \<le> align_up (c_align ty) (l + 8)"
    using align_up_bounds(1) [OF a] by simp_all
  show "4 dvd align_up (c_align ty) (l + 4)" "4 dvd align_up (c_align ty) (l + 8)" using align_up_4 d by simp_all
qed

lemma layout_end_le: "n \<le> layout_end n fs"
proof (induction fs arbitrary: n)
  case (Cons f fs)
  obtain k ty where f: "f = (k, ty)" by fastforce
  have "n \<le> align_up (c_align ty) n" using align_up_bounds(1) [of "c_align ty" n] c_align_cases [of ty] by auto
  also have "\<dots> \<le> layout_end (align_up (c_align ty) n + c_size ty) fs" using Cons.IH [of "align_up (c_align ty) n + c_size ty"] by simp
  finally show ?case by (simp add: f)
qed simp

lemma columns_layout:
  assumes "struct_columns i cols = Some fs" and "j < length cols"
  shows "\<exists>off s v. map_of (layout n fs) (F_value (i + j)) = Some off \<and> 4 dvd off \<and>
    map_of (layout n fs) (F_stat (i + j)) = Some s \<and> value_type (cols ! j) = Some v \<and> off = align_up (c_align v) (s + 4) \<and>
    used_to (cols ! j) off \<le> layout_end n fs \<and> n + (if c_type (cols ! j) = SORM_TYPE_BLOB then 8 else 4) \<le> off \<and>
    (\<forall>k < j. \<exists>off'. map_of (layout n fs) (F_value (i + k)) = Some off' \<and> used_to (cols ! k) off' \<le> used_from (cols ! j) off)"
  using assms
proof (induction cols arbitrary: i j n fs)
  case (Cons col cols)
  from Cons.prems(1) obtain v r where v: "value_type col = Some v" and r: "struct_columns (Suc i) cols = Some r" and
    fs: "fs = (if c_type col = SORM_TYPE_BLOB then [(F_len i, C_int)] else []) @ [(F_stat i, C_stat), (F_value i, v)] @ r"
    by (auto simp: bind_eq_Some_conv)
  define l where "l = align_up 4 n"
  define off where "off = align_up (c_align v) (l + (if c_type col = SORM_TYPE_BLOB then 8 else 4))"
  note pl = column_place [where n = n, folded l_def]
  define s where "s = l + (if c_type col = SORM_TYPE_BLOB then 4 else 0)"
  have lay: "map_of (layout n fs) (F_value i) = Some off" "map_of (layout n fs) (F_stat i) = Some s"
    "map_of (layout n fs) (F_stat (Suc i + m)) = map_of (layout (off + c_size v) r) (F_stat (Suc i + m))"
    "layout_end n fs = layout_end (off + c_size v) r"
    "map_of (layout n fs) (F_value (Suc i + m)) = map_of (layout (off + c_size v) r) (F_value (Suc i + m))" for m
    using pl(1) by (simp_all add: fs off_def s_def l_def [symmetric] Let_def add.assoc)
  have os: "off = align_up (c_align v) (s + 4)" by (simp add: off_def s_def add.assoc)
  have o: "4 dvd off" "n + (if c_type col = SORM_TYPE_BLOB then 8 else 4) \<le> off"
    using pl(2) pl(4-7) [where ty = v] by (auto simp: off_def)
  show ?case
  proof (cases j)
    case 0
    then show ?thesis using lay(1,2,4) o os v layout_end_le [of "off + c_size v" r]
      by (intro exI [of _ off] exI [of _ s] exI [of _ v]) (auto simp: used_to_def)
  next
    case (Suc j')
    from Cons.IH [OF r, of j' "off + c_size v"] Suc Cons.prems(2) obtain off1 s1 v1 where
      h: "map_of (layout (off + c_size v) r) (F_value (Suc i + j')) = Some off1" "4 dvd off1"
        "off + c_size v + (if c_type (cols ! j') = SORM_TYPE_BLOB then 8 else 4) \<le> off1"
        "\<forall>k < j'. \<exists>off'. map_of (layout (off + c_size v) r) (F_value (Suc i + k)) = Some off' \<and>
           used_to (cols ! k) off' \<le> used_from (cols ! j') off1"
        "map_of (layout (off + c_size v) r) (F_stat (Suc i + j')) = Some s1" "value_type (cols ! j') = Some v1"
        "off1 = align_up (c_align v1) (s1 + 4)" "used_to (cols ! j') off1 \<le> layout_end (off + c_size v) r" by auto
    have u: "off + c_size v \<le> used_from (cols ! j') off1" using h(3) by (auto simp: used_from_def)
    have ord: "\<exists>off'. map_of (layout n fs) (F_value (i + k)) = Some off' \<and> used_to ((col # cols) ! k) off' \<le> used_from (cols ! j') off1"
      if "k < j" for k
    proof (cases k)
      case 0
      then show ?thesis using lay(1) v u by (simp add: used_to_def)
    next
      case (Suc k')
      then show ?thesis using h(4) that \<open>j = Suc j'\<close> lay(5) [of k'] by auto
    qed
    have "map_of (layout n fs) (F_value (i + j)) = Some off1" using h(1) lay(5) [of j'] Suc by simp
    moreover have "map_of (layout n fs) (F_stat (i + j)) = Some s1" using h(5) lay(3) [of j'] Suc by simp
    moreover have "n + (if c_type (cols ! j') = SORM_TYPE_BLOB then 8 else 4) \<le> off1" using h(3) o(2) by linarith
    ultimately show ?thesis using h(2,6-8) lay(4) ord Suc
      by (intro exI [of _ off1] exI [of _ s1] exI [of _ v1]) auto
  qed
qed simp

text \<open>The text of the columns, from the members.\<close>

lemma struct_column_text:
  "struct_column (case_lower2upper (t_name td)) (columns td ! i) =
     map_option (\<lambda>v. (if c_type (columns td ! i) = SORM_TYPE_BLOB then declares td (F_len i, C_int) else []) @
       declares td (F_stat i, C_stat) @ declares td (F_value i, v)) (value_type (columns td ! i))"
  by (cases "c_type (columns td ! i)") (simp_all add: struct_column_def value_type_def Let_def)

lemma struct_columns_text:
  "drop i (columns td) = cols \<Longrightarrow>
   map_option concat (those (map (\<lambda>i. struct_column (case_lower2upper (t_name td)) (columns td ! i)) [i..<i + length cols]))
     = map_option (concat \<circ> map (declares td)) (struct_columns i cols)"
proof (induction cols arbitrary: i)
  case (Cons col cols)
  have "columns td ! i = col" using Cons.prems by (metis hd_drop_conv_nth list.sel(1) drop_eq_Nil2 list.distinct(1) not_le)
  moreover have d: "drop (Suc i) (columns td) = cols" using Cons.prems by (metis drop_Suc list.sel(3) tl_drop)
  ultimately have f: "struct_column (case_lower2upper (t_name td)) (columns td ! i) = map_option (\<lambda>v.
      (if c_type col = SORM_TYPE_BLOB then declares td (F_len i, C_int) else []) @
       declares td (F_stat i, C_stat) @ declares td (F_value i, v)) (value_type col)" using struct_column_text [of td i] by metis
  have u: "[i..<i + length (col # cols)] = i # [Suc i..<Suc i + length cols]" by (simp add: upt_conv_Cons del: upt_Suc)
  show ?case unfolding u list.map using Cons.IH [OF d] f
    by (cases "value_type col"; cases "struct_columns (Suc i) cols";
        cases "those (map (\<lambda>i. struct_column (case_lower2upper (t_name td)) (columns td ! i)) [Suc i..<Suc i + length cols])")
      (simp_all del: declares.simps upt_Suc)
qed simp

section \<open>Properties\<close>

text \<open>
  C33: The structure. The header declares the descriptor first and then for each column its status and value, with
  the length in front for a blob, each with the C type of the column; when a column has none, the generator
  stops.
\<close>

theorem struct_declared:
  assumes "wf_table td"
  shows "header_generate_struct td = map_option (\<lambda>fs. ''typedef struct '' @ t_name td @ ''_s\<newline>{\<newline>'' @
    concat (map (declares td) fs) @ ''} '' @ t_name td @ ''_t;\<newline>\<newline>'') (struct_members td)"
proof -
  have "for_columns (\<lambda>i col. struct_column (case_lower2upper (t_name td)) col) td
      = map_option (concat \<circ> map (declares td)) (struct_columns 0 (columns td))"
    using struct_columns_text [of 0 td "columns td"] by (simp add: for_columns_eq [OF assms])
  then show ?thesis
    by (cases "struct_columns 0 (columns td)") (simp_all add: header_generate_struct_def struct_members_def Let_def)
qed

text \<open>
  C32: The bytes of a column. In the structure as a compiler lays it out, the bytes the library uses for a column (its
  value, the status four bytes before it, the blob length four bytes before that) lie behind the descriptor,
  inside the structure, and apart from those of every other column; the status is aligned. They are the
  declared status member exactly when no padding stands between it and the value: for a value of eight bytes
  whose status lies at a multiple of eight the library uses the padding instead.
\<close>

theorem columns_apart:
  assumes "struct_members td = Some fs" and "i < length (columns td)"
  shows "\<exists>off s v size. member_offset td (F_value i) = Some off \<and> member_offset td (F_stat i) = Some s \<and>
    value_type (columns td ! i) = Some v \<and> struct_size td = Some size \<and> 4 dvd off \<and>
    40 \<le> used_from (columns td ! i) off \<and> used_to (columns td ! i) off \<le> size \<and> (s = off - 4 \<longleftrightarrow> c_align v dvd s + 4) \<and>
    (\<forall>k < i. \<exists>off'. member_offset td (F_value k) = Some off' \<and>
       used_to (columns td ! k) off' \<le> used_from (columns td ! i) off)"
proof -
  obtain gs where gs: "struct_columns 0 (columns td) = Some gs" "fs = (F_desc, C_descriptor) # gs"
    using assms(1) by (auto simp: struct_members_def)
  have mo: "member_offset td k = map_of (layout 40 gs) k" if "k \<noteq> F_desc" for k
    using that by (simp add: member_offset_def assms(1) gs(2) align_up_def)
  have size: "struct_size td = Some (align_up 8 (layout_end 40 gs))" by (simp add: struct_size_def assms(1) gs(2) align_up_def)
  from columns_layout [OF gs(1) assms(2), of 40] obtain off s v where
    c: "map_of (layout 40 gs) (F_value i) = Some off" "4 dvd off" "map_of (layout 40 gs) (F_stat i) = Some s"
      "value_type (columns td ! i) = Some v" "off = align_up (c_align v) (s + 4)" "used_to (columns td ! i) off \<le> layout_end 40 gs"
      "40 + (if c_type (columns td ! i) = SORM_TYPE_BLOB then 8 else 4) \<le> off"
      "\<forall>k < i. \<exists>off'. map_of (layout 40 gs) (F_value k) = Some off' \<and> used_to (columns td ! k) off' \<le> used_from (columns td ! i) off"
    by auto
  have a: "0 < c_align v" using c_align_cases [of v] by auto
  have "s = off - 4 \<longleftrightarrow> off = s + 4" using c(7) by auto
  also have "\<dots> \<longleftrightarrow> c_align v dvd s + 4" using c(5) align_up_dvd [OF a] align_up_bounds(2) [OF a] by metis
  finally have "s = off - 4 \<longleftrightarrow> c_align v dvd s + 4" .
  moreover have "40 \<le> used_from (columns td ! i) off" using c(7) by (auto simp: used_from_def)
  moreover have "used_to (columns td ! i) off \<le> align_up 8 (layout_end 40 gs)"
    using c(6) align_up_bounds(1) [of 8 "layout_end 40 gs"] by simp
  ultimately show ?thesis using c(1-4,8) size mo by simp
qed

section \<open>A concrete table\<close>

definition log_column :: "string \<Rightarrow> sorm_type_t \<Rightarrow> sorm_constraint_t \<Rightarrow> sorm_mem_t \<Rightarrow> int \<Rightarrow> sorm_column_descriptor_t" where
  "log_column name type constraint mem len = \<lparr>c_name = name, c_index = 0, c_type = type, c_constraint = constraint,
     c_mem = mem, c_max_len = len, c_offset = 0, is_foreign_key = False, foreign_table_name = [], foreign_column_name = []\<rparr>"

definition log_table :: sorm_table_descriptor_t where
  "log_table = \<lparr>t_name = ''log'', t_size = 0, columns_num = 3, PK_index = 0, create_sql = Some ''CREATE TABLE log'',
     columns = [log_column ''id'' SORM_TYPE_INT64 SORM_CONSTRAINT_PK SORM_MEM_NONE 0,
       log_column ''msg'' SORM_TYPE_TEXT SORM_CONSTRAINT_NONE SORM_MEM_STACK 7,
       log_column ''raw'' SORM_TYPE_BLOB SORM_CONSTRAINT_NONE SORM_MEM_HEAP 0]\<rparr>"

lemma wf_log_table [simp]: "wf_table log_table"
  by (simp add: wf_table_def wf_column_def log_table_def log_column_def)

theorem struct_declared_witness:
  "header_generate_struct log_table = Some (''typedef struct log_s\<newline>{\<newline>    sorm_table_descriptor_t table_desc;\<newline>\<newline>'' @
     ''    sorm_stat_t id_stat;\<newline>    int64_t     id;\<newline>\<newline>'' @
     ''    sorm_stat_t msg_stat;\<newline>    char        msg[LOG__MSG__MAX_LEN + 1];\<newline>\<newline>'' @
     ''    int         raw_len;\<newline>    sorm_stat_t raw_stat;\<newline>    void*       raw;\<newline>\<newline>'' @ ''} log_t;\<newline>\<newline>'')"
proof -
  have up: "case_lower2upper ''log'' = ''LOG''" "case_lower2upper ''msg'' = ''MSG''" by code_simp+
  have "struct_members log_table = Some [(F_desc, C_descriptor), (F_stat 0, C_stat), (F_value 0, C_int64), (F_stat 1, C_stat),
      (F_value 1, C_array 8), (F_len 2, C_int), (F_stat 2, C_stat), (F_value 2, C_void_ptr)]" by code_simp
  with struct_declared [OF wf_log_table] show ?thesis by (simp add: log_table_def log_column_def Let_def numeral_2_eq_2 up)
qed

text \<open>The status of \<open>id\<close> is declared at 40, and the library uses the padding at 44.\<close>

theorem columns_apart_witness:
  "member_offset log_table (F_value 0) = Some 48 \<and> member_offset log_table (F_stat 0) = Some 40 \<and>
   (40 :: nat) \<noteq> 48 - 4 \<and> \<not> c_align C_int64 dvd 40 + 4 \<and>
   member_offset log_table (F_value 1) = Some 60 \<and> used_to (columns log_table ! 0) 48 \<le> used_from (columns log_table ! 1) 60"
proof -
  have v: "member_offset log_table (F_value 0) = Some 48" "member_offset log_table (F_value 1) = Some 60"
    "member_offset log_table (F_stat 0) = Some 40" by code_simp+
  have "struct_members log_table = Some [(F_desc, C_descriptor), (F_stat 0, C_stat), (F_value 0, C_int64), (F_stat 1, C_stat),
      (F_value 1, C_array 8), (F_len 2, C_int), (F_stat 2, C_stat), (F_value 2, C_void_ptr)]" by code_simp
  from columns_apart [OF this, of 1] v have "used_to (columns log_table ! 0) 48 \<le> used_from (columns log_table ! 1) 60"
    by (auto simp: log_table_def)
  then show ?thesis using v by simp
qed

end
