(* ===== verification/Sorm_Generate.thy ===== *)
theory Sorm_Generate
  imports Sorm_Header
begin

text \<open>
  The second half of the code generator: the C file for a table (\<^verbatim>\<open>src/src/c_generate.c\<close>) and \<open>main\<close>
  (\<^verbatim>\<open>src/src/generate.c\<close>). As in the theory of the header, a function that prints is the text it prints, in the formats
  of the source. The parser that lex and yacc generate is a parameter of \<open>main\<close>. Shown are the balance of the
  braces in the C file and what a run of the generator writes.
\<close>

section \<open>Names\<close>

text \<open>The names of the constants, as the generated text spells them; other values are outside the tables.\<close>

fun sorm_strtype :: "sorm_type_t \<Rightarrow> string option" where
  "sorm_strtype SORM_TYPE_INT = Some ''SORM_TYPE_INT''"
| "sorm_strtype SORM_TYPE_INT64 = Some ''SORM_TYPE_INT64''"
| "sorm_strtype SORM_TYPE_TEXT = Some ''SORM_TYPE_TEXT''"
| "sorm_strtype SORM_TYPE_DOUBLE = Some ''SORM_TYPE_DOUBLE''"
| "sorm_strtype SORM_TYPE_BLOB = Some ''SORM_TYPE_BLOB''"
| "sorm_strtype (SORM_TYPE_OTHER _) = None"

fun sorm_strmem :: "sorm_mem_t \<Rightarrow> string option" where
  "sorm_strmem SORM_MEM_NONE = Some ''SORM_MEM_NONE''"
| "sorm_strmem SORM_MEM_HEAP = Some ''SORM_MEM_HEAP''"
| "sorm_strmem SORM_MEM_STACK = Some ''SORM_MEM_STACK''"
| "sorm_strmem (SORM_MEM_OTHER _) = None"

fun sorm_strconstraint :: "sorm_constraint_t \<Rightarrow> string option" where
  "sorm_strconstraint SORM_CONSTRAINT_NONE = Some ''SORM_CONSTRAINT_NONE''"
| "sorm_strconstraint SORM_CONSTRAINT_PK = Some ''SORM_CONSTRAINT_PK''"
| "sorm_strconstraint SORM_CONSTRAINT_PK_ASC = Some ''SORM_CONSTRAINT_PK_ASC''"
| "sorm_strconstraint SORM_CONSTRAINT_PK_DESC = Some ''SORM_CONSTRAINT_PK_DESC''"
| "sorm_strconstraint SORM_CONSTRAINT_UNIQUE = Some ''SORM_CONSTRAINT_UNIQUE''"
| "sorm_strconstraint (SORM_CONSTRAINT_OTHER _) = None"

text \<open>
  \<open>_str\<close>. The schema parser sets the two foreign names together with \<open>is_foreign_key\<close> and leaves them
  \<open>NULL\<close> otherwise.
\<close>

definition i_str :: "string option \<Rightarrow> string" where
  "i_str s = (case s of None \<Rightarrow> ''NULL'' | Some s \<Rightarrow> s)"

definition foreign_table :: "sorm_column_descriptor_t \<Rightarrow> string option" where
  "foreign_table col = (if is_foreign_key col then Some (foreign_table_name col) else None)"

definition foreign_column :: "sorm_column_descriptor_t \<Rightarrow> string option" where
  "foreign_column col = (if is_foreign_key col then Some (foreign_column_name col) else None)"

section \<open>The parts of the C file\<close>

definition column_desc_entry :: "string \<Rightarrow> nat \<Rightarrow> sorm_column_descriptor_t \<Rightarrow> string option" where
  "column_desc_entry t i col =
    (let T = case_lower2upper t; c = c_name col; C = case_lower2upper c in
     do { ty \<leftarrow> sorm_strtype (c_type col);
          cs \<leftarrow> sorm_strconstraint (c_constraint col);
          me \<leftarrow> sorm_strmem (c_mem col);
          Some (fprintf (''    {\<newline>        \"%s\",\<newline>        %d,\<newline>        %s,\<newline>        %s,\<newline>        %s,\<newline>        %s__%s__MAX_LEN,\<newline>'' @
                   ''        SORM_OFFSET(%s_t, %s),\<newline>        %d,\<newline>        \"%s\",\<newline>        \"%s\",\<newline>    },\<newline>'')
                  [c, printf_d (int i), ty, cs, me, T, C, t, c, printf_d (if is_foreign_key col then 1 else 0), i_str (foreign_table col), i_str (foreign_column col)]) })"

definition c_generate_column_desc :: "sorm_table_descriptor_t \<Rightarrow> string option" where
  "c_generate_column_desc td =
    (let t = t_name td in
     do { cols \<leftarrow> for_columns (column_desc_entry t) td;
          Some (fprintf ''static sorm_column_descriptor_t %s_columns_descriptor[%d] =\<newline>{\<newline>'' [t, printf_d (columns_num td)] @
            cols @ fprintf ''};\<newline>\<newline>'' []) })"

text \<open>\<open>create\<close> is \<open>table_desc->create_sql\<close>, which \<open>main\<close> has set.\<close>

definition c_generate_device_desc :: "sorm_table_descriptor_t \<Rightarrow> string option" where
  "c_generate_device_desc td =
    (let t = t_name td in
     do { create \<leftarrow> create_sql td;
          Some (fprintf ''sorm_table_descriptor_t %s_table_descriptor =\<newline>{\<newline>'' [t] @
            fprintf (''    \"%s\",\<newline>    SORM_SIZE(%s_t),\<newline>    %d,\<newline>    %d,\<newline>    \"%s\",\<newline>    %s_columns_descriptor,\<newline>'')
                    [t, t, printf_d (columns_num td), printf_d (PK_index td), create, t] @
            fprintf ''};\<newline>\<newline>'' []) })"

definition c_generate_func_to_string :: "sorm_table_descriptor_t \<Rightarrow> string" where
  "c_generate_func_to_string td =
    (let t = t_name td in
     fprintf ''char* %s_to_string(\<newline>        %s_t *%s, char *string, int len)\<newline>{\<newline>'' [t, t, t] @
     fprintf ''    return sorm_to_string((sorm_table_descriptor_t*)%s, string, len);\<newline>'' [t] @
     fprintf ''}\<newline>\<newline>'' [])"

definition c_generate_func_get_desc :: "sorm_table_descriptor_t \<Rightarrow> string" where
  "c_generate_func_get_desc td =
    (let t = t_name td in
     fprintf ''sorm_table_descriptor_t* %s_get_desc()\<newline>{\<newline>'' [t] @
     fprintf ''    return &%s_table_descriptor;\<newline>'' [t] @
     fprintf ''}\<newline>\<newline>'' [])"

definition c_generate_func_new :: "sorm_table_descriptor_t \<Rightarrow> string" where
  "c_generate_func_new td =
    (let t = t_name td in
     fprintf ''%s_t* %s_new(const sorm_allocator_t *allocator)\<newline>{\<newline>'' [t, t] @
     fprintf ''    return (%s_t *)sorm_new(allocator, &%s_table_descriptor);\<newline>'' [t, t] @
     fprintf ''}\<newline>\<newline>'' [] @
     fprintf ''%s_t* %s_new_array(const sorm_allocator_t *allocator, int num)\<newline>{\<newline>'' [t, t] @
     fprintf ''    return (%s_t *)sorm_new_array(allocator, &%s_table_descriptor, num);\<newline>'' [t, t] @
     fprintf ''}\<newline>\<newline>'' [])"

definition c_generate_func_free :: "sorm_table_descriptor_t \<Rightarrow> string" where
  "c_generate_func_free td =
    (let t = t_name td in
     fprintf ''void %s_free(const sorm_allocator_t *allocator, %s_t *%s)\<newline>{\<newline>'' [t, t, t] @
     fprintf ''    sorm_free(allocator, (sorm_table_descriptor_t *)%s);\<newline>'' [t] @
     fprintf ''}\<newline>\<newline>'' [] @
     fprintf ''void %s_free_array(const sorm_allocator_t *allocator, %s_t *%s, int n)\<newline>{\<newline>'' [t, t, t] @
     fprintf ''    sorm_free_array(allocator, (sorm_table_descriptor_t *)%s, n);\<newline>'' [t] @
     fprintf ''}\<newline>\<newline>'' [])"

text \<open>
  \<open>fgets(buf, SQL_STMT_MAX_LEN + 1, file)\<close> on a file with the content \<open>s\<close>: at most \<open>SQL_STMT_MAX_LEN\<close>
  characters, up to and with the first newline. Then the last character is cut, newline or not.
\<close>

definition fgets :: "string \<Rightarrow> string option" where
  "fgets s = (if s = [] then None
     else Some (take (nat SQL_STMT_MAX_LEN)
       (takeWhile (\<lambda>c. c \<noteq> CHR ''\<newline>'') s @ take 1 (dropWhile (\<lambda>c. c \<noteq> CHR ''\<newline>'') s))))"

definition cut_last :: "string \<Rightarrow> string option" where
  "cut_last s = (let s = takeWhile (\<lambda>c. c \<noteq> NUL) s in if s = [] then None else Some (butlast s))"

text \<open>\<open>input\<close> is the content of the input file, \<open>None\<close> when \<open>fopen\<close> fails.\<close>

definition c_generate_func_create_table :: "string option \<Rightarrow> sorm_table_descriptor_t \<Rightarrow> string option" where
  "c_generate_func_create_table input td =
    (let t = t_name td in
     case input of
       None \<Rightarrow> Some []
     | Some content \<Rightarrow>
         (case fgets content of
            None \<Rightarrow> Some []
          | Some line \<Rightarrow>
              do { sql_stmt \<leftarrow> cut_last line;
                   Some (fprintf ''int %s_create_table(const sorm_connection_t *conn)\<newline>{\<newline>'' [t] @
                     fprintf ''    char *sql_stmt = \"%s\";\<newline>\<newline>'' [sql_stmt] @
                     fprintf ''    return sorm_run_stmt(conn, sql_stmt, SORM_RWLOCK_WRITE);\<newline>'' [] @
                     fprintf ''}\<newline>\<newline>'' []) }))"

definition c_generate_func_delete_table :: "sorm_table_descriptor_t \<Rightarrow> string" where
  "c_generate_func_delete_table td =
    (let t = t_name td in
     fprintf ''int %s_delete_table(const sorm_connection_t *conn)\<newline>{\<newline>'' [t] @
     fprintf ''    return sorm_delete_table(conn, &%s_table_descriptor);'' [t] @
     fprintf ''}\<newline>\<newline>'' [])"

definition c_generate_func_save :: "sorm_table_descriptor_t \<Rightarrow> string" where
  "c_generate_func_save td =
    (let t = t_name td in
     fprintf ''int %s_insert(sorm_connection_t *conn, %s_t *%s)\<newline>{\<newline>'' [t, t, t] @
     fprintf ''    return sorm_insert(conn, (sorm_table_descriptor_t*)%s);\<newline>'' [t] @
     fprintf ''}\<newline>\<newline>'' [] @
     fprintf ''int %s_replace(sorm_connection_t *conn, %s_t *%s)\<newline>{\<newline>'' [t, t, t] @
     fprintf ''    return sorm_replace(conn, (sorm_table_descriptor_t*)%s);\<newline>'' [t] @
     fprintf ''}\<newline>\<newline>'' [])"

definition c_generate_func_update :: "sorm_table_descriptor_t \<Rightarrow> string" where
  "c_generate_func_update td =
    (let t = t_name td in
     fprintf ''int %s_update(sorm_connection_t *conn, %s_t *%s)\<newline>{\<newline>'' [t, t, t] @
     fprintf ''    return sorm_update(conn, (sorm_table_descriptor_t*)%s);\<newline>'' [t] @
     fprintf ''}\<newline>\<newline>'' [])"

definition set_function :: "string \<Rightarrow> nat \<Rightarrow> sorm_column_descriptor_t \<Rightarrow> string option" where
  "set_function t i col =
    (let c = c_name col in
     do { s \<leftarrow> (case c_type col of
            SORM_TYPE_INT \<Rightarrow> Some (
              fprintf ''int %s_set_%s(%s_t *%s, int %s)\<newline>{\<newline>'' [t, c, t, t, c] @
              fprintf ''    return sorm_set_column_value((sorm_table_descriptor_t*)%s, %d, &%s, 0);\<newline>'' [t, printf_d (int i), c])
          | SORM_TYPE_INT64 \<Rightarrow> Some (
              fprintf ''int %s_set_%s(%s_t *%s, int64_t %s)\<newline>{\<newline>'' [t, c, t, t, c] @
              fprintf ''    return sorm_set_column_value((sorm_table_descriptor_t*)%s, %d, &%s, 0);\<newline>'' [t, printf_d (int i), c])
          | SORM_TYPE_TEXT \<Rightarrow> Some (
              fprintf ''int %s_set_%s(%s_t *%s, const char* %s)\<newline>{\<newline>'' [t, c, t, t, c] @
              fprintf ''    return sorm_set_column_value((sorm_table_descriptor_t*)%s, %d, %s, 0);\<newline>'' [t, printf_d (int i), c])
          | SORM_TYPE_DOUBLE \<Rightarrow> Some (
              fprintf ''int %s_set_%s(%s_t *%s, double %s)\<newline>{\<newline>'' [t, c, t, t, c] @
              fprintf ''    return sorm_set_column_value((sorm_table_descriptor_t*)%s, %d, &%s, 0);\<newline>'' [t, printf_d (int i), c])
          | SORM_TYPE_BLOB \<Rightarrow> Some (
              fprintf ''int %s_set_%s(%s_t *%s, const void* %s, int len)\<newline>{\<newline>'' [t, c, t, t, c] @
              fprintf ''    return sorm_set_column_value((sorm_table_descriptor_t*)%s, %d, %s, len);\<newline>'' [t, printf_d (int i), c])
          | SORM_TYPE_OTHER _ \<Rightarrow> None);
          Some (s @ fprintf ''}\<newline>\<newline>'' []) })"

definition c_generate_func_set_mem :: "sorm_table_descriptor_t \<Rightarrow> string option" where
  "c_generate_func_set_mem td = for_columns (set_function (t_name td)) td"

text \<open>The closing brace is printed for a blob too, which has no function.\<close>

definition delete_by_function :: "string \<Rightarrow> nat \<Rightarrow> sorm_column_descriptor_t \<Rightarrow> string option" where
  "delete_by_function t i col =
    (let c = c_name col in
     if \<not> sorm_is_unique_column (c_constraint col) then Some []
     else do { s \<leftarrow> (case c_type col of
            SORM_TYPE_INT \<Rightarrow> Some (
              fprintf ''int %s_delete_by_%s(const sorm_connection_t *conn, int %s)\<newline>{\<newline>'' [t, c, c] @
              fprintf (''    return sorm_delete_by_column(\<newline>            conn, &%s_table_descriptor, %d, (void *)&%s);\<newline>'')
                      [t, printf_d (int i), c])
          | SORM_TYPE_INT64 \<Rightarrow> Some (
              fprintf ''int %s_delete_by_%s(const sorm_connection_t *conn, int64_t %s)\<newline>{\<newline>'' [t, c, c] @
              fprintf (''    return sorm_delete_by_column(\<newline>            conn, &%s_table_descriptor, %d, (void *)&%s);\<newline>'')
                      [t, printf_d (int i), c])
          | SORM_TYPE_TEXT \<Rightarrow> Some (
              fprintf ''int %s_delete_by_%s(const sorm_connection_t *conn, char* %s)\<newline>{\<newline>'' [t, c, c] @
              fprintf (''    return sorm_delete_by_column(\<newline>            conn, &%s_table_descriptor, %d, (void *)%s);\<newline>'')
                      [t, printf_d (int i), c])
          | SORM_TYPE_DOUBLE \<Rightarrow> Some (
              fprintf ''int %s_delete_by_%s(const sorm_connection_t *conn, double %s)\<newline>{\<newline>'' [t, c, c] @
              fprintf (''    return sorm_delete_by_column(\<newline>            conn, &%s_table_descriptor, %d, (void *)&%s);\<newline>'')
                      [t, printf_d (int i), c])
          | SORM_TYPE_BLOB \<Rightarrow> Some []
          | SORM_TYPE_OTHER _ \<Rightarrow> None);
          Some (s @ fprintf ''}\<newline>\<newline>'' []) })"

definition c_generate_func_delete :: "sorm_table_descriptor_t \<Rightarrow> string option" where
  "c_generate_func_delete td =
    (let t = t_name td in
     do { by_column \<leftarrow> for_columns (delete_by_function t) td;
          Some (fprintf ''int %s_delete(const sorm_connection_t *conn, const %s_t *%s)\<newline>{\<newline>'' [t, t, t] @
            fprintf ''    return sorm_delete(conn, (sorm_table_descriptor_t *)%s);\<newline>'' [t] @
            fprintf ''}\<newline>\<newline>'' [] @
            fprintf ''int %s_delete_by(const sorm_connection_t *conn, const char *filter)\<newline>{\<newline>'' [t] @
            fprintf ''    return sorm_delete_by(conn, &%s_table_descriptor, filter);\<newline>'' [t] @
            fprintf ''}\<newline>\<newline>'' [] @
            by_column) })"

definition select_by_function :: "string \<Rightarrow> nat \<Rightarrow> sorm_column_descriptor_t \<Rightarrow> string option" where
  "select_by_function t i col =
    (let c = c_name col in
     if \<not> sorm_is_unique_column (c_constraint col) then Some []
     else do { s \<leftarrow> (case c_type col of
            SORM_TYPE_INT \<Rightarrow> Some (
              fprintf (''int %s_select_by_%s(\<newline>        const sorm_connection_t *conn,\<newline>'' @
                       ''        const sorm_allocator_t *allocator,\<newline>        const char *column_names, int %s,\<newline>'' @
                       ''        %s_t **%s)\<newline>{\<newline>'')
                      [t, c, c, t, t] @
              fprintf (''    return sorm_select_one_by_column(\<newline>'' @
                       ''            conn, allocator, &%s_table_descriptor, column_names,\<newline>'' @
                       ''            %d, (void *)&%s, (sorm_table_descriptor_t **)%s);\<newline>'')
                      [t, printf_d (int i), c, t])
          | SORM_TYPE_INT64 \<Rightarrow> Some (
              fprintf (''int %s_select_by_%s(\<newline>        const sorm_connection_t *conn,\<newline>'' @
                       ''        const sorm_allocator_t *allocator,\<newline>        const char *column_names, int64_t %s,\<newline>'' @
                       ''        %s_t **%s)\<newline>{\<newline>'')
                      [t, c, c, t, t] @
              fprintf (''    return sorm_select_one_by_column(\<newline>'' @
                       ''            conn, allocator, &%s_table_descriptor, column_names,\<newline>'' @
                       ''            %d, (void *)&%s, (sorm_table_descriptor_t **)%s);\<newline>'')
                      [t, printf_d (int i), c, t])
          | SORM_TYPE_TEXT \<Rightarrow> Some (
              fprintf (''int %s_select_by_%s(\<newline>        const sorm_connection_t *conn,\<newline>'' @
                       ''        const sorm_allocator_t *allocator,\<newline>        const char *column_names,const char* %s,\<newline>'' @
                       ''        %s_t **%s)\<newline>{\<newline>'')
                      [t, c, c, t, t] @
              fprintf (''    return sorm_select_one_by_column(\<newline>'' @
                       ''            conn, allocator, &%s_table_descriptor, column_names,\<newline>'' @
                       ''            %d, (void *)%s, (sorm_table_descriptor_t **)%s);\<newline>'')
                      [t, printf_d (int i), c, t])
          | SORM_TYPE_DOUBLE \<Rightarrow> Some (
              fprintf (''int %s_select_by_%s(\<newline>        const sorm_connection_t *conn,\<newline>'' @
                       ''        const sorm_allocator_t *allocator,\<newline>        const char *column_names, double* %s,\<newline>'' @
                       ''        %s_t **%s)\<newline>{\<newline>'')
                      [t, c, c, t, t] @
              fprintf (''    return sorm_select_one_by_column(\<newline>'' @
                       ''            conn, allocator, &%s_table_descriptor, column_names,\<newline>'' @
                       ''            %d, (void *)&%s, (sorm_table_descriptor_t **)%s);\<newline>'')
                      [t, printf_d (int i), c, t])
          | SORM_TYPE_BLOB \<Rightarrow> Some []
          | SORM_TYPE_OTHER _ \<Rightarrow> None);
          Some (s @ fprintf ''}\<newline>\<newline>'' []) })"

text \<open>
  The variable \<open>upper_table_name\<close> of the source is freed without ever having been set: what it happens to hold
  is a parameter, and only \<open>NULL\<close> can be freed.
\<close>

definition c_generate_func_select :: "nat \<Rightarrow> sorm_table_descriptor_t \<Rightarrow> string option" where
  "c_generate_func_select upper_table_name td =
    (let t = t_name td in
     do { by_column \<leftarrow> for_columns (select_by_function t) td;
          if upper_table_name \<noteq> 0 then None
          else Some (by_column @
            fprintf (''int %s_select_some_array_by(\<newline>        const sorm_connection_t *conn,\<newline>'' @
                     ''        const sorm_allocator_t *allocator,\<newline>'' @
                     ''        const char *column_names, const char *filter,\<newline>        int *n, %s_t **%ss_array)\<newline>{\<newline>'' @
                     ''    return sorm_select_some_array_by(\<newline>'' @
                     ''            conn, allocator, &%s_table_descriptor, column_names,\<newline>'' @
                     ''            filter, n, (sorm_table_descriptor_t **)%ss_array);\<newline>}\<newline>\<newline>'')
                    [t, t, t, t, t] @
            fprintf (''int %s_select_some_list_by(\<newline>        const sorm_connection_t *conn,\<newline>'' @
                     ''        const sorm_allocator_t *allocator,\<newline>'' @
                     ''        const char *column_names, const char *filter,\<newline>'' @
                     ''        int *n, sorm_list_t **%ss_list_head)\<newline>{\<newline>    return sorm_select_some_list_by(\<newline>'' @
                     ''            conn, allocator, &%s_table_descriptor, column_names,\<newline>'' @
                     ''            filter, n, %ss_list_head);\<newline>}\<newline>\<newline>'')
                    [t, t, t, t] @
            fprintf (''int %s_select_all_array_by(\<newline>        const sorm_connection_t *conn,\<newline>'' @
                     ''        const sorm_allocator_t *allocator,\<newline>'' @
                     ''        const char *column_names, const char *filter,\<newline>        int *n, %s_t **%ss_array)\<newline>{\<newline>'' @
                     ''    return sorm_select_all_array_by(\<newline>'' @
                     ''            conn, allocator, &%s_table_descriptor, column_names,\<newline>'' @
                     ''            filter, n, (sorm_table_descriptor_t **)%ss_array);\<newline>}\<newline>\<newline>'')
                    [t, t, t, t, t] @
            fprintf (''int %s_select_all_list_by(\<newline>        const sorm_connection_t *conn,\<newline>'' @
                     ''        const sorm_allocator_t *allocator,\<newline>'' @
                     ''        const char *column_names, const char *filter,\<newline>'' @
                     ''        int *n, sorm_list_t **%ss_list_head)\<newline>{\<newline>    return sorm_select_all_list_by(\<newline>'' @
                     ''            conn, allocator, &%s_table_descriptor, column_names,\<newline>'' @
                     ''            filter, n, %ss_list_head);\<newline>}\<newline>\<newline>'')
                    [t, t, t, t] @
            fprintf (''int %s_select_iterate_by_open(\<newline>        const sorm_connection_t *conn,\<newline>'' @
                     ''        const sorm_allocator_t *allocator,\<newline>'' @
                     ''        const char *column_names, const char *filter,\<newline>        sorm_iterator_t **iterator)\<newline>{\<newline>'' @
                     ''    return sorm_select_iterate_by_open(\<newline>'' @
                     ''            conn, allocator, &%s_table_descriptor, column_names,\<newline>'' @
                     ''            filter, iterator);\<newline>}\<newline>\<newline>'')
                    [t, t] @
            fprintf (''int %s_select_iterate_by(\<newline>        sorm_iterator_t *iterator, %s_t **%s)\<newline>{\<newline>'' @
                     ''    return sorm_select_iterate_by(\<newline>            iterator, (sorm_table_descriptor_t **)%s);\<newline>}\<newline>\<newline>'')
                    [t, t, t, t]) })"

definition c_generate_func_index :: "sorm_table_descriptor_t \<Rightarrow> string" where
  "c_generate_func_index td =
    (let t = t_name td in
     fprintf (''int %s_create_index(\<newline>        const sorm_connection_t *conn, char *columns_name)\<newline>{\<newline>'' @
              ''    return sorm_create_index(conn, &%s_table_descriptor, columns_name);\<newline>}\<newline>\<newline>'')
             [t, t] @
     fprintf (''int %s_drop_index(\<newline>        const sorm_connection_t *conn, char *columns_name)\<newline>{\<newline>'' @
              ''    return sorm_drop_index(conn, columns_name);\<newline>}\<newline>\<newline>'')
             [t])"

text \<open>When \<open>fopen\<close> fails, the code goes on to print into the file it does not have.\<close>

definition c_generate ::
  "(string \<Rightarrow> bool) \<Rightarrow> nat \<Rightarrow> string option \<Rightarrow> sorm_table_descriptor_t \<Rightarrow> (string \<times> string) option" where
  "c_generate writable upper_table_name input td =
    (let file_name = fprintf ''%s_sorm.c'' [t_name td]; header_file_name = fprintf ''%s_sorm.h'' [t_name td] in
     if \<not> writable file_name then None
     else do {
       includes \<leftarrow> for_columns (\<lambda>i col. if is_foreign_key col
          then let foreign_header_file_name = fprintf ''%s_sorm.h'' [foreign_table_name col] in
            Some (fprintf ''#include \"%s\"\<newline>'' [foreign_header_file_name])
          else Some []) td;
       s1 \<leftarrow> c_generate_column_desc td;
       s2 \<leftarrow> c_generate_device_desc td;
       s3 \<leftarrow> c_generate_func_create_table input td;
       s4 \<leftarrow> c_generate_func_set_mem td;
       s5 \<leftarrow> c_generate_func_delete td;
       s6 \<leftarrow> c_generate_func_select upper_table_name td;
       Some (file_name, fprintf ''#include \"%s\"\<newline>'' [header_file_name] @ includes @ s1 @ s2 @
         c_generate_func_to_string td @ c_generate_func_get_desc td @ c_generate_func_new td @ c_generate_func_free td @
         s3 @ c_generate_func_delete_table td @ c_generate_func_save td @ c_generate_func_update td @ s4 @ s5 @ s6 @
         c_generate_func_index td) })"

section \<open>The generator\<close>

definition is_pk :: "sorm_column_descriptor_t \<Rightarrow> bool" where
  "is_pk col \<longleftrightarrow> c_constraint col = SORM_CONSTRAINT_PK \<or> c_constraint col = SORM_CONSTRAINT_PK_ASC \<or>
     c_constraint col = SORM_CONSTRAINT_PK_DESC"

text \<open>
  The search of the primary key. On a second one the list and the table are freed and the loop goes on with
  them.
\<close>

fun pk_loop :: "nat \<Rightarrow> sorm_column_descriptor_t list \<Rightarrow> bool \<Rightarrow> int \<Rightarrow> (bool \<times> int) option" where
  "pk_loop i [] has_PK pk = Some (has_PK, pk)"
| "pk_loop i (col # cols) has_PK pk =
     (if is_pk col then if \<not> has_PK then pk_loop (Suc i) cols True (int i) else None
      else pk_loop (Suc i) cols has_PK pk)"

text \<open>
  What the generator runs on: the files it can read (\<open>fopen\<close> gives their content), the files it can write, and
  the generated parser, which yields the name of the table, \<open>NULL\<close> when the text is not accepted, and the
  columns it has seen. The output files are not among the input files.
\<close>

record generator_env =
  files :: "string \<Rightarrow> string option"
  writable :: "string \<Rightarrow> bool"
  yyparse :: "string \<Rightarrow> string option \<times> sorm_column_descriptor_t list"
  stale :: nat    \<comment> \<open>what the variable freed in \<open>c_generate_func_select\<close> holds\<close>

definition parsed_table :: "string \<Rightarrow> sorm_column_descriptor_t list \<Rightarrow> int \<Rightarrow> string \<Rightarrow> sorm_table_descriptor_t" where
  "parsed_table name cols pk create = \<lparr>t_name = name, t_size = 0, columns_num = int (length cols), PK_index = pk,
     create_sql = Some create, columns = cols\<rparr>"

text \<open>The loop of \<open>main\<close> over its arguments: the value it returns and the files written.\<close>

fun main_loop :: "generator_env \<Rightarrow> string list \<Rightarrow> bool \<Rightarrow> (int \<times> (string \<times> string) list) option" where
  "main_loop env [] has_PK = Some (0, [])"
| "main_loop env (arg # argv) has_PK =
     (case files env arg of
        None \<Rightarrow> main_loop env argv has_PK
      | Some content \<Rightarrow>
          let (name, cols) = yyparse env content in
          (case fgets content of
             None \<Rightarrow> Some (-1, [])
           | Some line \<Rightarrow>
               do { create \<leftarrow> cut_last line;
                    (has_PK, pk) \<leftarrow> pk_loop 0 cols has_PK SORM_NO_PK;
                    name \<leftarrow> name;
                    let td = parsed_table name cols pk create;
                    header \<leftarrow> header_generate (writable env) td;
                    c_file \<leftarrow> c_generate (writable env) (stale env) (files env arg) td;
                    (ret, out) \<leftarrow> main_loop env argv has_PK;
                    Some (ret, header # c_file # out) }))"

definition main :: "generator_env \<Rightarrow> string list \<Rightarrow> (int \<times> (string \<times> string) list) option" where
  "main env argv = (if argv = [] then Some (-1, []) else main_loop env argv False)"

section \<open>Braces\<close>

definition braces :: "string \<Rightarrow> int" where
  "braces s = int (count_list s CHR ''{'') - int (count_list s CHR ''}'')"

definition no_brace :: "string \<Rightarrow> bool" where
  "no_brace s \<longleftrightarrow> CHR ''{'' \<notin> set s \<and> CHR ''}'' \<notin> set s"

lemma braces_simps [simp]:
  "braces [] = 0" "braces (s @ s') = braces s + braces s'"
  "braces (c # s) = (if c = CHR ''{'' then 1 else if c = CHR ''}'' then - 1 else 0) + braces s"
  by (simp_all add: braces_def)

lemma no_brace_braces [simp]: "no_brace s \<Longrightarrow> braces s = 0"
  by (simp add: braces_def no_brace_def)

lemma char_no_brace: "m < 123 \<Longrightarrow> char_of (m :: nat) \<noteq> CHR ''{'' \<and> char_of m \<noteq> CHR ''}''"
proof -
  assume m: "m < 123"
  then have h: "of_char (char_of m) = m" by (simp add: of_char_of)
  have "m = of_char c" if "char_of m = c" for c using h unfolding that by (rule sym)
  from this [of "CHR ''{''"] this [of "CHR ''}''"] m show ?thesis by auto
qed

lemma no_brace_Cons: "no_brace (c # s) \<longleftrightarrow> c \<noteq> CHR ''{'' \<and> c \<noteq> CHR ''}'' \<and> no_brace s"
  by (auto simp: no_brace_def)

lemma no_brace_upper [simp]: "no_brace s \<Longrightarrow> no_brace (case_lower2upper s)"
proof (induction s)
  case (Cons c s)
  define d where "d = (let n = (of_char c :: nat) in
    if n \<le> of_char (CHR ''z'') \<and> of_char (CHR ''a'') \<le> n then char_of (n - 32) else c)"
  have z: "(of_char (CHR ''z'') :: nat) = 122" by simp
  have "d \<noteq> CHR ''{'' \<and> d \<noteq> CHR ''}''"
  proof (cases "(of_char c :: nat) \<le> of_char (CHR ''z'') \<and> (of_char (CHR ''a'') :: nat) \<le> of_char c")
    case True
    then have "d = char_of (of_char c - 32 :: nat)" "(of_char c - 32 :: nat) < 123" unfolding d_def Let_def z by (simp, linarith)
    then show ?thesis using char_no_brace by simp
  next
    case False
    then have "d = c" by (simp only: d_def Let_def if_False)
    then show ?thesis using Cons.prems by (simp add: no_brace_Cons)
  qed
  moreover have "case_lower2upper (c # s) = d # case_lower2upper s" by (simp only: case_lower2upper_def d_def list.map)
  ultimately show ?case using Cons by (simp add: no_brace_Cons)
qed (simp add: case_lower2upper_def)

lemma no_brace_digits [simp]: "no_brace (printf_d i)"
proof -
  have dg: "digit_char n \<noteq> CHR ''{'' \<and> digit_char n \<noteq> CHR ''}''" if "n < 10" for n
    unfolding digit_char_def by (rule char_no_brace) (use that in simp)
  have "no_brace (show_nat n)" for n
  proof (induction n rule: show_nat.induct)
    case (1 n)
    then show ?case using dg [of n] dg [of "n mod 10"] by (subst show_nat.simps) (auto simp: no_brace_def)
  qed
  then show ?thesis by (auto simp: printf_d_def no_brace_def)
qed

lemma no_brace_names [simp]:
  "sorm_strtype ty = Some s \<Longrightarrow> no_brace s" "sorm_strconstraint c = Some s \<Longrightarrow> no_brace s" "sorm_strmem m = Some s \<Longrightarrow> no_brace s"
  subgoal by (cases ty) (auto simp: no_brace_def)
  subgoal by (cases c) (auto simp: no_brace_def)
  subgoal by (cases m) (auto simp: no_brace_def)
  done

definition names_plain :: "sorm_table_descriptor_t \<Rightarrow> bool" where
  "names_plain td \<longleftrightarrow> no_brace (t_name td) \<and> (\<forall>col \<in> set (columns td).
     no_brace (c_name col) \<and> no_brace (foreign_table_name col) \<and> no_brace (foreign_column_name col))"

lemma those_braces:
  "those (map F is) = Some ss \<Longrightarrow> (\<And>i s. i \<in> set is \<Longrightarrow> F i = Some s \<Longrightarrow> braces s = g i) \<Longrightarrow>
   braces (concat ss) = (\<Sum>i \<leftarrow> is. g i)"
  by (induction "is" arbitrary: ss) (auto split: option.splits)

lemma for_columns_braces:
  assumes "wf_table td" and "for_columns f td = Some s"
    and "\<And>i s. i < length (columns td) \<Longrightarrow> f i (columns td ! i) = Some s \<Longrightarrow> braces s = g (columns td ! i)"
  shows "braces s = (\<Sum>col \<leftarrow> columns td. g col)"
proof -
  from assms(2) obtain ss where ss: "those (map (\<lambda>i. f i (columns td ! i)) [0..<length (columns td)]) = Some ss" "s = concat ss"
    by (auto simp: for_columns_eq [OF assms(1)])
  have "braces (concat ss) = (\<Sum>i \<leftarrow> [0..<length (columns td)]. g (columns td ! i))"
    by (rule those_braces [OF ss(1)]) (use assms(3) in auto)
  also have "map (\<lambda>i. g (columns td ! i)) [0..<length (columns td)] = map g (columns td)"
    by (rule nth_equalityI) simp_all
  finally show ?thesis using ss(2) by simp
qed

text \<open>The columns for which a closing brace is printed without a function.\<close>

definition stray :: "sorm_column_descriptor_t \<Rightarrow> bool" where
  "stray col \<longleftrightarrow> c_type col = SORM_TYPE_BLOB \<and> sorm_is_unique_column (c_constraint col)"

lemma sum_stray: "(\<Sum>col \<leftarrow> cols. if stray col then - 1 else 0) = - int (length (filter stray cols))"
  by (induction cols) simp_all

lemma zero_columns: "(\<Sum>col \<leftarrow> cols. 0 :: int) = 0"
  by (induction cols) simp_all

lemma braces_plain_functions:
  assumes "no_brace (t_name td)"
  shows "braces (c_generate_func_to_string td) = 0" "braces (c_generate_func_get_desc td) = 0" "braces (c_generate_func_new td) = 0"
    "braces (c_generate_func_free td) = 0" "braces (c_generate_func_delete_table td) = 0" "braces (c_generate_func_save td) = 0"
    "braces (c_generate_func_update td) = 0" "braces (c_generate_func_index td) = 0"
  using assms
  by (simp_all add: c_generate_func_to_string_def c_generate_func_get_desc_def c_generate_func_new_def c_generate_func_free_def
      c_generate_func_delete_table_def c_generate_func_save_def c_generate_func_update_def c_generate_func_index_def Let_def)

lemma braces_entries:
  assumes "no_brace t" and "no_brace (c_name col)" and "no_brace (foreign_table_name col)" and "no_brace (foreign_column_name col)"
  shows "column_desc_entry t i col = Some s \<Longrightarrow> braces s = 0"
    and "set_function t i col = Some s \<Longrightarrow> braces s = 0"
    and "delete_by_function t i col = Some s \<Longrightarrow> braces s = (if stray col then - 1 else 0)"
    and "select_by_function t i col = Some s \<Longrightarrow> braces s = (if stray col then - 1 else 0)"
proof -
  have f: "no_brace (i_str (foreign_table col))" "no_brace (i_str (foreign_column col))"
    using assms(3,4) by (auto simp: i_str_def foreign_table_def foreign_column_def no_brace_Cons) (simp_all add: no_brace_def)
  show "column_desc_entry t i col = Some s \<Longrightarrow> braces s = 0"
    using assms(1,2) f by (auto simp: column_desc_entry_def Let_def bind_eq_Some_conv)
  show "set_function t i col = Some s \<Longrightarrow> braces s = 0"
    using assms(1,2) by (cases "c_type col") (auto simp: set_function_def Let_def)
  show "delete_by_function t i col = Some s \<Longrightarrow> braces s = (if stray col then - 1 else 0)"
    using assms(1,2) by (cases "c_type col") (auto simp: delete_by_function_def stray_def Let_def split: if_splits)
  show "select_by_function t i col = Some s \<Longrightarrow> braces s = (if stray col then - 1 else 0)"
    using assms(1,2) by (cases "c_type col") (auto simp: select_by_function_def stray_def Let_def split: if_splits)
qed

lemma no_brace_line:
  assumes "fgets content = Some line" and "cut_last line = Some s" and "no_brace content"
  shows "no_brace s"
proof -
  have "set line \<subseteq> set content" using assms(1)
    by (auto simp: fgets_def split: if_splits dest!: in_set_takeD dest: set_takeWhileD set_dropWhileD)
  moreover have "set s \<subseteq> set line" using assms(2)
    by (auto simp: cut_last_def Let_def split: if_splits dest!: in_set_butlastD dest: set_takeWhileD)
  ultimately show ?thesis using assms(3) by (auto simp: no_brace_def)
qed

lemma braces_create_table:
  assumes "no_brace (t_name td)" and "\<forall>content. input = Some content \<longrightarrow> no_brace content"
    and "c_generate_func_create_table input td = Some s"
  shows "braces s = 0"
proof (cases "\<exists>content line. input = Some content \<and> fgets content = Some line")
  case True
  then obtain content line where io: "input = Some content" "fgets content = Some line" by blast
  with assms(3) obtain sql where sql: "cut_last line = Some sql"
    by (auto simp: c_generate_func_create_table_def bind_eq_Some_conv Let_def)
  have "no_brace sql" using no_brace_line [OF io(2) sql] assms(2) io(1) by simp
  then show ?thesis using assms(1,3) io sql by (auto simp: c_generate_func_create_table_def Let_def)
next
  case False
  then show ?thesis using assms(3) by (auto simp: c_generate_func_create_table_def Let_def split: option.splits)
qed

lemma braces_loops:
  assumes wf: "wf_table td" and pl: "names_plain td"
  shows "c_generate_column_desc td = Some s \<Longrightarrow> braces s = 0"
    and "c_generate_func_set_mem td = Some s \<Longrightarrow> braces s = 0"
    and "c_generate_func_delete td = Some s \<Longrightarrow> braces s = - int (length (filter stray (columns td)))"
    and "c_generate_func_select u td = Some s \<Longrightarrow> braces s = - int (length (filter stray (columns td)))"
proof -
  have t: "no_brace (t_name td)" using pl by (simp add: names_plain_def)
  have col: "no_brace (c_name (columns td ! i))" "no_brace (foreign_table_name (columns td ! i))"
    "no_brace (foreign_column_name (columns td ! i))" if "i < length (columns td)" for i
    using pl that by (simp_all add: names_plain_def)
  have 1: "braces c = 0" if "for_columns (column_desc_entry (t_name td)) td = Some c" for c
    using for_columns_braces [OF wf that, where g = "\<lambda>_. 0"] braces_entries(1) [OF t] col by (simp only: zero_columns) blast
  have 2: "braces c = 0" if "for_columns (set_function (t_name td)) td = Some c" for c
    using for_columns_braces [OF wf that, where g = "\<lambda>_. 0"] braces_entries(2) [OF t] col by (simp only: zero_columns) blast
  have 3: "braces c = - int (length (filter stray (columns td)))"
    if "for_columns (delete_by_function (t_name td)) td = Some c" for c
    unfolding sum_stray [symmetric] by (rule for_columns_braces [OF wf that]) (use braces_entries(3) [OF t] col in blast)
  have 4: "braces c = - int (length (filter stray (columns td)))"
    if "for_columns (select_by_function (t_name td)) td = Some c" for c
    unfolding sum_stray [symmetric] by (rule for_columns_braces [OF wf that]) (use braces_entries(4) [OF t] col in blast)
  show "c_generate_column_desc td = Some s \<Longrightarrow> braces s = 0"
    using 1 t by (auto simp: c_generate_column_desc_def Let_def bind_eq_Some_conv)
  show "c_generate_func_set_mem td = Some s \<Longrightarrow> braces s = 0"
    using 2 by (simp add: c_generate_func_set_mem_def)
  show "c_generate_func_delete td = Some s \<Longrightarrow> braces s = - int (length (filter stray (columns td)))"
    using 3 t by (auto simp: c_generate_func_delete_def Let_def bind_eq_Some_conv)
  show "c_generate_func_select u td = Some s \<Longrightarrow> braces s = - int (length (filter stray (columns td)))"
    using 4 t by (auto simp: c_generate_func_select_def Let_def bind_eq_Some_conv split: if_splits)
qed


section \<open>The runs of the generator\<close>

text \<open>The tables the generator can print: every column has a C type and its constants have names.\<close>

definition printable :: "sorm_column_descriptor_t \<Rightarrow> bool" where
  "printable col \<longleftrightarrow> wf_column col \<and> value_type col \<noteq> None \<and> sorm_strconstraint (c_constraint col) \<noteq> None \<and>
     sorm_strmem (c_mem col) \<noteq> None"

lemma those_total: "(\<And>i. i \<in> set is \<Longrightarrow> F i \<noteq> None) \<Longrightarrow> those (map F is) \<noteq> None"
  by (induction "is") (auto split: option.splits)

lemma for_columns_total:
  assumes "wf_table td" and "\<And>i. i < length (columns td) \<Longrightarrow> f i (columns td ! i) \<noteq> None"
  shows "\<exists>s. for_columns f td = Some s"
  using those_total [of "[0..<length (columns td)]" "\<lambda>i. f i (columns td ! i)"] assms(2)
  by (auto simp: for_columns_eq [OF assms(1)])

lemma printable_parts:
  assumes "printable col"
  shows "init_column i col \<noteq> None" "set_prototype t i col \<noteq> None" "delete_by_prototype t i col \<noteq> None"
    "select_by_prototype t i col \<noteq> None" "struct_column T col \<noteq> None" "column_desc_entry t i col \<noteq> None"
    "set_function t i col \<noteq> None" "delete_by_function t i col \<noteq> None" "select_by_function t i col \<noteq> None"
proof -
  from assms obtain ty cs me where p: "value_type col = Some ty" "sorm_strconstraint (c_constraint col) = Some cs"
    "sorm_strmem (c_mem col) = Some me" by (auto simp: printable_def)
  have o: "c_type col \<noteq> SORM_TYPE_OTHER n" for n using p(1) by (auto simp: value_type_def)
  show "struct_column T col \<noteq> None" using p(1)
    by (cases "c_type col") (auto simp: struct_column_def value_type_def Let_def split: if_splits)
  show "column_desc_entry t i col \<noteq> None" using p(2,3) o
    by (cases "c_type col") (auto simp: column_desc_entry_def Let_def)
  show "set_function t i col \<noteq> None" "delete_by_function t i col \<noteq> None" "select_by_function t i col \<noteq> None"
    "init_column i col \<noteq> None" "set_prototype t i col \<noteq> None" "delete_by_prototype t i col \<noteq> None"
    "select_by_prototype t i col \<noteq> None" using o
    by (cases "c_type col"; auto simp: set_function_def delete_by_function_def select_by_function_def init_column_def
        set_prototype_def delete_by_prototype_def select_by_prototype_def Let_def)+
qed

lemma header_total:
  assumes "wf_table td" and "\<forall>col \<in> set (columns td). printable col" and "wr (fprintf ''%s_sorm.h'' [t_name td])"
  shows "\<exists>h. header_generate wr td = Some h"
proof -
  have p: "printable (columns td ! i)" if "i < length (columns td)" for i using assms(2) that by simp
  note tot = for_columns_total [OF assms(1)] and parts = printable_parts [OF p]
  have "\<exists>s. header_generate_define td = Some s"
    using tot [of "define_len (t_name td)"] tot [of "define_column (t_name td)"]
    by (auto simp: header_generate_define_def define_len_def define_column_def Let_def)
  moreover have "\<exists>s. header_generate_struct td = Some s"
    using tot [of "\<lambda>i. struct_column (case_lower2upper (t_name td))"] parts by (auto simp: header_generate_struct_def Let_def)
  moreover have "\<exists>s. header_generate_init td = Some s"
    using tot [of init_column] parts by (auto simp: header_generate_init_def Let_def)
  moreover have "\<exists>s. header_generate_func_set_mem td = Some s"
    using tot [of "set_prototype (t_name td)"] parts by (auto simp: header_generate_func_set_mem_def)
  moreover have "\<exists>s. header_generate_func_delete td = Some s"
    using tot [of "delete_by_prototype (t_name td)"] parts by (auto simp: header_generate_func_delete_def Let_def)
  moreover have "\<exists>s. header_generate_func_select td = Some s"
    using tot [of "select_by_prototype (t_name td)"] parts by (auto simp: header_generate_func_select_def Let_def)
  ultimately show ?thesis using assms(3) by (auto simp: header_generate_def Let_def)
qed

lemma c_total:
  assumes "wf_table td" and "\<forall>col \<in> set (columns td). printable col" and "wr (fprintf ''%s_sorm.c'' [t_name td])"
    and "create_sql td = Some create" and "input = Some content" and "fgets content = Some line" and "cut_last line = Some sql"
  shows "\<exists>c. c_generate wr 0 input td = Some c"
proof -
  have p: "printable (columns td ! i)" if "i < length (columns td)" for i using assms(2) that by simp
  note tot = for_columns_total [OF assms(1)] and parts = printable_parts [OF p]
  have "\<exists>s. c_generate_column_desc td = Some s"
    using tot [of "column_desc_entry (t_name td)"] parts by (auto simp: c_generate_column_desc_def Let_def)
  moreover have "\<exists>s. c_generate_device_desc td = Some s" using assms(4) by (simp add: c_generate_device_desc_def Let_def)
  moreover have "\<exists>s. c_generate_func_create_table input td = Some s"
    using assms(5-7) by (simp add: c_generate_func_create_table_def Let_def)
  moreover have "\<exists>s. c_generate_func_set_mem td = Some s"
    using tot [of "set_function (t_name td)"] parts by (auto simp: c_generate_func_set_mem_def)
  moreover have "\<exists>s. c_generate_func_delete td = Some s"
    using tot [of "delete_by_function (t_name td)"] parts by (auto simp: c_generate_func_delete_def Let_def)
  moreover have "\<exists>s. c_generate_func_select 0 td = Some s"
    using tot [of "select_by_function (t_name td)"] parts by (auto simp: c_generate_func_select_def Let_def)
  moreover have "\<exists>s. for_columns (\<lambda>i col. if is_foreign_key col
      then let foreign_header_file_name = fprintf ''%s_sorm.h'' [foreign_table_name col] in
        Some (fprintf ''#include \"%s\"\<newline>'' [foreign_header_file_name]) else Some []) td = Some s"
    by (rule tot) (simp add: Let_def)
  ultimately show ?thesis using assms(3) unfolding c_generate_def Let_def by auto
qed

text \<open>The place of the first key, and the run of the search.\<close>

definition key_index :: "sorm_column_descriptor_t list \<Rightarrow> int" where
  "key_index cols = (if \<exists>col \<in> set cols. is_pk col then int (length (takeWhile (\<lambda>col. \<not> is_pk col) cols)) else SORM_NO_PK)"

definition keys :: "sorm_column_descriptor_t list \<Rightarrow> nat" where
  "keys cols = length (filter is_pk cols)"

lemma pk_loop_eq:
  "pk_loop i cols has pk =
     (if (if has then 1 else 0) + keys cols \<le> 1
      then Some (has \<or> keys cols = 1, if keys cols = 1 then int (i + length (takeWhile (\<lambda>col. \<not> is_pk col) cols)) else pk)
      else None)"
  by (induction cols arbitrary: i has pk) (auto simp: keys_def)

lemma keys_index: "keys cols = 1 \<Longrightarrow> key_index cols = int (length (takeWhile (\<lambda>col. \<not> is_pk col) cols))"
  "keys cols = 0 \<Longrightarrow> key_index cols = SORM_NO_PK"
proof -
  show "keys cols = 0 \<Longrightarrow> key_index cols = SORM_NO_PK" by (simp add: keys_def key_index_def filter_empty_conv)
  assume "keys cols = 1"
  then have "filter is_pk cols \<noteq> []" by (auto simp: keys_def)
  then show "key_index cols = int (length (takeWhile (\<lambda>col. \<not> is_pk col) cols))"
    by (auto simp: key_index_def filter_empty_conv)
qed

lemma key_index_bounds: "key_index cols = SORM_NO_PK \<or> (0 \<le> key_index cols \<and> key_index cols < int (length cols))"
proof (cases "\<exists>col \<in> set cols. is_pk col")
  case True
  then have "length (takeWhile (\<lambda>col. \<not> is_pk col) cols) < length cols"
    by (induction cols) auto
  then show ?thesis using True by (simp add: key_index_def)
qed (simp add: key_index_def)

text \<open>The file \<open>arg\<close> describes the table \<open>td\<close>, which can be printed.\<close>

definition describes :: "generator_env \<Rightarrow> string \<Rightarrow> sorm_table_descriptor_t \<Rightarrow> bool" where
  "describes env arg td \<longleftrightarrow> (\<exists>content name cols line create. files env arg = Some content \<and> yyparse env content = (Some name, cols) \<and>
     fgets content = Some line \<and> cut_last line = Some create \<and> td = parsed_table name cols (key_index cols) create \<and>
     no_nul name \<and> (\<forall>col \<in> set cols. printable col) \<and>
     writable env (fprintf ''%s_sorm.h'' [name]) \<and> writable env (fprintf ''%s_sorm.c'' [name]))"

text \<open>The two files written for it.\<close>

definition written :: "generator_env \<Rightarrow> string \<Rightarrow> sorm_table_descriptor_t \<Rightarrow> (string \<times> string) list \<Rightarrow> bool" where
  "written env arg td out \<longleftrightarrow> (\<exists>header c_file. out = [header, c_file] \<and> header_generate (writable env) td = Some header \<and>
     c_generate (writable env) (stale env) (files env arg) td = Some c_file)"

lemma describes_written:
  assumes "describes env arg td" and "stale env = 0"
  shows "\<exists>out. written env arg td out"
proof -
  from assms(1) obtain content name cols line create where
    d: "files env arg = Some content" "fgets content = Some line" "cut_last line = Some create"
      "td = parsed_table name cols (key_index cols) create" "no_nul name" "\<forall>col \<in> set cols. printable col"
      "writable env (fprintf ''%s_sorm.h'' [name])" "writable env (fprintf ''%s_sorm.c'' [name])"
    unfolding describes_def by blast
  have wf: "wf_table td" using d(5,6) key_index_bounds [of cols]
    by (auto simp: wf_table_def d(4) parsed_table_def list_all_iff printable_def)
  have td: "columns td = cols" "t_name td = name" "create_sql td = Some create" by (simp_all add: d(4) parsed_table_def)
  from header_total [OF wf, of "writable env"] c_total [OF wf _ _ td(3) d(1-3), of "writable env"] d(6-8) td show ?thesis
    unfolding written_def assms(2) by auto
qed

lemma main_loop_eq:
  assumes "list_all2 (describes env) argv tds" and "stale env = 0"
  shows "if (if has then 1 else 0) + (\<Sum>td \<leftarrow> tds. keys (columns td)) \<le> 1
    then \<exists>outs. main_loop env argv has = Some (0, concat outs) \<and> list_all2 (\<lambda>(arg, td). written env arg td) (zip argv tds) outs
    else main_loop env argv has = None"
  using assms(1)
proof (induction argv tds arbitrary: has rule: list_all2_induct)
  case Nil
  show ?case by simp
next
  case (Cons arg argv td tds)
  from Cons(1) obtain content name cols line create where
    d: "files env arg = Some content" "yyparse env content = (Some name, cols)" "fgets content = Some line" "cut_last line = Some create"
      "td = parsed_table name cols (key_index cols) create" unfolding describes_def by blast
  have td: "columns td = cols" by (simp add: d(5) parsed_table_def)
  from describes_written [OF Cons(1) assms(2)] obtain h c where
    w: "header_generate (writable env) td = Some h" "c_generate (writable env) (stale env) (files env arg) td = Some c"
    unfolding written_def by blast
  show ?case
  proof (cases "(if has then 1 else 0) + keys cols \<le> 1")
    case False
    then have "main_loop env (arg # argv) has = None" using d by (simp add: pk_loop_eq)
    moreover have "\<not> (if has then 1 else 0) + (\<Sum>td \<leftarrow> td # tds. keys (columns td)) \<le> 1" using False td by simp
    ultimately show ?thesis by (simp only: if_False)
  next
    case True
    let ?has = "has \<or> keys cols = 1"
    have k: "(if keys cols = 1 then int (0 + length (takeWhile (\<lambda>col. \<not> is_pk col) cols)) else SORM_NO_PK) = key_index cols"
      using True keys_index [of cols] by (cases "keys cols = 1") (auto split: if_splits)
    have pk: "pk_loop 0 cols has SORM_NO_PK = Some (?has, key_index cols)" unfolding pk_loop_eq if_P [OF True] k ..
    have run: "main_loop env (arg # argv) has = do { (ret, out) \<leftarrow> main_loop env argv ?has; Some (ret, h # c # out) }"
      using d(1-4) pk w by (simp add: d(5) [symmetric])
    have n: "(if has then 1 else 0) + (\<Sum>td \<leftarrow> td # tds. keys (columns td))
        = (if ?has then 1 else 0) + (\<Sum>td \<leftarrow> tds. keys (columns td))" using True td by (auto split: if_splits)
    show ?thesis
    proof (cases "(if ?has then 1 else 0) + (\<Sum>td \<leftarrow> tds. keys (columns td)) \<le> 1")
      case True
      with Cons(3) [of ?has] obtain outs where
        o: "main_loop env argv ?has = Some (0, concat outs)" "list_all2 (\<lambda>(arg, td). written env arg td) (zip argv tds) outs" by auto
      have "written env arg td [h, c]" using w by (simp add: written_def)
      then have "\<exists>outs. main_loop env (arg # argv) has = Some (0, concat outs) \<and>
          list_all2 (\<lambda>(arg, td). written env arg td) (zip (arg # argv) (td # tds)) outs"
        using o run by (intro exI [of _ "[h, c] # outs"]) simp
      then show ?thesis unfolding n if_P [OF True] .
    next
      case False
      then have "main_loop env argv ?has = None" using Cons(3) [of ?has] by (simp only: if_False)
      then show ?thesis unfolding n if_not_P [OF False] run by simp
    qed
  qed
qed

section \<open>Properties\<close>

text \<open>
  The braces of the C file. In the file the generator writes for a table whose names and text hold no braces
  there are as many closing braces as opening ones, but for two more closing braces for every blob column that
  is a key or unique: such a column gets no function to delete or select by it, but the end of one.
\<close>

theorem c_file_braces:
  assumes wf: "wf_table td" and pl: "names_plain td" and cr: "\<forall>s. create_sql td = Some s \<longrightarrow> no_brace s"
    and inp: "\<forall>content. input = Some content \<longrightarrow> no_brace content"
    and gen: "c_generate wr upper_table_name input td = Some (file_name, out)"
  shows "braces out = - 2 * int (length (filter stray (columns td)))"
proof -
  have t: "no_brace (t_name td)" using pl by (simp add: names_plain_def)
  have col: "no_brace (c_name (columns td ! i))" "no_brace (foreign_table_name (columns td ! i))"
    "no_brace (foreign_column_name (columns td ! i))" if "i < length (columns td)" for i
    using pl that by (simp_all add: names_plain_def)
  from gen obtain inc s1 s2 s3 s4 s5 s6 where
    s: "for_columns (\<lambda>i col. if is_foreign_key col
          then let foreign_header_file_name = fprintf ''%s_sorm.h'' [foreign_table_name col] in
            Some (fprintf ''#include \"%s\"\<newline>'' [foreign_header_file_name]) else Some []) td = Some inc"
      "c_generate_column_desc td = Some s1" "c_generate_device_desc td = Some s2" "c_generate_func_create_table input td = Some s3"
      "c_generate_func_set_mem td = Some s4" "c_generate_func_delete td = Some s5"
      "c_generate_func_select upper_table_name td = Some s6" and
    o: "out = fprintf ''#include \"%s\"\<newline>'' [fprintf ''%s_sorm.h'' [t_name td]] @ inc @ s1 @ s2 @
         c_generate_func_to_string td @ c_generate_func_get_desc td @ c_generate_func_new td @ c_generate_func_free td @
         s3 @ c_generate_func_delete_table td @ c_generate_func_save td @ c_generate_func_update td @ s4 @ s5 @ s6 @
         c_generate_func_index td"
    by (auto simp: c_generate_def Let_def bind_eq_Some_conv split: if_splits simp del: fprintf.simps)
  have "braces inc = (\<Sum>col \<leftarrow> columns td. 0)"
    by (rule for_columns_braces [OF wf s(1)]) (use col in \<open>auto simp: Let_def split: if_splits\<close>)
  moreover have "braces s1 = 0" by (rule braces_loops(1) [OF wf pl s(2)])
  moreover have "braces s2 = 0" using s(3) t cr by (auto simp: c_generate_device_desc_def Let_def bind_eq_Some_conv)
  moreover have "braces s3 = 0" by (rule braces_create_table [OF t inp s(4)])
  moreover have "braces s4 = 0" by (rule braces_loops(2) [OF wf pl s(5)])
  moreover have "braces s5 = - int (length (filter stray (columns td)))" by (rule braces_loops(3) [OF wf pl s(6)])
  moreover have "braces s6 = - int (length (filter stray (columns td)))" by (rule braces_loops(4) [OF wf pl s(7)])
  ultimately show ?thesis unfolding o using t by (simp add: zero_columns braces_plain_functions)
qed

text \<open>
  C34: The generator. Run on input files that each describe a table, it writes for each of them the header and the C
  file of its table, whose primary key is the column with the key constraint, or none, and returns \<open>0\<close>. But it
  does so only if there is at most one key in all input files together: the flag that a key was found is never
  reset, and with a second key, if only in another file, the run goes on with freed memory.
\<close>

theorem main_writes:
  assumes "list_all2 (describes env) argv tds" and "stale env = 0" and "argv \<noteq> []"
  shows "if (\<Sum>td \<leftarrow> tds. keys (columns td)) \<le> 1
    then \<exists>outs. main env argv = Some (0, concat outs) \<and> list_all2 (\<lambda>(arg, td). written env arg td) (zip argv tds) outs
    else main env argv = None"
  using main_loop_eq [OF assms(1,2), of False] assms(3) by (simp add: main_def)

section \<open>A concrete run\<close>

definition log_env :: generator_env where
  "log_env = \<lparr>files = (\<lambda>f. if f = ''log.sql'' then Some ''CREATE TABLE log\<newline>'' else None), writable = (\<lambda>_. True),
     yyparse = (\<lambda>_. (Some ''log'', columns log_table)), stale = 0\<rparr>"

lemma log_describes: "describes log_env ''log.sql'' log_table"
proof -
  have "fgets ''CREATE TABLE log\<newline>'' = Some ''CREATE TABLE log\<newline>''" "cut_last ''CREATE TABLE log\<newline>'' = Some ''CREATE TABLE log''"
    by code_simp+
  moreover have "log_table = parsed_table ''log'' (columns log_table) (key_index (columns log_table)) ''CREATE TABLE log''"
    by (simp add: log_table_def parsed_table_def key_index_def is_pk_def log_column_def)
  moreover have "\<forall>col \<in> set (columns log_table). printable col"
    by (simp add: log_table_def printable_def value_type_def log_column_def wf_column_def)
  ultimately show ?thesis unfolding describes_def log_env_def by auto
qed

theorem main_writes_witness:
  "(\<exists>outs. main log_env [''log.sql''] = Some (0, concat outs) \<and> list_all2 (\<lambda>(arg, td). written log_env arg td) [(''log.sql'', log_table)] outs) \<and>
   main log_env [''log.sql'', ''log.sql''] = None"
proof -
  have k: "keys (columns log_table) = 1" by (simp add: keys_def log_table_def is_pk_def log_column_def)
  have s: "stale log_env = 0" by (simp add: log_env_def)
  have 1: "list_all2 (describes log_env) [''log.sql''] [log_table]"
    "list_all2 (describes log_env) [''log.sql'', ''log.sql''] [log_table, log_table]" using log_describes by simp_all
  show ?thesis using main_writes [OF 1(1) s] main_writes [OF 1(2) s] k by simp
qed

text \<open>A unique blob: the file has two closing braces more than opening ones.\<close>

definition blob_table :: sorm_table_descriptor_t where
  "blob_table = log_table\<lparr>columns_num := 1, PK_index := SORM_NO_PK,
     columns := [log_column ''raw'' SORM_TYPE_BLOB SORM_CONSTRAINT_UNIQUE SORM_MEM_HEAP 0]\<rparr>"

theorem c_file_braces_witness:
  "(\<exists>name out. c_generate (\<lambda>_. True) 0 (Some ''CREATE TABLE log\<newline>'') log_table = Some (name, out) \<and> braces out = 0) \<and>
   (\<exists>name out. c_generate (\<lambda>_. True) 0 (Some ''CREATE TABLE log\<newline>'') blob_table = Some (name, out) \<and> braces out = - 2)"
proof -
  let ?inp = "''CREATE TABLE log\<newline>''"
  have l: "fgets ?inp = Some ?inp" "cut_last ?inp = Some ''CREATE TABLE log''" by code_simp+
  have gen: "\<exists>name out. c_generate (\<lambda>_. True) 0 (Some ?inp) td = Some (name, out) \<and> braces out = - 2 * int (length (filter stray (columns td)))"
    if td: "td = log_table \<or> td = blob_table" for td
  proof -
    have wf: "wf_table td" using that by (auto simp: blob_table_def wf_table_def wf_column_def log_table_def log_column_def)
    have pr: "\<forall>col \<in> set (columns td). printable col" "names_plain td" "create_sql td = Some ''CREATE TABLE log''"
      using that by (auto simp: blob_table_def log_table_def printable_def value_type_def log_column_def wf_column_def names_plain_def no_brace_def)
    from c_total [OF wf pr(1) _ pr(3) HOL.refl l, of "\<lambda>_. True"] obtain name out where
      g: "c_generate (\<lambda>_. True) 0 (Some ?inp) td = Some (name, out)" by auto
    have "braces out = - 2 * int (length (filter stray (columns td)))"
      by (rule c_file_braces [OF wf pr(2) _ _ g]) (simp_all add: pr(3) no_brace_def)
    with g show ?thesis by blast
  qed
  have "filter stray (columns log_table) = []" "length (filter stray (columns blob_table)) = 1"
    by (simp_all add: log_table_def blob_table_def stray_def log_column_def sorm_is_unique_column_def)
  with gen [of log_table] gen [of blob_table] show ?thesis by simp
qed

end
