(* ===== verification/Sorm_Grammar.thy ===== *)
theory Sorm_Grammar
  imports Sorm_Types
begin

text \<open>
  The grammar of the schema parser (\<^verbatim>\<open>src/src/parser_yacc.y\<close>): the tokens, the rules as inductive relations
  with what their actions do to the descriptors, and a parser that reads the tokens from left to right. The two
  agree, so the grammar gives at most one result, although it is ambiguous: several rules for \<open>ignores\<close> derive the
  same tokens. What the actions have done when a text is not accepted is left open.
\<close>

section \<open>The grammar\<close>

text \<open>
  The tokens, with the value of a \<open>NAME\<close> or a \<open>NUMBER\<close>: a pointer as the lexer hands it over, and the text it leads to as the
  actions read it.
\<close>

datatype 'v token_of =
    CREATE | TABLE | LEFT_BRACKET | LEFT_DASH | RIGHT_BRACKET | RIGHT_DASH | COMMA
  | INTEGER | BIGINT | TEXT | REAL | PRIMARY_KEY | ASC | DESC | UNIQUE
  | NAME 'v | NUMBER 'v | FOREIGN_KEY | REFERENCES | BLOB | IGNORE

type_synonym token = "string token_of"

text \<open>\<open>atoi\<close> on digits, as the C library computes it: \<open>strtol\<close> stops at the greatest \<open>long\<close>, and the rest is cut off.\<close>

definition digits_value :: "string \<Rightarrow> nat" where
  "digits_value s = foldl (\<lambda>n c. 10 * n + (of_char c - 48)) 0 s"

definition atoi :: "string \<Rightarrow> int" where
  "atoi s = sint (word_of_int (int (min (digits_value s) (2 ^ 63 - 1))) :: 32 word)"

text \<open>A column descriptor as \<open>memset\<close> leaves it, and the members the actions set.\<close>

definition column_zero :: sorm_column_descriptor_t where
  "column_zero = \<lparr>c_name = [], c_index = 0, c_type = SORM_TYPE_INT, c_constraint = SORM_CONSTRAINT_NONE,
     c_mem = SORM_MEM_NONE, c_max_len = 0, c_offset = 0, is_foreign_key = False, foreign_table_name = [],
     foreign_column_name = []\<rparr>"

text \<open>\<open>FOREIGN KEY\<close>: the first column of that name.\<close>

fun set_foreign ::
  "string \<Rightarrow> string \<Rightarrow> string \<Rightarrow> sorm_column_descriptor_t list \<Rightarrow> sorm_column_descriptor_t list" where
  "set_foreign n t c [] = []"
| "set_foreign n t c (col # cols) =
     (if c_name col = n
      then col\<lparr>is_foreign_key := True, foreign_table_name := t, foreign_column_name := c\<rparr> # cols
      else col # set_foreign n t c cols)"

text \<open>
  The rules of the grammar: which tokens stand for a nonterminal, with what its actions do. A column
  is built in the descriptor \<open>column_desc\<close>, which is new for each.
\<close>

inductive ignores :: "token list \<Rightarrow> bool" where
  "ignores ts \<Longrightarrow> ignores (ts @ [IGNORE])"
| "ignores [IGNORE]"
| "ignores []"

inductive column_type :: "token list \<Rightarrow> sorm_column_descriptor_t \<Rightarrow> sorm_column_descriptor_t \<Rightarrow> bool" where
  "column_type [INTEGER] d (d\<lparr>c_type := SORM_TYPE_INT\<rparr>)"
| "column_type [BIGINT] d (d\<lparr>c_type := SORM_TYPE_INT64\<rparr>)"
| "column_type [TEXT] d (d\<lparr>c_mem := SORM_MEM_HEAP, c_type := SORM_TYPE_TEXT\<rparr>)"
| "column_type [TEXT, LEFT_DASH, NUMBER n, RIGHT_DASH] d
     (d\<lparr>c_mem := SORM_MEM_STACK, c_max_len := atoi n, c_type := SORM_TYPE_TEXT\<rparr>)"
| "column_type [REAL] d (d\<lparr>c_type := SORM_TYPE_DOUBLE\<rparr>)"
| "column_type [BLOB] d (d\<lparr>c_mem := SORM_MEM_HEAP, c_type := SORM_TYPE_BLOB\<rparr>)"
| "column_type [BLOB, LEFT_DASH, NUMBER n, RIGHT_DASH] d
     (d\<lparr>c_mem := SORM_MEM_STACK, c_max_len := atoi n, c_type := SORM_TYPE_BLOB\<rparr>)"

inductive use_column_constraint :: "token list \<Rightarrow> sorm_constraint_t \<Rightarrow> bool" where
  "use_column_constraint [PRIMARY_KEY] SORM_CONSTRAINT_PK"
| "use_column_constraint [PRIMARY_KEY, ASC] SORM_CONSTRAINT_PK_ASC"
| "use_column_constraint [PRIMARY_KEY, DESC] SORM_CONSTRAINT_PK_DESC"
| "use_column_constraint [UNIQUE] SORM_CONSTRAINT_UNIQUE"

inductive column_constraint :: "token list \<Rightarrow> sorm_constraint_t \<Rightarrow> bool" where
  "use_column_constraint us k \<Longrightarrow> column_constraint us k"
| "ignores gs \<Longrightarrow> use_column_constraint us k \<Longrightarrow> column_constraint (gs @ us) k"
| "use_column_constraint us k \<Longrightarrow> ignores gs \<Longrightarrow> column_constraint (us @ gs) k"
| "ignores gs \<Longrightarrow> use_column_constraint us k \<Longrightarrow> ignores js \<Longrightarrow> column_constraint (gs @ us @ js) k"

inductive column_def :: "token list \<Rightarrow> sorm_column_descriptor_t \<Rightarrow> bool" where
  "column_type ts column_zero d \<Longrightarrow> column_def (NAME n # ts) (d\<lparr>c_name := n\<rparr>)"
| "column_type ts column_zero d \<Longrightarrow> column_constraint cs k \<Longrightarrow>
   column_def (NAME n # ts @ cs) (d\<lparr>c_constraint := k, c_name := n\<rparr>)"

inductive columns_def :: "token list \<Rightarrow> sorm_column_descriptor_t list \<Rightarrow> bool" where
  "columns_def ts cols \<Longrightarrow> column_def cs col \<Longrightarrow> columns_def (ts @ COMMA # cs) (cols @ [col])"
| "column_def cs col \<Longrightarrow> columns_def cs [col]"

inductive unique_columns :: "token list \<Rightarrow> bool" where
  "unique_columns ts \<Longrightarrow> unique_columns (ts @ [COMMA, NAME n])"
| "unique_columns [NAME n]"

inductive table_def ::
  "token list \<Rightarrow> sorm_column_descriptor_t list \<Rightarrow> sorm_column_descriptor_t list \<Rightarrow> bool" where
  "ignores gs \<Longrightarrow>
   table_def ([FOREIGN_KEY, LEFT_DASH, NAME n, RIGHT_DASH, REFERENCES, NAME t, LEFT_DASH, NAME c, RIGHT_DASH] @ gs)
     cols (set_foreign n t c cols)"
| "unique_columns us \<Longrightarrow> table_def (UNIQUE # LEFT_DASH # us @ [RIGHT_DASH]) cols cols"

inductive table_defs ::
  "token list \<Rightarrow> sorm_column_descriptor_t list \<Rightarrow> sorm_column_descriptor_t list \<Rightarrow> bool" where
  "table_defs ts cols cols' \<Longrightarrow> table_def ds cols' cols'' \<Longrightarrow> table_defs (ts @ COMMA # ds) cols cols''"
| "table_def ds cols cols' \<Longrightarrow> table_defs ds cols cols'"

inductive statement :: "token list \<Rightarrow> string \<Rightarrow> sorm_column_descriptor_t list \<Rightarrow> bool" where
  "ignores gs \<Longrightarrow> columns_def cs cols \<Longrightarrow> table_defs ts cols cols' \<Longrightarrow>
   statement (CREATE # TABLE # gs @ NAME n # LEFT_DASH # cs @ COMMA # ts @ [RIGHT_DASH]) n cols'"
| "ignores gs \<Longrightarrow> columns_def cs cols \<Longrightarrow>
   statement (CREATE # TABLE # gs @ NAME n # LEFT_DASH # cs @ [RIGHT_DASH]) n cols"

section \<open>A parser\<close>

text \<open>
  The same language in the order of the text: each function reads one nonterminal from the front of the tokens
  and leaves the rest, and one token ahead tells what comes next.
\<close>

fun expect :: "token \<Rightarrow> token list \<Rightarrow> token list option" where
  "expect t [] = None"
| "expect t (u # us) = (if u = t then Some us else None)"

fun read_name :: "token list \<Rightarrow> (string \<times> token list) option" where
  "read_name (NAME n # ts) = Some (n, ts)"
| "read_name _ = None"

fun read_number :: "token list \<Rightarrow> (string \<times> token list) option" where
  "read_number (NUMBER n # ts) = Some (n, ts)"
| "read_number _ = None"

definition skip_ignores :: "token list \<Rightarrow> token list" where
  "skip_ignores = dropWhile (\<lambda>t. t = IGNORE)"

definition read_max_len :: "token list \<Rightarrow> (sorm_mem_t \<times> int) \<times> token list" where
  "read_max_len ts =
     (case (do { r \<leftarrow> expect LEFT_DASH ts; (n, r) \<leftarrow> read_number r; r \<leftarrow> expect RIGHT_DASH r; Some (n, r) }) of
        Some (n, r) \<Rightarrow> ((SORM_MEM_STACK, atoi n), r)
      | None \<Rightarrow> ((SORM_MEM_HEAP, 0), ts))"

fun read_type :: "token list \<Rightarrow> (sorm_column_descriptor_t \<times> token list) option" where
  "read_type (INTEGER # ts) = Some (column_zero\<lparr>c_type := SORM_TYPE_INT\<rparr>, ts)"
| "read_type (BIGINT # ts) = Some (column_zero\<lparr>c_type := SORM_TYPE_INT64\<rparr>, ts)"
| "read_type (TEXT # ts) =
     (let ((m, l), ts) = read_max_len ts in Some (column_zero\<lparr>c_mem := m, c_max_len := l, c_type := SORM_TYPE_TEXT\<rparr>, ts))"
| "read_type (REAL # ts) = Some (column_zero\<lparr>c_type := SORM_TYPE_DOUBLE\<rparr>, ts)"
| "read_type (BLOB # ts) =
     (let ((m, l), ts) = read_max_len ts in Some (column_zero\<lparr>c_mem := m, c_max_len := l, c_type := SORM_TYPE_BLOB\<rparr>, ts))"
| "read_type _ = None"

fun read_use_constraint :: "token list \<Rightarrow> (sorm_constraint_t \<times> token list) option" where
  "read_use_constraint (PRIMARY_KEY # ts) =
     (case ts of
        ASC # ts \<Rightarrow> Some (SORM_CONSTRAINT_PK_ASC, ts)
      | DESC # ts \<Rightarrow> Some (SORM_CONSTRAINT_PK_DESC, ts)
      | _ \<Rightarrow> Some (SORM_CONSTRAINT_PK, ts))"
| "read_use_constraint (UNIQUE # ts) = Some (SORM_CONSTRAINT_UNIQUE, ts)"
| "read_use_constraint _ = None"

definition read_constraint :: "token list \<Rightarrow> (sorm_constraint_t \<times> token list) option" where
  "read_constraint ts = map_option (apsnd skip_ignores) (read_use_constraint (skip_ignores ts))"

definition read_column :: "token list \<Rightarrow> (sorm_column_descriptor_t \<times> token list) option" where
  "read_column ts =
     do { (n, ts) \<leftarrow> read_name ts;
          (d, ts) \<leftarrow> read_type ts;
          (case read_constraint ts of
             Some (k, ts) \<Rightarrow> Some (d\<lparr>c_constraint := k, c_name := n\<rparr>, ts)
           | None \<Rightarrow> Some (d\<lparr>c_name := n\<rparr>, ts)) }"

text \<open>After a comma, a name begins another column.\<close>

fun another_column :: "token list \<Rightarrow> bool" where
  "another_column (t # u # ts) = (t = COMMA \<and> (case u of NAME n \<Rightarrow> True | _ \<Rightarrow> False))"
| "another_column ts = False"

lemma skip_ignores_length: "length (skip_ignores ts) \<le> length ts"
  by (simp add: skip_ignores_def length_dropWhile_le)

lemma expect_Some: "expect t ts = Some r \<longleftrightarrow> ts = t # r"
  by (cases ts) auto

lemma read_name_Some: "read_name ts = Some (n, r) \<longleftrightarrow> ts = NAME n # r"
  by (cases ts rule: read_name.cases) auto

lemma read_number_Some: "read_number ts = Some (n, r) \<longleftrightarrow> ts = NUMBER n # r"
  by (cases ts rule: read_number.cases) auto

lemmas read_Some = expect_Some read_name_Some read_number_Some bind_eq_Some_conv

lemma read_max_len_cases:
  assumes "read_max_len ts = ((m, l), r)"
  obtains n where "ts = LEFT_DASH # NUMBER n # RIGHT_DASH # r" and "m = SORM_MEM_STACK" and "l = atoi n"
    | "ts = r" and "m = SORM_MEM_HEAP" and "l = 0"
  using assms by (auto simp: read_max_len_def read_Some split: option.splits)

lemma read_type_length: "read_type ts = Some (d, r) \<Longrightarrow> length r < length ts"
  by (cases ts rule: read_type.cases) (auto split: prod.splits elim: read_max_len_cases)

lemma read_use_constraint_length: "read_use_constraint ts = Some (k, r) \<Longrightarrow> length r < length ts"
  by (cases ts rule: read_use_constraint.cases) (auto split: list.splits token_of.splits)

lemma read_constraint_length: "read_constraint ts = Some (k, r) \<Longrightarrow> length r < length ts"
proof (unfold read_constraint_def, elim map_option_eq_Some [THEN iffD1, THEN exE] conjE)
  fix z assume z: "read_use_constraint (skip_ignores ts) = Some z" "apsnd skip_ignores z = (k, r)"
  then obtain r' where "z = (k, r')" "r = skip_ignores r'" by (cases z) auto
  with read_use_constraint_length [of "skip_ignores ts" k r'] z show "length r < length ts"
    using skip_ignores_length [of ts] skip_ignores_length [of r'] by simp
qed

lemma read_column_cases:
  assumes "read_column ts = Some (col, r)"
  obtains n us d where "ts = NAME n # us" and "read_type us = Some (d, r)" and "col = d\<lparr>c_name := n\<rparr>"
    | n us d k vs where "ts = NAME n # us" and "read_type us = Some (d, vs)" and "read_constraint vs = Some (k, r)"
      and "col = d\<lparr>c_constraint := k, c_name := n\<rparr>"
proof -
  from assms obtain n us d vs where t: "ts = NAME n # us" "read_type us = Some (d, vs)"
    and c: "(case read_constraint vs of Some (k, ts) \<Rightarrow> Some (d\<lparr>c_constraint := k, c_name := n\<rparr>, ts)
      | None \<Rightarrow> Some (d\<lparr>c_name := n\<rparr>, vs)) = Some (col, r)"
    unfolding read_column_def by (auto simp: read_Some)
  show thesis
  proof (cases "read_constraint vs")
    case None
    with t c show thesis by (intro that(1)) auto
  next
    case (Some z)
    then obtain k vs' where "read_constraint vs = Some (k, vs')" by (cases z) auto
    with t c show thesis by (intro that(2) [of n us d vs k]) auto
  qed
qed

lemma read_column_length: "read_column ts = Some (d, r) \<Longrightarrow> length r < length ts"
  by (erule read_column_cases) (auto dest!: read_type_length read_constraint_length)

function read_columns :: "token list \<Rightarrow> (sorm_column_descriptor_t list \<times> token list) option" where
  "read_columns ts =
     (case read_column ts of
        None \<Rightarrow> None
      | Some (col, r) \<Rightarrow>
          if another_column r then map_option (apfst ((#) col)) (read_columns (tl r)) else Some ([col], r))"
  by pat_completeness auto
termination by (relation "measure length") (auto dest: read_column_length)

declare read_columns.simps [simp del]

fun read_unique :: "token list \<Rightarrow> token list option" where
  "read_unique (NAME n # t # ts) =
     (if t = COMMA then read_unique ts else if t = RIGHT_DASH then Some ts else None)"
| "read_unique _ = None"

definition read_table_def ::
  "token list \<Rightarrow> sorm_column_descriptor_t list \<Rightarrow> (sorm_column_descriptor_t list \<times> token list) option" where
  "read_table_def ts cols =
     (case expect FOREIGN_KEY ts of
        Some ts \<Rightarrow>
          do { ts \<leftarrow> expect LEFT_DASH ts; (n, ts) \<leftarrow> read_name ts; ts \<leftarrow> expect RIGHT_DASH ts; ts \<leftarrow> expect REFERENCES ts;
               (t, ts) \<leftarrow> read_name ts; ts \<leftarrow> expect LEFT_DASH ts; (c, ts) \<leftarrow> read_name ts; ts \<leftarrow> expect RIGHT_DASH ts;
               Some (set_foreign n t c cols, skip_ignores ts) }
      | None \<Rightarrow>
          do { ts \<leftarrow> expect UNIQUE ts; ts \<leftarrow> expect LEFT_DASH ts; ts \<leftarrow> read_unique ts; Some (cols, ts) })"

lemma read_unique_length: "read_unique ts = Some r \<Longrightarrow> length r < length ts"
  by (induction ts rule: read_unique.induct) (auto split: if_splits)

lemma read_table_def_length: "read_table_def ts cols = Some (cols', r) \<Longrightarrow> length r < length ts"
  using skip_ignores_length
  by (auto simp: read_table_def_def read_Some split: option.splits dest!: read_unique_length intro: le_less_trans [OF skip_ignores_length])

function read_table_defs ::
  "token list \<Rightarrow> sorm_column_descriptor_t list \<Rightarrow> (sorm_column_descriptor_t list \<times> token list) option" where
  "read_table_defs ts cols =
     (case read_table_def ts cols of
        None \<Rightarrow> None
      | Some (cols', r) \<Rightarrow> (case expect COMMA r of Some r' \<Rightarrow> read_table_defs r' cols' | None \<Rightarrow> Some (cols', r)))"
  by pat_completeness auto
termination by (relation "measure (length \<circ> fst)") (auto simp: expect_Some dest!: read_table_def_length)

declare read_table_defs.simps [simp del]

definition read_statement :: "token list \<Rightarrow> (string \<times> sorm_column_descriptor_t list) option" where
  "read_statement ts =
     do { ts \<leftarrow> expect CREATE ts; ts \<leftarrow> expect TABLE ts;
          (n, ts) \<leftarrow> read_name (skip_ignores ts); ts \<leftarrow> expect LEFT_DASH ts;
          (cols, ts) \<leftarrow> read_columns ts;
          (cols, ts) \<leftarrow> (case expect COMMA ts of Some ts \<Rightarrow> read_table_defs ts cols | None \<Rightarrow> Some (cols, ts));
          ts \<leftarrow> expect RIGHT_DASH ts;
          if ts = [] then Some (n, cols) else None }"

section \<open>The parser and the grammar\<close>

lemma ignores_iff: "ignores ts \<longleftrightarrow> set ts \<subseteq> {IGNORE}"
proof
  show "ignores ts \<Longrightarrow> set ts \<subseteq> {IGNORE}" by (induction rule: ignores.induct) auto
  show "set ts \<subseteq> {IGNORE} \<Longrightarrow> ignores ts"
    by (induction ts rule: rev_induct) (auto intro: ignores.intros)
qed

lemma skip_ignores_split: "\<exists>gs. ts = gs @ skip_ignores ts \<and> ignores gs"
  by (intro exI [of _ "takeWhile (\<lambda>t. t = IGNORE) ts"])
    (auto simp: skip_ignores_def ignores_iff dest: set_takeWhileD)

text \<open>What follows a list of ignored words is something else.\<close>

definition after_ignores :: "token list \<Rightarrow> bool" where
  "after_ignores r \<longleftrightarrow> (r = [] \<or> hd r \<noteq> IGNORE)"

lemma skip_ignores_append: "ignores gs \<Longrightarrow> after_ignores r \<Longrightarrow> skip_ignores (gs @ r) = r"
  unfolding ignores_iff by (induction gs) (cases r; auto simp: skip_ignores_def after_ignores_def)+

lemma skip_ignores_id [simp]: "t \<noteq> IGNORE \<Longrightarrow> skip_ignores (t # r) = t # r"
  by (simp add: skip_ignores_def)

text \<open>A column ends before a comma or a closing bracket.\<close>

definition column_end :: "token list \<Rightarrow> bool" where
  "column_end r \<longleftrightarrow> (\<exists>r'. r = COMMA # r' \<or> r = RIGHT_DASH # r')"

lemma column_end_after_ignores [simp]: "column_end r \<Longrightarrow> after_ignores r"
  by (auto simp: column_end_def after_ignores_def)

lemma read_max_len_other: "ts = [] \<or> hd ts \<noteq> LEFT_DASH \<Longrightarrow> read_max_len ts = ((SORM_MEM_HEAP, 0), ts)"
  by (cases ts) (auto simp: read_max_len_def)

lemma column_type_read:
  assumes "column_type us column_zero d" and "r = [] \<or> hd r \<noteq> LEFT_DASH"
  shows "read_type (us @ r) = Some (d, r)"
  using assms(1) by cases (simp_all add: read_max_len_other [OF assms(2)], simp_all add: read_max_len_def column_zero_def)

lemma read_column_type: "read_type ts = Some (d, r) \<Longrightarrow> \<exists>us. ts = us @ r \<and> column_type us column_zero d"
proof (cases ts rule: read_type.cases)
  case (3 ts')
  moreover assume "read_type ts = Some (d, r)"
  ultimately obtain m l where "read_max_len ts' = ((m, l), r)" "d = column_zero\<lparr>c_mem := m, c_max_len := l, c_type := SORM_TYPE_TEXT\<rparr>"
    by (auto split: prod.splits)
  then show ?thesis using column_type.intros(3) [of column_zero] column_type.intros(4) [of _ column_zero]
    by (elim read_max_len_cases) (fastforce simp: 3 column_zero_def)+
next
  case (5 ts')
  moreover assume "read_type ts = Some (d, r)"
  ultimately obtain m l where "read_max_len ts' = ((m, l), r)" "d = column_zero\<lparr>c_mem := m, c_max_len := l, c_type := SORM_TYPE_BLOB\<rparr>"
    by (auto split: prod.splits)
  then show ?thesis using column_type.intros(6) [of column_zero] column_type.intros(7) [of _ column_zero]
    by (elim read_max_len_cases) (fastforce simp: 5 column_zero_def)+
qed (use column_type.intros(1,2,5) in fastforce)+

lemma column_constraint_parts:
  "column_constraint cs k \<longleftrightarrow> (\<exists>gs us hs. cs = gs @ us @ hs \<and> ignores gs \<and> use_column_constraint us k \<and> ignores hs)"
proof
  assume "column_constraint cs k"
  then show "\<exists>gs us hs. cs = gs @ us @ hs \<and> ignores gs \<and> use_column_constraint us k \<and> ignores hs"
    by cases (metis append.right_neutral append_Nil ignores.intros(3))+
qed (auto intro: column_constraint.intros)

lemma use_column_constraint_read:
  assumes "use_column_constraint us k" and "ignores hs" and "column_end r"
  shows "read_use_constraint (us @ hs @ r) = Some (k, hs @ r)"
proof -
  have n: "\<exists>t r'. hs @ r = t # r' \<and> t \<in> {IGNORE, COMMA, RIGHT_DASH}" 
    using assms(2,3) unfolding ignores_iff column_end_def by (cases hs) auto
  from assms(1) show ?thesis by cases (use n in auto)
qed

lemma read_use_column_constraint: "read_use_constraint ts = Some (k, r) \<Longrightarrow> \<exists>us. ts = us @ r \<and> use_column_constraint us k"
  by (cases ts rule: read_use_constraint.cases)
    (auto split: list.splits token_of.splits intro: use_column_constraint.intros)

lemma use_column_constraint_head: "use_column_constraint us k \<Longrightarrow> after_ignores (us @ r)"
  by (erule use_column_constraint.cases) (auto simp: after_ignores_def)

lemma column_constraint_read:
  assumes "column_constraint cs k" and "column_end r"
  shows "read_constraint (cs @ r) = Some (k, r)"
proof -
  from assms(1) obtain gs us hs where
    c: "cs = gs @ us @ hs" "ignores gs" "use_column_constraint us k" "ignores hs" unfolding column_constraint_parts by blast
  have "skip_ignores (cs @ r) = us @ hs @ r"
    using skip_ignores_append [OF c(2) use_column_constraint_head [OF c(3)]] by (simp add: c(1))
  then show ?thesis using use_column_constraint_read [OF c(3,4) assms(2)] assms(2) c(4)
    by (simp add: read_constraint_def skip_ignores_append)
qed

lemma read_column_constraint: "read_constraint ts = Some (k, r) \<Longrightarrow> \<exists>cs. ts = cs @ r \<and> column_constraint cs k"
proof -
  assume "read_constraint ts = Some (k, r)"
  then obtain r' where r: "read_use_constraint (skip_ignores ts) = Some (k, r')" "r = skip_ignores r'"
    unfolding read_constraint_def map_option_eq_Some by auto
  from read_use_column_constraint [OF r(1)] obtain us where "skip_ignores ts = us @ r'" "use_column_constraint us k" by blast
  moreover obtain gs where "ts = gs @ skip_ignores ts" "ignores gs" using skip_ignores_split by blast
  moreover obtain hs where "r' = hs @ r" "ignores hs" using skip_ignores_split r(2) by blast
  ultimately show ?thesis unfolding column_constraint_parts by (intro exI [of _ "gs @ us @ hs"]) auto
qed

lemma no_constraint: "column_end r \<Longrightarrow> read_constraint r = None"
  by (auto simp: column_end_def read_constraint_def)

lemma column_constraint_head:
  assumes "column_constraint cs k" shows "\<exists>t cs'. cs = t # cs' \<and> t \<noteq> LEFT_DASH"
proof -
  from assms obtain gs us hs where c: "cs = gs @ us @ hs" "ignores gs" "use_column_constraint us k"
    unfolding column_constraint_parts by blast
  from c(3) have "\<exists>t us'. us = t # us' \<and> t \<noteq> LEFT_DASH" by cases auto
  with c(1,2) show ?thesis by (cases gs) (auto simp: ignores_iff)
qed

lemma column_def_read:
  assumes "column_def cs col" and "column_end r"
  shows "read_column (cs @ r) = Some (col, r)"
  using assms(1)
proof cases
  case (1 ts d n)
  have "read_type (ts @ r) = Some (d, r)" using column_type_read [OF 1(3)] assms(2) by (auto simp: column_end_def)
  with 1 show ?thesis using no_constraint [OF assms(2)] by (simp add: read_column_def)
next
  case (2 ts d us k n)
  have "read_type (ts @ us @ r) = Some (d, us @ r)"
    using column_type_read [OF 2(3)] column_constraint_head [OF 2(4)] by auto
  with 2 show ?thesis using column_constraint_read [OF 2(4) assms(2)] by (simp add: read_column_def)
qed

lemma read_column_def_ex: "read_column ts = Some (col, r) \<Longrightarrow> \<exists>cs. ts = cs @ r \<and> column_def cs col"
proof (elim read_column_cases)
  fix n us d assume a: "ts = NAME n # us" "read_type us = Some (d, r)" "col = d\<lparr>c_name := n\<rparr>"
  then obtain vs where "us = vs @ r" "column_type vs column_zero d" using read_column_type by blast
  then show ?thesis using a column_def.intros(1) by (intro exI [of _ "NAME n # vs"]) simp
next
  fix n us d k ws assume a: "ts = NAME n # us" "read_type us = Some (d, ws)" "read_constraint ws = Some (k, r)"
    "col = d\<lparr>c_constraint := k, c_name := n\<rparr>"
  then obtain vs cs where "us = vs @ ws" "column_type vs column_zero d" "ws = cs @ r" "column_constraint cs k"
    using read_column_type read_column_constraint by blast
  then show ?thesis using a column_def.intros(2) by (intro exI [of _ "NAME n # vs @ cs"]) simp
qed

lemma column_def_head: "column_def cs col \<Longrightarrow> \<exists>n cs'. cs = NAME n # cs'"
  by (erule column_def.cases) auto

text \<open>The rules for lists grow to the right, the parser reads them from the left.\<close>

lemma columns_def_read:
  assumes "columns_def ts cols"
  shows "column_end r \<Longrightarrow> read_columns (ts @ r) =
    (if another_column r then map_option (apfst ((@) cols)) (read_columns (tl r)) else Some (cols, r))"
  using assms
proof (induction arbitrary: r rule: columns_def.induct)
  case (1 ts cols cs col)
  obtain n cs' where n: "cs = NAME n # cs'" using column_def_head [OF 1(2)] by blast
  have "read_columns (ts @ COMMA # cs @ r) = map_option (apfst ((@) cols)) (read_columns (cs @ r))"
    using 1(3) [of "COMMA # cs @ r"] n by (simp add: column_end_def)
  moreover have "read_columns (cs @ r) =
      (if another_column r then map_option (apfst ((#) col)) (read_columns (tl r)) else Some ([col], r))"
    by (subst read_columns.simps) (simp add: column_def_read [OF 1(2,4)])
  ultimately show ?case by (simp add: option.map_comp comp_def apfst_compose)
next
  case (2 cs col)
  moreover have "(@) [col] = (#) col" by auto
  ultimately show ?case by (subst read_columns.simps) (simp add: column_def_read)
qed

lemma columns_def_Cons:
  assumes "columns_def ts cols" and "column_def cs col"
  shows "columns_def (cs @ COMMA # ts) (col # cols)"
  using assms(1)
proof (induction rule: columns_def.induct)
  case (1 ts cols cs' col')
  from columns_def.intros(1) [OF 1(3) 1(2)] show ?case by simp
next
  case (2 cs' col')
  from columns_def.intros(1) [OF columns_def.intros(2) [OF assms(2)] 2] show ?case by simp
qed

lemma another_column_split: "another_column r \<Longrightarrow> \<exists>n r'. r = COMMA # NAME n # r'"
  by (cases r rule: another_column.cases) (auto split: token_of.splits)

lemma read_columns_def_ex: "read_columns ts = Some (cols, r) \<Longrightarrow> \<exists>cs. ts = cs @ r \<and> columns_def cs cols"
proof (induction ts arbitrary: cols rule: read_columns.induct)
  case (1 ts)
  from 1(2) obtain col r1 where c: "read_column ts = Some (col, r1)"
    and r: "(if another_column r1 then map_option (apfst ((#) col)) (read_columns (tl r1)) else Some ([col], r1)) = Some (cols, r)"
    by (subst (asm) read_columns.simps) (auto split: option.splits)
  from read_column_def_ex [OF c] obtain cs where cs: "ts = cs @ r1" "column_def cs col" by blast
  show ?case
  proof (cases "another_column r1")
    case True
    with r obtain cols' where c': "cols = col # cols'" "read_columns (tl r1) = Some (cols', r)" by (auto simp: apfst_def)
    from 1(1) [OF c refl True c'(2)] obtain ds where "tl r1 = ds @ r" "columns_def ds cols'" by blast
    with another_column_split [OF True] cs c'(1) columns_def_Cons show ?thesis
      by (intro exI [of _ "cs @ COMMA # ds"]) auto
  next
    case False
    with r cs columns_def.intros(2) show ?thesis by auto
  qed
qed

lemma unique_columns_read: "unique_columns us \<Longrightarrow> read_unique (us @ RIGHT_DASH # r) = Some r \<and>
    (\<forall>ts. read_unique (us @ COMMA # ts) = read_unique ts)"
  by (induction rule: unique_columns.induct) auto

lemma unique_columns_Cons: "unique_columns us \<Longrightarrow> unique_columns (NAME n # COMMA # us)"
proof (induction rule: unique_columns.induct)
  case (1 ts m)
  from unique_columns.intros(1) [OF 1(2), of m] show ?case by simp
next
  case (2 m)
  from unique_columns.intros(1) [OF unique_columns.intros(2) [of n], of m] show ?case by simp
qed

lemma read_unique_ex: "read_unique ts = Some r \<Longrightarrow> \<exists>us. ts = us @ RIGHT_DASH # r \<and> unique_columns us"
proof (induction ts rule: read_unique.induct)
  case (1 n t ts)
  show ?case
  proof (cases "t = COMMA")
    case True
    with 1 obtain us where "ts = us @ RIGHT_DASH # r" "unique_columns us" by auto
    then show ?thesis using True unique_columns_Cons by (intro exI [of _ "NAME n # COMMA # us"]) simp
  next
    case False
    then show ?thesis using 1(2) unique_columns.intros(2) by (intro exI [of _ "[NAME n]"]) (auto split: if_splits)
  qed
qed auto

lemma table_def_read:
  assumes "table_def ds cols cols'" and "column_end r"
  shows "read_table_def (ds @ r) cols = Some (cols', r)"
  using assms(1)
proof cases
  case (1 gs n t c)
  then show ?thesis using skip_ignores_append [OF 1(3)] assms(2) by (simp add: read_table_def_def)
next
  case (2 us)
  then show ?thesis using unique_columns_read [OF 2(3), of r] by (simp add: read_table_def_def)
qed

lemma read_table_def_ex: "read_table_def ts cols = Some (cols', r) \<Longrightarrow> \<exists>ds. ts = ds @ r \<and> table_def ds cols cols'"
proof (cases "expect FOREIGN_KEY ts")
  case None
  moreover assume "read_table_def ts cols = Some (cols', r)"
  ultimately obtain us where u: "ts = UNIQUE # LEFT_DASH # us" "read_unique us = Some r" "cols' = cols"
    by (auto simp: read_table_def_def read_Some)
  from read_unique_ex [OF u(2)] obtain vs where "us = vs @ RIGHT_DASH # r" "unique_columns vs" by blast
  then show ?thesis using u table_def.intros(2) by (intro exI [of _ "UNIQUE # LEFT_DASH # vs @ [RIGHT_DASH]"]) simp
next
  case (Some us)
  moreover assume "read_table_def ts cols = Some (cols', r)"
  ultimately obtain n t c vs where
    v: "ts = [FOREIGN_KEY, LEFT_DASH, NAME n, RIGHT_DASH, REFERENCES, NAME t, LEFT_DASH, NAME c, RIGHT_DASH] @ vs"
      "r = skip_ignores vs" "cols' = set_foreign n t c cols"
    by (auto simp: read_table_def_def read_Some)
  obtain gs where g: "vs = gs @ r" "ignores gs" using skip_ignores_split v(2) by blast
  show ?thesis unfolding v(1,3) using table_def.intros(1) [OF g(2), of n t c cols] g(1) by auto
qed

lemma table_defs_read:
  assumes "table_defs ts cols cols'"
  shows "column_end r \<Longrightarrow> read_table_defs (ts @ r) cols =
    (case expect COMMA r of Some r' \<Rightarrow> read_table_defs r' cols' | None \<Rightarrow> Some (cols', r))"
  using assms
proof (induction arbitrary: r rule: table_defs.induct)
  case (1 ts cols cols' ds cols'')
  have "read_table_defs (ts @ COMMA # ds @ r) cols = read_table_defs (ds @ r) cols'"
    using 1(3) [of "COMMA # ds @ r"] by (simp add: column_end_def)
  also have "\<dots> = (case expect COMMA r of Some r' \<Rightarrow> read_table_defs r' cols'' | None \<Rightarrow> Some (cols'', r))"
    by (subst read_table_defs.simps) (simp add: table_def_read [OF 1(2,4)])
  finally show ?case by simp
next
  case (2 ds cols cols')
  then show ?case by (subst read_table_defs.simps) (simp add: table_def_read)
qed

lemma table_defs_Cons:
  assumes "table_defs ts cols' cols''" and "table_def ds cols cols'"
  shows "table_defs (ds @ COMMA # ts) cols cols''"
  using assms
proof (induction rule: table_defs.induct)
  case (1 ts a b es c)
  from table_defs.intros(1) [OF 1(3) [OF 1(4)] 1(2)] show ?case by simp
next
  case (2 es a b)
  from table_defs.intros(1) [OF table_defs.intros(2) [OF 2(2)] 2(1)] show ?case by simp
qed

lemma read_table_defs_ex: "read_table_defs ts cols = Some (cols', r) \<Longrightarrow> \<exists>ds. ts = ds @ r \<and> table_defs ds cols cols'"
proof (induction ts cols rule: read_table_defs.induct)
  case (1 ts cols)
  from 1(2) obtain cols1 r1 where c: "read_table_def ts cols = Some (cols1, r1)"
    and r: "(case expect COMMA r1 of Some r' \<Rightarrow> read_table_defs r' cols1 | None \<Rightarrow> Some (cols1, r1)) = Some (cols', r)"
    by (subst (asm) read_table_defs.simps) (auto split: option.splits)
  from read_table_def_ex [OF c] obtain ds where ds: "ts = ds @ r1" "table_def ds cols cols1" by blast
  show ?case
  proof (cases "expect COMMA r1")
    case None
    with r ds table_defs.intros(2) show ?thesis by auto
  next
    case (Some r')
    with r 1(1) [OF c refl Some] obtain es where "r' = es @ r" "table_defs es cols1 cols'" by auto
    with Some ds table_defs_Cons show ?thesis by (intro exI [of _ "ds @ COMMA # es"]) (auto simp: expect_Some)
  qed
qed

lemma table_defs_head: "table_defs ts cols cols' \<Longrightarrow> \<exists>t ts'. ts = t # ts' \<and> t \<in> {FOREIGN_KEY, UNIQUE}"
  by (induction rule: table_defs.induct) (auto elim: table_def.cases)

lemma statement_read: "statement ts n cols \<Longrightarrow> read_statement ts = Some (n, cols)"
proof (induction rule: statement.induct)
  case (1 gs cs cols ts cols' n)
  have "skip_ignores (gs @ NAME n # LEFT_DASH # cs @ COMMA # ts @ [RIGHT_DASH]) = NAME n # LEFT_DASH # cs @ COMMA # ts @ [RIGHT_DASH]"
    by (rule skip_ignores_append [OF 1(1)]) (simp add: after_ignores_def)
  moreover have "read_columns (cs @ COMMA # ts @ [RIGHT_DASH]) = Some (cols, COMMA # ts @ [RIGHT_DASH])"
    using columns_def_read [OF 1(2), of "COMMA # ts @ [RIGHT_DASH]"] table_defs_head [OF 1(3)] by (auto simp: column_end_def)
  moreover have "read_table_defs (ts @ [RIGHT_DASH]) cols = Some (cols', [RIGHT_DASH])"
    using table_defs_read [OF 1(3), of "[RIGHT_DASH]"] by (simp add: column_end_def)
  ultimately show ?case by (simp add: read_statement_def)
next
  case (2 gs cs cols n)
  have "skip_ignores (gs @ NAME n # LEFT_DASH # cs @ [RIGHT_DASH]) = NAME n # LEFT_DASH # cs @ [RIGHT_DASH]"
    by (rule skip_ignores_append [OF 2(1)]) (simp add: after_ignores_def)
  moreover have "read_columns (cs @ [RIGHT_DASH]) = Some (cols, [RIGHT_DASH])"
    using columns_def_read [OF 2(2), of "[RIGHT_DASH]"] by (simp add: column_end_def)
  ultimately show ?case by (simp add: read_statement_def)
qed

lemma read_statement_ex:
  assumes "read_statement ts = Some (n, cols)"
  shows "statement ts n cols"
proof -
  from assms obtain us vs cols0 ws where t: "ts = CREATE # TABLE # us" "skip_ignores us = NAME n # LEFT_DASH # vs"
      "read_columns vs = Some (cols0, ws)"
    and w: "(case expect COMMA ws of Some ts \<Rightarrow> read_table_defs ts cols0 | None \<Rightarrow> Some (cols0, ws)) = Some (cols, [RIGHT_DASH])"
    by (auto simp: read_statement_def read_Some split: if_splits)
  obtain gs where g: "us = gs @ NAME n # LEFT_DASH # vs" "ignores gs" using skip_ignores_split t(2) by metis
  from read_columns_def_ex [OF t(3)] obtain cs where c: "vs = cs @ ws" "columns_def cs cols0" by blast
  show ?thesis
  proof (cases "expect COMMA ws")
    case None
    with w g c t(1) statement.intros(2) show ?thesis by auto
  next
    case (Some xs)
    with w have "read_table_defs xs cols0 = Some (cols, [RIGHT_DASH])" by simp
    from read_table_defs_ex [OF this] obtain ds where "xs = ds @ [RIGHT_DASH]" "table_defs ds cols0 cols" by blast
    with statement.intros(1) [OF g(2) c(2)] Some show ?thesis by (simp add: t(1) g(1) c(1) expect_Some)
  qed
qed

section \<open>What the grammar describes\<close>

text \<open>
  The descriptors the actions build: numbers have no memory class, texts and blobs are on the heap or
  in an array of the length given.
\<close>

definition schema_column :: "sorm_column_descriptor_t \<Rightarrow> bool" where
  "schema_column col \<longleftrightarrow> c_index col = 0 \<and> c_offset col = 0 \<and>
     (if c_type col = SORM_TYPE_TEXT \<or> c_type col = SORM_TYPE_BLOB
      then c_mem col = SORM_MEM_HEAP \<and> c_max_len col = 0 \<or> c_mem col = SORM_MEM_STACK
      else c_type col \<in> {SORM_TYPE_INT, SORM_TYPE_INT64, SORM_TYPE_DOUBLE} \<and> c_mem col = SORM_MEM_NONE \<and> c_max_len col = 0) \<and>
     - (2 ^ 31) \<le> c_max_len col \<and> c_max_len col < 2 ^ 31 \<and>
     c_constraint col \<in> {SORM_CONSTRAINT_NONE, SORM_CONSTRAINT_PK, SORM_CONSTRAINT_PK_ASC, SORM_CONSTRAINT_PK_DESC,
       SORM_CONSTRAINT_UNIQUE} \<and>
     (\<not> is_foreign_key col \<longrightarrow> foreign_table_name col = [] \<and> foreign_column_name col = [])"

text \<open>Its names are among \<open>ns\<close>.\<close>

definition named_from :: "string set \<Rightarrow> sorm_column_descriptor_t \<Rightarrow> bool" where
  "named_from ns col \<longleftrightarrow> c_name col \<in> ns \<and>
     (is_foreign_key col \<longrightarrow> foreign_table_name col \<in> ns \<and> foreign_column_name col \<in> ns)"

definition names :: "token list \<Rightarrow> string set" where
  "names ts = {n. NAME n \<in> set ts}"

lemma names_simps [simp]:
  "names [] = {}" "names (NAME n # ts) = insert n (names ts)" "names (ts @ us) = names ts \<union> names us"
  "\<forall>n. t \<noteq> NAME n \<Longrightarrow> names (t # ts) = names ts"
  by (auto simp: names_def)

lemma named_from_mono: "named_from ns col \<Longrightarrow> ns \<subseteq> ms \<Longrightarrow> named_from ms col"
  by (auto simp: named_from_def)

lemma atoi_bounds: "- (2 ^ 31) \<le> atoi s" "atoi s < 2 ^ 31"
  using sint_range_size [of "word_of_int (int (min (digits_value s) (2 ^ 63 - 1))) :: 32 word"]
  by (simp_all add: atoi_def word_size)

lemma column_type_schema: "column_type ts column_zero d \<Longrightarrow> schema_column d \<and> \<not> is_foreign_key d"
  by (erule column_type.cases) (use atoi_bounds in \<open>auto simp: schema_column_def column_zero_def\<close>)

lemma column_constraint_named: "column_constraint cs k \<Longrightarrow>
    k \<in> {SORM_CONSTRAINT_PK, SORM_CONSTRAINT_PK_ASC, SORM_CONSTRAINT_PK_DESC, SORM_CONSTRAINT_UNIQUE}"
  by (erule column_constraint.cases; erule use_column_constraint.cases) auto

lemma column_def_schema: "column_def cs col \<Longrightarrow> schema_column col \<and> named_from (names cs) col"
proof (induction rule: column_def.induct)
  case (1 ts d n)
  from column_type_schema [OF 1] show ?case by (auto simp: schema_column_def named_from_def)
next
  case (2 ts d cs k n)
  from column_type_schema [OF 2(1)] column_constraint_named [OF 2(2)] show ?case
    by (auto simp: schema_column_def named_from_def)
qed

lemma columns_def_schema: "columns_def ts cols \<Longrightarrow> cols \<noteq> [] \<and> (\<forall>col \<in> set cols. schema_column col \<and> named_from (names ts) col)"
proof (induction rule: columns_def.induct)
  case (1 ts cols cs col)
  from 1(3) column_def_schema [OF 1(2)] show ?case
    using named_from_mono [of "names ts" _ "names ts \<union> names cs"] named_from_mono [of "names cs" col "names ts \<union> names cs"] by auto
qed (use column_def_schema in auto)

lemma set_foreign_schema:
  assumes "\<forall>col \<in> set cols. schema_column col \<and> named_from ns col"
  shows "\<forall>col \<in> set (set_foreign n t c cols). schema_column col \<and> named_from (ns \<union> {t, c}) col"
  using assms
proof (induction cols)
  case (Cons col cols)
  then have c: "schema_column col" "named_from ns col" by simp_all
  have "\<forall>x \<in> set cols. named_from (ns \<union> {t, c}) x" "named_from (ns \<union> {t, c}) col"
    using Cons(2) by (auto elim: named_from_mono)
  moreover have "schema_column (col\<lparr>is_foreign_key := True, foreign_table_name := t, foreign_column_name := c\<rparr>)"
    using c(1) unfolding schema_column_def by (auto split: if_splits)
  moreover have "named_from (ns \<union> {t, c}) (col\<lparr>is_foreign_key := True, foreign_table_name := t, foreign_column_name := c\<rparr>)"
    using c(2) by (simp add: named_from_def)
  ultimately show ?case using Cons by simp
qed simp

lemma set_foreign_Nil [simp]: "set_foreign n t c cols = [] \<longleftrightarrow> cols = []"
  by (cases cols) auto

lemma table_def_schema:
  assumes "table_def ds cols cols'" and "\<forall>col \<in> set cols. schema_column col \<and> named_from ns col"
  shows "(cols' = [] \<longleftrightarrow> cols = []) \<and> (\<forall>col \<in> set cols'. schema_column col \<and> named_from (ns \<union> names ds) col)"
  using assms(1)
proof cases
  case (1 gs n t c)
  then show ?thesis using set_foreign_schema [OF assms(2), of n t c] by (auto elim: named_from_mono)
next
  case (2 us)
  then show ?thesis using assms(2) by (auto elim: named_from_mono)
qed

lemma table_defs_schema:
  assumes "table_defs ds cols cols'" and "\<forall>col \<in> set cols. schema_column col \<and> named_from ns col"
  shows "(cols' = [] \<longleftrightarrow> cols = []) \<and> (\<forall>col \<in> set cols'. schema_column col \<and> named_from (ns \<union> names ds) col)"
  using assms
proof (induction rule: table_defs.induct)
  case (1 ts cols cols' ds cols'')
  note i = 1(3) [OF 1(4)]
  have "(cols'' = [] \<longleftrightarrow> cols' = []) \<and>
      (\<forall>col \<in> set cols''. schema_column col \<and> named_from ((ns \<union> names ts) \<union> names ds) col)"
    by (rule table_def_schema [OF 1(2)]) (use i in blast)
  with i show ?case by (simp add: Un_assoc)
next
  case (2 ds cols cols')
  from table_def_schema [OF 2] show ?case .
qed

lemma statement_schema:
  assumes "statement ts n cols"
  shows "n \<in> names ts \<and> cols \<noteq> [] \<and> (\<forall>col \<in> set cols. schema_column col \<and> named_from (names ts) col)"
  using assms
proof cases
  case (1 gs cs cols0 us)
  from columns_def_schema [OF 1(3)] table_defs_schema [OF 1(4), of "names cs"]
  have "cols \<noteq> [] \<and> (\<forall>col \<in> set cols. schema_column col \<and> named_from (names cs \<union> names us) col)" by blast
  then show ?thesis unfolding 1(1) by (auto elim!: named_from_mono)
next
  case (2 gs cs)
  from columns_def_schema [OF 2(3)] show ?thesis unfolding 2(1) by (auto elim!: named_from_mono)
qed

section \<open>Properties\<close>

text \<open>
  C15: The parser and the grammar agree: reading tokens from left to right yields a name and columns just when the
  rules derive these tokens with actions that build this name and these columns. So the actions have at most one
  outcome, and every derivable text has one.
\<close>

theorem parser_implements_grammar: "read_statement ts = Some (n, cols) \<longleftrightarrow> statement ts n cols"
  using statement_read read_statement_ex by blast

end
