(* ===== verification/Sorm_Schema.thy ===== *)
theory Sorm_Schema
  imports Sorm_Generate Sorm_Grammar
begin

text \<open>
  The lexical rules of the schema parser (\<^verbatim>\<open>src/src/parser_lex.l\<close>) with the choice lex makes among them, and the
  generator with its parser: what a file that the grammar derives is turned into, and that a table written as
  a statement is read back. The lexer hands names over as pointers cut to an \<open>int\<close>: the addresses \<open>strdup\<close> gives are a
  parameter, and the texts come through exactly where these addresses have 32 bits.
\<close>

section \<open>The lexical rules\<close>

text \<open>A rule: how much of the input it matches, \<open>0\<close> when it does not, and its token.\<close>

type_synonym lex_rule = "(string \<Rightarrow> nat) \<times> (string \<Rightarrow> token)"

definition is_digit :: "char \<Rightarrow> bool" where
  "is_digit c \<longleftrightarrow> c \<in> set ''0123456789''"

definition is_name_char :: "char \<Rightarrow> bool" where
  "is_name_char c \<longleftrightarrow> c \<in> set ''abcdefghijklmnopqrstuvwxyz_0123456789''"

definition is_upper :: "char \<Rightarrow> bool" where
  "is_upper c \<longleftrightarrow> c \<in> set ''ABCDEFGHIJKLMNOPQRSTUVWXYZ''"

fun starts_with :: "string \<Rightarrow> string \<Rightarrow> bool" where
  "starts_with [] s = True"
| "starts_with (c # p) [] = False"
| "starts_with (c # p) (d # s) = (c = d \<and> starts_with p s)"

definition literal :: "string \<Rightarrow> token \<Rightarrow> lex_rule" where
  "literal p t = (\<lambda>s. if starts_with p s then length p else 0, \<lambda>_. t)"

definition class_plus :: "(char \<Rightarrow> bool) \<Rightarrow> (string \<Rightarrow> token) \<Rightarrow> lex_rule" where
  "class_plus P t = (\<lambda>s. length (takeWhile P s), t)"

definition lex_rules :: "lex_rule list" where
  "lex_rules =
    [literal ''CREATE'' CREATE, literal ''TABLE'' TABLE, literal ''{'' LEFT_BRACKET, literal ''('' LEFT_DASH,
     literal ''}'' RIGHT_BRACKET, literal '')'' RIGHT_DASH, literal '','' COMMA, literal ''TEXT'' TEXT,
     literal ''INTEGER'' INTEGER, literal ''BIGINT'' BIGINT, literal ''REAL'' REAL, literal ''PRIMARY KEY'' PRIMARY_KEY,
     literal ''ASC'' ASC, literal ''DESC'' DESC, literal ''UNIQUE'' UNIQUE, literal ''FOREIGN KEY'' FOREIGN_KEY,
     literal ''REFERENCES'' REFERENCES, literal ''BLOB'' BLOB, class_plus is_digit NUMBER, class_plus is_name_char NAME,
     class_plus is_upper (\<lambda>_. IGNORE)]"

text \<open>The rule lex takes: the longest match, among the longest the first.\<close>

fun longest :: "lex_rule list \<Rightarrow> string \<Rightarrow> nat \<times> token option" where
  "longest [] s = (0, None)"
| "longest ((m, t) # rs) s =
     (let (n, r) = longest rs s in if m s \<noteq> 0 \<and> n \<le> m s then (m s, Some (t (take (m s) s))) else (n, r))"

text \<open>The tokens of a text, with the text each has matched. What no rule matches is copied to the output.\<close>

function lex_tokens :: "string \<Rightarrow> token list" where
  "lex_tokens [] = []"
| "lex_tokens (c # s) =
     (case longest lex_rules (c # s) of
        (n, Some t) \<Rightarrow> t # lex_tokens (drop (n - 1) s)
      | (n, None) \<Rightarrow> lex_tokens s)"
  by pat_completeness auto
termination by (relation "measure length") auto


section \<open>The values of the tokens\<close>

text \<open>
  Where the copies of \<open>strdup\<close> are, and how many it has made. Its addresses are a parameter: \<open>give k\<close> is the address of the
  copy \<open>k\<close>, \<open>0\<close> where there is no memory.
\<close>

record lexer =
  copies :: "64 word \<Rightarrow> string option"
  made :: nat

definition strdup :: "(nat \<Rightarrow> 64 word) \<Rightarrow> string \<Rightarrow> lexer \<Rightarrow> 64 word \<times> lexer" where
  "strdup give s l =
     (let p = give (made l) in
        (p, l\<lparr>copies := (if p = 0 then copies l else (copies l)(p \<mapsto> s)), made := made l + 1\<rparr>))"

text \<open>
  \<open>yylval = (int)strdup(yytext)\<close>: the lexer declares \<open>yylval\<close> as an \<open>int\<close>, and the parser as a \<open>char *\<close> that starts as
  \<open>NULL\<close>. The store reaches the lower half of it and leaves the upper one \<open>0\<close>.
\<close>

definition yylval :: "64 word \<Rightarrow> 64 word" where
  "yylval p = ucast (ucast p :: 32 word)"

text \<open>The actions of the rules. Those without a value leave \<open>yylval\<close>, and the grammar does not use it.\<close>

definition lex_action :: "(nat \<Rightarrow> 64 word) \<Rightarrow> token \<Rightarrow> lexer \<Rightarrow> 64 word token_of \<times> lexer" where
  "lex_action give t l =
     (case t of
        NUMBER yytext \<Rightarrow> (let (p, l) = strdup give yytext l in (NUMBER (yylval p), l))
      | NAME yytext \<Rightarrow> (let (p, l) = strdup give yytext l in (NAME (yylval p), l))
      | _ \<Rightarrow> (map_token_of (\<lambda>_. 0) t, l))"

text \<open>The calls of \<open>yylex\<close> up to the end of the text.\<close>

function yylex :: "(nat \<Rightarrow> 64 word) \<Rightarrow> string \<Rightarrow> lexer \<Rightarrow> 64 word token_of list \<times> lexer" where
  "yylex give [] l = ([], l)"
| "yylex give (c # s) l =
     (case longest lex_rules (c # s) of
        (n, Some t) \<Rightarrow>
          (let (u, l) = lex_action give t l; (us, l) = yylex give (drop (n - 1) s) l in (u # us, l))
      | (n, None) \<Rightarrow> yylex give s l)"
  by pat_completeness auto
termination by (relation "measure (\<lambda>(give, s, l). length s)") auto

text \<open>What the actions of the grammar find at the pointers; \<open>None\<close> when one leads to no copy.\<close>

definition read_token :: "(64 word \<Rightarrow> string option) \<Rightarrow> 64 word token_of \<Rightarrow> token option" where
  "read_token at t =
     (case t of
        NUMBER p \<Rightarrow> map_option NUMBER (at p)
      | NAME p \<Rightarrow> map_option NAME (at p)
      | _ \<Rightarrow> Some (map_token_of (\<lambda>_. []) t))"

definition lexed :: "(nat \<Rightarrow> 64 word) \<Rightarrow> string \<Rightarrow> token list option" where
  "lexed give s =
     (let (ts, l) = yylex give s \<lparr>copies = Map.empty, made = 0\<rparr> in those (map (read_token (copies l)) ts))"

text \<open>Addresses that have 32 bits, for the first \<open>n\<close> copies; and addresses of a heap above them.\<close>

definition low_strings :: "(nat \<Rightarrow> 64 word) \<Rightarrow> nat \<Rightarrow> bool" where
  "low_strings give n \<longleftrightarrow> inj_on give {..<n} \<and> (\<forall>k < n. give k \<noteq> 0 \<and> give k < 2 ^ 32)"

definition high_strings :: "(nat \<Rightarrow> 64 word) \<Rightarrow> bool" where
  "high_strings give \<longleftrightarrow> (\<forall>k. 2 ^ 32 \<le> give k)"

lemma uint_yylval: "uint (yylval p) = uint p mod 2 ^ 32"
  unfolding yylval_def by transfer (simp add: take_bit_eq_mod)

lemma yylval_low: "p < 2 ^ 32 \<Longrightarrow> yylval p = p"
  by (simp add: word_uint_eq_iff uint_yylval word_less_def)

lemma yylval_less: "yylval p < 2 ^ 32"
  by (simp add: word_less_def uint_yylval)

primrec lex_actions :: "(nat \<Rightarrow> 64 word) \<Rightarrow> token list \<Rightarrow> lexer \<Rightarrow> 64 word token_of list \<times> lexer" where
  "lex_actions give [] l = ([], l)"
| "lex_actions give (t # ts) l = (let (u, l) = lex_action give t l; (us, l) = lex_actions give ts l in (u # us, l))"

lemma yylex_actions: "yylex give s l = lex_actions give (lex_tokens s) l"
proof (induction give s l rule: yylex.induct)
  case (2 give c s l)
  obtain n r where r: "longest lex_rules (c # s) = (n, r)" by force
  show ?case
  proof (cases r)
    case None
    with 2 r show ?thesis by simp
  next
    case (Some t)
    obtain u l' where "lex_action give t l = (u, l')" by force
    with 2(2) r Some show ?thesis by simp
  qed
qed simp

lemma lex_tokens_length: "length (lex_tokens s) \<le> length s"
proof (induction s rule: lex_tokens.induct)
  case (2 c s)
  obtain n r where r: "longest lex_rules (c # s) = (n, r)" by force
  show ?case
  proof (cases r)
    case None
    with 2 r have "length (lex_tokens s) \<le> length s" by simp
    with r None show ?thesis by simp
  next
    case (Some t)
    have "length (lex_tokens (drop (n - 1) s)) \<le> length (drop (n - 1) s)" using 2(2) r Some by simp
    then have "length (lex_tokens (drop (n - 1) s)) \<le> length s" by simp
    with r Some show ?thesis by simp
  qed
qed simp

text \<open>With addresses of 32 bits the actions of the grammar read the texts that were matched.\<close>

definition copied :: "(nat \<Rightarrow> 64 word) \<Rightarrow> lexer \<Rightarrow> bool" where
  "copied give l \<longleftrightarrow> dom (copies l) \<subseteq> give ` {..<made l}"

lemma low_strings_mono: "low_strings give n \<Longrightarrow> m \<le> n \<Longrightarrow> low_strings give m"
  by (auto simp: low_strings_def inj_on_def)

lemma low_strings_new:
  assumes "low_strings give n" and "made l < n" and "copied give l"
  shows "give (made l) \<noteq> 0" and "yylval (give (made l)) = give (made l)" and "copies l (give (made l)) = None"
proof -
  show "give (made l) \<noteq> 0" "yylval (give (made l)) = give (made l)" using assms(1,2) by (simp_all add: low_strings_def yylval_low)
  have "give (made l) \<noteq> give k" if "k < made l" for k
    using assms(1,2) that by (auto simp: low_strings_def dest: inj_onD)
  then show "copies l (give (made l)) = None" using assms(3) by (force simp: copied_def)
qed

lemma read_token_mono: "m \<subseteq>\<^sub>m m' \<Longrightarrow> read_token m u = Some t \<Longrightarrow> read_token m' u = Some t"
  by (cases u) (auto simp: read_token_def map_le_def dom_def)

lemma lex_action_low:
  assumes "low_strings give n" and "made l < n" and "copied give l" and "lex_action give t l = (u, l')"
  shows "copies l \<subseteq>\<^sub>m copies l'" and "copied give l'" and "made l' \<le> Suc (made l)" and "read_token (copies l') u = Some t"
proof -
  note new = assms(3,4) low_strings_new [OF assms(1-3)]
  note simps = Let_def lex_action_def strdup_def read_token_def map_le_def copied_def lessThan_Suc
  show "copies l \<subseteq>\<^sub>m copies l'" using new by (cases t) (auto simp: simps)
  show "copied give l'" using new by (cases t) (force simp: simps split: if_splits)+
  show "made l' \<le> Suc (made l)" using new by (cases t) (auto simp: simps)
  show "read_token (copies l') u = Some t" using new by (cases t) (auto simp: simps)
qed

lemma lex_actions_low:
  "low_strings give (made l + length ts) \<Longrightarrow> copied give l \<Longrightarrow> lex_actions give ts l = (us, l') \<Longrightarrow>
     copies l \<subseteq>\<^sub>m copies l' \<and> map (read_token (copies l')) us = map Some ts"
proof (induction ts arbitrary: l us)
  case (Cons t ts)
  obtain u l1 us' where u: "lex_action give t l = (u, l1)" and us: "lex_actions give ts l1 = (us', l')" "us = u # us'"
    using Cons.prems(3) by (auto split: prod.splits)
  note a = lex_action_low [OF Cons.prems(1) _ Cons.prems(2) u, simplified]
  have "low_strings give (made l1 + length ts)" by (rule low_strings_mono [OF Cons.prems(1)]) (use a(3) in simp)
  from Cons.IH [OF this a(2) us(1)] a(1,4) show ?case
    using read_token_mono map_le_trans by (auto simp: us(2))
qed simp

lemma those_Some [simp]: "those (map Some xs) = Some xs"
  by (induction xs) auto

lemma lexed_low:
  assumes "low_strings give (length s)"
  shows "lexed give s = Some (lex_tokens s)"
proof -
  let ?l = "\<lparr>copies = Map.empty, made = 0\<rparr>"
  obtain us l' where us: "lex_actions give (lex_tokens s) ?l = (us, l')" by force
  have "low_strings give (made ?l + length (lex_tokens s))" using low_strings_mono [OF assms lex_tokens_length] by simp
  from lex_actions_low [OF this _ us] have "map (read_token (copies l')) us = map Some (lex_tokens s)" by (simp add: copied_def)
  then show ?thesis by (simp add: lexed_def yylex_actions us)
qed

text \<open>With a heap above \<open>2 ^ 32\<close> no name and no number is found where the parser looks for it.\<close>

lemma those_None: "None \<in> set xs \<Longrightarrow> those xs = None"
  by (induction xs) (auto split: option.splits)

lemma lex_action_high:
  assumes "high_strings give" and "\<forall>p \<in> dom (copies l). 2 ^ 32 \<le> p" and "lex_action give t l = (u, l')"
  shows "(\<forall>p \<in> dom (copies l'). 2 ^ 32 \<le> p) \<and> (t = NAME w \<longrightarrow> (\<exists>p. u = NAME (yylval p)))"
  using assms by (cases t) (auto simp: Let_def lex_action_def strdup_def high_strings_def split: if_splits)

lemma lex_actions_high:
  "high_strings give \<Longrightarrow> \<forall>p \<in> dom (copies l). 2 ^ 32 \<le> p \<Longrightarrow> lex_actions give ts l = (us, l') \<Longrightarrow>
     (\<forall>p \<in> dom (copies l'). 2 ^ 32 \<le> p) \<and> (NAME w \<in> set ts \<longrightarrow> (\<exists>p. NAME (yylval p) \<in> set us))"
proof (induction ts arbitrary: l us)
  case (Cons t ts)
  obtain u l1 us' where u: "lex_action give t l = (u, l1)" and us: "lex_actions give ts l1 = (us', l')" "us = u # us'"
    using Cons.prems(3) by (auto split: prod.splits)
  note a = lex_action_high [OF Cons.prems(1,2) u, of w]
  from Cons.IH [OF Cons.prems(1) _ us(1)] a show ?case by (auto simp: us(2))
qed simp

lemma lexed_high:
  assumes "high_strings give" and "NAME w \<in> set (lex_tokens s)"
  shows "lexed give s = None"
proof -
  let ?l = "\<lparr>copies = Map.empty, made = 0\<rparr>"
  obtain us l' where us: "lex_actions give (lex_tokens s) ?l = (us, l')" by force
  from lex_actions_high [OF assms(1) _ us] assms(2) obtain p where
    p: "\<forall>p \<in> dom (copies l'). 2 ^ 32 \<le> p" "NAME (yylval p) \<in> set us" by fastforce
  have "yylval p \<notin> dom (copies l')" using p(1) yylval_less [of p] leD by blast
  then have "read_token (copies l') (NAME (yylval p)) = None" by (simp add: read_token_def domIff)
  then have "None \<in> set (map (read_token (copies l')) us)" using p(2) by (metis image_eqI list.set_map)
  then show ?thesis by (simp add: lexed_def yylex_actions us those_None del: set_map)
qed

section \<open>The tokens of a text\<close>

lemma starts_with_append [simp]: "starts_with p (p @ s)"
  by (induction p) auto

lemma starts_with_length: "starts_with p s \<Longrightarrow> length p \<le> length s"
  by (induction p s rule: starts_with.induct) auto

text \<open>Where a word ends.\<close>

definition delimiter :: "char \<Rightarrow> bool" where
  "delimiter c \<longleftrightarrow> \<not> is_upper c \<and> \<not> is_name_char c"

lemma digit_name_char: "is_digit c \<Longrightarrow> is_name_char c"
  by (auto simp: is_digit_def is_name_char_def)

lemma upper_chars [simp]:
  "is_upper CHR ''A''" "is_upper CHR ''B''" "is_upper CHR ''C''" "is_upper CHR ''D''" "is_upper CHR ''E''" "is_upper CHR ''F''" "is_upper CHR ''G''" "is_upper CHR ''H''" 
  "is_upper CHR ''I''" "is_upper CHR ''J''" "is_upper CHR ''K''" "is_upper CHR ''L''" "is_upper CHR ''M''" "is_upper CHR ''N''" "is_upper CHR ''O''" "is_upper CHR ''P''" 
  "is_upper CHR ''Q''" "is_upper CHR ''R''" "is_upper CHR ''S''" "is_upper CHR ''T''" "is_upper CHR ''U''" "is_upper CHR ''V''" "is_upper CHR ''W''" "is_upper CHR ''X''" "is_upper CHR ''Y''" "is_upper CHR ''Z''"
  by (simp_all add: is_upper_def)

lemma upper_not_name [simp]: "is_upper c \<Longrightarrow> \<not> is_name_char c" "is_upper c \<Longrightarrow> \<not> is_digit c"
  by (auto simp: is_upper_def is_name_char_def is_digit_def)

text \<open>The marks are neither.\<close>

lemma char_facts [simp]:
  "\<not> is_name_char CHR ''{''" "\<not> is_name_char CHR ''(''" "\<not> is_name_char CHR ''}''" "\<not> is_name_char CHR '')''"
  "\<not> is_name_char CHR '',''" "\<not> is_upper CHR '' ''" "delimiter CHR '' ''" "delimiter CHR ''(''" "delimiter CHR '')''"
  "delimiter CHR '',''" "delimiter CHR ''\<newline>''"
  by (simp_all add: is_name_char_def delimiter_def is_upper_def)

lemma name_char_facts:
  assumes "is_name_char c"
  shows "\<not> is_upper c" "\<not> is_name_char d \<Longrightarrow> \<not> starts_with (d # p) (c # s)"
  using assms by (auto simp: is_name_char_def is_upper_def)

lemma takeWhile_stop: "\<not> P c \<Longrightarrow> takeWhile P (w @ c # s) = takeWhile P w"
  by (induction w) auto

lemma longest_name:
  assumes "w \<noteq> []" and "\<forall>c \<in> set w. is_name_char c" and "delimiter c"
  shows "longest lex_rules (w @ c # s) =
    (length w, Some (if \<forall>c \<in> set w. is_digit c then NUMBER w else NAME w))"
proof -
  obtain d w' where w: "w = d # w'" "is_name_char d" using assms(1,2) by (cases w) auto
  have n: "takeWhile is_name_char (w @ c # s) = w" using assms(2,3) by (simp add: delimiter_def)
  have u: "takeWhile is_upper (w @ c # s) = []" using w name_char_facts(1) by simp
  have d: "takeWhile is_digit (w @ c # s) = takeWhile is_digit w" 
    using assms(3) digit_name_char [of c] by (intro takeWhile_stop) (auto simp: delimiter_def)
  have e: "length (takeWhile is_digit w) < length w" if "\<not> (\<forall>c \<in> set w. is_digit c)"
    using that by (induction w) auto
  have k: "starts_with (x # p) (w @ c # s) \<longleftrightarrow> False" if "\<not> is_name_char x" for x p using w name_char_facts(2) that by simp
  show ?thesis
  proof (cases "\<forall>c \<in> set w. is_digit c")
    case True
    then have "takeWhile is_digit w = w" by (simp only: takeWhile_eq_all_conv)
    with True assms(1) show ?thesis
      by (simp add: lex_rules_def literal_def class_plus_def k n d u del: append_Cons takeWhile_eq_all_conv)
  next
    case False
    from e [OF False] have "length (takeWhile is_digit w) < length w" .
    with False assms(1) show ?thesis
      by (simp add: lex_rules_def literal_def class_plus_def k n d u not_le del: append_Cons)
  qed
qed

lemma lex_tokens_blank [simp]: "lex_tokens (CHR '' '' # s) = lex_tokens s" "lex_tokens (CHR ''\<newline>'' # s) = lex_tokens s"
  by (simp_all add: lex_rules_def literal_def class_plus_def is_digit_def is_name_char_def is_upper_def)

lemma lex_tokens_marks [simp]:
  "lex_tokens (CHR ''('' # s) = LEFT_DASH # lex_tokens s" "lex_tokens (CHR '')'' # s) = RIGHT_DASH # lex_tokens s"
  "lex_tokens (CHR '','' # s) = COMMA # lex_tokens s"
  by (simp_all add: lex_rules_def literal_def class_plus_def is_digit_def is_name_char_def is_upper_def)

declare lex_tokens.simps(2) [simp del]

lemma lex_tokens_word:
  assumes "longest lex_rules (w @ s) = (length w, Some t)" and "w \<noteq> []"
  shows "lex_tokens (w @ s) = t # lex_tokens s"
proof -
  obtain d w' where "w = d # w'" using assms(2) by (cases w) auto
  with assms(1) show ?thesis by (simp add: lex_tokens.simps(2))
qed

text \<open>A keyword, and a word that is none.\<close>

lemma lex_tokens_keyword:
  assumes "(p, t) \<in> {(''CREATE'', CREATE), (''TABLE'', TABLE), (''TEXT'', TEXT), (''INTEGER'', INTEGER), (''BIGINT'', BIGINT),
      (''REAL'', REAL), (''PRIMARY KEY'', PRIMARY_KEY), (''ASC'', ASC), (''DESC'', DESC), (''UNIQUE'', UNIQUE),
      (''FOREIGN KEY'', FOREIGN_KEY), (''REFERENCES'', REFERENCES), (''BLOB'', BLOB),
      (''IF'', IGNORE), (''NOT'', IGNORE), (''EXISTS'', IGNORE),
      (''NULL'', IGNORE)}"
    and "delimiter c"
  shows "lex_tokens (p @ c # s) = t # lex_tokens (c # s)"
proof (rule lex_tokens_word)
  have "\<not> is_upper c" using assms(2) by (simp add: delimiter_def)
  then show "longest lex_rules (p @ c # s) = (length p, Some t)"
    using assms(1)
    by (elim insertE emptyE Pair_inject; simp add: lex_rules_def literal_def class_plus_def)
qed (use assms(1) in auto)

lemma lex_tokens_name:
  assumes "w \<noteq> []" and "\<forall>c \<in> set w. is_name_char c" and "delimiter c"
  shows "lex_tokens (w @ c # s) = (if \<forall>c \<in> set w. is_digit c then NUMBER w else NAME w) # lex_tokens (c # s)"
  by (rule lex_tokens_word [OF longest_name [OF assms] assms(1)])

text \<open>Only its rule makes names, out of the characters it has.\<close>

lemma longest_from:
  "longest rs s = (n, Some t) \<Longrightarrow> n \<noteq> 0 \<and> (\<exists>(m, f) \<in> set rs. m s = n \<and> t = f (take n s))"
  by (induction rs s arbitrary: n t rule: longest.induct) (auto simp: Let_def split: prod.splits if_splits)

lemma lex_name_chars:
  assumes "longest lex_rules s = (n, Some (NAME w))"
  shows "w \<noteq> [] \<and> (\<forall>c \<in> set w. is_name_char c)"
proof -
  from longest_from [OF assms] obtain m f where r: "(m, f) \<in> set lex_rules" "m s = n" "NAME w = f (take n s)" "n \<noteq> 0" by auto
  have f: "(\<exists>t. f = (\<lambda>_. t) \<and> (\<forall>w. t \<noteq> NAME w)) \<or> f = NUMBER \<or> (m, f) = class_plus is_name_char NAME"
    using r(1) unfolding lex_rules_def list.set
    by (elim insertE emptyE) (unfold literal_def Pair_inject class_plus_def, blast+)
  then have c: "(m, f) = class_plus is_name_char NAME" using r(3) by auto
  then have n: "n = length (takeWhile is_name_char s)" "w = take n s" using r(2,3) by (simp_all add: class_plus_def)
  then have "w = takeWhile is_name_char s" by (simp add: takeWhile_eq_take [symmetric])
  with n(1) r(4) show ?thesis using set_takeWhileD by fastforce
qed

lemma lex_tokens_names: "NAME w \<in> set (lex_tokens s) \<Longrightarrow> w \<noteq> [] \<and> (\<forall>c \<in> set w. is_name_char c)"
proof (induction s rule: lex_tokens.induct)
  case (2 c s)
  obtain n t where l: "longest lex_rules (c # s) = (n, t)" by force
  then show ?case
  proof (cases t)
    case None
    with 2 l show ?thesis by (simp add: lex_tokens.simps(2))
  next
    case (Some t')
    with 2 l lex_name_chars [of "c # s" n w] show ?thesis by (auto simp: lex_tokens.simps(2))
  qed
qed simp

lemma name_chars_no_nul: "\<forall>c \<in> set w. is_name_char c \<Longrightarrow> no_nul w"
  by (auto simp: no_nul_def is_name_char_def)

section \<open>Numbers\<close>

lemma show_nat_digits: "show_nat n \<noteq> [] \<and> (\<forall>c \<in> set (show_nat n). is_digit c)"
proof (induction n rule: show_nat.induct)
  case (1 n)
  have d: "is_digit (digit_char k)" if "k < 10" for k
  proof -
    have "list_all (\<lambda>k. is_digit (digit_char k)) [0..<10]" by code_simp
    with that show ?thesis by (simp add: list_all_iff)
  qed
  show ?case using 1 d [of n] d [of "n mod 10"] by (cases "n < 10") (auto simp: show_nat.simps [of n])
qed

lemma digits_value_show_nat: "digits_value (show_nat n) = n"
proof (induction n rule: show_nat.induct)
  case (1 n)
  have d: "of_char (digit_char k) = (48 + k :: nat)" if "k < 10" for k
    using that by (simp add: digit_char_def)
  show ?case using 1 d [of n] d [of "n mod 10"]
    by (cases "n < 10") (simp_all add: show_nat.simps [of n] digits_value_def)
qed

lemma atoi_show_nat:
  assumes "n < 2 ^ 31" shows "atoi (show_nat n) = int n"
proof -
  have "min n (2 ^ 63 - 1) = n" using assms by simp
  moreover have "sint (word_of_int (int n) :: 32 word) = int n"
    using assms unfolding sint_sbintrunc' by (intro signed_take_bit_int_eq_self) simp_all
  ultimately show ?thesis unfolding atoi_def digits_value_show_nat by simp
qed

section \<open>Tables as statements\<close>

text \<open>How the input files write a table: the columns and then the foreign keys.\<close>

definition write_length :: "sorm_column_descriptor_t \<Rightarrow> string" where
  "write_length col = (if c_mem col = SORM_MEM_STACK then ''('' @ show_nat (nat (c_max_len col)) @ '')'' else [])"

definition write_type :: "sorm_column_descriptor_t \<Rightarrow> string" where
  "write_type col =
     (case c_type col of
        SORM_TYPE_INT \<Rightarrow> ''INTEGER'' | SORM_TYPE_INT64 \<Rightarrow> ''BIGINT'' | SORM_TYPE_DOUBLE \<Rightarrow> ''REAL''
      | SORM_TYPE_TEXT \<Rightarrow> ''TEXT'' @ write_length col | SORM_TYPE_BLOB \<Rightarrow> ''BLOB'' @ write_length col
      | SORM_TYPE_OTHER _ \<Rightarrow> [])"

definition write_constraint :: "sorm_column_descriptor_t \<Rightarrow> string" where
  "write_constraint col =
     (case c_constraint col of
        SORM_CONSTRAINT_PK \<Rightarrow> '' PRIMARY KEY'' | SORM_CONSTRAINT_PK_ASC \<Rightarrow> '' PRIMARY KEY ASC''
      | SORM_CONSTRAINT_PK_DESC \<Rightarrow> '' PRIMARY KEY DESC'' | SORM_CONSTRAINT_UNIQUE \<Rightarrow> '' UNIQUE'' | _ \<Rightarrow> [])"

definition write_column :: "sorm_column_descriptor_t \<Rightarrow> string" where
  "write_column col = c_name col @ '' '' @ write_type col @ write_constraint col"

definition write_foreign :: "sorm_column_descriptor_t \<Rightarrow> string" where
  "write_foreign col = ''FOREIGN KEY('' @ c_name col @ '') REFERENCES '' @ foreign_table_name col @ ''('' @
     foreign_column_name col @ '')''"

definition schema_text :: "string \<Rightarrow> sorm_column_descriptor_t list \<Rightarrow> string" where
  "schema_text name cols = ''CREATE TABLE IF NOT EXISTS '' @ name @ ''('' @ write_column (hd cols) @
     concat (map (\<lambda>col. '', '' @ write_column col) (tl cols)) @
     concat (map (\<lambda>col. '', '' @ write_foreign col) (filter is_foreign_key cols)) @ '')\<newline>''"

text \<open>The tokens of it.\<close>

definition length_tokens :: "sorm_column_descriptor_t \<Rightarrow> token list" where
  "length_tokens col =
     (if c_mem col = SORM_MEM_STACK then [LEFT_DASH, NUMBER (show_nat (nat (c_max_len col))), RIGHT_DASH] else [])"

definition type_tokens :: "sorm_column_descriptor_t \<Rightarrow> token list" where
  "type_tokens col =
     (case c_type col of
        SORM_TYPE_INT \<Rightarrow> [INTEGER] | SORM_TYPE_INT64 \<Rightarrow> [BIGINT] | SORM_TYPE_DOUBLE \<Rightarrow> [REAL]
      | SORM_TYPE_TEXT \<Rightarrow> TEXT # length_tokens col | SORM_TYPE_BLOB \<Rightarrow> BLOB # length_tokens col
      | SORM_TYPE_OTHER _ \<Rightarrow> [])"

definition constraint_tokens :: "sorm_column_descriptor_t \<Rightarrow> token list" where
  "constraint_tokens col =
     (case c_constraint col of
        SORM_CONSTRAINT_PK \<Rightarrow> [PRIMARY_KEY] | SORM_CONSTRAINT_PK_ASC \<Rightarrow> [PRIMARY_KEY, ASC]
      | SORM_CONSTRAINT_PK_DESC \<Rightarrow> [PRIMARY_KEY, DESC] | SORM_CONSTRAINT_UNIQUE \<Rightarrow> [UNIQUE] | _ \<Rightarrow> [])"

definition column_tokens :: "sorm_column_descriptor_t \<Rightarrow> token list" where
  "column_tokens col = NAME (c_name col) # type_tokens col @ constraint_tokens col"

definition foreign_tokens :: "sorm_column_descriptor_t \<Rightarrow> token list" where
  "foreign_tokens col = [FOREIGN_KEY, LEFT_DASH, NAME (c_name col), RIGHT_DASH, REFERENCES, NAME (foreign_table_name col),
     LEFT_DASH, NAME (foreign_column_name col), RIGHT_DASH]"

text \<open>The tables that can be written so.\<close>

definition lex_name :: "string \<Rightarrow> bool" where
  "lex_name w \<longleftrightarrow> w \<noteq> [] \<and> (\<forall>c \<in> set w. is_name_char c) \<and> \<not> (\<forall>c \<in> set w. is_digit c)"

definition column_writes :: "sorm_column_descriptor_t \<Rightarrow> bool" where
  "column_writes col \<longleftrightarrow> schema_column col \<and> 0 \<le> c_max_len col \<and> lex_name (c_name col) \<and>
     (is_foreign_key col \<longrightarrow> lex_name (foreign_table_name col) \<and> lex_name (foreign_column_name col))"

definition schema_writes :: "string \<Rightarrow> sorm_column_descriptor_t list \<Rightarrow> bool" where
  "schema_writes name cols \<longleftrightarrow> lex_name name \<and> cols \<noteq> [] \<and> (\<forall>col \<in> set cols. column_writes col) \<and> distinct (map c_name cols)"

lemma lex_tokens_lex_name [simp]: "lex_name w \<Longrightarrow> delimiter c \<Longrightarrow> lex_tokens (w @ c # s) = NAME w # lex_tokens (c # s)"
  by (auto simp: lex_name_def lex_tokens_name)

lemma lex_tokens_number [simp]: "delimiter c \<Longrightarrow> lex_tokens (show_nat n @ c # s) = NUMBER (show_nat n) # lex_tokens (c # s)"
  using show_nat_digits [of n] digit_name_char by (simp add: lex_tokens_name)

lemmas lex_tokens_keywords [simp] =
  lex_tokens_keyword [of "''CREATE''" CREATE, simplified] lex_tokens_keyword [of "''TABLE''" TABLE, simplified]
  lex_tokens_keyword [of "''TEXT''" TEXT, simplified] lex_tokens_keyword [of "''INTEGER''" INTEGER, simplified]
  lex_tokens_keyword [of "''BIGINT''" BIGINT, simplified] lex_tokens_keyword [of "''REAL''" REAL, simplified]
  lex_tokens_keyword [of "''PRIMARY KEY''" PRIMARY_KEY, simplified] lex_tokens_keyword [of "''ASC''" ASC, simplified]
  lex_tokens_keyword [of "''DESC''" DESC, simplified] lex_tokens_keyword [of "''UNIQUE''" UNIQUE, simplified]
  lex_tokens_keyword [of "''FOREIGN KEY''" FOREIGN_KEY, simplified] lex_tokens_keyword [of "''REFERENCES''" REFERENCES, simplified]
  lex_tokens_keyword [of "''BLOB''" BLOB, simplified] lex_tokens_keyword [of "''IF''" IGNORE, simplified]
  lex_tokens_keyword [of "''NOT''" IGNORE, simplified] lex_tokens_keyword [of "''EXISTS''" IGNORE, simplified]
  lex_tokens_keyword [of "''NULL''" IGNORE, simplified]

lemma lex_tokens_type: "delimiter c \<Longrightarrow> write_type col \<noteq> [] \<Longrightarrow> lex_tokens (write_type col @ c # s) = type_tokens col @ lex_tokens (c # s)"
  by (cases "c_type col") (simp_all add: write_type_def type_tokens_def write_length_def length_tokens_def)

lemma lex_tokens_constraint: "delimiter c \<Longrightarrow> lex_tokens (write_constraint col @ c # s) = constraint_tokens col @ lex_tokens (c # s)"
  by (cases "c_constraint col") (simp_all add: write_constraint_def constraint_tokens_def)

lemma constraint_text_delimited:
  assumes "delimiter c" obtains d s' where "write_constraint col @ c # s = d # s'" and "delimiter d"
  using assms that by (cases "c_constraint col") (simp_all add: write_constraint_def)

lemma lex_tokens_column:
  assumes "column_writes col" and "delimiter c"
  shows "lex_tokens (write_column col @ c # s) = column_tokens col @ lex_tokens (c # s)"
proof -
  obtain d s' where d: "write_constraint col @ c # s = d # s'" "delimiter d" using constraint_text_delimited [OF assms(2)] by blast
  have "write_type col \<noteq> []" using assms(1) by (auto simp: write_type_def column_writes_def schema_column_def split: if_splits)
  from lex_tokens_type [OF d(2) this, of s'] lex_tokens_constraint [OF assms(2), of col s]
  have "lex_tokens (write_type col @ write_constraint col @ c # s) = type_tokens col @ constraint_tokens col @ lex_tokens (c # s)"
    unfolding d(1) by simp
  then show ?thesis using assms(1) by (simp add: write_column_def column_tokens_def column_writes_def)
qed

lemma lex_tokens_columns:
  assumes "\<forall>col \<in> set cols. column_writes col" and "delimiter c"
  shows "\<exists>d s'. concat (map (\<lambda>col. '', '' @ write_column col) cols) @ c # s = d # s' \<and> delimiter d"
    and "lex_tokens (concat (map (\<lambda>col. '', '' @ write_column col) cols) @ c # s) =
      concat (map (\<lambda>col. COMMA # column_tokens col) cols) @ lex_tokens (c # s)"
  using assms(1)
proof (induction cols)
  case (Cons col cols)
  case 2
  from Cons(1) 2 obtain d s' where d: "concat (map (\<lambda>col. '', '' @ write_column col) cols) @ c # s = d # s'" "delimiter d" by auto
  have "lex_tokens (write_column col @ d # s') = column_tokens col @ lex_tokens (d # s')" using 2 d(2) by (intro lex_tokens_column) simp_all
  with Cons(2) 2 d(1) show ?case by simp
qed (use assms(2) in auto)

lemma lex_tokens_foreign:
  assumes "column_writes col" and "is_foreign_key col"
  shows "lex_tokens (write_foreign col @ s) = foreign_tokens col @ lex_tokens s"
  using assms by (simp add: write_foreign_def foreign_tokens_def column_writes_def)

lemma lex_tokens_foreigns:
  assumes "\<forall>col \<in> set cols. column_writes col \<and> is_foreign_key col"
  shows "lex_tokens (concat (map (\<lambda>col. '', '' @ write_foreign col) cols) @ s) =
    concat (map (\<lambda>col. COMMA # foreign_tokens col) cols) @ lex_tokens s"
  using assms by (induction cols) (simp_all add: lex_tokens_foreign)

text \<open>The statement without its foreign keys, and the columns it describes.\<close>

definition plain :: "sorm_column_descriptor_t \<Rightarrow> sorm_column_descriptor_t" where
  "plain col = col\<lparr>is_foreign_key := False, foreign_table_name := [], foreign_column_name := []\<rparr>"

lemma column_tokens_def_plain:
  assumes "column_writes col"
  shows "column_def (column_tokens col) (plain col)"
proof -
  let ?d = "column_zero\<lparr>c_mem := c_mem col, c_max_len := c_max_len col, c_type := c_type col\<rparr>"
  have s: "schema_column col" "0 \<le> c_max_len col" using assms by (simp_all add: column_writes_def)
  then have n: "atoi (show_nat (nat (c_max_len col))) = c_max_len col" by (subst atoi_show_nat) (auto simp: schema_column_def)
  have t: "column_type (type_tokens col) column_zero ?d"
  proof (cases "c_type col = SORM_TYPE_TEXT \<or> c_type col = SORM_TYPE_BLOB")
    case True
    then consider "c_mem col = SORM_MEM_HEAP" "c_max_len col = 0" | "c_mem col = SORM_MEM_STACK"
      using s(1) by (auto simp: schema_column_def)
    then show ?thesis
    proof cases
      case 1
      with True column_type.intros(3,6) [of column_zero] show ?thesis
        by (auto simp: type_tokens_def length_tokens_def column_zero_def)
    next
      case 2
      with True n column_type.intros(4,7) [of "show_nat (nat (c_max_len col))" column_zero] show ?thesis
        by (auto simp: type_tokens_def length_tokens_def)
    qed
  next
    case False
    then have "c_type col \<in> {SORM_TYPE_INT, SORM_TYPE_INT64, SORM_TYPE_DOUBLE}" "c_mem col = SORM_MEM_NONE" "c_max_len col = 0"
      using s(1) by (simp_all add: schema_column_def)
    with column_type.intros(1,2,5) [of column_zero] show ?thesis by (auto simp: type_tokens_def column_zero_def)
  qed
  have p: "plain col = ?d\<lparr>c_constraint := c_constraint col, c_name := c_name col\<rparr>"
    using s(1) by (simp add: plain_def column_zero_def schema_column_def)
  show ?thesis
  proof (cases "c_constraint col = SORM_CONSTRAINT_NONE")
    case True
    then have "plain col = ?d\<lparr>c_name := c_name col\<rparr>" unfolding p by (simp add: column_zero_def)
    with column_def.intros(1) [OF t, of "c_name col"] True show ?thesis by (simp add: column_tokens_def constraint_tokens_def)
  next
    case False
    have "use_column_constraint (constraint_tokens col) (c_constraint col)"
      using s(1) False use_column_constraint.intros by (auto simp: schema_column_def constraint_tokens_def)
    from column_def.intros(2) [OF t column_constraint.intros(1) [OF this]] show ?thesis unfolding p column_tokens_def .
  qed
qed

lemma column_tokens_columns:
  assumes "\<forall>c \<in> set (col # cols). column_writes c"
  shows "columns_def (column_tokens col @ concat (map (\<lambda>col. COMMA # column_tokens col) cols)) (map plain (col # cols))"
  using assms
proof (induction cols arbitrary: col)
  case Nil
  then show ?case using columns_def.intros(2) [OF column_tokens_def_plain [of col]] by simp
next
  case (Cons c cols)
  from columns_def_Cons [OF Cons(1) [of c] column_tokens_def_plain [of col]] Cons(2) show ?case by simp
qed

lemma foreign_tokens_table_def:
  "table_def (foreign_tokens col) cols (set_foreign (c_name col) (foreign_table_name col) (foreign_column_name col) cols)"
  using table_def.intros(1) [OF ignores.intros(3)] by (simp add: foreign_tokens_def)

lemma foreign_tokens_table_defs:
  "table_defs (foreign_tokens f @ concat (map (\<lambda>col. COMMA # foreign_tokens col) fs)) cols
     (fold (\<lambda>f. set_foreign (c_name f) (foreign_table_name f) (foreign_column_name f)) (f # fs) cols)"
proof (induction fs arbitrary: f cols)
  case Nil
  show ?case using table_defs.intros(2) [OF foreign_tokens_table_def [of f cols]] by simp
next
  case (Cons g fs)
  from table_defs_Cons [OF Cons foreign_tokens_table_def] show ?case by simp
qed

text \<open>The foreign keys restore the columns.\<close>

lemma set_foreign_first:
  "n \<notin> c_name ` set pre \<Longrightarrow> c_name col = n \<Longrightarrow> set_foreign n t c (pre @ col # post) =
     pre @ col\<lparr>is_foreign_key := True, foreign_table_name := t, foreign_column_name := c\<rparr> # post"
  by (induction pre) auto

lemma foreign_restores:
  assumes "distinct (map c_name (pre @ cols))" and "\<forall>col \<in> set cols. schema_column col"
  shows "fold (\<lambda>f. set_foreign (c_name f) (foreign_table_name f) (foreign_column_name f)) (filter is_foreign_key cols)
     (pre @ map plain cols) = pre @ cols"
  using assms
proof (induction cols arbitrary: pre)
  case (Cons col cols)
  then have d: "c_name col \<notin> c_name ` set pre" "c_name (plain col) = c_name col" by (auto simp: plain_def)
  have "set_foreign (c_name col) (foreign_table_name col) (foreign_column_name col) (pre @ plain col # map plain cols)
      = (pre @ [col]) @ map plain cols" if "is_foreign_key col"
    unfolding set_foreign_first [OF d] using that by (simp add: plain_def)
  moreover have "plain col = col" if "\<not> is_foreign_key col" using that Cons(3) by (simp add: plain_def schema_column_def)
  ultimately show ?case using Cons(1) [of "pre @ [col]"] Cons(2,3) by auto
qed simp

lemma schema_text_statement:
  assumes "schema_writes name cols"
  shows "statement (lex_tokens (schema_text name cols)) name cols"
proof -
  from assms obtain col cols' where c: "cols = col # cols'" by (cases cols) (auto simp: schema_writes_def)
  have w: "\<forall>c \<in> set (col # cols'). column_writes c" "lex_name name" "distinct (map c_name cols)"
    using assms by (auto simp: schema_writes_def c)
  let ?fs = "filter is_foreign_key cols"
  define s where "s = concat (map (\<lambda>col. '', '' @ write_foreign col) ?fs) @ '')\<newline>''"
  have f: "lex_tokens s = concat (map (\<lambda>col. COMMA # foreign_tokens col) ?fs) @ [RIGHT_DASH]"
    unfolding s_def using w(1) by (subst lex_tokens_foreigns) (auto simp: c)
  obtain e s' where e: "s = e # s'" "delimiter e" unfolding s_def by (cases ?fs) auto
  have cs: "lex_tokens (write_column col @ concat (map (\<lambda>col. '', '' @ write_column col) cols') @ s) =
      (column_tokens col @ concat (map (\<lambda>col. COMMA # column_tokens col) cols')) @ lex_tokens s"
  proof -
    from lex_tokens_columns(1) [OF _ e(2), of cols' s'] w(1) obtain d s'' where
      d: "concat (map (\<lambda>col. '', '' @ write_column col) cols') @ s = d # s''" "delimiter d" by (auto simp: e(1))
    have "lex_tokens (write_column col @ d # s'') = column_tokens col @ lex_tokens (d # s'')"
      by (rule lex_tokens_column [OF _ d(2)]) (use w(1) in simp)
    then show ?thesis using lex_tokens_columns(2) [OF _ e(2), of cols' s'] w(1) unfolding d(1) [symmetric] by (simp add: e(1))
  qed
  have ts: "lex_tokens (schema_text name cols) = CREATE # TABLE # [IGNORE, IGNORE, IGNORE] @ NAME name # LEFT_DASH #
      (column_tokens col @ concat (map (\<lambda>col. COMMA # column_tokens col) cols')) @ lex_tokens s"
    unfolding cs [symmetric] using w(2) by (simp add: schema_text_def c s_def)
  have i: "ignores [IGNORE, IGNORE, IGNORE]" by (simp add: ignores_iff)
  have d: "columns_def (column_tokens col @ concat (map (\<lambda>col. COMMA # column_tokens col) cols')) (map plain cols)"
    unfolding c by (rule column_tokens_columns [OF w(1)])
  have r: "fold (\<lambda>f. set_foreign (c_name f) (foreign_table_name f) (foreign_column_name f)) ?fs (map plain cols) = cols"
    using foreign_restores [of "[]" cols] w(1,3) by (auto simp: c column_writes_def)
  show ?thesis
  proof (cases ?fs)
    case Nil
    with r statement.intros(2) [OF i d, of name] show ?thesis unfolding ts f by simp
  next
    case (Cons g gs)
    from statement.intros(1) [OF i d foreign_tokens_table_defs [of g gs], of name]
    show ?thesis unfolding ts f Cons r [unfolded Cons] by simp
  qed
qed

section \<open>The generator with its parser\<close>

text \<open>
  What the generator relies on: the parser that yacc makes from the grammar runs the actions of the derivation of
  every text whose tokens it derives, with the values the lexer hands over.
\<close>

locale schema_parser =
  fixes give :: "nat \<Rightarrow> 64 word"
    and yyparse :: "string \<Rightarrow> string option \<times> sorm_column_descriptor_t list"
  assumes accepts: "lexed give s = Some ts \<Longrightarrow> statement ts name cols \<Longrightarrow> yyparse s = (Some name, cols)"
begin

lemma reads_back:
  "schema_writes name cols \<Longrightarrow> low_strings give (length (schema_text name cols)) \<Longrightarrow>
     yyparse (schema_text name cols) = (Some name, cols)"
  by (rule accepts [OF lexed_low schema_text_statement])

end

text \<open>The parser of the grammar as such a function.\<close>

definition yyparse_schema :: "(nat \<Rightarrow> 64 word) \<Rightarrow> string \<Rightarrow> string option \<times> sorm_column_descriptor_t list" where
  "yyparse_schema give s =
     (case Option.bind (lexed give s) read_statement of Some (name, cols) \<Rightarrow> (Some name, cols) | None \<Rightarrow> (None, []))"

interpretation ys: schema_parser give "yyparse_schema give" for give
  by unfold_locales (simp add: yyparse_schema_def statement_read)

text \<open>The columns of an accepted text can be printed.\<close>

lemma statement_printable:
  assumes "statement (lex_tokens s) name cols" and "col \<in> set cols" and "0 \<le> c_max_len col" and "c_max_len col < 2 ^ 31 - 1"
  shows "printable col"
proof -
  from statement_schema [OF assms(1)] assms(2) have c: "schema_column col" "named_from (names (lex_tokens s)) col" by auto
  have n: "n \<in> names (lex_tokens s) \<Longrightarrow> no_nul n" for n using lex_tokens_names name_chars_no_nul by (auto simp: names_def)
  have "no_nul (foreign_table_name col)" "no_nul (foreign_column_name col)"
    using c n by (cases "is_foreign_key col"; auto simp: named_from_def schema_column_def)+
  moreover have "no_nul (c_name col)" using c(2) n by (simp add: named_from_def)
  moreover have "value_type col \<noteq> None" "sorm_strmem (c_mem col) \<noteq> None" "sorm_strconstraint (c_constraint col) \<noteq> None"
    using c(1) by (auto simp: schema_column_def value_type_def split: if_splits)
  ultimately show ?thesis using assms(3,4) by (simp add: printable_def wf_column_def)
qed

lemma statement_name_no_nul: "statement (lex_tokens s) name cols \<Longrightarrow> no_nul name"
  using statement_schema lex_tokens_names name_chars_no_nul by (fastforce simp: names_def)

text \<open>A statement is one line.\<close>

definition one_line :: "string \<Rightarrow> bool" where
  "one_line s \<longleftrightarrow> CHR ''\<newline>'' \<notin> set s \<and> NUL \<notin> set s"

lemma one_line_simps [simp]:
  "one_line []" "one_line (c # s) \<longleftrightarrow> c \<noteq> CHR ''\<newline>'' \<and> c \<noteq> NUL \<and> one_line s" "one_line (s @ t) \<longleftrightarrow> one_line s \<and> one_line t"
  "one_line (concat ss) \<longleftrightarrow> (\<forall>s \<in> set ss. one_line s)"
  by (auto simp: one_line_def)

lemma one_line_chars: "\<forall>c \<in> set w. is_name_char c \<Longrightarrow> one_line w"
proof -
  have "\<not> is_name_char CHR ''\<newline>''" "\<not> is_name_char NUL" by (simp_all add: is_name_char_def)
  then show "\<forall>c \<in> set w. is_name_char c \<Longrightarrow> one_line w" unfolding one_line_def by blast
qed

lemma one_line_column: "column_writes col \<Longrightarrow> one_line (write_column col)"
proof -
  assume c: "column_writes col"
  then have "one_line (c_name col)" by (intro one_line_chars) (simp add: column_writes_def lex_name_def)
  moreover have "one_line (show_nat n)" for n using show_nat_digits digit_name_char by (intro one_line_chars) blast
  then have "one_line (write_type col)" by (cases "c_type col") (simp_all add: write_type_def write_length_def)
  moreover have "one_line (write_constraint col)" by (cases "c_constraint col") (simp_all add: write_constraint_def)
  ultimately show ?thesis by (simp add: write_column_def)
qed

lemma one_line_foreign: "column_writes col \<Longrightarrow> is_foreign_key col \<Longrightarrow> one_line (write_foreign col)"
  using one_line_chars [of "c_name col"] one_line_chars [of "foreign_table_name col"] one_line_chars [of "foreign_column_name col"]
  by (simp add: write_foreign_def column_writes_def lex_name_def)

lemma schema_text_one_line:
  assumes "schema_writes name cols"
  obtains s where "schema_text name cols = s @ ''\<newline>''" and "one_line s" and "s \<noteq> []"
proof -
  from assms obtain col cols' where c: "cols = col # cols'" by (cases cols) (auto simp: schema_writes_def)
  have w: "\<forall>c \<in> set (col # cols'). column_writes c" "one_line name"
    using assms one_line_chars [of name] by (simp_all add: schema_writes_def c lex_name_def)
  have "one_line (''CREATE TABLE IF NOT EXISTS '' @ name @ ''('' @ write_column (hd cols) @
      concat (map (\<lambda>col. '', '' @ write_column col) (tl cols)) @
      concat (map (\<lambda>col. '', '' @ write_foreign col) (filter is_foreign_key cols)) @ '')'')"
    using w by (auto simp: c one_line_column one_line_foreign)
  then show thesis by (rule that [rotated]) (simp_all add: schema_text_def)
qed

lemma schema_text_line:
  assumes "schema_writes name cols" and "length (schema_text name cols) \<le> nat SQL_STMT_MAX_LEN"
  shows "fgets (schema_text name cols) = Some (schema_text name cols)"
    and "cut_last (schema_text name cols) = Some (butlast (schema_text name cols))"
proof -
  from schema_text_one_line [OF assms(1)] obtain s where
    s: "schema_text name cols = s @ ''\<newline>''" "one_line s" "s \<noteq> []" by blast
  have "takeWhile (\<lambda>c. c \<noteq> CHR ''\<newline>'') (s @ ''\<newline>'') = s" "dropWhile (\<lambda>c. c \<noteq> CHR ''\<newline>'') (s @ ''\<newline>'') = ''\<newline>''"
    using s(2) by (simp_all add: one_line_def takeWhile_append dropWhile_append)
  then show "fgets (schema_text name cols) = Some (schema_text name cols)" using assms(2) by (simp add: fgets_def s(1))
  have "takeWhile (\<lambda>c. c \<noteq> NUL) (s @ ''\<newline>'') = s @ ''\<newline>''" using s(2) by (auto simp: one_line_def)
  then show "cut_last (schema_text name cols) = Some (butlast (schema_text name cols))"
    by (simp add: cut_last_def s(1))
qed

lemma schema_text_describes:
  assumes "schema_parser give (yyparse env)" and "files env arg = Some (schema_text name cols)" and "schema_writes name cols"
    and "length (schema_text name cols) \<le> nat SQL_STMT_MAX_LEN" and "\<forall>col \<in> set cols. c_max_len col < 2 ^ 31 - 1"
    and "writable env (fprintf ''%s_sorm.h'' [name])" and "writable env (fprintf ''%s_sorm.c'' [name])"
    and "low_strings give (length (schema_text name cols))"
  shows "describes env arg (parsed_table name cols (key_index cols) (butlast (schema_text name cols)))"
proof -
  have "\<forall>col \<in> set cols. printable col"
    using statement_printable [OF schema_text_statement [OF assms(3)]] assms(3,5) by (auto simp: schema_writes_def column_writes_def)
  moreover have "no_nul name" by (rule statement_name_no_nul [OF schema_text_statement [OF assms(3)]])
  ultimately show ?thesis unfolding describes_def
    using assms(2,6,7) schema_parser.reads_back [OF assms(1,3,8)] schema_text_line [OF assms(3,4)] by blast
qed

section \<open>Properties\<close>

text \<open>
  C14: A table written as a statement is read back, through the pointers of the lexer: where \<open>strdup\<close> gives addresses of
  32 bits, the grammar derives the tokens of the text as its actions read them, and they build just the name and the
  columns that were written, with their types, lengths, constraints and foreign keys. Where the heap is above
  \<open>2 ^ 32\<close> the actions find no texts at the pointers.
\<close>

theorem schema_roundtrip:
  assumes "schema_writes name cols"
  shows "(low_strings give (length (schema_text name cols)) \<longrightarrow>
      (\<exists>ts. lexed give (schema_text name cols) = Some ts \<and> (\<forall>n cs. statement ts n cs \<longleftrightarrow> n = name \<and> cs = cols))) \<and>
    (high_strings give \<longrightarrow> lexed give (schema_text name cols) = None)"
proof (intro conjI impI)
  note s = schema_text_statement [OF assms]
  have "n = name \<and> cs = cols" if "statement (lex_tokens (schema_text name cols)) n cs" for n cs
    using statement_read [OF s] statement_read [OF that] by simp
  with s have "statement (lex_tokens (schema_text name cols)) n cs \<longleftrightarrow> n = name \<and> cs = cols" for n cs by blast
  then show "\<exists>ts. lexed give (schema_text name cols) = Some ts \<and> (\<forall>n cs. statement ts n cs \<longleftrightarrow> n = name \<and> cs = cols)"
    if "low_strings give (length (schema_text name cols))" using lexed_low [OF that] by blast
  have "NAME name \<in> set (lex_tokens (schema_text name cols))" using statement_schema [OF s] by (simp add: names_def)
  then show "lexed give (schema_text name cols) = None" if "high_strings give" by (rule lexed_high [OF that])
qed

text \<open>
  C13: From the statement to the files. With any parser that runs the actions of the grammar on the pointers the lexer
  hands over, and \<open>strdup\<close> giving addresses of 32 bits, the generator run on a file with the statement of a table writes the header and the C file of just this table, with the first key as its
  primary key and the statement as its \<open>create_sql\<close>, and returns \<open>0\<close>; with more than one key the run does not return.
\<close>

theorem generate_schema:
  assumes "schema_parser give (yyparse env)" and "files env arg = Some (schema_text name cols)" and "schema_writes name cols"
    and "length (schema_text name cols) \<le> nat SQL_STMT_MAX_LEN" and "\<forall>col \<in> set cols. c_max_len col < 2 ^ 31 - 1"
    and "writable env (fprintf ''%s_sorm.h'' [name])" and "writable env (fprintf ''%s_sorm.c'' [name])"
    and "low_strings give (length (schema_text name cols))" and "stale env = 0"
  shows "let td = parsed_table name cols (key_index cols) (butlast (schema_text name cols)) in
    if keys cols \<le> 1
    then \<exists>header c_file. main env [arg] = Some (0, [header, c_file]) \<and> header_generate (writable env) td = Some header \<and>
      c_generate (writable env) 0 (Some (schema_text name cols)) td = Some c_file
    else main env [arg] = None"
proof -
  let ?td = "parsed_table name cols (key_index cols) (butlast (schema_text name cols))"
  have "list_all2 (describes env) [arg] [?td]" using schema_text_describes [OF assms(1-8)] by simp
  from main_loop_eq [OF this assms(9), of False] show ?thesis
    using assms(2,9) by (auto simp: main_def written_def Let_def list_all2_Cons1 parsed_table_def)
qed

text \<open>
  C35: Whatever text the grammar derives, read through the pointers of the lexer at addresses of 32 bits, the table it describes is well-formed for the generator: it has a column, its
  name is a C string, and every column has a type the generated struct can hold and constants that have names, provided
  the lengths given are numbers below \<open>2 ^ 31 - 1\<close>. Greater numbers wrap around and may be negative.
\<close>

theorem accepted_well_formed:
  assumes "low_strings give (length s)" and "lexed give s = Some ts" and "statement ts name cols"
    and "\<forall>col \<in> set cols. 0 \<le> c_max_len col \<and> c_max_len col < 2 ^ 31 - 1"
  shows "cols \<noteq> [] \<and> no_nul name \<and> (\<forall>col \<in> set cols. printable col) \<and>
    wf_table (parsed_table name cols (key_index cols) create)"
proof -
  have s: "statement (lex_tokens s) name cols" using assms(2,3) lexed_low [OF assms(1)] by simp
  have "\<forall>col \<in> set cols. printable col" using statement_printable [OF s] assms(4) by blast
  moreover have "no_nul name" by (rule statement_name_no_nul [OF s])
  moreover have "wf_table (parsed_table name cols (key_index cols) create)" using calculation key_index_bounds [of cols]
    by (auto simp: wf_table_def parsed_table_def list_all_iff printable_def)
  ultimately show ?thesis using statement_schema [OF s] by blast
qed

section \<open>A concrete schema\<close>

text \<open>The table of \<^verbatim>\<open>src/test/volume.in\<close>.\<close>

definition volume_columns :: "sorm_column_descriptor_t list" where
  "volume_columns =
    [column_zero\<lparr>c_name := ''id'', c_constraint := SORM_CONSTRAINT_PK\<rparr>,
     column_zero\<lparr>c_name := ''device_id'', is_foreign_key := True, foreign_table_name := ''device'', foreign_column_name := ''id''\<rparr>,
     column_zero\<lparr>c_name := ''uuid'', c_type := SORM_TYPE_TEXT, c_mem := SORM_MEM_STACK, c_max_len := 31, c_constraint := SORM_CONSTRAINT_UNIQUE\<rparr>,
     column_zero\<lparr>c_name := ''drive'', c_type := SORM_TYPE_TEXT, c_mem := SORM_MEM_STACK, c_max_len := 15\<rparr>,
     column_zero\<lparr>c_name := ''label'', c_type := SORM_TYPE_TEXT, c_mem := SORM_MEM_STACK, c_max_len := 31\<rparr>]"

definition volume_text :: string where
  "volume_text = ''CREATE TABLE IF NOT EXISTS volume(id INTEGER PRIMARY KEY, device_id INTEGER, uuid TEXT(31) UNIQUE, '' @
     ''drive TEXT(15), label TEXT(31), FOREIGN KEY(device_id) REFERENCES device(id))\<newline>''"

lemma volume_schema_text: "schema_text ''volume'' volume_columns = volume_text"
  by code_simp

lemma volume_writes: "schema_writes ''volume'' volume_columns"
  by code_simp

text \<open>Copies below \<open>2 ^ 32\<close>, 32 bytes apart, and copies above.\<close>

definition low_heap :: "nat \<Rightarrow> 64 word" where
  "low_heap k = word_of_nat (6295552 + 32 * k)"

definition high_heap :: "nat \<Rightarrow> 64 word" where
  "high_heap k = 93824992231424"

lemma low_heap_uint: "k < 2 ^ 20 \<Longrightarrow> uint (low_heap k) = 6295552 + 32 * int k"
proof -
  assume "k < 2 ^ 20"
  then have "6295552 + 32 * k < (2::nat) ^ 64" by simp
  then have "unat (low_heap k) = 6295552 + 32 * k" unfolding low_heap_def by (subst unat_of_nat) simp
  then show ?thesis unfolding uint_nat by simp
qed

lemma low_heap_address:
  assumes "k < 2 ^ 20" shows "low_heap k \<noteq> 0 \<and> low_heap k < 2 ^ 32"
proof -
  have "0 < uint (low_heap k)" "uint (low_heap k) < 2 ^ 32" using low_heap_uint [OF assms] assms by simp_all
  then show ?thesis by (auto simp: word_less_def)
qed

lemma low_heap_inj:
  assumes "j < 2 ^ 20" and "k < 2 ^ 20" and "low_heap j = low_heap k" shows "j = k"
proof -
  have "6295552 + 32 * int j = 6295552 + 32 * int k"
    by (rule trans [OF low_heap_uint [OF assms(1), symmetric]]) (simp only: assms(3) low_heap_uint [OF assms(2)])
  then show ?thesis by simp
qed

lemma low_heap_strings:
  assumes "n < 2 ^ 20" shows "low_strings low_heap n"
  unfolding low_strings_def inj_on_def lessThan_iff Ball_def
proof (intro conjI allI impI)
  have less: "k < 2 ^ 20" if "k < n" for k using that assms by (rule less_trans)
  show "j = k" if "j < n" "k < n" "low_heap j = low_heap k" for j k by (rule low_heap_inj [OF less less]) (fact that)+
  show "low_heap k \<noteq> 0" "low_heap k < 2 ^ 32" if "k < n" for k using low_heap_address [OF less [OF that]] by blast+
qed

lemma low_heap_volume: "low_strings low_heap (length volume_text)"
proof (rule low_heap_strings)
  have "length volume_text \<le> 300" by (simp add: volume_text_def)
  then show "length volume_text < 2 ^ 20" by simp
qed

theorem schema_roundtrip_witness:
  "(\<exists>ts. lexed low_heap volume_text = Some ts \<and> statement ts ''volume'' volume_columns \<and>
      \<not> statement ts ''volume'' (tl volume_columns)) \<and>
   lexed high_heap volume_text = None"
proof -
  have "tl volume_columns \<noteq> volume_columns" by (simp add: volume_columns_def)
  moreover have "low_strings low_heap (length volume_text)" by (rule low_heap_volume)
  moreover have "high_strings high_heap" by (simp add: high_strings_def high_heap_def)
  ultimately show ?thesis
    using schema_roundtrip [OF volume_writes, of low_heap] schema_roundtrip [OF volume_writes, of high_heap]
    by (auto simp: volume_schema_text)
qed

definition volume_env :: generator_env where
  "volume_env = \<lparr>files = (\<lambda>f. if f = ''volume.in'' then Some volume_text else None), writable = (\<lambda>_. True),
     yyparse = yyparse_schema low_heap, stale = 0\<rparr>"

theorem generate_schema_witness:
  "\<exists>header c_file. main volume_env [''volume.in''] = Some (0, [header, c_file]) \<and>
     header_generate (\<lambda>_. True) (parsed_table ''volume'' volume_columns 0 (butlast volume_text)) = Some header \<and>
     c_generate (\<lambda>_. True) 0 (Some volume_text) (parsed_table ''volume'' volume_columns 0 (butlast volume_text)) = Some c_file"
proof -
  have e: "schema_parser low_heap (yyparse volume_env)" "files volume_env ''volume.in'' = Some (schema_text ''volume'' volume_columns)"
    "stale volume_env = 0" "writable volume_env = (\<lambda>_. True)"
    using ys.schema_parser_axioms [of low_heap] by (simp_all add: volume_env_def volume_schema_text)
  have l: "length volume_text \<le> nat SQL_STMT_MAX_LEN" by code_simp
  have m: "\<forall>col \<in> set volume_columns. c_max_len col < 2 ^ 31 - 1" by code_simp
  have k: "keys volume_columns \<le> 1" "key_index volume_columns = 0" by code_simp+
  have "low_strings low_heap (length (schema_text ''volume'' volume_columns))"
    unfolding volume_schema_text by (rule low_heap_volume)
  from generate_schema [OF e(1,2) volume_writes _ m _ _ this e(3)] l k show ?thesis
    by (simp add: e(4) volume_schema_text Let_def)
qed

theorem accepted_well_formed_witness:
  "volume_columns \<noteq> [] \<and> no_nul ''volume'' \<and> list_all printable volume_columns \<and>
   wf_table (parsed_table ''volume'' volume_columns 0 [])"
proof -
  have s: "statement (lex_tokens volume_text) ''volume'' volume_columns"
    using schema_text_statement [OF volume_writes] by (simp only: volume_schema_text)
  have m: "\<forall>col \<in> set volume_columns. 0 \<le> c_max_len col \<and> c_max_len col < 2 ^ 31 - 1" by code_simp
  have k: "key_index volume_columns = 0" by code_simp
  have l: "low_strings low_heap (length volume_text)" by (rule low_heap_volume)
  from accepted_well_formed [OF l lexed_low [OF l] s m, of "[]"] show ?thesis unfolding k list_all_iff .
qed

text \<open>
  Ignored words are allowed around a key or \<open>UNIQUE\<close>, but not alone: a column that is only \<open>NOT NULL\<close> is a
  syntax error. A length that does not fit wraps around.
\<close>

lemma not_null_rejected:
  "read_statement (lex_tokens ''CREATE TABLE t(a INTEGER NOT NULL)'') = None"
  "read_statement (lex_tokens ''CREATE TABLE t(a INTEGER NOT NULL UNIQUE)'') \<noteq> None"
proof -
  have "lex_tokens ''CREATE TABLE t(a INTEGER NOT NULL)'' =
      [CREATE, TABLE, NAME ''t'', LEFT_DASH, NAME ''a'', INTEGER, IGNORE, IGNORE, RIGHT_DASH]"
    "lex_tokens ''CREATE TABLE t(a INTEGER NOT NULL UNIQUE)'' =
      [CREATE, TABLE, NAME ''t'', LEFT_DASH, NAME ''a'', INTEGER, IGNORE, IGNORE, UNIQUE, RIGHT_DASH]"
    using lex_tokens_lex_name [of "''t''" "CHR ''(''"] lex_tokens_lex_name [of "''a''" "CHR '' ''"]
    by (simp_all add: lex_name_def is_name_char_def is_digit_def)
  then show "read_statement (lex_tokens ''CREATE TABLE t(a INTEGER NOT NULL)'') = None"
    "read_statement (lex_tokens ''CREATE TABLE t(a INTEGER NOT NULL UNIQUE)'') \<noteq> None"
    by (simp_all add: read_statement_def read_columns.simps read_column_def read_constraint_def skip_ignores_def)
qed

lemma length_wraps: "atoi ''4294967295'' = - 1"
  by (simp add: atoi_def digits_value_def sint_sbintrunc')

end
