(* ===== verification/Sorm_Processes.thy ===== *)
theory Sorm_Processes
  imports Sorm_Sem
begin

text \<open>
  Several processes that bracket their sections with \<open>_lock\<close> and \<open>_unlock\<close> on one semaphore: each runs the trees
  of \<open>sem_p\<close> and \<open>sem_v\<close> call by call, in any interleaving. \<open>_lock\<close> does not look at what \<open>sem_p\<close> returns, so a process
  whose \<open>sem_p\<close> failed is in its section like the others.
\<close>

section \<open>Processes and the system\<close>

datatype proc = Idle | Locking sem_code | In_section | Unlocking sem_code

text \<open>
  The flag \<open>SEM_UNDO\<close> makes the system keep the adjustment \<open>adj\<close> of each process, which it adds to the semaphore when the
  process ends, between \<open>0\<close> and \<open>SEMVMX\<close>; \<open>SETVAL\<close> clears the adjustments of all processes. \<open>failed\<close> counts the calls that
  were answered with \<open>-1\<close>.
\<close>

record sem_sys =
  procs :: "nat \<Rightarrow> proc"
  sysv :: sem_state
  adj :: "nat \<Rightarrow> int"
  failed :: nat

definition adj_after :: "sem_call \<Rightarrow> nat \<Rightarrow> (nat \<Rightarrow> int) \<Rightarrow> nat \<Rightarrow> int" where
  "adj_after c i a =
     (case c of
        Semget key creat \<Rightarrow> a
      | Semctl_setval sem_id v \<Rightarrow> (\<lambda>_. 0)
      | Semop sem_id op \<Rightarrow> a(i := a i - op))"

definition answered :: "nat \<Rightarrow> sem_call \<Rightarrow> int option \<Rightarrow> sem_state \<Rightarrow> sem_sys \<Rightarrow> sem_sys" where
  "answered i c r m s = s\<lparr>sysv := m, adj := (if r = None then adj s else adj_after c i (adj s)),
     failed := failed s + (if r = None then 1 else 0)\<rparr>"

text \<open>A call is served, or waits as long as it cannot be, or is refused with \<open>-1\<close> for whatever reason the system has.\<close>

inductive sys_call :: "nat \<Rightarrow> sem_call \<Rightarrow> sem_sys \<Rightarrow> int option \<Rightarrow> sem_sys \<Rightarrow> bool" where
  served: "do_call c (sysv s) = Some (r, m) \<Longrightarrow> sys_call i c s r (answered i c r m s)"
| refused: "sys_call i c s None (answered i c None (sysv s) s)"

definition undo :: "int \<Rightarrow> int \<Rightarrow> sem_state \<Rightarrow> sem_state" where
  "undo key a m = m\<lparr>sem_val := (sem_val m)(key := map_option (\<lambda>v. max 0 (min SEMVMX (v + a))) (sem_val m key))\<rparr>"

text \<open>The steps of \<open>n\<close> processes. A process that ends is followed by a new one.\<close>

inductive sem_step :: "int \<Rightarrow> nat \<Rightarrow> sem_sys \<Rightarrow> sem_sys \<Rightarrow> bool" for key n where
  lock: "i < n \<Longrightarrow> procs s i = Idle \<Longrightarrow> sem_step key n s (s\<lparr>procs := (procs s)(i := Locking (sem_p_code key))\<rparr>)"
| lock_call: "i < n \<Longrightarrow> procs s i = Locking (Call c k) \<Longrightarrow> sys_call i c s r t \<Longrightarrow>
     sem_step key n s (t\<lparr>procs := (procs s)(i := Locking (k r))\<rparr>)"
| enter: "i < n \<Longrightarrow> procs s i = Locking (Done ret) \<Longrightarrow> sem_step key n s (s\<lparr>procs := (procs s)(i := In_section)\<rparr>)"
| leave: "i < n \<Longrightarrow> procs s i = In_section \<Longrightarrow>
     sem_step key n s (s\<lparr>procs := (procs s)(i := Unlocking (sem_v_code key))\<rparr>)"
| unlock_call: "i < n \<Longrightarrow> procs s i = Unlocking (Call c k) \<Longrightarrow> sys_call i c s r t \<Longrightarrow>
     sem_step key n s (t\<lparr>procs := (procs s)(i := Unlocking (k r))\<rparr>)"
| unlocked: "i < n \<Longrightarrow> procs s i = Unlocking (Done ret) \<Longrightarrow> sem_step key n s (s\<lparr>procs := (procs s)(i := Idle)\<rparr>)"
| die: "i < n \<Longrightarrow> sem_step key n s
     (s\<lparr>procs := (procs s)(i := Idle), sysv := undo key (adj s i) (sysv s), adj := (adj s)(i := 0)\<rparr>)"

inductive sem_reach :: "int \<Rightarrow> nat \<Rightarrow> sem_sys \<Rightarrow> sem_sys \<Rightarrow> bool" for key n where
  start: "sem_reach key n s s"
| step: "sem_reach key n s t \<Longrightarrow> sem_step key n t u \<Longrightarrow> sem_reach key n s u"

text \<open>The start: no process has made a call yet.\<close>

definition sem_start :: "sem_state \<Rightarrow> sem_sys" where
  "sem_start m = \<lparr>procs = (\<lambda>_. Idle), sysv = m, adj = (\<lambda>_. 0), failed = 0\<rparr>"

section \<open>One call\<close>

text \<open>Where in its tree a process can be, when the set exists.\<close>

definition setval_code :: "int \<Rightarrow> int option \<Rightarrow> sem_code" where
  "setval_code op sem_id = Call (Semctl_setval sem_id 1) (\<lambda>r. if r = None then Done SEM_INIT_FAIL else semop_code op sem_id)"

definition create_code :: "int \<Rightarrow> int \<Rightarrow> sem_code" where
  "create_code key op = Call (Semget key True) (setval_code op)"

lemma sem_find_semop:
  "sem_find_code key (semop_code op) =
     Call (Semget key False) (\<lambda>sem_id. if sem_id = None then create_code key op else semop_code op sem_id)"
  by (simp add: sem_find_code_def create_code_def setval_code_def fun_eq_iff)

definition code_ok :: "int \<Rightarrow> int \<Rightarrow> sem_code \<Rightarrow> bool" where
  "code_ok key op c \<longleftrightarrow> c \<in> {sem_find_code key (semop_code op), create_code key op, setval_code op None, setval_code op (Some key),
     semop_code op (Some key)} \<or> (\<exists>ret. c = Done ret)"

primrec is_done :: "sem_code \<Rightarrow> bool" where
  "is_done (Done ret) = True"
| "is_done (Call c k) = False"

text \<open>A process that is about to set the value again, although the set is there.\<close>

fun credit :: "sem_code \<Rightarrow> int" where
  "credit (Call (Semget key creat) k) = (if creat then 1 else 0)"
| "credit (Call (Semctl_setval sem_id v) k) = 1"
| "credit _ = 0"

lemma credit_cases: "credit c = 0 \<or> credit c = 1"
  by (cases c rule: credit.cases) auto

text \<open>What a call of a process can do.\<close>

lemma call_outcome:
  assumes "code_ok key op (Call c k)" and "sys_call i c s r t" and "sem_val (sysv s) key = Some v"
  obtains (moved) "sem_val (sysv t) key = Some v" and "adj t = adj s" and "\<not> is_done (k r)"
      and "credit (k r) + int (failed s) \<le> credit (Call c k) + int (failed t)" and "failed t = failed s \<Longrightarrow> credit (k r) \<le> credit (Call c k)"
      and "failed s \<le> failed t"
    | (set_again) "sem_val (sysv t) key = Some 1" and "adj t = (\<lambda>_. 0)" and "\<not> is_done (k r)"
      and "credit (k r) = 0" and "credit (Call c k) = 1" and "failed t = failed s"
    | (gave_up) "sem_val (sysv t) key = Some v" and "adj t = adj s" and "is_done (k r)" and "failed t = Suc (failed s)"
    | (operated) "sem_val (sysv t) key = Some (v + op)" and "adj t = (adj s)(i := adj s i - op)" and "is_done (k r)"
      and "0 \<le> v + op" and "v + op \<le> SEMVMX" and "credit (Call c k) = 0" and "failed t = failed s"
proof -
  from assms(1) consider (find) "Call c k = sem_find_code key (semop_code op)" | (create) "Call c k = create_code key op"
    | (setval_none) "Call c k = setval_code op None" | (setval) "Call c k = setval_code op (Some key)"
    | (operate) "Call c k = semop_code op (Some key)" by (auto simp: code_ok_def)
  then show thesis
  proof cases
    case find
    then have ck: "c = Semget key False" "k = (\<lambda>sem_id. if sem_id = None then create_code key op else semop_code op sem_id)"
      by (simp_all add: sem_find_semop)
    from assms(2) show thesis unfolding ck
      by cases (use assms(3) in \<open>auto intro!: moved simp: ck semget_def answered_def adj_after_def create_code_def semop_code_def\<close>)
  next
    case create
    then have ck: "c = Semget key True" "k = setval_code op" by (simp_all add: create_code_def)
    from assms(2) show thesis unfolding ck
      by cases (use assms(3) in \<open>auto intro!: moved simp: ck semget_def answered_def adj_after_def setval_code_def\<close>)
  next
    case setval_none
    then have ck: "c = Semctl_setval None 1" "k = (\<lambda>r. if r = None then Done SEM_INIT_FAIL else semop_code op None)"
      by (simp_all add: setval_code_def)
    from assms(2) show thesis unfolding ck
      by cases (use assms(3) in \<open>auto intro!: gave_up simp: ck semctl_setval_def ok_answer_def answered_def\<close>)
  next
    case setval
    then have ck: "c = Semctl_setval (Some key) 1" "k = (\<lambda>r. if r = None then Done SEM_INIT_FAIL else semop_code op (Some key))"
      by (simp_all add: setval_code_def)
    from assms(2) show thesis
    proof (cases rule: sys_call.cases)
      case served
      then show thesis using assms(3)
        by (intro set_again) (auto simp: ck semctl_setval_def ok_answer_def answered_def adj_after_def semop_code_def)
    qed (use assms(3) in \<open>auto intro!: gave_up simp: ck answered_def\<close>)
  next
    case operate
    then have ck: "c = Semop (Some key) op" "k = (\<lambda>r. if r = None then Done SEM_OP_FAIL else Done SEM_OK)"
      by (simp_all add: semop_code_def)
    from assms(2) show thesis
    proof (cases rule: sys_call.cases)
      case served
      show thesis
      proof (cases "v + op > SEMVMX")
        case True
        with served assms(3) show thesis by (intro gave_up) (auto simp: ck semop_def ok_answer_def answered_def split: if_splits)
      next
        case False
        with served assms(3) show thesis
          by (intro operated) (auto simp: ck semop_def ok_answer_def answered_def adj_after_def split: if_splits)
      qed
    qed (use assms(3) in \<open>auto intro!: gave_up simp: ck answered_def\<close>)
  qed
qed

lemma code_ok_next:
  assumes "code_ok key op (Call c k)" and "sys_call i c s r t" and "sem_val (sysv s) key = Some v"
  shows "code_ok key op (k r)"
proof -
  from assms(1) consider (find) "Call c k = sem_find_code key (semop_code op)" | (create) "Call c k = create_code key op"
    | (setval) sem_id where "Call c k = setval_code op sem_id" "sem_id = None \<or> sem_id = Some key"
    | (operate) "Call c k = semop_code op (Some key)" by (auto simp: code_ok_def)
  then show ?thesis
  proof cases
    case find
    then have ck: "c = Semget key False" "k = (\<lambda>sem_id. if sem_id = None then create_code key op else semop_code op sem_id)"
      by (simp_all add: sem_find_semop)
    with assms(2,3) have "r = None \<or> r = Some key" by (auto elim!: sys_call.cases simp: semget_def)
    then show ?thesis by (auto simp: ck code_ok_def)
  next
    case create
    then have ck: "c = Semget key True" "k = setval_code op" by (simp_all add: create_code_def)
    with assms(2,3) have "r = None \<or> r = Some key" by (auto elim!: sys_call.cases simp: semget_def)
    then show ?thesis by (auto simp: ck code_ok_def)
  next
    case (setval sem_id)
    then have ck: "c = Semctl_setval sem_id 1" "k = (\<lambda>r. if r = None then Done SEM_INIT_FAIL else semop_code op sem_id)"
      by (simp_all add: setval_code_def)
    have "sem_id = None \<Longrightarrow> r = None"
      using assms(2) by (auto elim!: sys_call.cases simp: ck semctl_setval_def ok_answer_def)
    with setval(2) show ?thesis by (auto simp: ck code_ok_def)
  next
    case operate
    then show ?thesis by (auto simp: semop_code_def code_ok_def)
  qed
qed

section \<open>The invariants\<close>

text \<open>A process that is past its \<open>sem_p\<close> and has not returned from its \<open>sem_v\<close>.\<close>

fun holder :: "proc \<Rightarrow> int" where
  "holder Idle = 0"
| "holder (Locking c) = (if is_done c then 1 else 0)"
| "holder In_section = 1"
| "holder (Unlocking c) = (if is_done c then 0 else 1)"

fun proc_credit :: "proc \<Rightarrow> int" where
  "proc_credit (Locking c) = credit c"
| "proc_credit (Unlocking c) = credit c"
| "proc_credit _ = 0"

fun proc_ok :: "int \<Rightarrow> proc \<Rightarrow> bool" where
  "proc_ok key (Locking c) = code_ok key (-1) c"
| "proc_ok key (Unlocking c) = code_ok key 1 c"
| "proc_ok key _ = True"

text \<open>What a process can still give back to the semaphore, or add to it.\<close>

definition weight :: "proc \<Rightarrow> int \<Rightarrow> int" where
  "weight p a = max (holder p) a + proc_credit p"

lemma holder_cases: "holder p = 0 \<or> holder p = 1"
  by (cases p) auto

lemma proc_credit_cases: "proc_credit p = 0 \<or> proc_credit p = 1"
  by (cases p) (use credit_cases in auto)

lemma credit_done [simp]: "is_done c \<Longrightarrow> credit c = 0"
  by (cases c) auto

text \<open>With \<open>failed\<close> refused calls the semaphore and the processes hold at most one unit more for each.\<close>

definition bounded :: "int \<Rightarrow> nat \<Rightarrow> sem_sys \<Rightarrow> bool" where
  "bounded key n s \<longleftrightarrow> (\<exists>v. sem_val (sysv s) key = Some v \<and> 0 \<le> v \<and>
     v + (\<Sum>i<n. weight (procs s i) (adj s i)) \<le> 1 + int (failed s)) \<and> (\<forall>i<n. proc_ok key (procs s i))"

text \<open>When no call has failed they hold exactly one unit, and the adjustment of a process is what it holds.\<close>

definition exact :: "int \<Rightarrow> nat \<Rightarrow> sem_sys \<Rightarrow> bool" where
  "exact key n s \<longleftrightarrow> (\<exists>v. sem_val (sysv s) key = Some v \<and> 0 \<le> v \<and> v + (\<Sum>i<n. holder (procs s i)) = 1) \<and>
     (\<forall>i<n. adj s i = holder (procs s i) \<and> proc_credit (procs s i) = 0)"

lemma sum_move:
  fixes f g :: "nat \<Rightarrow> int"
  assumes "i < n" and "\<And>j. j \<noteq> i \<Longrightarrow> g j = f j"
  shows "(\<Sum>j<n. g j) = (\<Sum>j<n. f j) - f i + g i"
proof -
  have "(\<Sum>j<n. g j) = g i + (\<Sum>j\<in>{..<n} - {i}. g j)" and "(\<Sum>j<n. f j) = f i + (\<Sum>j\<in>{..<n} - {i}. f j)"
    using assms(1) by (simp_all add: sum.remove)
  moreover have "(\<Sum>j\<in>{..<n} - {i}. g j) = (\<Sum>j\<in>{..<n} - {i}. f j)"
    using assms(2) by (intro sum.cong) auto
  ultimately show ?thesis by simp
qed

text \<open>A step of process \<open>i\<close> that leaves the others alone keeps the bound when its own account does.\<close>

lemma bounded_move:
  assumes b: "bounded key n s" and v: "sem_val (sysv s) key = Some v" and i: "i < n"
    and procs: "procs t = (procs s)(i := p)" and adj: "\<And>j. j \<noteq> i \<Longrightarrow> adj t j = adj s j"
    and v': "sem_val (sysv t) key = Some v'" "0 \<le> v'" and p: "proc_ok key p"
    and account: "v' + weight p (adj t i) + int (failed s) \<le> v + weight (procs s i) (adj s i) + int (failed t)"
  shows "bounded key n t"
proof -
  have "(\<Sum>j<n. weight (procs t j) (adj t j)) = (\<Sum>j<n. weight (procs s j) (adj s j)) - weight (procs s i) (adj s i) + weight p (adj t i)"
    using sum_move [of i n "\<lambda>j. weight (procs t j) (adj t j)" "\<lambda>j. weight (procs s j) (adj s j)"] i by (simp add: procs adj)
  with b v v' p account show ?thesis by (simp add: bounded_def procs)
qed

text \<open>So does setting the value again, which clears every adjustment.\<close>

lemma bounded_set_again:
  assumes b: "bounded key n s" and i: "i < n" and procs: "procs t = (procs s)(i := p)" and adj: "adj t = (\<lambda>_. 0)"
    and v': "sem_val (sysv t) key = Some 1" and p: "proc_ok key p"
    and account: "1 + weight p 0 \<le> weight (procs s i) (adj s i)" and failed: "failed t = failed s"
  shows "bounded key n t"
proof -
  have low: "weight q 0 \<le> weight q a" for q a using holder_cases [of q] by (auto simp: weight_def)
  have "(\<Sum>j<n. weight (procs t j) (adj t j)) = (\<Sum>j<n. if j = i then weight p 0 else weight (procs s j) 0)"
    by (intro sum.cong) (auto simp: procs adj)
  also have "\<dots> + 1 \<le> (\<Sum>j<n. weight (procs s j) (adj s j))"
  proof -
    have "(\<Sum>j<n. if j = i then weight p 0 + 1 else weight (procs s j) 0) \<le> (\<Sum>j<n. weight (procs s j) (adj s j))"
      using account low by (intro sum_mono) auto
    moreover have "(\<Sum>j<n. if j = i then weight p 0 + 1 else weight (procs s j) 0) =
        (\<Sum>j<n. if j = i then weight p 0 else weight (procs s j) 0) + 1"
      using sum_move [of i n "\<lambda>j. if j = i then weight p 0 + 1 else weight (procs s j) 0" "\<lambda>j. if j = i then weight p 0 else weight (procs s j) 0"] i
      by simp
    ultimately show ?thesis by simp
  qed
  finally have "(\<Sum>j<n. weight (procs t j) (adj t j)) + 1 \<le> (\<Sum>j<n. weight (procs s j) (adj s j))" .
  moreover obtain v where "0 \<le> v" "v + (\<Sum>i<n. weight (procs s i) (adj s i)) \<le> 1 + int (failed s)"
    using b by (auto simp: bounded_def)
  ultimately show ?thesis using b v' p failed by (simp add: bounded_def procs)
qed

lemma sem_code_ok: "code_ok key (-1) (sem_p_code key)" "code_ok key 1 (sem_v_code key)"
  by (simp_all add: code_ok_def sem_p_code_def sem_v_code_def)

lemma sem_code_credit [simp]: "credit (sem_p_code key) = 0" "credit (sem_v_code key) = 0"
  "\<not> is_done (sem_p_code key)" "\<not> is_done (sem_v_code key)"
  by (simp_all add: sem_codes)

lemma bounded_call:
  fixes op :: int
  assumes b: "bounded key n s" and i: "i < n" and p: "procs s i = H (Call c k)" and call: "sys_call i c s r t"
    and H: "H = Locking \<and> op = -1 \<or> H = Unlocking \<and> op = 1"
  shows "bounded key n (t\<lparr>procs := (procs s)(i := H (k r))\<rparr>)"
proof -
  from b obtain v where v: "sem_val (sysv s) key = Some v" "0 \<le> v" by (auto simp: bounded_def)
  have "proc_ok key (procs s i)" using b i by (simp add: bounded_def)
  then have ok: "code_ok key op (Call c k)" using H by (auto simp: p)
  from code_ok_next [OF ok call v(1)] have ok': "proc_ok key (H (k r))" using H by auto
  have weights: "weight (H d) a = max (if is_done d \<longleftrightarrow> op = -1 then 1 else 0) a + credit d" for d a
    using H by (auto simp: weight_def)
  from ok call v(1) show ?thesis
  proof (cases rule: call_outcome)
    case moved
    then show ?thesis
      by (intro bounded_move [OF b v(1) i _ _ _ v(2) ok']) (auto simp: p weights)
  next
    case set_again
    then show ?thesis
      by (intro bounded_set_again [OF b i _ _ _ ok']) (auto simp: p weights)
  next
    case gave_up
    have "0 \<le> credit (Call c k)" using credit_cases [of "Call c k"] by auto
    then show ?thesis using gave_up H
      by (intro bounded_move [OF b v(1) i _ _ _ v(2) ok']) (auto simp: p weights)
  next
    case operated
    then show ?thesis using H
      by (intro bounded_move [OF b v(1) i _ _ _ _ ok', where v' = "v + op"]) (auto simp: p weights)
  qed
qed

lemma bounded_step:
  assumes "sem_step key n s t" and b: "bounded key n s"
  shows "bounded key n t"
proof -
  from b obtain v where v: "sem_val (sysv s) key = Some v" "0 \<le> v" by (auto simp: bounded_def)
  note move = bounded_move [OF b v(1) _ _ _ _ v(2)]
  from assms(1) show ?thesis
  proof (cases rule: sem_step.cases)
    case (lock i)
    then show ?thesis using v by (auto intro!: move simp: weight_def sem_code_ok)
  next
    case (lock_call i c k r u)
    then show ?thesis using bounded_call [OF b, of i Locking c k r u "-1"] by simp
  next
    case (enter i ret)
    then show ?thesis using v by (auto intro!: move simp: weight_def)
  next
    case (leave i)
    then show ?thesis using v by (auto intro!: move simp: weight_def sem_code_ok)
  next
    case (unlock_call i c k r u)
    then show ?thesis using bounded_call [OF b, of i Unlocking c k r u 1] by simp
  next
    case (unlocked i ret)
    then show ?thesis using v by (auto intro!: move simp: weight_def)
  next
    case (die i)
    have "0 \<le> holder (procs s i)" "0 \<le> proc_credit (procs s i)"
      using holder_cases [of "procs s i"] proc_credit_cases [of "procs s i"] by auto
    then show ?thesis using die v
      by (intro bounded_move [OF b v(1), where v' = "max 0 (min SEMVMX (v + adj s i))"]) (auto simp: weight_def undo_def)
  qed
qed

lemma bounded_start: "sem_val m key = Some 1 \<Longrightarrow> bounded key n (sem_start m)"
  by (simp add: bounded_def sem_start_def weight_def)

lemma bounded_reach: "sem_reach key n s t \<Longrightarrow> bounded key n s \<Longrightarrow> bounded key n t"
  by (induction rule: sem_reach.induct) (auto dest: bounded_step)

text \<open>The exact account, along steps in which no call fails.\<close>

lemma failed_step: "sem_step key n s t \<Longrightarrow> failed s \<le> failed t"
  by (auto elim!: sem_step.cases sys_call.cases simp: answered_def)

lemma exact_move:
  assumes e: "exact key n s" and v: "sem_val (sysv s) key = Some v" and i: "i < n"
    and procs: "procs t = (procs s)(i := p)" and adj: "\<And>j. j \<noteq> i \<Longrightarrow> adj t j = adj s j"
    and v': "sem_val (sysv t) key = Some v'" "0 \<le> v'" and p: "proc_credit p = 0" "adj t i = holder p"
    and account: "v' + holder p = v + holder (procs s i)"
  shows "exact key n t"
proof -
  have "(\<Sum>j<n. holder (procs t j)) = (\<Sum>j<n. holder (procs s j)) - holder (procs s i) + holder p"
    using sum_move [of i n "\<lambda>j. holder (procs t j)" "\<lambda>j. holder (procs s j)"] i by (simp add: procs)
  with e v v' account have "\<exists>v. sem_val (sysv t) key = Some v \<and> 0 \<le> v \<and> v + (\<Sum>i<n. holder (procs t i)) = 1"
    by (auto simp: exact_def)
  moreover have "\<forall>j<n. adj t j = holder (procs t j) \<and> proc_credit (procs t j) = 0"
    using e p adj by (auto simp: exact_def procs)
  ultimately show ?thesis by (simp add: exact_def)
qed

lemma exact_call:
  fixes op :: int
  assumes b: "bounded key n s" and e: "exact key n s" and i: "i < n" and p: "procs s i = H (Call c k)"
    and call: "sys_call i c s r t" and H: "H = Locking \<and> op = -1 \<or> H = Unlocking \<and> op = 1" and failed: "failed t = failed s"
  shows "exact key n (t\<lparr>procs := (procs s)(i := H (k r))\<rparr>)"
proof -
  from e obtain v where v: "sem_val (sysv s) key = Some v" "0 \<le> v" by (auto simp: exact_def)
  have "proc_ok key (procs s i)" using b i by (simp add: bounded_def)
  then have ok: "code_ok key op (Call c k)" using H by (auto simp: p)
  have own: "adj s i = holder (H (Call c k))" "proc_credit (H (Call c k)) = 0" using e i by (auto simp: exact_def p)
  have holders: "holder (H d) = (if is_done d \<longleftrightarrow> op = -1 then 1 else 0)" "proc_credit (H d) = credit d" for d using H by auto
  from ok call v(1) show ?thesis
  proof (cases rule: call_outcome)
    case moved
    have "credit (k r) = 0" using moved(5) [OF failed] own(2) credit_cases [of "k r"] by (auto simp: holders)
    with moved show ?thesis using own
      by (intro exact_move [OF e v(1) i _ _ _ v(2)]) (auto simp: p holders)
  next
    case set_again
    then show ?thesis using own by (simp add: holders)
  next
    case gave_up
    then show ?thesis using failed by simp
  next
    case operated
    then show ?thesis using H own
      by (intro exact_move [OF e v(1) i, where v' = "v + op"]) (auto simp: p holders)
  qed
qed

lemma exact_step:
  assumes "sem_step key n s t" and b: "bounded key n s" and e: "exact key n s" and failed: "failed t = failed s"
  shows "exact key n t"
proof -
  from e obtain v where v: "sem_val (sysv s) key = Some v" "0 \<le> v" by (auto simp: exact_def)
  have own: "adj s i = holder (procs s i)" "proc_credit (procs s i) = 0" if "i < n" for i using e that by (auto simp: exact_def)
  note move = exact_move [OF e v(1) _ _ _ _ v(2)]
  from assms(1) show ?thesis
  proof (cases rule: sem_step.cases)
    case (lock i)
    then show ?thesis using v own(1) [of i] by (auto intro!: move)
  next
    case (lock_call i c k r u)
    then show ?thesis using exact_call [OF b e, of i Locking c k r u "-1"] failed by simp
  next
    case (enter i ret)
    then show ?thesis using v own(1) [of i] by (auto intro!: move)
  next
    case (leave i)
    then show ?thesis using v own(1) [of i] by (auto intro!: move)
  next
    case (unlock_call i c k r u)
    then show ?thesis using exact_call [OF b e, of i Unlocking c k r u 1] failed by simp
  next
    case (unlocked i ret)
    then show ?thesis using v own(1) [of i] by (auto intro!: move)
  next
    case (die i)
    have "0 \<le> (\<Sum>j\<in>{..<n} - {i}. holder (procs s j))"
      using holder_cases by (intro sum_nonneg) (metis order.refl zero_le_one)
    moreover have "v + (\<Sum>j<n. holder (procs s j)) = 1" using e v by (auto simp: exact_def)
    ultimately have "v + holder (procs s i) \<le> 1" using die(2) by (simp add: sum.remove)
    moreover have "0 \<le> holder (procs s i)" using holder_cases [of "procs s i"] by auto
    ultimately show ?thesis using die v own(1) [of i]
      by (intro exact_move [OF e v(1), where v' = "v + holder (procs s i)"]) (auto simp: undo_def SEMVMX_def)
  qed
qed

lemma exact_start: "sem_val m key = Some 1 \<Longrightarrow> exact key n (sem_start m)"
  by (simp add: exact_def sem_start_def)

lemma exact_reach:
  "sem_reach key n s t \<Longrightarrow> bounded key n s \<Longrightarrow> exact key n s \<Longrightarrow> failed t = failed s \<Longrightarrow> exact key n t"
proof (induction rule: sem_reach.induct)
  case (step s t u)
  have "failed s \<le> failed t" using step.hyps(1) by (induction rule: sem_reach.induct) (auto dest: failed_step)
  then have "failed t = failed s" using failed_step [OF step.hyps(2)] step.prems(3) by simp
  then show ?case using step bounded_reach [OF step.hyps(1)] exact_step by metis
qed

section \<open>Schedules\<close>

text \<open>
  A step picked by hand, computed: a process makes its next call (\<open>Serve\<close>), has it refused (\<open>Refuse\<close>), goes on where it
  makes none (\<open>Go\<close>), or ends (\<open>Die\<close>). \<open>None\<close> when it cannot.
\<close>

datatype pick = Serve nat | Refuse nat | Go nat | Die nat

fun make_call :: "nat \<Rightarrow> bool \<Rightarrow> sem_code \<Rightarrow> sem_sys \<Rightarrow> (sem_code \<times> sem_sys) option" where
  "make_call i ok (Done ret) s = None"
| "make_call i ok (Call c k) s =
     (if ok then map_option (\<lambda>(r, m). (k r, answered i c r m s)) (do_call c (sysv s))
      else Some (k None, answered i c None (sysv s) s))"

definition call_pick :: "nat \<Rightarrow> bool \<Rightarrow> sem_sys \<Rightarrow> sem_sys option" where
  "call_pick i ok s =
     (case procs s i of
        Locking c \<Rightarrow> map_option (\<lambda>(d, t). t\<lparr>procs := (procs s)(i := Locking d)\<rparr>) (make_call i ok c s)
      | Unlocking c \<Rightarrow> map_option (\<lambda>(d, t). t\<lparr>procs := (procs s)(i := Unlocking d)\<rparr>) (make_call i ok c s)
      | _ \<Rightarrow> None)"

definition go_pick :: "int \<Rightarrow> proc \<Rightarrow> proc option" where
  "go_pick key p =
     (case p of
        Idle \<Rightarrow> Some (Locking (sem_p_code key))
      | Locking c \<Rightarrow> if is_done c then Some In_section else None
      | In_section \<Rightarrow> Some (Unlocking (sem_v_code key))
      | Unlocking c \<Rightarrow> if is_done c then Some Idle else None)"

fun do_pick :: "int \<Rightarrow> pick \<Rightarrow> sem_sys \<Rightarrow> sem_sys option" where
  "do_pick key (Serve i) s = call_pick i True s"
| "do_pick key (Refuse i) s = call_pick i False s"
| "do_pick key (Go i) s = map_option (\<lambda>p. s\<lparr>procs := (procs s)(i := p)\<rparr>) (go_pick key (procs s i))"
| "do_pick key (Die i) s =
     Some (s\<lparr>procs := (procs s)(i := Idle), sysv := undo key (adj s i) (sysv s), adj := (adj s)(i := 0)\<rparr>)"

primrec do_picks :: "int \<Rightarrow> pick list \<Rightarrow> sem_sys \<Rightarrow> sem_sys option" where
  "do_picks key [] s = Some s"
| "do_picks key (p # ps) s = do { s \<leftarrow> do_pick key p s; do_picks key ps s }"

primrec picked :: "pick \<Rightarrow> nat" where
  "picked (Serve i) = i"
| "picked (Refuse i) = i"
| "picked (Go i) = i"
| "picked (Die i) = i"

lemma make_call_step: "make_call i ok c s = Some (d, t) \<Longrightarrow> \<exists>c' k r. c = Call c' k \<and> d = k r \<and> sys_call i c' s r t"
  by (cases c) (auto split: if_splits intro: sys_call.intros)

lemma is_done_iff: "is_done c \<longleftrightarrow> (\<exists>ret. c = Done ret)"
  by (cases c) auto

lemma do_pick_step: "do_pick key p s = Some t \<Longrightarrow> picked p < n \<Longrightarrow> sem_step key n s t"
  by (cases p)
    (auto simp: call_pick_def go_pick_def is_done_iff split: proc.splits if_splits dest!: make_call_step intro: sem_step.intros)

lemma sem_reach_trans: "sem_reach key n s t \<Longrightarrow> sem_step key n r s \<Longrightarrow> sem_reach key n r t"
  by (induction rule: sem_reach.induct) (auto intro: sem_reach.intros)

lemma do_picks_reach: "do_picks key ps s = Some t \<Longrightarrow> list_all (\<lambda>p. picked p < n) ps \<Longrightarrow> sem_reach key n s t"
proof (induction ps arbitrary: s)
  case (Cons p ps)
  then obtain u where "do_pick key p s = Some u" "do_picks key ps u = Some t" by (auto split: Option.bind_splits)
  with Cons show ?case using do_pick_step sem_reach_trans by fastforce
qed (auto intro: sem_reach.start)

text \<open>A process that nothing interrupts runs \<open>_lock\<close> as \<open>sem_p\<close> does, whatever it returns.\<close>

lemma code_runs:
  "run_code c (sysv s) = Some (ret, m) \<Longrightarrow> procs s i = Locking c \<Longrightarrow> i < n \<Longrightarrow>
     \<exists>t. sem_reach key n s t \<and> procs t = (procs s)(i := Locking (Done ret)) \<and> sysv t = m"
proof (induction c arbitrary: s)
  case (Done ret')
  then have "procs s = (procs s)(i := Locking (Done ret))" by auto
  with Done show ?case by (metis option.inject prod.inject run_code.simps(1) sem_reach.start)
next
  case (Call c k)
  from Call.prems(1) obtain r m' where call: "do_call c (sysv s) = Some (r, m')" and rest: "run_code (k r) m' = Some (ret, m)"
    by (auto split: Option.bind_splits)
  let ?u = "(answered i c r m' s)\<lparr>procs := (procs s)(i := Locking (k r))\<rparr>"
  have step: "sem_step key n s ?u"
    using Call.prems(2,3) by (intro sem_step.lock_call [OF _ _ sys_call.served [OF call]])
  have "\<exists>t. sem_reach key n ?u t \<and> procs t = (procs ?u)(i := Locking (Done ret)) \<and> sysv t = m"
    using rest Call.prems(3) by (intro Call.IH) (auto simp: answered_def)
  with step show ?case using sem_reach_trans by fastforce
qed

lemma lock_runs:
  assumes "sem_p key (sysv s) = Some (ret, m)" and "procs s i = Idle" and "i < n"
  shows "\<exists>t. sem_reach key n s t \<and> procs t = (procs s)(i := In_section) \<and> sysv t = m"
proof -
  let ?u = "s\<lparr>procs := (procs s)(i := Locking (sem_p_code key))\<rparr>"
  obtain t where t: "sem_reach key n ?u t" "procs t = (procs ?u)(i := Locking (Done ret))" "sysv t = m"
    using code_runs [of "sem_p_code key" ?u ret m i n key] assms by (auto simp: sem_p_def)
  have "sem_step key n t (t\<lparr>procs := (procs t)(i := In_section)\<rparr>)"
    using t(2) assms(3) by (intro sem_step.enter) auto
  with t have "sem_reach key n ?u (t\<lparr>procs := (procs t)(i := In_section)\<rparr>)" by (auto intro: sem_reach.step)
  then have "sem_reach key n s (t\<lparr>procs := (procs t)(i := In_section)\<rparr>)"
    using sem_reach_trans sem_step.lock [of i n s key] assms by blast
  with t show ?thesis by fastforce
qed

section \<open>Properties\<close>

lemma bounded_sections:
  assumes "bounded key n t"
  shows "card {i. i < n \<and> procs t i = In_section} \<le> 1 + failed t"
proof -
  let ?S = "{i. i < n \<and> procs t i = In_section}"
  have "int (card ?S) = (\<Sum>i\<in>?S. 1)" by simp
  also have "\<dots> = (\<Sum>i<n. if procs t i = In_section then 1 else 0)"
    by (subst sum.inter_filter [symmetric]) (auto intro: sum.cong)
  also have "\<dots> \<le> (\<Sum>i<n. weight (procs t i) (adj t i))"
  proof (intro sum_mono)
    fix i
    have "0 \<le> weight p a" for p a using holder_cases [of p] proc_credit_cases [of p] by (auto simp: weight_def)
    then show "(if procs t i = In_section then 1 else 0) \<le> weight (procs t i) (adj t i)" by (auto simp: weight_def)
  qed
  finally show ?thesis using assms by (auto simp: bounded_def)
qed

text \<open>Who holds the unit when no call has failed: the semaphore is at 0, and no other process holds anything.\<close>

lemma exact_holder:
  assumes "exact key n t" and "i < n" and "procs t i = In_section"
  shows "sem_val (sysv t) key = Some 0" and "adj t i = 1" and "j < n \<Longrightarrow> j \<noteq> i \<Longrightarrow> holder (procs t j) = 0"
proof -
  obtain v where v: "sem_val (sysv t) key = Some v" "0 \<le> v" "v + (\<Sum>j<n. holder (procs t j)) = 1" using assms by (auto simp: exact_def)
  have rest: "v + (\<Sum>j\<in>{..<n} - {i}. holder (procs t j)) = 0" using v(3) assms(2,3) by (simp add: sum.remove)
  have nonneg: "0 \<le> holder p" for p using holder_cases [of p] by auto
  have "0 \<le> (\<Sum>j\<in>{..<n} - {i}. holder (procs t j))" by (intro sum_nonneg nonneg)
  with rest v(2) have zero: "v = 0" "(\<Sum>j\<in>{..<n} - {i}. holder (procs t j)) = 0" by auto
  then show "sem_val (sysv t) key = Some 0" using v by simp
  show "adj t i = 1" using assms by (auto simp: exact_def)
  show "holder (procs t j) = 0" if "j < n" "j \<noteq> i"
    using zero(2) that nonneg by (subst (asm) sum_nonneg_eq_0_iff) auto
qed

text \<open>While one process is in its section another waits in its \<open>semop\<close>, and gets the unit when the first leaves or ends.\<close>

lemma handed_over:
  assumes "sem_val (sysv t) key = Some 0" and "adj t i = 1" and "procs t i = In_section" and "i \<noteq> j"
    and "procs t j = Locking (semop_code (-1) (Some key))" and "ps = [Die i] \<or> ps = [Go i, Serve i, Serve i, Go i]"
  shows "do_pick key (Serve j) t = None \<and> (\<exists>u. do_picks key (ps @ [Serve j, Go j]) t = Some u \<and> procs u j = In_section \<and> procs u i = Idle)"
  using assms
  by (auto simp: call_pick_def go_pick_def undo_def SEMVMX_def semop_code_def sem_v_code_def sem_find_semop semop_def semget_def
      ok_answer_def answered_def adj_after_def)

text \<open>
  C31: Any number of processes bracket their sections with \<open>_lock\<close> and \<open>_unlock\<close> on a set that was initialised before they
  started, in any interleaving of the system calls of \<open>sem_p\<close> and \<open>sem_v\<close>, with processes ending and with any calls
  refused. There are never more than one process in the section, and one for each refused call. When no call was refused
  it is one process alone: another one that asks for the semaphore waits as long as the first is in the section, and gets
  in once it has left or has ended. A process that calls \<open>_lock\<close> and is not interrupted is in its section with whatever
  \<open>sem_p\<close> returns, and leaves the semaphore as \<open>sem_p\<close> does.
\<close>

theorem sem_mutual_exclusion:
  assumes "sem_reach key n (sem_start m) t" and "sem_val m key = Some 1"
  shows "card {i. i < n \<and> procs t i = In_section} \<le> 1 + failed t \<and>
    (failed t = 0 \<longrightarrow> (\<forall>i<n. procs t i = In_section \<longrightarrow> (\<forall>j<n. j \<noteq> i \<longrightarrow> procs t j \<noteq> In_section \<and>
       (procs t j = Locking (semop_code (-1) (Some key)) \<longrightarrow> do_pick key (Serve j) t = None \<and>
         (\<forall>ps. ps = [Die i] \<or> ps = [Go i, Serve i, Serve i, Go i] \<longrightarrow>
            (\<exists>u. do_picks key (ps @ [Serve j, Go j]) t = Some u \<and> procs u j = In_section \<and> procs u i = Idle)))))) \<and>
    (\<forall>i<n. procs t i = Idle \<longrightarrow> (\<forall>ret m'. sem_p key (sysv t) = Some (ret, m') \<longrightarrow>
       (\<exists>u. sem_reach key n t u \<and> procs u = (procs t)(i := In_section) \<and> sysv u = m')))"
proof (intro conjI)
  have b: "bounded key n t" using bounded_reach [OF assms(1)] bounded_start [OF assms(2)] by blast
  then show "card {i. i < n \<and> procs t i = In_section} \<le> 1 + failed t" by (rule bounded_sections)
  have "exact key n t" if "failed t = 0"
    using exact_reach [OF assms(1) bounded_start exact_start] assms(2) that by (simp add: sem_start_def)
  note holder = exact_holder [OF this]
  show "failed t = 0 \<longrightarrow> (\<forall>i<n. procs t i = In_section \<longrightarrow> (\<forall>j<n. j \<noteq> i \<longrightarrow> procs t j \<noteq> In_section \<and>
       (procs t j = Locking (semop_code (-1) (Some key)) \<longrightarrow> do_pick key (Serve j) t = None \<and>
         (\<forall>ps. ps = [Die i] \<or> ps = [Go i, Serve i, Serve i, Go i] \<longrightarrow>
            (\<exists>u. do_picks key (ps @ [Serve j, Go j]) t = Some u \<and> procs u j = In_section \<and> procs u i = Idle)))))"
    (is "_ \<longrightarrow> (\<forall>i<n. _ \<longrightarrow> (\<forall>j<n. _ \<longrightarrow> _ \<and> ?wait i j))")
  proof (intro impI allI)
    fix i j assume *: "failed t = 0" "i < n" "procs t i = In_section" "j < n" "j \<noteq> i"
    have "procs t j \<noteq> In_section" using holder(3) [OF *(1-5)] by auto
    moreover have "?wait i j" using handed_over [OF holder(1,2) [OF *(1-3)] *(3) *(5) [symmetric]] by auto
    ultimately show "procs t j \<noteq> In_section \<and> ?wait i j" ..
  qed
  show "\<forall>i<n. procs t i = Idle \<longrightarrow> (\<forall>ret m'. sem_p key (sysv t) = Some (ret, m') \<longrightarrow>
       (\<exists>u. sem_reach key n t u \<and> procs u = (procs t)(i := In_section) \<and> sysv u = m'))"
    using lock_runs by blast
qed

text \<open>Two processes, the first in its section and the second waiting for it.\<close>

definition demo_set :: sem_state where
  "demo_set = \<lparr>sem_val = [1639 \<mapsto> 1], sem_room = 0\<rparr>"

lemmas picks_simps = call_pick_def go_pick_def undo_def SEMVMX_def sem_codes semop_def semget_def semctl_setval_def ok_answer_def
  answered_def adj_after_def sem_start_def demo_set_def

theorem sem_mutual_exclusion_witness:
  "\<exists>t. do_picks 1639 [Go 0, Go 1, Serve 0, Serve 1, Serve 0, Go 0] (sem_start demo_set) = Some t \<and>
     procs t 0 = In_section \<and> procs t 1 = Locking (semop_code (-1) (Some 1639)) \<and> failed t = 0 \<and>
     card {i. i < 2 \<and> procs t i = In_section} \<le> 1 \<and> do_pick 1639 (Serve 1) t = None \<and>
     (\<exists>u. do_picks 1639 ([Die 0] @ [Serve 1, Go 1]) t = Some u \<and> procs u 1 = In_section \<and> procs u 0 = Idle)"
proof -
  let ?ps = "[Go 0, Go 1, Serve 0, Serve 1, Serve 0, Go 0]"
  obtain t where t: "do_picks 1639 ?ps (sem_start demo_set) = Some t" "procs t 0 = In_section"
      "procs t 1 = Locking (semop_code (-1) (Some 1639))" "failed t = 0"
    by (simp add: picks_simps)
  have r: "sem_reach 1639 2 (sem_start demo_set) t" by (rule do_picks_reach [OF t(1)]) simp
  have "sem_val demo_set 1639 = Some 1" by (simp add: demo_set_def)
  note m = sem_mutual_exclusion [OF r this]
  have "card {i. i < 2 \<and> procs t i = In_section} \<le> 1" using m t(4) by simp
  moreover have "do_pick 1639 (Serve 1) t = None \<and>
     (\<exists>u. do_picks 1639 ([Die 0] @ [Serve 1, Go 1]) t = Some u \<and> procs u 1 = In_section \<and> procs u 0 = Idle)"
    by (rule conjE [OF m [THEN conjunct2, THEN conjunct1, rule_format, of 0 1]]) (use t(2-4) in auto)
  ultimately show ?thesis using t by blast
qed

text \<open>One refused \<open>semop\<close> is enough for two processes in their sections: \<open>_lock\<close> goes on when \<open>sem_p\<close> returns \<open>SEM_OP_FAIL\<close>.\<close>

theorem refused_semop_enters:
  "\<exists>t. sem_reach 1639 2 (sem_start demo_set) t \<and> failed t = 1 \<and> procs t 0 = In_section \<and> procs t 1 = In_section"
proof -
  let ?ps = "[Go 0, Serve 0, Serve 0, Go 0, Go 1, Serve 1, Refuse 1, Go 1]"
  obtain t where t: "do_picks 1639 ?ps (sem_start demo_set) = Some t" "procs t 0 = In_section" "procs t 1 = In_section" "failed t = 1"
    by (simp add: picks_simps)
  have "sem_reach 1639 2 (sem_start demo_set) t" by (rule do_picks_reach [OF t(1)]) simp
  with t show ?thesis by auto
qed

text \<open>
  When the processes create the set themselves, mutual exclusion fails though the system serves every call: both find the
  set missing, and the second \<open>semctl(SETVAL)\<close> gives back the unit the first process has taken.
\<close>

theorem sem_create_race:
  "\<exists>ps t. list_all (\<lambda>p. \<exists>i. p = Serve i \<or> p = Go i) ps \<and>
     do_picks 1639 ps (sem_start \<lparr>sem_val = Map.empty, sem_room = 1\<rparr>) = Some t \<and>
     procs t 0 = In_section \<and> procs t 1 = In_section"
proof -
  let ?ps = "[Go 0, Go 1, Serve 0, Serve 1, Serve 0, Serve 0, Serve 0, Go 0, Serve 1, Serve 1, Serve 1, Go 1]"
  have "\<exists>t. do_picks 1639 ?ps (sem_start \<lparr>sem_val = Map.empty, sem_room = 1\<rparr>) = Some t \<and>
     procs t 0 = In_section \<and> procs t 1 = In_section"
    by (simp add: picks_simps)
  then show ?thesis by (intro exI [of _ ?ps]) auto
qed

end
