(* ===== verification/Spec2Isabelle.thy ===== *)
theory Spec2Isabelle
  imports Sorm_Print Sorm_Transaction Sorm_Iterator Sorm_Change Sorm_Times Sorm_Life Sorm_Log Sorm_Schema Sorm_Processes
begin

text \<open>
  \<^bold>\<open>A verification development for sorm, an object-relational mapping in C on SQLite.\<close>

  \<^bold>\<open>The program.\<close> An application describes its tables in \<open>CREATE TABLE\<close> statements; a generator turns each
  into a C structure, a table descriptor and thin wrapper functions. The library (\<^verbatim>\<open>src/src/sorm.c\<close>,
  \<^verbatim>\<open>sorm.h\<close>, \<^verbatim>\<open>memory.h\<close>, \<^verbatim>\<open>semaphore.c\<close>) works on these descriptors: it builds SQL texts from objects,
  hands values to SQLite and reads result rows back into objects, in lists, arrays or one by one through an
  iterator. Connections take a semaphore or a process-wide rwlock around the steps of a statement.

  \<^bold>\<open>Conventions.\<close> Names are those of the source; a leading underscore of C is written \<open>i_\<close>. A function of C
  that may fail to return (an \<open>assert\<close> that fails, \<open>exit\<close>, an access outside of an object, waiting for ever,
  a \<open>free\<close> of a foreign block) has an option as result, \<open>None\<close> for such a run; error codes are values of
  \<open>sorm_error_t\<close>. State is passed explicitly: a \<open>world\<close> holds the state of SQLite (of any type \<open>'db\<close>), the heap,
  the semaphores, the rwlocks and the list of the calls made to SQLite and to the locks. Status words, flags and
  integers of columns are words of their width; \<open>double\<close>s are their 64 bits. Character arrays are lists of
  characters with an explicit NUL and their capacity (\<open>Sorm_Prelude\<close>). SQLite is not modelled: its functions are
  the record \<open>sqlite3_api\<close>, a parameter of every definition, on which the theorems assume at most that a
  statement that was prepared has a handle (\<open>gives_handle\<close>), that the answers about one column of a row agree with
  each other (\<open>columns_consistent\<close>) and that a result ends (\<open>fetch\<close>); only those on what is stored assume what SQL does. The allocator an application passes is a parameter too, with its contract as a locale.

  \<^bold>\<open>The theories\<close>, in the order of their imports.
  \<^item> \<open>Sorm_Prelude\<close>: collections of rules, strings and character arrays of C, \<open>snprintf\<close>, indexing that fails
    out of range.
  \<^item> \<open>Sorm_Types\<close>: constants, flags, error codes and their texts, descriptors (\<^verbatim>\<open>sorm.h\<close>), number printing,
    and the array \<open>sql_stmt\<close> that every statement is printed into.
  \<^item> \<open>Sorm_Memory\<close>: the heap and \<^verbatim>\<open>memory.h\<close>; the locale \<open>alloc_contract\<close>, interpreted for the C library here and
    for an arena in \<open>Sorm_Row\<close>.
  \<^item> \<open>Sorm_Sem\<close>: \<^verbatim>\<open>semaphore.c\<close>: each function as the tree of the System V calls it makes, run in one go.
    \<open>Sorm_Processes\<close>: the same trees run call by call by several processes that bracket their sections with \<open>_lock\<close> and
    \<open>_unlock\<close>, as an inductive relation in which any call may be refused and a process may end at any moment
    (\<open>SEM_UNDO\<close>): on an existing semaphore at most one process is in its section, and one more for each refused call; a
    process that leaves or ends lets the next one in; and the race at the creation of the semaphore.
  \<^item> \<open>Sorm_Db\<close>: \<open>_lock\<close>, \<open>_unlock\<close>, \<open>_sqlite3_step\<close>, \<open>_sqlite3_prepare\<close>, \<open>_sqlite3_finalize\<close>, \<open>sorm_run_stmt\<close>; the
    retry loop ends after at most eleven calls (a \<open>termination\<close> proof, no fuel); the order of calls is
    the relation \<open>stmt_protocol\<close>.
  \<^item> \<open>Sorm_Strings\<close>: \<open>trim\<close>, \<open>_fix_string\<close> (the doubling of quotes, in two arrays and in place), filters, index
    suffixes; against references on lists, and the reading of an SQL literal as the inverse of quoting.
  \<^item> \<open>Sorm_Columns\<close>: the parser of the list of selected columns, which writes into its copy of the text, equals
    splitting, stripping and looking up the names.
  \<^item> \<open>Sorm_Object\<close>, \<open>Sorm_Row\<close>: objects as a descriptor and one cell for each column; creating, setting, binding,
    reading from a result row, freeing; well-formedness with ownership of heap columns (\<open>object_ok\<close>); a
    value that is written is read back.
  \<^item> \<open>Sorm_Life\<close>: the life of an object as an inductive relation, from \<open>sorm_new\<close> through rows read and columns set;
    at every moment it is well typed and \<open>sorm_free\<close> releases what it owns.
  \<^item> \<open>Sorm_List\<close>: \<open>sorm_list_t\<close> as linked nodes on the heap; the pointer operations refine those of a sequence.
  \<^item> \<open>Sorm_Print\<close>: \<open>sorm_to_string\<close>.
  \<^item> \<open>Sorm_Stmt\<close>: tables, indexes, insert, replace, update, delete, open and close: the exact SQL text, the values
    bound and their order, the calls made, and the branches that fail.
  \<^item> \<open>Sorm_Transaction\<close>: the nesting counter, as an \<open>int\<close> that must not overflow; sequences of transaction calls.
  \<^item> \<open>Sorm_Select\<close>: \<open>_select\<close>, its three cores and the functions that select rows, definitions only.
  \<^item> \<open>Sorm_Fetch\<close>, \<open>Sorm_Core\<close>: what a core does with any kind of container, proved once in the locale \<open>row_container\<close>;
    \<open>fetch\<close> is the reference for the rows SQLite gives. \<open>Sorm_Select_List\<close> and \<open>Sorm_Array\<close> interpret it for
    lists and arrays.
  \<^item> \<open>Sorm_Query\<close>: \<open>_select\<close> for any core that keeps the contract \<open>query_core\<close>, interpreted for the three cores; the
    text of the query against its reference \<open>select_sql\<close>. \<open>Sorm_Query_List\<close>, \<open>Sorm_Query_Array\<close>: what the callers
    of the select functions get.
  \<^item> \<open>Sorm_Iterator\<close>: opening, iterating, closing; the calls until the rows end as an inductive relation.
  \<^item> \<open>Sorm_Store\<close>: saving and selecting together: the calls of a run replayed on the database, and that an object saved is
    among those selected, on a SQLite with the documented behaviour of an insert and a query
    (\<open>keeps_inserts\<close>, \<open>gives_rows\<close>; a concrete database with both is given). \<open>Sorm_Change\<close>: the same for deleting and
    updating (\<open>keeps_deletes\<close>, \<open>keeps_updates\<close>): what is selected afterwards are the other rows, or the rows changed.
  \<^item> \<open>Sorm_Log\<close>: \<open>sorm_init\<close>, \<open>sorm_final\<close> and what of \<^verbatim>\<open>log.h\<close> keeps state.
  \<^item> \<open>Sorm_Times\<close>: the utilities (\<^verbatim>\<open>src/utils\<close>): debug masks and the stack of stop watches, against a list of start times in
    the locale \<open>watch_stack\<close>, with the error of rounding bounded.
  \<^item> \<open>Sorm_Header\<close>: \<^verbatim>\<open>header_generate.c\<close>, the header printed for a table; the structure it declares and the layout
    a compiler gives it, against the bytes the library uses for a column.
  \<^item> \<open>Sorm_Generate\<close>: \<^verbatim>\<open>c_generate.c\<close> and \<^verbatim>\<open>generate.c\<close>: the C file printed, the balance of its braces, and the files
    \<open>main\<close> writes, with the generated parser as a parameter.
  \<^item> \<open>Sorm_Grammar\<close>: the rules of \<^verbatim>\<open>parser_yacc.y\<close> with their actions as inductive relations, and a left-to-right
    parser that is proved to accept the same tokens with the same result.
  \<^item> \<open>Sorm_Schema\<close>: the rules of \<^verbatim>\<open>parser_lex.l\<close> with their actions, which hand over pointers cut to an \<open>int\<close>, the round
    trip of a table through its statement, and the generator with any parser that keeps the contract \<open>schema_parser\<close>,
    interpreted for the parser of the grammar.

  \<^bold>\<open>Bounds.\<close> Loops of the source are structural recursions or have a \<open>termination\<close> proof; the one loop that may run
  for ever, in \<open>sorm_close\<close>, is a \<open>partial_function (option)\<close>, with the case in which it returns and the one in which it
  does not proved apart. The number \<open>N\<close> in \<open>fetch api st N d\<close> bounds the steps of the reference only; any \<open>N\<close> with
  which it reaches the end of the result will do. Statements are at most 1023 characters long, as in the code, and
  the theorems state what happens to longer ones.

  \<^bold>\<open>Limits of the theorems.\<close> The functions that read rows are verified for an allocator that keeps its contract and
  does not run out of memory while rows are read (\<open>memory_lasts\<close>), with room in the C library for the few blocks
  \<open>_select\<close> takes for itself (stated as a number of bytes): the program ends in an \<open>assert\<close> without memory. Names of
  columns and tables hold no NUL, and a list of column names has no empty entry: on one the code reads before
  its array.

  The generator is verified for files it can read and write and names without NUL; its own memory and its messages are
  left out. The lexer cuts the addresses of names to \<open>int\<close>. The addresses \<open>strdup\<close> gives are a parameter, and the theorems on
  whole texts ask for addresses of 32 bits (\<open>low_strings\<close>), as on 32-bit machines and in programs of 64 bits that are linked to
  fixed low addresses; with a heap above \<open>2 ^ 32\<close> the parser finds no names, which is proved too.

  \<^bold>\<open>Not modelled.\<close> The messages of the log macros and of \<open>printf\<close> only write. The tables that lex and yacc generate are not
  part of the sources: the parser is a parameter of \<open>main\<close> that runs the actions of what the grammar derives, and what
  it has done before a syntax error is left open. \<^verbatim>\<open>memory.c\<close> holds no code; \<open>_get_number_from_columns_name\<close> is
  called from nowhere. SQLite and zlog are other programs, as is the list of
  \<^verbatim>\<open>utils/quicklist.h\<close>, taken from Linux and used nowhere; \<^verbatim>\<open>utils/list.h\<close> is in no build and uses its type before it is
  declared. The programs under \<^verbatim>\<open>src/test\<close> call the library and print what it answers.
\<close>

end
